(* ===== verification/Prelude.thy ===== *)
theory Prelude
  imports Main "HOL-Library.Word" "HOL-Library.Monad_Syntax"
begin

text \<open>
  Shared vocabulary of the development: bytes and machine sizes of the 32-bit build the repository
  was configured for (\<^verbatim>\<open>include/event2/event-config.h\<close>: \<open>sizeof(size_t) = sizeof(off_t) = 4\<close>),
  checked memory access, assertions, and the list lemmas the component theories use.

  Every operation that can run into undefined behaviour or a failing \<open>EVUTIL_ASSERT\<close> is a function
  into \<open>option\<close>: \<open>None\<close> is "the C program has no defined continuation here" (an out-of-bounds
  access, a null dereference, an assertion that aborts). Error \<^emph>\<open>returns\<close> of the C code are ordinary
  values inside \<open>Some\<close>.
\<close>

unbundle bit_operations_syntax

named_theorems mem_simps
named_theorems cfg_defs

section \<open>Machine types\<close>

type_synonym byte = "8 word"
type_synonym u32 = "32 word"
type_synonym u64 = "64 word"

text \<open>What \<open>malloc(n)\<close> answers: \<open>None\<close> for NULL, or the (uninitialised, hence arbitrary) memory.\<close>

type_synonym malloc = "nat \<Rightarrow> byte list option"

definition malloc_spec :: "malloc \<Rightarrow> bool" where
  "malloc_spec mal \<longleftrightarrow> (\<forall>n bs. mal n = Some bs \<longrightarrow> length bs = n)"

definition EV_SIZE_MAX :: nat where [cfg_defs]:
  "EV_SIZE_MAX = 4294967295"

definition EV_SSIZE_MAX :: nat where [cfg_defs]:
  "EV_SSIZE_MAX = 2147483647"

definition INT_MAX :: int where [cfg_defs]:
  "INT_MAX = 2147483647"

text \<open>\<open>size_t\<close> addition, which wraps at 32 bits.\<close>

definition szadd :: "nat \<Rightarrow> nat \<Rightarrow> nat" where
  "szadd a b = (a + b) mod 4294967296"

text \<open>A \<open>size_t\<close> difference, which wraps as well.\<close>

definition szsub :: "nat \<Rightarrow> nat \<Rightarrow> nat" where
  "szsub a b = nat ((int a - int b) mod 4294967296)"

text \<open>The conversion of an unsigned 32-bit value to \<open>int\<close> (two's complement).\<close>

definition to_int32 :: "nat \<Rightarrow> int" where
  "to_int32 n = (let m = n mod 4294967296 in if m < 2147483648 then int m else int m - 4294967296)"

section \<open>Checked memory\<close>

definition ev_assert :: "bool \<Rightarrow> unit option" where
  "ev_assert b = (if b then Some () else None)"

definition nth_opt :: "'a list \<Rightarrow> nat \<Rightarrow> 'a option" where
  "nth_opt xs i = (if i < length xs then Some (xs ! i) else None)"

definition upd_opt :: "'a list \<Rightarrow> nat \<Rightarrow> 'a \<Rightarrow> 'a list option" where
  "upd_opt xs i x = (if i < length xs then Some (xs[i := x]) else None)"

text \<open>\<open>memcpy\<close> out of and into a block of memory.\<close>

definition mem_read :: "byte list \<Rightarrow> nat \<Rightarrow> nat \<Rightarrow> byte list option" where
  "mem_read m at n = (if at + n \<le> length m then Some (take n (drop at m)) else None)"

definition mem_write :: "byte list \<Rightarrow> nat \<Rightarrow> byte list \<Rightarrow> byte list option" where
  "mem_write m at bs =
     (if at + length bs \<le> length m then Some (take at m @ bs @ drop (at + length bs) m) else None)"

section \<open>Lemmas\<close>

lemma ev_assert_simps [simp]: "ev_assert True = Some ()" "ev_assert False = None"
  by (simp_all add: ev_assert_def)

lemma ev_assert_Some_iff [simp]: "ev_assert b = Some u \<longleftrightarrow> b"
  by (cases u) (simp add: ev_assert_def)

lemma bind_ev_assert [simp]: "b \<Longrightarrow> (ev_assert b \<bind> f) = f ()"
  by simp

lemma nth_opt_in [simp]: "i < length xs \<Longrightarrow> nth_opt xs i = Some (xs ! i)"
  by (simp add: nth_opt_def)

lemma nth_opt_Some_iff: "nth_opt xs i = Some x \<longleftrightarrow> i < length xs \<and> xs ! i = x"
  by (auto simp: nth_opt_def)

lemma upd_opt_in [simp]: "i < length xs \<Longrightarrow> upd_opt xs i x = Some (xs[i := x])"
  by (simp add: upd_opt_def)

lemma mem_read_in [mem_simps]: "at + n \<le> length m \<Longrightarrow> mem_read m at n = Some (take n (drop at m))"
  by (simp add: mem_read_def)

lemma mem_write_in [mem_simps]:
  "at + length bs \<le> length m \<Longrightarrow> mem_write m at bs = Some (take at m @ bs @ drop (at + length bs) m)"
  by (simp add: mem_write_def)

lemma mem_write_length: "mem_write m at bs = Some m' \<Longrightarrow> length m' = length m"
  by (auto simp: mem_write_def split: if_splits)

lemma szadd_small [simp]: "a + b < 4294967296 \<Longrightarrow> szadd a b = a + b"
  by (simp add: szadd_def)

lemma szadd_le_max [simp]: "a + b \<le> EV_SIZE_MAX \<Longrightarrow> szadd a b = a + b"
  by (simp add: szadd_def EV_SIZE_MAX_def)

lemma szadd_0 [simp]: "a < 4294967296 \<Longrightarrow> szadd a 0 = a"
  by (simp add: szadd_def)

lemma szadd_less [simp]: "szadd a b < 4294967296"
  by (simp add: szadd_def)

lemma szsub_le [simp]: "b \<le> a \<Longrightarrow> a < 4294967296 \<Longrightarrow> szsub a b = a - b"
  by (simp add: szsub_def nat_diff_distrib)

lemma to_int32_small [simp]: "n < 2147483648 \<Longrightarrow> to_int32 n = int n"
  by (simp add: to_int32_def)

lemma malloc_specD: "malloc_spec mal \<Longrightarrow> mal n = Some bs \<Longrightarrow> length bs = n"
  by (auto simp: malloc_spec_def)

lemma take_drop_append_mid:
  "length xs = a \<Longrightarrow> length ys = n \<Longrightarrow> take n (drop a (xs @ ys @ zs)) = ys"
  by simp

lemma sum_list_map_append_eq: "sum_list (map f (xs @ ys)) = sum_list (map f xs) + sum_list (map f ys)"
  by simp

lemma sum_list_member_le: "x \<in> set xs \<Longrightarrow> f x \<le> sum_list (map f xs)" for f :: "'a \<Rightarrow> nat"
  by (induction xs) auto

lemma list_update_append_mid: "length xs = k \<Longrightarrow> (xs @ y # zs)[k := z] = xs @ z # zs"
  by (simp add: list_update_append)

end
