(* ===== verification/Minheap.thy ===== *)
theory Minheap
  imports Prelude
begin

text \<open>
  The timeout heap of the event loop, \<^verbatim>\<open>minheap-internal.h\<close>: an array of event pointers in which
  every event also stores its own position (\<open>min_heap_idx\<close>, -1 when it is in no heap), so that an
  event can be erased from the middle. The heap order is the order of \<open>ev_timeout\<close>.
\<close>

section \<open>Data\<close>

text \<open>
  Seconds and microseconds are integers without a bound. In C they are 32 bits wide in this configuration: the development says nothing of
  deadlines beyond what \<open>time_t\<close> can hold.
\<close>

datatype timeval = Timeval (tv_sec: int) (tv_usec: int)

instantiation timeval :: linorder
begin

definition less_timeval :: "timeval \<Rightarrow> timeval \<Rightarrow> bool" where
  "less_timeval x y \<longleftrightarrow>
     (if tv_sec x = tv_sec y then tv_usec x < tv_usec y else tv_sec x < tv_sec y)"

definition less_eq_timeval :: "timeval \<Rightarrow> timeval \<Rightarrow> bool" where
  "less_eq_timeval x y \<longleftrightarrow> x < y \<or> x = y"

instance
  by standard (auto simp: less_timeval_def less_eq_timeval_def timeval.expand split: if_splits
      intro: timeval.expand)

end

text \<open>\<open>evutil_timercmp(a, b, >)\<close>: the microseconds decide when the seconds are equal.\<close>

definition evutil_timercmp_gt :: "timeval \<Rightarrow> timeval \<Rightarrow> bool" where
  "evutil_timercmp_gt tvp uvp =
     (if tv_sec tvp = tv_sec uvp then tv_usec tvp > tv_usec uvp else tv_sec tvp > tv_sec uvp)"

text \<open>Events are pointers; the two fields the heap reads and writes are kept in a store.\<close>

type_synonym event_ptr = nat

record min_heap =
  heap_p :: "event_ptr option list"  \<comment> \<open>the allocated array; \<open>None\<close> is an uninitialised slot\<close>
  heap_n :: nat
  heap_a :: nat
  ev_timeout :: "event_ptr \<Rightarrow> timeval"
  min_heap_idx :: "event_ptr \<Rightarrow> int"

section \<open>Operations\<close>

definition min_heap_elem_greater :: "min_heap \<Rightarrow> event_ptr \<Rightarrow> event_ptr \<Rightarrow> bool" where
  "min_heap_elem_greater s x y = evutil_timercmp_gt (ev_timeout s x) (ev_timeout s y)"

definition min_heap_ctor :: "min_heap \<Rightarrow> min_heap" where
  "min_heap_ctor s = s\<lparr>heap_p := [], heap_n := 0, heap_a := 0\<rparr>"

definition min_heap_elem_init :: "min_heap \<Rightarrow> event_ptr \<Rightarrow> min_heap" where
  "min_heap_elem_init s e = s\<lparr>min_heap_idx := (min_heap_idx s)(e := -1)\<rparr>"

definition min_heap_empty :: "min_heap \<Rightarrow> bool" where
  "min_heap_empty s \<longleftrightarrow> 0 = heap_n s"

definition min_heap_size :: "min_heap \<Rightarrow> nat" where
  "min_heap_size s = heap_n s"

text \<open>Reading \<open>s->p[i]\<close>: out of range, or an uninitialised slot, is undefined.\<close>

definition heap_slot :: "min_heap \<Rightarrow> nat \<Rightarrow> event_ptr option" where
  "heap_slot s i = nth_opt (heap_p s) i \<bind> (\<lambda>x. x)"

text \<open>The assignment \<open>(s->p[i] = e)->ev_timeout_pos.min_heap_idx = i\<close>.\<close>

definition heap_place :: "min_heap \<Rightarrow> nat \<Rightarrow> event_ptr \<Rightarrow> min_heap option" where
  "heap_place s i e = do {
     q \<leftarrow> upd_opt (heap_p s) i (Some e);
     Some (s\<lparr>heap_p := q, min_heap_idx := (min_heap_idx s)(e := int i)\<rparr>)
   }"

lemma heap_place_frame:
  assumes "heap_place s i e = Some s'"
  shows "heap_n s' = heap_n s" "heap_a s' = heap_a s" "ev_timeout s' = ev_timeout s"
    "min_heap_idx s' = (min_heap_idx s)(e := int i)" "heap_p s' = (heap_p s)[i := Some e]" "i < length (heap_p s)"
  using assms by (auto simp: heap_place_def upd_opt_def split: if_splits)

text \<open>The top element, \<open>None\<close> for the null pointer.\<close>

definition min_heap_top :: "min_heap \<Rightarrow> event_ptr option option" where
  "min_heap_top s = (if heap_n s \<noteq> 0 then map_option Some (heap_slot s 0) else Some None)"

definition min_heap_elt_is_top :: "min_heap \<Rightarrow> event_ptr \<Rightarrow> bool" where
  "min_heap_elt_is_top s e \<longleftrightarrow> min_heap_idx s e = 0"

function min_heap_shift_up :: "min_heap \<Rightarrow> nat \<Rightarrow> event_ptr \<Rightarrow> min_heap option" where
  "min_heap_shift_up s hole_index e =
     (let parent = (hole_index - 1) div 2 in
      if hole_index = 0 then heap_place s hole_index e
      else do {
        pe \<leftarrow> heap_slot s parent;
        if min_heap_elem_greater s pe e
        then do { s' \<leftarrow> heap_place s hole_index pe; min_heap_shift_up s' parent e }
        else heap_place s hole_index e
      })"
  by pat_completeness auto
termination
  by (relation "measure (\<lambda>(s, h, e). h)") auto

declare min_heap_shift_up.simps [simp del]

text \<open>
  The child the downward loop looks at: \<open>min_child\<close> starts at the right child and steps back to the
  left one when there is no right child or the right one is the greater.
\<close>

definition min_child_of :: "min_heap \<Rightarrow> nat \<Rightarrow> nat option" where
  "min_child_of s right =
     (if right = heap_n s then Some (right - 1)
      else do {
        r \<leftarrow> heap_slot s right;
        l \<leftarrow> heap_slot s (right - 1);
        Some (if min_heap_elem_greater s r l then right - 1 else right)
      })"

function min_heap_shift_down :: "min_heap \<Rightarrow> nat \<Rightarrow> event_ptr \<Rightarrow> min_heap option" where
  "min_heap_shift_down s hole_index e =
     (let right = 2 * (hole_index + 1) in
      if right \<le> heap_n s then do {
        min_child \<leftarrow> min_child_of s right;
        c \<leftarrow> heap_slot s min_child;
        if \<not> min_heap_elem_greater s e c then heap_place s hole_index e
        else do { s' \<leftarrow> heap_place s hole_index c; min_heap_shift_down s' min_child e }
      }
      else heap_place s hole_index e)"
  by pat_completeness auto
termination
  by (relation "measure (\<lambda>(s, h, e). heap_n s - h)")
     (auto split: if_splits simp: min_child_of_def bind_eq_Some_conv dest: heap_place_frame(1))

declare min_heap_shift_down.simps [simp del]

text \<open>
  \<open>mm_realloc\<close> either fails or yields an array of the requested number of bytes (four per pointer)
  with the old contents; \<open>ok\<close> says for which requests it succeeds. Both the doubling and the byte
  count are \<open>unsigned\<close> and wrap.
\<close>

definition min_heap_reserve :: "(nat \<Rightarrow> bool) \<Rightarrow> min_heap \<Rightarrow> nat \<Rightarrow> int \<times> min_heap" where
  "min_heap_reserve ok s m =
     (if heap_a s < m then
        let a' = (if heap_a s \<noteq> 0 then (heap_a s * 2) mod 4294967296 else 8);
            a'' = (if a' < m then m else a');
            bytes = (a'' * 4) mod 4294967296
        in if \<not> ok bytes then (-1, s)
           else (0, s\<lparr>heap_p := take (bytes div 4) (heap_p s @ replicate (bytes div 4) None), heap_a := a''\<rparr>)
      else (0, s))"

definition min_heap_push :: "(nat \<Rightarrow> bool) \<Rightarrow> min_heap \<Rightarrow> event_ptr \<Rightarrow> (int \<times> min_heap) option" where
  "min_heap_push ok s e =
     (case min_heap_reserve ok s (szadd (heap_n s) 1) of (rc, s1) \<Rightarrow>
        if rc \<noteq> 0 then Some (-1, s1)
        else do {
          s2 \<leftarrow> min_heap_shift_up (s1\<lparr>heap_n := szadd (heap_n s1) 1\<rparr>) (heap_n s1) e;
          Some (0, s2)
        })"

definition min_heap_pop :: "min_heap \<Rightarrow> (event_ptr option \<times> min_heap) option" where
  "min_heap_pop s =
     (if heap_n s \<noteq> 0 then do {
        e \<leftarrow> heap_slot s 0;
        let s1 = s\<lparr>heap_n := heap_n s - 1\<rparr>;
        l \<leftarrow> heap_slot s1 (heap_n s1);
        s2 \<leftarrow> min_heap_shift_down s1 0 l;
        Some (Some e, s2\<lparr>min_heap_idx := (min_heap_idx s2)(e := -1)\<rparr>)
      }
      else Some (None, s))"

definition min_heap_erase :: "min_heap \<Rightarrow> event_ptr \<Rightarrow> (int \<times> min_heap) option" where
  "min_heap_erase s e =
     (if -1 \<noteq> min_heap_idx s e then do {
        let s1 = s\<lparr>heap_n := szsub (heap_n s) 1\<rparr>;
        l \<leftarrow> heap_slot s1 (heap_n s1);
        let idx = nat (min_heap_idx s e);
        up \<leftarrow> (if min_heap_idx s e > 0
              then do { pe \<leftarrow> heap_slot s1 ((idx - 1) div 2); Some (min_heap_elem_greater s1 pe l) }
              else Some False);
        s2 \<leftarrow> (if up then min_heap_shift_up s1 idx l else min_heap_shift_down s1 idx l);
        Some (0, s2\<lparr>min_heap_idx := (min_heap_idx s2)(e := -1)\<rparr>)
      }
      else Some (-1, s))"

section \<open>Invariant\<close>

abbreviation par :: "nat \<Rightarrow> nat" where
  "par i \<equiv> (i - 1) div 2"

definition heap_elems :: "min_heap \<Rightarrow> event_ptr set" where
  "heap_elems s = {x. \<exists>i < heap_n s. heap_p s ! i = Some x}"

definition key :: "min_heap \<Rightarrow> nat \<Rightarrow> timeval" where
  "key s i = ev_timeout s (the (heap_p s ! i))"

definition heap_ordered :: "min_heap \<Rightarrow> bool" where
  "heap_ordered s \<longleftrightarrow> (\<forall>i < heap_n s. i \<noteq> 0 \<longrightarrow> key s (par i) \<le> key s i)"

definition back_pointers :: "min_heap \<Rightarrow> bool" where
  "back_pointers s \<longleftrightarrow> (\<forall>i < heap_n s. \<exists>x. heap_p s ! i = Some x \<and> min_heap_idx s x = int i)"

definition min_heap_inv :: "min_heap \<Rightarrow> bool" where
  "min_heap_inv s \<longleftrightarrow>
     heap_a s = length (heap_p s) \<and> heap_n s \<le> heap_a s \<and> heap_a s < 1073741824 \<and> back_pointers s \<and> heap_ordered s \<and>
     (\<forall>x. x \<notin> heap_elems s \<longrightarrow> min_heap_idx s x = -1)"

section \<open>The two sifting loops\<close>

definition hole_ok :: "min_heap \<Rightarrow> nat \<Rightarrow> event_ptr \<Rightarrow> bool" where
  "hole_ok s h e \<longleftrightarrow> h < heap_n s \<and> heap_n s \<le> length (heap_p s) \<and>
     (\<forall>i < heap_n s. i \<noteq> h \<longrightarrow> (\<exists>x. heap_p s ! i = Some x \<and> x \<noteq> e \<and> min_heap_idx s x = int i))"

definition elems_except :: "min_heap \<Rightarrow> nat \<Rightarrow> event_ptr set" where
  "elems_except s h = {x. \<exists>i < heap_n s. i \<noteq> h \<and> heap_p s ! i = Some x}"

definition ord_except :: "min_heap \<Rightarrow> nat \<Rightarrow> bool" where
  "ord_except s h \<longleftrightarrow> (\<forall>i < heap_n s. i \<noteq> 0 \<longrightarrow> i \<noteq> h \<longrightarrow> par i \<noteq> h \<longrightarrow> key s (par i) \<le> key s i)"

definition children_ge :: "min_heap \<Rightarrow> nat \<Rightarrow> timeval \<Rightarrow> bool" where
  "children_ge s h v \<longleftrightarrow> (\<forall>i < heap_n s. i \<noteq> 0 \<longrightarrow> par i = h \<longrightarrow> v \<le> key s i)"

text \<open>What both loops achieve: \<open>e\<close> has been placed and everything is in order again.\<close>

definition sifted :: "min_heap \<Rightarrow> nat \<Rightarrow> event_ptr \<Rightarrow> min_heap \<Rightarrow> bool" where
  "sifted s h e s' \<longleftrightarrow>
     length (heap_p s') = length (heap_p s) \<and> heap_n s' = heap_n s \<and> heap_a s' = heap_a s \<and> ev_timeout s' = ev_timeout s \<and>
     back_pointers s' \<and> heap_ordered s' \<and> heap_elems s' = insert e (elems_except s h) \<and>
     (\<forall>x. x \<notin> insert e (elems_except s h) \<longrightarrow> min_heap_idx s' x = min_heap_idx s x)"

lemma elem_greater_iff [simp]:
  "min_heap_elem_greater s x y \<longleftrightarrow> ev_timeout s y < ev_timeout s x"
  by (auto simp: min_heap_elem_greater_def evutil_timercmp_gt_def less_timeval_def)

lemma heap_slot_in: "i < length (heap_p s) \<Longrightarrow> heap_p s ! i = Some x \<Longrightarrow> heap_slot s i = Some x"
  by (simp add: heap_slot_def)

lemma heap_slot_n [simp]: "heap_slot (s\<lparr>heap_n := m\<rparr>) i = heap_slot s i"
  by (simp add: heap_slot_def)

lemma key_n [simp]: "key (s\<lparr>heap_n := m\<rparr>) i = key s i"
  by (simp add: key_def)

lemma heap_slot_hole:
  assumes "hole_ok s h e" "i < heap_n s" "i \<noteq> h"
  obtains x where "heap_slot s i = Some x" "heap_p s ! i = Some x" "x \<noteq> e" "min_heap_idx s x = int i"
    "ev_timeout s x = key s i"
  using assms by (auto simp: hole_ok_def heap_slot_def key_def)

lemma heap_place_Some:
  "i < length (heap_p s) \<Longrightarrow>
   heap_place s i e = Some (s\<lparr>heap_p := (heap_p s)[i := Some e], min_heap_idx := (min_heap_idx s)(e := int i)\<rparr>)"
  by (simp add: heap_place_def)

lemma place_final:
  assumes hole: "hole_ok s h e" and ord: "ord_except s h"
    and ch: "children_ge s h (ev_timeout s e)"
    and up: "h \<noteq> 0 \<Longrightarrow> key s (par h) \<le> ev_timeout s e"
  shows "\<exists>s'. heap_place s h e = Some s' \<and> sifted s h e s'"
proof -
  let ?s = "s\<lparr>heap_p := (heap_p s)[h := Some e], min_heap_idx := (min_heap_idx s)(e := int h)\<rparr>"
  have h: "h < heap_n s" "heap_n s \<le> length (heap_p s)" using hole by (auto simp: hole_ok_def)
  have k: "key ?s i = (if i = h then ev_timeout s e else key s i)" if "i < heap_n s" for i
    using that h by (simp add: key_def nth_list_update)
  have "heap_ordered ?s"
    unfolding heap_ordered_def
  proof (intro allI impI)
    fix i assume i: "i < heap_n ?s" "i \<noteq> 0"
    then have "par i < heap_n s" "i < heap_n s" by auto
    then show "key ?s (par i) \<le> key ?s i"
      using i ord ch up by (auto simp: k ord_except_def children_ge_def)
  qed
  moreover have "back_pointers ?s"
    using hole h by (auto simp: back_pointers_def hole_ok_def nth_list_update)
  moreover have "heap_elems ?s = insert e (elems_except s h)"
    using h by (auto simp: heap_elems_def elems_except_def nth_list_update split: if_splits)
  ultimately have "sifted s h e ?s" by (simp add: sifted_def)
  then show ?thesis using h by (simp add: heap_place_Some)
qed

lemma place_step:
  assumes hole: "hole_ok s h e" and m: "m < heap_n s" "m \<noteq> h" "heap_slot s m = Some x"
  obtains s1 where "heap_place s h x = Some s1" "hole_ok s1 m e" "elems_except s1 m = elems_except s h"
    "heap_n s1 = heap_n s" "ev_timeout s1 = ev_timeout s"
    "\<And>i. i < heap_n s \<Longrightarrow> i \<noteq> m \<Longrightarrow> key s1 i = (if i = h then key s m else key s i)"
    "\<And>s'. sifted s1 m e s' \<Longrightarrow> sifted s h e s'"
proof -
  let ?s = "s\<lparr>heap_p := (heap_p s)[h := Some x], min_heap_idx := (min_heap_idx s)(x := int h)\<rparr>"
  have h: "h < heap_n s" "heap_n s \<le> length (heap_p s)" using hole by (auto simp: hole_ok_def)
  have x: "heap_p s ! m = Some x" "x \<noteq> e" "min_heap_idx s x = int m"
    using heap_slot_hole [OF hole m(1,2)] m(3) by (metis option.sel)+
  have other: "y \<noteq> x" if "i < heap_n s" "i \<noteq> h" "i \<noteq> m" "heap_p s ! i = Some y" for i y
    using hole that x by (fastforce simp: hole_ok_def)
  have 1: "hole_ok ?s m e"
    using hole m h x other by (auto simp: hole_ok_def nth_list_update) metis
  have 2: "elems_except ?s m = elems_except s h"
    using m h x by (auto simp: elems_except_def nth_list_update split: if_splits) (metis option.inject)
  have 3: "key ?s i = (if i = h then key s m else key s i)" if "i < heap_n s" "i \<noteq> m" for i
    using that h x by (simp add: key_def nth_list_update)
  have "x \<in> elems_except s h" using m x by (auto simp: elems_except_def)
  then have 4: "sifted s h e s'" if "sifted ?s m e s'" for s'
    using that 2 by (auto simp: sifted_def)
  show ?thesis
    by (rule that [of ?s]) (use h 1 2 3 4 in \<open>auto simp: heap_place_Some\<close>)
qed

text \<open>The invariants of the loops, and that one turn of each keeps its invariant.\<close>

definition up_inv :: "min_heap \<Rightarrow> nat \<Rightarrow> event_ptr \<Rightarrow> bool" where
  "up_inv s h e \<longleftrightarrow> hole_ok s h e \<and> ord_except s h \<and> children_ge s h (ev_timeout s e) \<and>
     (h \<noteq> 0 \<longrightarrow> children_ge s h (key s (par h)))"

definition down_inv :: "min_heap \<Rightarrow> nat \<Rightarrow> event_ptr \<Rightarrow> bool" where
  "down_inv s h e \<longleftrightarrow> hole_ok s h e \<and> ord_except s h \<and>
     (h \<noteq> 0 \<longrightarrow> key s (par h) \<le> ev_timeout s e \<and> children_ge s h (key s (par h)))"

lemma up_inv_step:
  assumes inv: "up_inv s h e" and h: "h \<noteq> 0" and x: "heap_slot s (par h) = Some x"
    and gt: "ev_timeout s e < key s (par h)"
  obtains s1 where "heap_place s h x = Some s1" "up_inv s1 (par h) e"
    "\<And>s'. sifted s1 (par h) e s' \<Longrightarrow> sifted s h e s'"
proof -
  have hole: "hole_ok s h e" and ord: "ord_except s h" and pch: "children_ge s h (key s (par h))"
    using inv h by (auto simp: up_inv_def)
  have hN: "h < heap_n s" using hole by (simp add: hole_ok_def)
  have pN: "par h < heap_n s" "par h \<noteq> h" using h hN by auto
  obtain s1 where s1: "heap_place s h x = Some s1" "hole_ok s1 (par h) e"
    "heap_n s1 = heap_n s" "ev_timeout s1 = ev_timeout s"
    and key: "\<And>i. i < heap_n s \<Longrightarrow> i \<noteq> par h \<Longrightarrow> key s1 i = (if i = h then key s (par h) else key s i)"
    and trans: "\<And>s'. sifted s1 (par h) e s' \<Longrightarrow> sifted s h e s'"
    by (rule place_step [OF hole pN x]) blast
  have ord1: "ord_except s1 (par h)"
    unfolding ord_except_def
  proof (intro allI impI)
    fix i assume i: "i < heap_n s1" "i \<noteq> 0" "i \<noteq> par h" "par i \<noteq> par h"
    then have "i < heap_n s" "par i < heap_n s" "i \<noteq> h" using s1(3) by auto
    then show "key s1 (par i) \<le> key s1 i"
      using i ord pch by (auto simp: key ord_except_def children_ge_def)
  qed
  have sib: "key s (par h) \<le> key s i" if "i < heap_n s" "i \<noteq> 0" "par i = par h" "i \<noteq> h" for i
    using that ord pN(2) unfolding ord_except_def by metis
  have ch: "children_ge s1 (par h) v" if "v \<le> key s (par h)" for v
    using that sib s1(3) h by (auto simp: children_ge_def key intro: order_trans)
  have "children_ge s1 (par h) (key s1 (par (par h)))" if "par h \<noteq> 0"
  proof -
    have q: "par (par h) < heap_n s" "par (par h) \<noteq> par h" "par (par h) \<noteq> h"
      using that hN by auto
    then have "key s (par (par h)) \<le> key s (par h)"
      using ord that pN unfolding ord_except_def by blast
    with q show ?thesis by (intro ch) (simp add: key)
  qed
  then have "up_inv s1 (par h) e"
    using s1 ord1 ch gt by (auto simp: up_inv_def)
  with s1 trans show ?thesis by (intro that)
qed

lemma shift_up_sifted:
  "up_inv s h e \<Longrightarrow> \<exists>s'. min_heap_shift_up s h e = Some s' \<and> sifted s h e s'"
proof (induction s h e rule: min_heap_shift_up.induct)
  case (1 s h e)
  then have hole: "hole_ok s h e" and ord: "ord_except s h" and ch: "children_ge s h (ev_timeout s e)"
    by (auto simp: up_inv_def)
  note final = place_final [OF hole ord ch]
  show ?case
  proof (cases "h = 0")
    case True
    with final show ?thesis by (simp add: min_heap_shift_up.simps)
  next
    case False
    have "h < heap_n s" using hole by (simp add: hole_ok_def)
    with False have pN: "par h < heap_n s" "par h \<noteq> h" by auto
    then obtain x where x: "heap_slot s (par h) = Some x" "ev_timeout s x = key s (par h)"
      using heap_slot_hole [OF hole] by metis
    show ?thesis
    proof (cases "ev_timeout s e < ev_timeout s x")
      case True
      with x "1.prems" False obtain s1 where s1: "heap_place s h x = Some s1" "up_inv s1 (par h) e"
        and trans: "\<And>s'. sifted s1 (par h) e s' \<Longrightarrow> sifted s h e s'"
        by (metis up_inv_step)
      from "1.IH" [OF refl False x(1) _ s1] True
      obtain s' where "min_heap_shift_up s1 (par h) e = Some s'" "sifted s1 (par h) e s'" by auto
      with False True x s1 trans show ?thesis by (simp add: min_heap_shift_up.simps [of s h])
    next
      case le: False
      with x have "\<exists>s'. heap_place s h e = Some s' \<and> sifted s h e s'" by (intro final) auto
      with False le x show ?thesis by (simp add: min_heap_shift_up.simps [of s h])
    qed
  qed
qed

lemma down_inv_step:
  assumes inv: "down_inv s h e" and m: "m < heap_n s" "m \<noteq> 0" "par m = h" and x: "heap_slot s m = Some x"
    and gt: "key s m < ev_timeout s e" and least: "children_ge s h (key s m)"
  obtains s1 where "heap_place s h x = Some s1" "down_inv s1 m e"
    "\<And>s'. sifted s1 m e s' \<Longrightarrow> sifted s h e s'"
proof -
  have hole: "hole_ok s h e" and ord: "ord_except s h" using inv by (auto simp: down_inv_def)
  have mh: "m \<noteq> h" using m by auto
  obtain s1 where s1: "heap_place s h x = Some s1" "hole_ok s1 m e"
    "heap_n s1 = heap_n s" "ev_timeout s1 = ev_timeout s"
    and key: "\<And>i. i < heap_n s \<Longrightarrow> i \<noteq> m \<Longrightarrow> key s1 i = (if i = h then key s m else key s i)"
    and trans: "\<And>s'. sifted s1 m e s' \<Longrightarrow> sifted s h e s'"
    by (rule place_step [OF hole m(1) mh x]) blast
  have ord1: "ord_except s1 m"
    unfolding ord_except_def
  proof (intro allI impI)
    fix i assume i: "i < heap_n s1" "i \<noteq> 0" "i \<noteq> m" "par i \<noteq> m"
    then have "i < heap_n s" "par i < heap_n s" "par i \<noteq> i" using s1(3) by auto
    then show "key s1 (par i) \<le> key s1 i"
      using i ord inv m least by (auto simp: key ord_except_def children_ge_def down_inv_def)
  qed
  have hN: "h < heap_n s" using hole by (simp add: hole_ok_def)
  have "key s m \<le> key s i" if "i < heap_n s" "i \<noteq> 0" "par i = m" for i
  proof -
    have "i \<noteq> h" using that m by auto
    then show ?thesis using ord [unfolded ord_except_def, rule_format, of i] that mh by simp
  qed
  then have "children_ge s1 m (key s m)"
    using s1(3) m mh by (auto simp: children_ge_def key)
  then have "down_inv s1 m e"
    using s1 ord1 gt m mh hN by (simp add: down_inv_def key)
  with s1 trans show ?thesis by (intro that)
qed

lemma min_child_least:
  assumes hole: "hole_ok s h e" and r: "2 * (h + 1) \<le> heap_n s"
  obtains m x where "min_child_of s (2 * (h + 1)) = Some m" "m < heap_n s" "m \<noteq> 0" "par m = h"
    "heap_slot s m = Some x" "ev_timeout s x = key s m" "children_ge s h (key s m)"
proof -
  have two: "i = 2 * h + 1 \<or> i = 2 * h + 2" if "i \<noteq> 0" "par i = h" for i
    using that by presburger
  obtain l where l: "heap_slot s (2 * h + 1) = Some l" "ev_timeout s l = key s (2 * h + 1)"
    using heap_slot_hole [OF hole, of "2 * h + 1"] r by auto
  show ?thesis
  proof (cases "2 * (h + 1) = heap_n s")
    case True
    have "children_ge s h (key s (2 * h + 1))"
      unfolding children_ge_def
    proof (intro allI impI)
      fix i assume "i < heap_n s" "i \<noteq> 0" "par i = h"
      then have "i = 2 * h + 1" using two [of i] True by auto
      then show "key s (2 * h + 1) \<le> key s i" by simp
    qed
    with True l show ?thesis
      by (intro that [of "2 * h + 1" l]) (auto simp: min_child_of_def)
  next
    case False
    then obtain x where x: "heap_slot s (2 * h + 2) = Some x" "ev_timeout s x = key s (2 * h + 2)"
      using heap_slot_hole [OF hole, of "2 * h + 2"] r by auto
    have "children_ge s h (min (key s (2 * h + 1)) (key s (2 * h + 2)))"
      unfolding children_ge_def using two by (metis min.cobounded1 min.cobounded2)
    note lst = this
    show ?thesis
    proof (cases "key s (2 * h + 1) < key s (2 * h + 2)")
      case True
      then have "min (key s (2 * h + 1)) (key s (2 * h + 2)) = key s (2 * h + 1)" by simp
      with lst have "children_ge s h (key s (2 * h + 1))" by simp
      with True False l x r show ?thesis
        by (intro that [of "2 * h + 1" l]) (simp_all add: min_child_of_def)
    next
      case False2: False
      then have "min (key s (2 * h + 1)) (key s (2 * h + 2)) = key s (2 * h + 2)" by simp
      with False False2 l x r lst show ?thesis
        by (intro that [of "2 * h + 2" x]) (simp_all add: min_child_of_def)
    qed
  qed
qed

lemma shift_down_sifted:
  "down_inv s h e \<Longrightarrow> \<exists>s'. min_heap_shift_down s h e = Some s' \<and> sifted s h e s'"
proof (induction s h e rule: min_heap_shift_down.induct)
  case (1 s h e)
  then have hole: "hole_ok s h e" and ord: "ord_except s h"
    and up: "h \<noteq> 0 \<Longrightarrow> key s (par h) \<le> ev_timeout s e"
    by (auto simp: down_inv_def)
  note final = place_final [OF hole ord _ up]
  show ?case
  proof (cases "2 * (h + 1) \<le> heap_n s")
    case False
    have "children_ge s h (ev_timeout s e)"
      using False by (auto simp: children_ge_def)
    from final [OF this] False show ?thesis by (simp add: min_heap_shift_down.simps)
  next
    case True
    obtain m x where m: "min_child_of s (2 * (h + 1)) = Some m" "m < heap_n s" "m \<noteq> 0" "par m = h"
      and x: "heap_slot s m = Some x" "ev_timeout s x = key s m" and least: "children_ge s h (key s m)"
      by (rule min_child_least [OF hole True])
    show ?thesis
    proof (cases "key s m < ev_timeout s e")
      case False2: False
      then have "children_ge s h (ev_timeout s e)"
        using least by (auto simp: children_ge_def intro: order_trans)
      from final [OF this] True False2 m x show ?thesis
        by (simp add: min_heap_shift_down.simps [of s h])
    next
      case gt: True
      obtain s1 where s1: "heap_place s h x = Some s1" "down_inv s1 m e"
        and trans: "\<And>s'. sifted s1 m e s' \<Longrightarrow> sifted s h e s'"
        by (rule down_inv_step [OF "1.prems" m(2-4) x(1) gt least]) blast
      have "\<exists>s'. min_heap_shift_down s1 m e = Some s' \<and> sifted s1 m e s'"
        by (rule "1.IH" [OF refl True m(1) x(1) _ s1]) (simp add: x gt)
      with True gt m x s1 trans show ?thesis
        by (auto simp: min_heap_shift_down.simps [of s h])
    qed
  qed
qed

section \<open>The operations on a whole heap\<close>

lemma heap_elems_slot:
  assumes "min_heap_inv s" "i < heap_n s"
  obtains x where "heap_p s ! i = Some x" "heap_slot s i = Some x" "min_heap_idx s x = int i"
    "x \<in> heap_elems s" "ev_timeout s x = key s i"
proof -
  from assms obtain x where "heap_p s ! i = Some x" "min_heap_idx s x = int i" "i < length (heap_p s)"
    by (auto simp: min_heap_inv_def back_pointers_def)
  with assms(2) show ?thesis
    by (intro that [of x]) (auto simp: heap_slot_def heap_elems_def key_def)
qed

lemma heap_elems_pos:
  assumes "min_heap_inv s" "x \<in> heap_elems s"
  obtains i where "i < heap_n s" "heap_p s ! i = Some x" "heap_slot s i = Some x" "min_heap_idx s x = int i"
    "ev_timeout s x = key s i"
proof -
  from assms(2) obtain i where "i < heap_n s" "heap_p s ! i = Some x" by (auto simp: heap_elems_def)
  with that heap_elems_slot [OF assms(1), of i] show ?thesis by (metis option.inject)
qed

lemma idx_iff_elem: "min_heap_inv s \<Longrightarrow> min_heap_idx s x \<noteq> -1 \<longleftrightarrow> x \<in> heap_elems s"
proof (cases "x \<in> heap_elems s")
  case True
  moreover assume "min_heap_inv s"
  ultimately obtain i where "min_heap_idx s x = int i" by (metis heap_elems_pos)
  with True show ?thesis by simp
next
  case False
  moreover assume "min_heap_inv s"
  ultimately show ?thesis by (simp add: min_heap_inv_def)
qed

lemma idx_of_slot: "min_heap_inv s \<Longrightarrow> j < heap_n s \<Longrightarrow> heap_p s ! j = Some x \<Longrightarrow> min_heap_idx s x = int j"
  using heap_elems_slot [of s j] by (metis option.inject)

lemma heap_elems_minus:
  assumes inv: "min_heap_inv s" and i: "i < heap_n s" "heap_p s ! i = Some e"
  shows "heap_elems s - {e} = {x. \<exists>j < heap_n s. j \<noteq> i \<and> heap_p s ! j = Some x}"
proof -
  have "x \<noteq> e" if "j < heap_n s" "j \<noteq> i" "heap_p s ! j = Some x" for j x
    using idx_of_slot [OF inv that(1,3)] idx_of_slot [OF inv i] that(2) by auto
  then show ?thesis using i by (auto simp: heap_elems_def)
qed

lemma key_root_le: "heap_ordered s \<Longrightarrow> i < heap_n s \<Longrightarrow> key s 0 \<le> key s i"
proof (induction i rule: less_induct)
  case (less i)
  show ?case
  proof (cases "i = 0")
    case False
    then have "par i < i" "par i < heap_n s" using less.prems by auto
    then have "key s 0 \<le> key s (par i)" using less by blast
    also have "\<dots> \<le> key s i" using less.prems False by (auto simp: heap_ordered_def)
    finally show ?thesis .
  qed simp
qed

lemma pushed:
  assumes inv: "min_heap_inv s" and e: "e \<notin> heap_elems s"
    and s1: "heap_n s1 = heap_n s" "ev_timeout s1 = ev_timeout s" "min_heap_idx s1 = min_heap_idx s"
      "\<And>i. i < heap_n s \<Longrightarrow> heap_p s1 ! i = heap_p s ! i" "heap_n s < length (heap_p s1)" "heap_a s1 = length (heap_p s1)"
      "heap_a s1 < 1073741824"
  shows "\<exists>s'. min_heap_shift_up (s1\<lparr>heap_n := Suc (heap_n s)\<rparr>) (heap_n s) e = Some s' \<and> min_heap_inv s' \<and>
    heap_elems s' = insert e (heap_elems s) \<and> ev_timeout s' = ev_timeout s"
proof -
  let ?s = "s1\<lparr>heap_n := Suc (heap_n s)\<rparr>"
  have key: "key s1 i = key s i" if "i < heap_n s" for i using that s1 by (simp add: key_def)
  have el: "elems_except ?s (heap_n s) = heap_elems s"
    using s1(4) by (auto simp: elems_except_def heap_elems_def less_Suc_eq)
  have "hole_ok ?s (heap_n s) e"
    using inv e s1
    by (auto simp: hole_ok_def min_heap_inv_def back_pointers_def heap_elems_def less_Suc_eq) metis
  moreover have "ord_except ?s (heap_n s)"
    using inv by (auto simp: ord_except_def key min_heap_inv_def heap_ordered_def less_Suc_eq)
  moreover have "children_ge ?s (heap_n s) v" for v by (auto simp: children_ge_def)
  ultimately have "up_inv ?s (heap_n s) e" by (simp add: up_inv_def)
  then obtain s' where s': "min_heap_shift_up ?s (heap_n s) e = Some s'" "sifted ?s (heap_n s) e s'"
    using shift_up_sifted by blast
  moreover have "min_heap_inv s'"
    using s'(2) inv s1 by (auto simp: sifted_def min_heap_inv_def el)
  ultimately show ?thesis using s1 el by (auto simp: sifted_def)
qed

text \<open>Marking an event that is no longer in the array as being in no heap.\<close>

lemma forget_inv:
  assumes "heap_a s = length (heap_p s)" "heap_n s \<le> heap_a s" "heap_a s < 1073741824" "back_pointers s" "heap_ordered s"
    and e: "e \<notin> heap_elems s" and out: "\<And>x. x \<notin> heap_elems s \<Longrightarrow> x \<noteq> e \<Longrightarrow> min_heap_idx s x = -1"
  shows "min_heap_inv (s\<lparr>min_heap_idx := (min_heap_idx s)(e := -1)\<rparr>)"
proof -
  let ?s = "s\<lparr>min_heap_idx := (min_heap_idx s)(e := -1)\<rparr>"
  have el: "heap_elems ?s = heap_elems s" by (simp add: heap_elems_def)
  have "back_pointers ?s"
    unfolding back_pointers_def
  proof (intro allI impI)
    fix i assume i: "i < heap_n ?s"
    then obtain x where x: "heap_p s ! i = Some x" "min_heap_idx s x = int i"
      using assms(4) by (auto simp: back_pointers_def)
    with i e have "x \<noteq> e" by (auto simp: heap_elems_def)
    with x show "\<exists>x. heap_p ?s ! i = Some x \<and> min_heap_idx ?s x = int i" by auto
  qed
  moreover have "heap_ordered ?s" using assms(5) by (simp add: heap_ordered_def key_def)
  ultimately show ?thesis
    unfolding min_heap_inv_def el using assms(1-3) out by auto
qed

text \<open>Taking out the element at position \<open>i\<close> and sifting the last one into its place.\<close>

lemma removed:
  assumes inv: "min_heap_inv s" and i: "Suc i < heap_n s" "heap_p s ! i = Some e" "heap_p s ! (heap_n s - 1) = Some l"
    and sift: "sifted (s\<lparr>heap_n := heap_n s - 1\<rparr>) i l s2"
  shows "min_heap_inv (s2\<lparr>min_heap_idx := (min_heap_idx s2)(e := -1)\<rparr>) \<and>
    heap_elems s2 = heap_elems s - {e} \<and> ev_timeout s2 = ev_timeout s"
proof -
  obtain m where m: "heap_n s = Suc m" using i(1) by (cases "heap_n s") auto
  have "(\<exists>j < heap_n s. j \<noteq> i \<and> heap_p s ! j = Some x) \<longleftrightarrow> x = l \<or> (\<exists>j < m. j \<noteq> i \<and> heap_p s ! j = Some x)" for x
  proof -
    have "m \<noteq> i" "heap_p s ! m = Some l" using m i by auto
    then show ?thesis unfolding m less_Suc_eq by (metis option.inject)
  qed
  then have "insert l (elems_except (s\<lparr>heap_n := heap_n s - 1\<rparr>) i) = {x. \<exists>j < heap_n s. j \<noteq> i \<and> heap_p s ! j = Some x}"
    unfolding elems_except_def by (intro set_eqI) (simp add: m)
  then have el: "insert l (elems_except (s\<lparr>heap_n := heap_n s - 1\<rparr>) i) = heap_elems s - {e}"
    using heap_elems_minus [OF inv _ i(2)] i(1) by simp
  have el2: "heap_elems s2 = heap_elems s - {e}" using sift el by (simp add: sifted_def)
  have "min_heap_inv (s2\<lparr>min_heap_idx := (min_heap_idx s2)(e := -1)\<rparr>)"
  proof (rule forget_inv)
    show "min_heap_idx s2 x = -1" if "x \<notin> heap_elems s2" "x \<noteq> e" for x
      using that sift inv el unfolding el2 by (auto simp: sifted_def min_heap_inv_def)
  qed (use sift inv el2 in \<open>auto simp: sifted_def min_heap_inv_def\<close>)
  with el2 sift show ?thesis by (simp add: sifted_def)
qed

text \<open>Removing the last element: it is put back where it was and then forgotten.\<close>

lemma removed_last:
  assumes inv: "min_heap_inv s" and i: "Suc i = heap_n s" "heap_p s ! i = Some e"
  shows "\<exists>s2. min_heap_shift_down (s\<lparr>heap_n := heap_n s - 1\<rparr>) i e = Some s2 \<and>
    min_heap_inv (s2\<lparr>min_heap_idx := (min_heap_idx s2)(e := -1)\<rparr>) \<and>
    heap_elems s2 = heap_elems s - {e} \<and> ev_timeout s2 = ev_timeout s"
proof -
  let ?s2 = "s\<lparr>heap_n := heap_n s - 1, heap_p := (heap_p s)[i := Some e], min_heap_idx := (min_heap_idx s)(e := int i)\<rparr>"
  have len: "i < length (heap_p s)" "heap_n s - 1 = i" using inv i by (auto simp: min_heap_inv_def)
  have same: "(heap_p s)[i := Some e] = heap_p s" using i len by (metis list_update_id)
  have idx: "(min_heap_idx s)(e := int i) = min_heap_idx s"
    using idx_of_slot [OF inv _ i(2)] i(1) by auto
  have "j < heap_n s - 1 \<longleftrightarrow> j < heap_n s \<and> j \<noteq> i" for j using i by auto
  then have el: "heap_elems ?s2 = heap_elems s - {e}"
    using i by (subst heap_elems_minus [OF inv _ i(2)]) (auto simp: heap_elems_def same)
  have "min_heap_inv (?s2\<lparr>min_heap_idx := (min_heap_idx ?s2)(e := -1)\<rparr>)"
  proof (rule forget_inv)
    show "min_heap_idx ?s2 x = -1" if "x \<notin> heap_elems ?s2" "x \<noteq> e" for x
      using that inv unfolding el by (auto simp: min_heap_inv_def)
    show "back_pointers ?s2"
      using inv len i by (simp add: back_pointers_def same idx min_heap_inv_def)
  qed (use inv el same in \<open>auto simp: min_heap_inv_def heap_ordered_def key_def\<close>)
  moreover have "min_heap_shift_down (s\<lparr>heap_n := heap_n s - 1\<rparr>) i e = Some ?s2"
    using len by (subst min_heap_shift_down.simps) (simp add: heap_place_Some)
  ultimately show ?thesis using el by auto
qed

lemma hole_of_removal:
  assumes inv: "min_heap_inv s" and i: "Suc i < heap_n s" and l: "heap_p s ! (heap_n s - 1) = Some l"
  shows "hole_ok (s\<lparr>heap_n := heap_n s - 1\<rparr>) i l" "ord_except (s\<lparr>heap_n := heap_n s - 1\<rparr>) i"
    "children_ge (s\<lparr>heap_n := heap_n s - 1\<rparr>) i (key s i)"
    "i \<noteq> 0 \<Longrightarrow> key s (par i) \<le> key s i"
proof -
  have idx: "min_heap_idx s l = int (heap_n s - 1)" by (rule idx_of_slot [OF inv _ l]) (use i in simp)
  have "\<exists>x. heap_p s ! j = Some x \<and> x \<noteq> l \<and> min_heap_idx s x = int j" if j: "j < heap_n s - 1" for j
  proof -
    have "j < heap_n s" using j by simp
    then obtain x where "heap_p s ! j = Some x" "min_heap_idx s x = int j"
      using heap_elems_slot [OF inv] by metis
    with j idx show ?thesis by auto
  qed
  then show "hole_ok (s\<lparr>heap_n := heap_n s - 1\<rparr>) i l"
    using inv i by (auto simp: hole_ok_def min_heap_inv_def)
  show "ord_except (s\<lparr>heap_n := heap_n s - 1\<rparr>) i" "children_ge (s\<lparr>heap_n := heap_n s - 1\<rparr>) i (key s i)"
    "i \<noteq> 0 \<Longrightarrow> key s (par i) \<le> key s i"
    using inv i
    by (auto simp: ord_except_def children_ge_def key_def min_heap_inv_def heap_ordered_def)
qed

lemma remove_at:
  assumes inv: "min_heap_inv s" and i: "i < heap_n s" "heap_p s ! i = Some e" and l: "heap_p s ! (heap_n s - 1) = Some l"
    and dir: "up \<longleftrightarrow> i \<noteq> 0 \<and> ev_timeout s l < key s (par i)"
  shows "\<exists>s2. (if up then min_heap_shift_up (s\<lparr>heap_n := heap_n s - 1\<rparr>) i l
                 else min_heap_shift_down (s\<lparr>heap_n := heap_n s - 1\<rparr>) i l) = Some s2 \<and>
    min_heap_inv (s2\<lparr>min_heap_idx := (min_heap_idx s2)(e := -1)\<rparr>) \<and>
    heap_elems s2 = heap_elems s - {e} \<and> ev_timeout s2 = ev_timeout s"
proof (cases "Suc i = heap_n s")
  case True
  then have "l = e" using i l by (auto simp: True [symmetric])
  have "key s (par i) \<le> key s i" if "i \<noteq> 0"
    using inv i that by (auto simp: min_heap_inv_def heap_ordered_def)
  then have "\<not> up" using dir i \<open>l = e\<close> by (auto simp: key_def)
  with removed_last [OF inv True i(2)] \<open>l = e\<close> show ?thesis by simp
next
  case False
  let ?s = "s\<lparr>heap_n := heap_n s - 1\<rparr>"
  have i': "Suc i < heap_n s" using i False by simp
  note hole = hole_of_removal [OF inv i' l]
  have ch: "children_ge ?s i v" if "v \<le> key s i" for v
    using hole(3) that by (auto simp: children_ge_def intro: order_trans)
  have "\<exists>s2. (if up then min_heap_shift_up ?s i l else min_heap_shift_down ?s i l) = Some s2 \<and>
      sifted ?s i l s2"
  proof (cases up)
    case True
    then have "ev_timeout s l \<le> key s i" using dir hole(4) by (auto dest: less_imp_le order_trans)
    then have "up_inv ?s i l" using hole(1,2,4) ch by (auto simp: up_inv_def)
    then show ?thesis using True shift_up_sifted by simp
  next
    case False
    then have "down_inv ?s i l" using dir hole(1,2,4) ch by (auto simp: down_inv_def)
    then show ?thesis using False shift_down_sifted by simp
  qed
  then show ?thesis using removed [OF inv i' i(2) l] by auto
qed

lemma min_heap_pop_empty: "heap_n s = 0 \<Longrightarrow> min_heap_pop s = Some (None, s)"
  by (simp add: min_heap_pop_def)

lemma min_heap_pop_correct:
  assumes inv: "min_heap_inv s" and ne: "heap_elems s \<noteq> {}"
  shows "\<exists>e s'. min_heap_pop s = Some (Some e, s') \<and> e \<in> heap_elems s \<and>
    (\<forall>x \<in> heap_elems s. ev_timeout s e \<le> ev_timeout s x) \<and>
    min_heap_inv s' \<and> heap_elems s' = heap_elems s - {e} \<and> ev_timeout s' = ev_timeout s \<and>
    min_heap_idx s' e = -1"
proof -
  have n0: "0 < heap_n s" using ne by (auto simp: heap_elems_def)
  obtain e where e: "heap_p s ! 0 = Some e" "heap_slot s 0 = Some e" "e \<in> heap_elems s"
      "ev_timeout s e = key s 0"
    using heap_elems_slot [OF inv n0] by metis
  obtain l where l: "heap_p s ! (heap_n s - 1) = Some l" "heap_slot s (heap_n s - 1) = Some l"
    using heap_elems_slot [OF inv, of "heap_n s - 1"] n0 by auto
  obtain s2 where s2: "min_heap_shift_down (s\<lparr>heap_n := heap_n s - 1\<rparr>) 0 l = Some s2"
      "min_heap_inv (s2\<lparr>min_heap_idx := (min_heap_idx s2)(e := -1)\<rparr>)"
      "heap_elems s2 = heap_elems s - {e}" "ev_timeout s2 = ev_timeout s"
    using remove_at [OF inv n0 e(1) l(1), of False] by auto
  have "min_heap_pop s = Some (Some e, s2\<lparr>min_heap_idx := (min_heap_idx s2)(e := -1)\<rparr>)"
    using n0 e(2) l(2) s2(1) by (simp add: min_heap_pop_def)
  moreover have "ev_timeout s e \<le> ev_timeout s x" if "x \<in> heap_elems s" for x
    using heap_elems_pos [OF inv that] key_root_le [of s] inv e(4) by (metis min_heap_inv_def)
  ultimately show ?thesis using e s2 by (auto simp: heap_elems_def)
qed

lemma min_heap_erase_correct:
  assumes inv: "min_heap_inv s" and e: "e \<in> heap_elems s"
  shows "\<exists>s'. min_heap_erase s e = Some (0, s') \<and> min_heap_inv s' \<and>
    heap_elems s' = heap_elems s - {e} \<and> ev_timeout s' = ev_timeout s \<and> min_heap_idx s' e = -1"
proof -
  obtain i where i: "i < heap_n s" "heap_p s ! i = Some e" "min_heap_idx s e = int i"
    using heap_elems_pos [OF inv e] by metis
  have n: "szsub (heap_n s) (Suc 0) = heap_n s - Suc 0" using inv i by (intro szsub_le) (auto simp: min_heap_inv_def)
  obtain l where l: "heap_p s ! (heap_n s - 1) = Some l" "heap_slot s (heap_n s - 1) = Some l"
    using heap_elems_slot [OF inv, of "heap_n s - 1"] i(1) by (metis diff_less less_one not_less_zero not_gr_zero)
  let ?s = "s\<lparr>heap_n := heap_n s - 1\<rparr>"
  define up where "up \<longleftrightarrow> i \<noteq> 0 \<and> ev_timeout s l < key s (par i)"
  obtain s2 where s2: "(if up then min_heap_shift_up ?s i l else min_heap_shift_down ?s i l) = Some s2"
      "min_heap_inv (s2\<lparr>min_heap_idx := (min_heap_idx s2)(e := -1)\<rparr>)"
      "heap_elems s2 = heap_elems s - {e}" "ev_timeout s2 = ev_timeout s"
    using remove_at [OF inv i(1,2) l(1) up_def] by auto
  have "min_heap_erase s e = Some (0, s2\<lparr>min_heap_idx := (min_heap_idx s2)(e := -1)\<rparr>)"
  proof (cases "i = 0")
    case True
    then show ?thesis using s2(1) l(2) i(3) by (simp add: min_heap_erase_def n up_def Let_def)
  next
    case False
    then have "par i < heap_n s" using i(1) by auto
    then obtain y where "heap_slot s (par i) = Some y" "ev_timeout s y = key s (par i)"
      using heap_elems_slot [OF inv] by metis
    with False show ?thesis
      using s2(1) l(2) i(3) by (simp add: min_heap_erase_def n up_def Let_def split: if_splits)
  qed
  with s2 show ?thesis by (auto simp: heap_elems_def)
qed

lemma min_heap_reserve_cases:
  assumes inv: "min_heap_inv s" and small: "heap_a s < 536870912"
  obtains "min_heap_reserve ok s (Suc (heap_n s)) = (-1, s)" "\<exists>k. \<not> ok k"
  | s1 where "min_heap_reserve ok s (Suc (heap_n s)) = (0, s1)" "heap_n s1 = heap_n s" "ev_timeout s1 = ev_timeout s"
      "min_heap_idx s1 = min_heap_idx s" "\<And>i. i < heap_n s \<Longrightarrow> heap_p s1 ! i = heap_p s ! i" "heap_n s < length (heap_p s1)"
      "heap_a s1 = length (heap_p s1)" "heap_a s1 < 1073741824"
proof (cases "heap_a s < Suc (heap_n s)")
  case False
  with inv small show ?thesis by (intro that(2) [of s]) (auto simp: min_heap_reserve_def min_heap_inv_def)
next
  case True
  define a' where "a' = (if heap_a s = 0 then 8 else heap_a s * 2)"
  have a': "heap_a s < a'" "a' < 1073741824" "heap_n s = heap_a s" "length (heap_p s) = heap_a s"
    using True inv small by (auto simp: a'_def min_heap_inv_def)
  have eq: "min_heap_reserve ok s (Suc (heap_n s)) =
    (if ok (a' * 4) then (0, s\<lparr>heap_p := take a' (heap_p s @ replicate a' None), heap_a := a'\<rparr>) else (-1, s))"
    using True small a' by (simp add: min_heap_reserve_def a'_def)
  show ?thesis
    using a' that(1) that(2) [of "s\<lparr>heap_p := take a' (heap_p s @ replicate a' None), heap_a := a'\<rparr>"] eq
    by (cases "ok (a' * 4)") (auto simp: nth_append)
qed

lemma min_heap_push_correct:
  assumes inv: "min_heap_inv s" and e: "e \<notin> heap_elems s" and small: "heap_a s < 536870912"
  shows "(\<exists>k. \<not> ok k) \<and> min_heap_push ok s e = Some (-1, s) \<or>
    (\<exists>s'. min_heap_push ok s e = Some (0, s') \<and> min_heap_inv s' \<and>
       heap_elems s' = insert e (heap_elems s) \<and> ev_timeout s' = ev_timeout s)"
proof -
  have "heap_n s \<le> heap_a s" using inv by (simp add: min_heap_inv_def)
  then have n: "szadd (heap_n s) (Suc 0) = Suc (heap_n s)" using small by simp
  show ?thesis
  proof (rule min_heap_reserve_cases [OF inv small, of ok])
    fix s1
    assume s1: "min_heap_reserve ok s (Suc (heap_n s)) = (0, s1)" "heap_n s1 = heap_n s" "ev_timeout s1 = ev_timeout s"
      "min_heap_idx s1 = min_heap_idx s" "\<And>i. i < heap_n s \<Longrightarrow> heap_p s1 ! i = heap_p s ! i" "heap_n s < length (heap_p s1)"
      "heap_a s1 = length (heap_p s1)" "heap_a s1 < 1073741824"
    from pushed [OF inv e s1(2-8)] s1 n show ?thesis by (auto simp: min_heap_push_def)
  qed (simp add: min_heap_push_def n)
qed

section \<open>Room, top and timeouts of events in no heap\<close>

lemma shift_up_a: "min_heap_shift_up s h e = Some s' \<Longrightarrow> heap_a s' = heap_a s"
proof (induction s h e rule: min_heap_shift_up.induct)
  case (1 s h e)
  have IH: "heap_a s' = heap_a s1" if "h \<noteq> 0" "heap_slot s (par h) = Some pe" "min_heap_elem_greater s pe e"
    "heap_place s h pe = Some s1" "min_heap_shift_up s1 (par h) e = Some s'" for pe s1
    by (rule 1(1) [OF refl that])
  show ?case using 1(2) heap_place_frame(2) IH
    by (subst (asm) min_heap_shift_up.simps) (force simp: Let_def bind_eq_Some_conv split: if_splits)
qed

lemma shift_down_a: "min_heap_shift_down s h e = Some s' \<Longrightarrow> heap_a s' = heap_a s"
proof (induction s h e rule: min_heap_shift_down.induct)
  case (1 s h e)
  have IH: "heap_a s' = heap_a s1" if "2 * (h + 1) \<le> heap_n s" "min_child_of s (2 * (h + 1)) = Some m" "heap_slot s m = Some c"
    "\<not> \<not> min_heap_elem_greater s e c" "heap_place s h c = Some s1" "min_heap_shift_down s1 m e = Some s'" for m c s1
    by (rule 1(1) [OF refl that])
  show ?case using 1(2) heap_place_frame(2) IH
    by (subst (asm) min_heap_shift_down.simps) (force simp: Let_def bind_eq_Some_conv split: if_splits)
qed

lemma min_heap_erase_a: "min_heap_erase s e = Some (rc, s') \<Longrightarrow> heap_a s' = heap_a s"
  by (auto simp: min_heap_erase_def Let_def bind_eq_Some_conv split: if_splits dest!: shift_up_a shift_down_a)

lemma card_heap_elems:
  assumes "min_heap_inv s"
  shows "card (heap_elems s) = heap_n s"
proof -
  have "\<exists>x. heap_p s ! i = Some x" if "i < heap_n s" for i by (rule heap_elems_slot [OF assms that]) blast
  then have "heap_elems s = (\<lambda>i. the (heap_p s ! i)) ` {..< heap_n s}" by (force simp: heap_elems_def)
  moreover have "inj_on (\<lambda>i. the (heap_p s ! i)) {..< heap_n s}"
  proof (rule inj_onI)
    fix i j assume ij: "i \<in> {..< heap_n s}" "j \<in> {..< heap_n s}" and eq: "the (heap_p s ! i) = the (heap_p s ! j)"
    have "min_heap_idx s (the (heap_p s ! k)) = int k" if k: "k \<in> {..< heap_n s}" for k
    proof -
      have "k < heap_n s" using k by simp
      then obtain x where "heap_p s ! k = Some x" "min_heap_idx s x = int k" by (rule heap_elems_slot [OF assms])
      then show ?thesis by simp
    qed
    from this [OF ij(1)] this [OF ij(2)] show "i = j" unfolding eq by (metis of_nat_eq_iff)
  qed
  ultimately show ?thesis by (simp add: card_image)
qed

lemma min_heap_push_room:
  assumes inv: "min_heap_inv s" and e: "e \<notin> heap_elems s" and room: "heap_n s < heap_a s"
  obtains s' where "min_heap_push ok s e = Some (0, s')" "min_heap_inv s'" "heap_elems s' = insert e (heap_elems s)"
    "ev_timeout s' = ev_timeout s" "heap_a s' = heap_a s"
proof -
  have n: "szadd (heap_n s) (Suc 0) = Suc (heap_n s)" "length (heap_p s) = heap_a s" "heap_a s < 1073741824"
    using inv room by (auto simp: min_heap_inv_def)
  have res: "min_heap_reserve ok s (Suc (heap_n s)) = (0, s)" using room by (simp add: min_heap_reserve_def)
  obtain s' where s': "min_heap_shift_up (s\<lparr>heap_n := Suc (heap_n s)\<rparr>) (heap_n s) e = Some s'" "min_heap_inv s'"
      "heap_elems s' = insert e (heap_elems s)" "ev_timeout s' = ev_timeout s"
    using pushed [OF inv e refl refl refl refl] room n by metis
  show thesis
    by (rule that [of s']) (use s' res n shift_up_a [OF s'(1)] in \<open>simp_all add: min_heap_push_def\<close>)
qed

lemma min_heap_reserve_inv:
  assumes inv: "min_heap_inv s" and small: "heap_a s < 536870912"
  obtains "min_heap_reserve ok s (Suc (heap_n s)) = (-1, s)" "\<exists>k. \<not> ok k"
  | s1 where "min_heap_reserve ok s (Suc (heap_n s)) = (0, s1)" "min_heap_inv s1" "heap_elems s1 = heap_elems s"
      "ev_timeout s1 = ev_timeout s" "heap_n s1 < heap_a s1"
proof (rule min_heap_reserve_cases [OF inv small, of ok])
  fix s1
  assume s1: "min_heap_reserve ok s (Suc (heap_n s)) = (0, s1)" "heap_n s1 = heap_n s" "ev_timeout s1 = ev_timeout s"
    "min_heap_idx s1 = min_heap_idx s" "\<And>i. i < heap_n s \<Longrightarrow> heap_p s1 ! i = heap_p s ! i" "heap_n s < length (heap_p s1)"
    "heap_a s1 = length (heap_p s1)" "heap_a s1 < 1073741824"
  have el: "heap_elems s1 = heap_elems s" using s1(2,5) by (auto simp: heap_elems_def)
  have "key s1 i = key s i" if "i < heap_n s" for i using that s1 by (simp add: key_def)
  then have "min_heap_inv s1"
    using inv s1 el by (auto simp: min_heap_inv_def back_pointers_def heap_ordered_def)
  then show thesis using s1 el by (intro that(2) [of s1]) simp_all
qed (rule that(1))

lemma min_heap_set_timeout:
  assumes inv: "min_heap_inv s" and e: "e \<notin> heap_elems s"
  shows "min_heap_inv (s\<lparr>ev_timeout := (ev_timeout s)(e := t)\<rparr>)"
proof -
  have "key (s\<lparr>ev_timeout := (ev_timeout s)(e := t)\<rparr>) i = key s i" if i: "i < heap_n s" for i
  proof -
    obtain x where "heap_p s ! i = Some x" "x \<in> heap_elems s" by (rule heap_elems_slot [OF inv i])
    with e show ?thesis by (auto simp: key_def)
  qed
  then show ?thesis using inv by (auto simp: min_heap_inv_def back_pointers_def heap_ordered_def heap_elems_def)
qed

lemma min_heap_top_least:
  assumes inv: "min_heap_inv s"
  obtains "heap_elems s = {}" "min_heap_top s = Some None"
  | e where "min_heap_top s = Some (Some e)" "e \<in> heap_elems s" "\<forall>x \<in> heap_elems s. ev_timeout s e \<le> ev_timeout s x"
proof (cases "heap_n s = 0")
  case True
  then show thesis by (intro that(1)) (simp_all add: heap_elems_def min_heap_top_def)
next
  case False
  obtain e where e: "heap_slot s 0 = Some e" "e \<in> heap_elems s" "ev_timeout s e = key s 0"
    using heap_elems_slot [OF inv, of 0] False by blast
  have "ev_timeout s e \<le> ev_timeout s x" if "x \<in> heap_elems s" for x
    using heap_elems_pos [OF inv that] key_root_le [of s] inv e(3) by (metis min_heap_inv_def)
  then show thesis using e False by (intro that(2) [of e]) (simp_all add: min_heap_top_def)
qed

section \<open>The interface to the event loop\<close>

text \<open>
  What the event loop relies on: a set of pending timers, from which \<open>pop\<close> takes one that is due
  first and \<open>erase\<close> takes the one it is given.
\<close>

locale timer_queue =
  fixes elems :: "'q \<Rightarrow> 'e set"
    and due :: "'q \<Rightarrow> 'e \<Rightarrow> 't :: linorder"
    and invar :: "'q \<Rightarrow> bool"
    and pop :: "'q \<Rightarrow> ('e option \<times> 'q) option"
    and erase :: "'q \<Rightarrow> 'e \<Rightarrow> (int \<times> 'q) option"
  assumes finite_elems: "invar q \<Longrightarrow> finite (elems q)"
    and pop_empty: "invar q \<Longrightarrow> elems q = {} \<Longrightarrow> pop q = Some (None, q)"
    and pop_least: "invar q \<Longrightarrow> elems q \<noteq> {} \<Longrightarrow>
      \<exists>e q'. pop q = Some (Some e, q') \<and> e \<in> elems q \<and> (\<forall>x \<in> elems q. due q e \<le> due q x) \<and>
             invar q' \<and> elems q' = elems q - {e} \<and> due q' = due q"
    and erase_elem: "invar q \<Longrightarrow> e \<in> elems q \<Longrightarrow>
      \<exists>q'. erase q e = Some (0, q') \<and> invar q' \<and> elems q' = elems q - {e} \<and> due q' = due q"

text \<open>Popping up to \<open>k\<close> timers, stopping when there is none left.\<close>

primrec pop_n :: "('q \<Rightarrow> ('e option \<times> 'q) option) \<Rightarrow> nat \<Rightarrow> 'q \<Rightarrow> ('e list \<times> 'q) option" where
  "pop_n pop 0 q = Some ([], q)"
| "pop_n pop (Suc k) q =
     (case pop q of
        None \<Rightarrow> None
      | Some (None, q') \<Rightarrow> Some ([], q')
      | Some (Some e, q') \<Rightarrow> map_option (\<lambda>(es, q''). (e # es, q'')) (pop_n pop k q'))"

context timer_queue
begin

lemma pop_n_sorted:
  "invar q \<Longrightarrow> card (elems q) \<le> k \<Longrightarrow>
   \<exists>es q'. pop_n pop k q = Some (es, q') \<and> set es = elems q \<and> distinct es \<and> sorted (map (due q) es) \<and>
     invar q' \<and> elems q' = {}"
proof (induction k arbitrary: q)
  case 0
  then show ?case using finite_elems by simp
next
  case (Suc k)
  show ?case
  proof (cases "elems q = {}")
    case True
    then show ?thesis using pop_empty [OF Suc.prems(1)] Suc.prems by simp
  next
    case False
    then obtain e q' where e: "pop q = Some (Some e, q')" "e \<in> elems q" "\<forall>x \<in> elems q. due q e \<le> due q x"
        "invar q'" "elems q' = elems q - {e}" "due q' = due q"
      using pop_least [OF Suc.prems(1)] by metis
    have "card (elems q') \<le> k"
      using e(2,5) Suc.prems finite_elems by (simp add: card_Diff_singleton)
    with Suc.IH [OF e(4)] obtain es q'' where "pop_n pop k q' = Some (es, q'')" "set es = elems q'"
        "distinct es" "sorted (map (due q') es)" "invar q''" "elems q'' = {}" by auto
    with e show ?thesis by auto
  qed
qed

end

lemma heap_elems_finite: "finite (heap_elems s)"
proof -
  have "heap_elems s \<subseteq> (\<lambda>i. the (heap_p s ! i)) ` {..< heap_n s}" by (force simp: heap_elems_def)
  then show ?thesis using finite_surj by blast
qed

interpretation mh: timer_queue heap_elems ev_timeout min_heap_inv min_heap_pop min_heap_erase
proof
  show "min_heap_pop q = Some (None, q)" if inv: "min_heap_inv q" and e: "heap_elems q = {}" for q
  proof (rule min_heap_pop_empty)
    show "heap_n q = 0" using heap_elems_slot [OF inv, of 0] e by auto
  qed
  show "\<exists>e q'. min_heap_pop q = Some (Some e, q') \<and> e \<in> heap_elems q \<and>
      (\<forall>x \<in> heap_elems q. ev_timeout q e \<le> ev_timeout q x) \<and> min_heap_inv q' \<and>
      heap_elems q' = heap_elems q - {e} \<and> ev_timeout q' = ev_timeout q"
    if "min_heap_inv q" "heap_elems q \<noteq> {}" for q
    using min_heap_pop_correct [OF that] by metis
  show "\<exists>q'. min_heap_erase q e = Some (0, q') \<and> min_heap_inv q' \<and>
      heap_elems q' = heap_elems q - {e} \<and> ev_timeout q' = ev_timeout q"
    if "min_heap_inv q" "e \<in> heap_elems q" for q e
    using min_heap_erase_correct [OF that] by metis
qed (rule heap_elems_finite)

section \<open>Properties\<close>

text \<open>A heap with two timers, for the witnesses below.\<close>

definition two_timers :: min_heap where
  "two_timers = \<lparr>heap_p = [Some 1, Some 2], heap_n = 2, heap_a = 2, ev_timeout = (\<lambda>e. Timeval (int e) 0),
     min_heap_idx = (\<lambda>_. -1)(1 := 0, 2 := 1)\<rparr>"

lemma two_timers_inv: "min_heap_inv two_timers"
  by (auto simp: min_heap_inv_def two_timers_def back_pointers_def heap_ordered_def heap_elems_def
      key_def less_Suc_eq numeral_2_eq_2 less_eq_timeval_def less_timeval_def)

lemma two_timers_elems: "heap_elems two_timers = {1, 2}"
  by (auto simp: heap_elems_def two_timers_def less_Suc_eq numeral_2_eq_2)

text \<open>
  C1. Adding a timer that is in no heap either fails because an allocation was refused, and then
  changes nothing, or adds exactly that timer and keeps heap order, back pointers and array bounds; it never
  reads or writes outside the array.
\<close>

theorem min_heap_push_inserts:
  assumes "min_heap_inv s" "min_heap_idx s e = -1" "heap_a s < 536870912"
  shows "(\<exists>k. \<not> ok k) \<and> min_heap_push ok s e = Some (-1, s) \<or>
    (\<exists>s'. min_heap_push ok s e = Some (0, s') \<and> min_heap_inv s' \<and>
       heap_elems s' = insert e (heap_elems s) \<and> ev_timeout s' = ev_timeout s)"
  using assms by (intro min_heap_push_correct) (auto simp: idx_iff_elem [symmetric])

theorem min_heap_push_inserts_witness:
  "(\<exists>k. \<not> (\<lambda>_. True) (k :: nat)) \<and> min_heap_push (\<lambda>_. True) two_timers 0 = Some (-1, two_timers) \<or>
    (\<exists>s'. min_heap_push (\<lambda>_. True) two_timers 0 = Some (0, s') \<and> min_heap_inv s' \<and>
       heap_elems s' = insert 0 (heap_elems two_timers) \<and> ev_timeout s' = ev_timeout two_timers)"
  by (rule min_heap_push_inserts [OF two_timers_inv]) (simp_all add: two_timers_def)

text \<open>
  C2. Erasing a timer from anywhere in the heap removes exactly that timer, marks it as being in no
  heap, and keeps the invariant.
\<close>

theorem min_heap_erase_removes:
  assumes "min_heap_inv s" "min_heap_idx s e \<noteq> -1"
  shows "\<exists>s'. min_heap_erase s e = Some (0, s') \<and> min_heap_inv s' \<and>
    heap_elems s' = heap_elems s - {e} \<and> ev_timeout s' = ev_timeout s \<and> min_heap_idx s' e = -1"
  using assms by (intro min_heap_erase_correct) (auto simp: idx_iff_elem [symmetric])

theorem min_heap_erase_removes_witness:
  "\<exists>s'. min_heap_erase two_timers 1 = Some (0, s') \<and> min_heap_inv s' \<and>
    heap_elems s' = heap_elems two_timers - {1} \<and> ev_timeout s' = ev_timeout two_timers \<and>
    min_heap_idx s' 1 = -1"
  by (rule min_heap_erase_removes [OF two_timers_inv]) (simp add: two_timers_def)

text \<open>
  C3. Popping until the heap is empty yields every pending timer exactly once, in the order of their
  timeouts.
\<close>

theorem min_heap_pops_in_order:
  assumes "min_heap_inv s" "card (heap_elems s) \<le> k"
  shows "\<exists>es s'. pop_n min_heap_pop k s = Some (es, s') \<and> set es = heap_elems s \<and> distinct es \<and>
    sorted (map (ev_timeout s) es) \<and> min_heap_inv s' \<and> heap_elems s' = {}"
  using assms by (rule mh.pop_n_sorted)

theorem min_heap_pops_in_order_witness:
  "\<exists>es s'. pop_n min_heap_pop 2 two_timers = Some (es, s') \<and> set es = heap_elems two_timers \<and>
    distinct es \<and> sorted (map (ev_timeout two_timers) es) \<and> min_heap_inv s' \<and> heap_elems s' = {}"
  by (rule min_heap_pops_in_order [OF two_timers_inv]) (simp add: two_timers_elems)

end
