(* ===== verification/Evbuffer.thy ===== *)
theory Evbuffer
  imports Prelude
begin

text \<open>
  The byte buffer of libevent, \<^verbatim>\<open>buffer.c\<close> and \<^verbatim>\<open>evbuffer-internal.h\<close>: a linked list of chains of
  memory. The list is a HOL list; \<open>buf->last\<close> is its last element; \<open>last_with_datap\<close>, a pointer to
  one of the \<open>next\<close> pointers of the list, is the index of the chain it leads to (index 0 is
  \<open>&buf->first\<close>), so \<open>*last_with_datap\<close> is the chain at that index, or NULL past the end.
  Locks do not appear: the model is of one thread holding the buffer's lock.

  User callbacks and the release of memory are external effects: the model records each of them, in
  order and with its arguments, in the log of the buffer.
\<close>

section \<open>Data\<close>

definition MIN_BUFFER_SIZE :: nat where [cfg_defs]: "MIN_BUFFER_SIZE = 512"
definition EVBUFFER_CHAIN_MAX :: nat where [cfg_defs]: "EVBUFFER_CHAIN_MAX = EV_SSIZE_MAX"
definition EVBUFFER_CHAIN_SIZE :: nat where [cfg_defs]: "EVBUFFER_CHAIN_SIZE = 24"
definition EVBUFFER_CHAIN_MAX_AUTO_SIZE :: nat where [cfg_defs]: "EVBUFFER_CHAIN_MAX_AUTO_SIZE = 4096"
definition MAX_TO_COPY_IN_EXPAND :: nat where [cfg_defs]: "MAX_TO_COPY_IN_EXPAND = 4096"
definition MAX_TO_REALIGN_IN_EXPAND :: nat where [cfg_defs]: "MAX_TO_REALIGN_IN_EXPAND = 2048"

definition EVBUFFER_MMAP :: u32 where "EVBUFFER_MMAP = 0x0001"
definition EVBUFFER_SENDFILE :: u32 where "EVBUFFER_SENDFILE = 0x0002"
definition EVBUFFER_REFERENCE :: u32 where "EVBUFFER_REFERENCE = 0x0004"
definition EVBUFFER_IMMUTABLE :: u32 where "EVBUFFER_IMMUTABLE = 0x0008"
definition EVBUFFER_MEM_PINNED_R :: u32 where "EVBUFFER_MEM_PINNED_R = 0x0010"
definition EVBUFFER_MEM_PINNED_W :: u32 where "EVBUFFER_MEM_PINNED_W = 0x0020"
definition EVBUFFER_MEM_PINNED_ANY :: u32 where
  "EVBUFFER_MEM_PINNED_ANY = EVBUFFER_MEM_PINNED_R OR EVBUFFER_MEM_PINNED_W"
definition EVBUFFER_DANGLING :: u32 where "EVBUFFER_DANGLING = 0x0040"

definition EVBUFFER_CB_ENABLED :: u32 where "EVBUFFER_CB_ENABLED = 0x1"
definition EVBUFFER_CB_NODEFER :: u32 where "EVBUFFER_CB_NODEFER = 0x2"
definition EVBUFFER_CB_INTERNAL_FLAGS :: u32 where "EVBUFFER_CB_INTERNAL_FLAGS = 0xffff0000"
definition EVBUFFER_CB_OBSOLETE :: u32 where "EVBUFFER_CB_OBSOLETE = 0x00040000"

text \<open>
  A chain. \<open>ch_buffer\<close> is the memory \<open>buffer\<close> points at; its length is the field \<open>buffer_len\<close>.
  \<open>ch_cleanup\<close> says whether a reference chain has a \<open>cleanupfn\<close>.
\<close>

record evbuffer_chain =
  ch_buffer :: "byte list"
  ch_misalign :: nat
  ch_off :: nat
  ch_flags :: u32
  ch_cleanup :: bool

abbreviation ch_buffer_len :: "evbuffer_chain \<Rightarrow> nat" where
  "ch_buffer_len ch \<equiv> length (ch_buffer ch)"

record evbuffer_cb_entry =
  cb_id :: nat    \<comment> \<open>the function pointer and its argument\<close>
  cb_flags :: u32

datatype buf_event =
    CbFunc nat nat nat nat       \<comment> \<open>\<open>cb_func\<close>: entry, \<open>orig_size\<close>, \<open>n_added\<close>, \<open>n_deleted\<close>\<close>
  | CbObsolete nat nat nat       \<comment> \<open>\<open>cb_obsolete\<close>: entry, old size, new size\<close>
  | RefCleanup "byte list"       \<comment> \<open>\<open>cleanupfn\<close> of a reference chain\<close>
  | Munmap "byte list"           \<comment> \<open>\<open>munmap\<close> and \<open>close\<close> of a mapped chain\<close>
  | CloseFd                      \<comment> \<open>\<open>close\<close> of a sendfile chain\<close>
  | MarkDangling                 \<comment> \<open>a pinned chain that will be freed on unpinning\<close>
  | ParentIncref                 \<comment> \<open>\<open>bufferevent_incref(buffer->parent)\<close>\<close>
  | ParentDecref                 \<comment> \<open>\<open>bufferevent_decref(parent)\<close>\<close>
  | ScheduleDeferred             \<comment> \<open>\<open>event_deferred_cb_schedule\<close>\<close>

record evbuffer =
  chains :: "evbuffer_chain list"
  last_with_datap :: nat
  total_len :: nat
  n_add_for_cb :: nat
  n_del_for_cb :: nat
  freeze_start :: bool
  freeze_end :: bool
  deferred_cbs :: bool
  deferred_queued :: bool
  buf_flags :: u32
  refcnt :: int
  has_parent :: bool
  callbacks :: "evbuffer_cb_entry list"
  buf_log :: "buf_event list"

section \<open>Chains\<close>

definition CHAIN_PINNED :: "evbuffer_chain \<Rightarrow> bool" where
  "CHAIN_PINNED ch \<longleftrightarrow> ch_flags ch AND EVBUFFER_MEM_PINNED_ANY \<noteq> 0"

definition CHAIN_PINNED_R :: "evbuffer_chain \<Rightarrow> bool" where
  "CHAIN_PINNED_R ch \<longleftrightarrow> ch_flags ch AND EVBUFFER_MEM_PINNED_R \<noteq> 0"

definition CHAIN_IMMUTABLE :: "evbuffer_chain \<Rightarrow> bool" where
  "CHAIN_IMMUTABLE ch \<longleftrightarrow> ch_flags ch AND EVBUFFER_IMMUTABLE \<noteq> 0"

definition CHAIN_SPACE_LEN :: "evbuffer_chain \<Rightarrow> nat" where
  "CHAIN_SPACE_LEN ch =
     (if CHAIN_IMMUTABLE ch then 0 else szsub (ch_buffer_len ch) (ch_misalign ch + ch_off ch))"

text \<open>The doubling loop of \<open>evbuffer_chain_new\<close>; it starts from \<open>MIN_BUFFER_SIZE\<close>.\<close>

function next_alloc :: "nat \<Rightarrow> nat \<Rightarrow> nat" where
  "next_alloc to_alloc sz =
     (if 0 < to_alloc \<and> to_alloc < sz then next_alloc (2 * to_alloc) sz else to_alloc)"
  by pat_completeness auto
termination
  by (relation "measure (\<lambda>(t, s). s - t)") auto

declare next_alloc.simps [simp del]

definition evbuffer_chain_new :: "malloc \<Rightarrow> nat \<Rightarrow> evbuffer_chain option" where
  "evbuffer_chain_new mal sz =
     (if sz > EVBUFFER_CHAIN_MAX - EVBUFFER_CHAIN_SIZE then None
      else
        let sz' = sz + EVBUFFER_CHAIN_SIZE;
            to_alloc = (if sz' < EVBUFFER_CHAIN_MAX div 2 then next_alloc MIN_BUFFER_SIZE sz' else sz')
        in case mal to_alloc of
             None \<Rightarrow> None
           | Some mem \<Rightarrow> Some \<lparr>ch_buffer = drop EVBUFFER_CHAIN_SIZE mem, ch_misalign = 0, ch_off = 0,
                              ch_flags = 0, ch_cleanup = False\<rparr>)"

definition evbuffer_chain_free :: "evbuffer_chain \<Rightarrow> buf_event list" where
  "evbuffer_chain_free ch =
     (if CHAIN_PINNED ch then [MarkDangling]
      else (if ch_flags ch AND EVBUFFER_REFERENCE \<noteq> 0 \<and> ch_cleanup ch then [RefCleanup (ch_buffer ch)] else [])
         @ (if ch_flags ch AND EVBUFFER_MMAP \<noteq> 0 then [Munmap (ch_buffer ch)] else [])
         @ (if ch_flags ch AND EVBUFFER_SENDFILE \<noteq> 0 then [CloseFd] else []))"

definition evbuffer_free_all_chains :: "evbuffer_chain list \<Rightarrow> evbuffer \<Rightarrow> evbuffer" where
  "evbuffer_free_all_chains cs buf = buf\<lparr>buf_log := buf_log buf @ concat (map evbuffer_chain_free cs)\<rparr>"

definition evbuffer_chains_all_empty :: "evbuffer_chain list \<Rightarrow> bool" where
  "evbuffer_chains_all_empty cs \<longleftrightarrow> list_all (\<lambda>ch. ch_off ch = 0) cs"

text \<open>
  \<open>*ch\<close> after the loop "while (*ch) && ((*ch)->off != 0 || CHAIN_PINNED(*ch))" that looks for the
  first chain that may be replaced.
\<close>

definition first_victim :: "evbuffer \<Rightarrow> nat" where
  "first_victim buf =
     last_with_datap buf +
     length (takeWhile (\<lambda>ch. ch_off ch \<noteq> 0 \<or> CHAIN_PINNED ch) (drop (last_with_datap buf) (chains buf)))"

definition evbuffer_free_trailing_empty_chains :: "evbuffer \<Rightarrow> (nat \<times> evbuffer) option" where
  "evbuffer_free_trailing_empty_chains buf =
     (let ch = first_victim buf in
      if ch < length (chains buf) then do {
        ev_assert (evbuffer_chains_all_empty (drop ch (chains buf)));
        Some (ch, (evbuffer_free_all_chains (drop ch (chains buf)) buf)\<lparr>chains := take ch (chains buf)\<rparr>)
      }
      else Some (ch, buf))"

definition evbuffer_chain_insert :: "evbuffer \<Rightarrow> evbuffer_chain \<Rightarrow> evbuffer option" where
  "evbuffer_chain_insert buf chain = do {
     buf1 \<leftarrow>
       (if last_with_datap buf \<ge> length (chains buf) then do {
          ev_assert (last_with_datap buf = 0);
          ev_assert (chains buf = []);
          Some (buf\<lparr>chains := [chain]\<rparr>)
        }
        else
          let ch = first_victim buf in
          if ch \<ge> length (chains buf)
          then Some (buf\<lparr>chains := chains buf @ [chain],
                         last_with_datap := (if ch_off chain \<noteq> 0 then length (chains buf)
                                             else last_with_datap buf)\<rparr>)
          else do {
            ev_assert (evbuffer_chains_all_empty (drop ch (chains buf)));
            Some ((evbuffer_free_all_chains (drop ch (chains buf)) buf)
                    \<lparr>chains := take ch (chains buf) @ [chain]\<rparr>)
          });
     Some (buf1\<lparr>total_len := szadd (total_len buf1) (ch_off chain)\<rparr>)
   }"

text \<open>The new chain is the last one of the buffer. \<open>None\<close> inside \<open>Some\<close>: out of memory.\<close>

definition evbuffer_chain_insert_new :: "malloc \<Rightarrow> evbuffer \<Rightarrow> nat \<Rightarrow> evbuffer option option" where
  "evbuffer_chain_insert_new mal buf datlen =
     (case evbuffer_chain_new mal datlen of
        None \<Rightarrow> Some None
      | Some chain \<Rightarrow> map_option Some (evbuffer_chain_insert buf chain))"

definition evbuffer_chain_pin :: "evbuffer_chain \<Rightarrow> u32 \<Rightarrow> evbuffer_chain option" where
  "evbuffer_chain_pin ch flag = do {
     ev_assert (ch_flags ch AND flag = 0);
     Some (ch\<lparr>ch_flags := ch_flags ch OR flag\<rparr>)
   }"

definition evbuffer_chain_unpin :: "evbuffer_chain \<Rightarrow> u32 \<Rightarrow> (evbuffer_chain \<times> buf_event list) option" where
  "evbuffer_chain_unpin ch flag = do {
     ev_assert (ch_flags ch AND flag \<noteq> 0);
     let ch' = ch\<lparr>ch_flags := ch_flags ch AND NOT flag\<rparr>;
     Some (ch', if ch_flags ch' AND EVBUFFER_DANGLING \<noteq> 0 then evbuffer_chain_free ch' else [])
   }"

definition evbuffer_chain_align :: "evbuffer_chain \<Rightarrow> evbuffer_chain option" where
  "evbuffer_chain_align ch = do {
     ev_assert (\<not> CHAIN_IMMUTABLE ch);
     ev_assert (\<not> CHAIN_PINNED ch);
     bs \<leftarrow> mem_read (ch_buffer ch) (ch_misalign ch) (ch_off ch);
     mem \<leftarrow> mem_write (ch_buffer ch) 0 bs;
     Some (ch\<lparr>ch_buffer := mem, ch_misalign := 0\<rparr>)
   }"

definition evbuffer_chain_should_realign :: "evbuffer_chain \<Rightarrow> nat \<Rightarrow> bool" where
  "evbuffer_chain_should_realign ch datlen \<longleftrightarrow>
     szsub (ch_buffer_len ch) (ch_off ch) \<ge> datlen \<and> ch_off ch < ch_buffer_len ch div 2 \<and>
     ch_off ch \<le> MAX_TO_REALIGN_IN_EXPAND"

section \<open>Buffers: life cycle and callbacks\<close>

definition evbuffer_new :: evbuffer where
  "evbuffer_new =
     \<lparr>chains = [], last_with_datap = 0, total_len = 0, n_add_for_cb = 0, n_del_for_cb = 0,
      freeze_start = False, freeze_end = False, deferred_cbs = False, deferred_queued = False,
      buf_flags = 0, refcnt = 1, has_parent = False, callbacks = [], buf_log = []\<rparr>"

definition evbuffer_set_flags :: "evbuffer \<Rightarrow> u64 \<Rightarrow> evbuffer" where
  "evbuffer_set_flags buf fl = buf\<lparr>buf_flags := buf_flags buf OR ucast fl\<rparr>"

definition evbuffer_clear_flags :: "evbuffer \<Rightarrow> u64 \<Rightarrow> evbuffer" where
  "evbuffer_clear_flags buf fl = buf\<lparr>buf_flags := buf_flags buf AND NOT (ucast fl)\<rparr>"

definition evbuffer_incref :: "evbuffer \<Rightarrow> evbuffer" where
  "evbuffer_incref buf = buf\<lparr>refcnt := refcnt buf + 1\<rparr>"

definition evbuffer_defer_callbacks :: "evbuffer \<Rightarrow> evbuffer" where
  "evbuffer_defer_callbacks buf = buf\<lparr>deferred_cbs := True, deferred_queued := False\<rparr>"

definition evbuffer_set_parent :: "evbuffer \<Rightarrow> bool \<Rightarrow> evbuffer" where
  "evbuffer_set_parent buf bev = buf\<lparr>has_parent := bev\<rparr>"

definition evbuffer_run_callbacks :: "evbuffer \<Rightarrow> bool \<Rightarrow> evbuffer" where
  "evbuffer_run_callbacks buf running_deferred =
     (let mask = (if running_deferred \<or> deferred_cbs buf then EVBUFFER_CB_NODEFER OR EVBUFFER_CB_ENABLED
                  else EVBUFFER_CB_ENABLED);
          masked_val = (if running_deferred then EVBUFFER_CB_ENABLED
                        else if deferred_cbs buf then EVBUFFER_CB_NODEFER OR EVBUFFER_CB_ENABLED
                        else EVBUFFER_CB_ENABLED);
          clear = (running_deferred \<or> \<not> deferred_cbs buf)
      in if callbacks buf = [] then buf\<lparr>n_add_for_cb := 0, n_del_for_cb := 0\<rparr>
         else if n_add_for_cb buf = 0 \<and> n_del_for_cb buf = 0 then buf
         else
           let new_size = total_len buf;
               orig_size = szsub (szadd new_size (n_del_for_cb buf)) (n_add_for_cb buf);
               n_added = n_add_for_cb buf;
               n_deleted = n_del_for_cb buf;
               call = (\<lambda>cbent. if cb_flags cbent AND EVBUFFER_CB_OBSOLETE \<noteq> 0
                               then CbObsolete (cb_id cbent) orig_size new_size
                               else CbFunc (cb_id cbent) orig_size n_added n_deleted);
               called = filter (\<lambda>cbent. cb_flags cbent AND mask = masked_val) (callbacks buf);
               buf1 = (if clear then buf\<lparr>n_add_for_cb := 0, n_del_for_cb := 0\<rparr> else buf)
           in buf1\<lparr>buf_log := buf_log buf1 @ map call called\<rparr>)"

definition evbuffer_invoke_callbacks :: "evbuffer \<Rightarrow> evbuffer" where
  "evbuffer_invoke_callbacks buf =
     (if callbacks buf = [] then buf\<lparr>n_add_for_cb := 0, n_del_for_cb := 0\<rparr>
      else if deferred_cbs buf \<and> deferred_queued buf then buf
      else
        let buf1 = (if deferred_cbs buf
                    then (evbuffer_incref buf)\<lparr>
                           deferred_queued := True,
                           buf_log := buf_log buf @ (if has_parent buf then [ParentIncref] else []) @ [ScheduleDeferred]\<rparr>
                    else buf)
        in evbuffer_run_callbacks buf1 False)"

text \<open>Returns the buffer and whether it was freed.\<close>

definition evbuffer_decref_and_unlock :: "evbuffer \<Rightarrow> (evbuffer \<times> bool) option" where
  "evbuffer_decref_and_unlock buf = do {
     ev_assert (refcnt buf > 0);
     let buf1 = buf\<lparr>refcnt := refcnt buf - 1\<rparr>;
     if refcnt buf1 > 0 then Some (buf1, False)
     else Some ((evbuffer_free_all_chains (chains buf1) buf1)\<lparr>chains := [], callbacks := [],
                  deferred_queued := (if deferred_cbs buf1 then False else deferred_queued buf1)\<rparr>, True)
   }"

definition evbuffer_free :: "evbuffer \<Rightarrow> (evbuffer \<times> bool) option" where
  "evbuffer_free buf = evbuffer_decref_and_unlock buf"

text \<open>The callback the event loop runs, after it has taken the deferred entry off its queue.\<close>

definition evbuffer_deferred_callback :: "evbuffer \<Rightarrow> (evbuffer \<times> bool) option" where
  "evbuffer_deferred_callback buf = do {
     (buf1, freed) \<leftarrow> evbuffer_decref_and_unlock (evbuffer_run_callbacks buf True);
     Some (buf1\<lparr>buf_log := buf_log buf1 @ (if has_parent buf then [ParentDecref] else [])\<rparr>, freed)
   }"

definition evbuffer_get_length :: "evbuffer \<Rightarrow> nat" where
  "evbuffer_get_length buf = total_len buf"

definition evbuffer_get_contiguous_space :: "evbuffer \<Rightarrow> nat" where
  "evbuffer_get_contiguous_space buf = (case chains buf of [] \<Rightarrow> 0 | ch # _ \<Rightarrow> ch_off ch)"

definition evbuffer_add_cb :: "evbuffer \<Rightarrow> nat \<Rightarrow> evbuffer" where
  "evbuffer_add_cb buf cb = buf\<lparr>callbacks := \<lparr>cb_id = cb, cb_flags = EVBUFFER_CB_ENABLED\<rparr> # callbacks buf\<rparr>"

definition evbuffer_setcb :: "evbuffer \<Rightarrow> nat option \<Rightarrow> evbuffer" where
  "evbuffer_setcb buf cb =
     (case cb of
        None \<Rightarrow> buf\<lparr>callbacks := []\<rparr>
      | Some f \<Rightarrow> buf\<lparr>callbacks := [\<lparr>cb_id = f, cb_flags = EVBUFFER_CB_ENABLED OR EVBUFFER_CB_OBSOLETE\<rparr>]\<rparr>)"

fun remove_first_cb :: "nat \<Rightarrow> evbuffer_cb_entry list \<Rightarrow> evbuffer_cb_entry list" where
  "remove_first_cb cb [] = []"
| "remove_first_cb cb (e # es) = (if cb_id e = cb then es else e # remove_first_cb cb es)"

definition evbuffer_remove_cb :: "evbuffer \<Rightarrow> nat \<Rightarrow> int \<times> evbuffer" where
  "evbuffer_remove_cb buf cb =
     (if \<exists>e \<in> set (callbacks buf). cb_id e = cb
      then (0, buf\<lparr>callbacks := remove_first_cb cb (callbacks buf)\<rparr>) else (-1, buf))"

definition evbuffer_cb_set_flags :: "evbuffer_cb_entry \<Rightarrow> u32 \<Rightarrow> evbuffer_cb_entry" where
  "evbuffer_cb_set_flags e fl = e\<lparr>cb_flags := cb_flags e OR (fl AND NOT EVBUFFER_CB_INTERNAL_FLAGS)\<rparr>"

definition evbuffer_cb_clear_flags :: "evbuffer_cb_entry \<Rightarrow> u32 \<Rightarrow> evbuffer_cb_entry" where
  "evbuffer_cb_clear_flags e fl = e\<lparr>cb_flags := cb_flags e AND NOT (fl AND NOT EVBUFFER_CB_INTERNAL_FLAGS)\<rparr>"

definition evbuffer_freeze :: "evbuffer \<Rightarrow> bool \<Rightarrow> evbuffer" where
  "evbuffer_freeze buf start = (if start then buf\<lparr>freeze_start := True\<rparr> else buf\<lparr>freeze_end := True\<rparr>)"

definition evbuffer_unfreeze :: "evbuffer \<Rightarrow> bool \<Rightarrow> evbuffer" where
  "evbuffer_unfreeze buf start = (if start then buf\<lparr>freeze_start := False\<rparr> else buf\<lparr>freeze_end := False\<rparr>)"

section \<open>Adding bytes\<close>

definition set_last :: "evbuffer \<Rightarrow> evbuffer_chain \<Rightarrow> evbuffer" where
  "set_last buf ch = buf\<lparr>chains := butlast (chains buf) @ [ch]\<rparr>"

definition added :: "evbuffer \<Rightarrow> nat \<Rightarrow> evbuffer" where
  "added buf k = buf\<lparr>total_len := szadd (total_len buf) k, n_add_for_cb := szadd (n_add_for_cb buf) k\<rparr>"

text \<open>"if (remain)": fill the last chain up.\<close>

definition evbuffer_fill_last :: "evbuffer \<Rightarrow> byte list \<Rightarrow> nat \<Rightarrow> evbuffer option" where
  "evbuffer_fill_last buf data remain =
     (let chain = last (chains buf) in
      if remain \<noteq> 0 then do {
        mem \<leftarrow> mem_write (ch_buffer chain) (ch_misalign chain + ch_off chain) (take remain data);
        Some (added (set_last buf (chain\<lparr>ch_buffer := mem, ch_off := ch_off chain + remain\<rparr>)) remain)
      }
      else Some buf)"

text \<open>The tail of \<open>evbuffer_add\<close>, from "we need to add another chain".\<close>

definition evbuffer_add_grow :: "malloc \<Rightarrow> evbuffer \<Rightarrow> byte list \<Rightarrow> nat \<Rightarrow> (int \<times> evbuffer) option" where
  "evbuffer_add_grow mal buf data remain =
     (let datlen = length data;
          chain = last (chains buf);
          to_alloc = ch_buffer_len chain;
          to_alloc = (if to_alloc \<le> EVBUFFER_CHAIN_MAX_AUTO_SIZE div 2 then 2 * to_alloc else to_alloc);
          to_alloc = (if datlen > to_alloc then datlen else to_alloc)
      in case evbuffer_chain_new mal to_alloc of
           None \<Rightarrow> Some (-1, buf)
         | Some tmp \<Rightarrow> do {
             buf1 \<leftarrow> evbuffer_fill_last buf data remain;
             let rest = drop remain data;
             mem \<leftarrow> mem_write (ch_buffer tmp) 0 rest;
             buf2 \<leftarrow> evbuffer_chain_insert buf1 (tmp\<lparr>ch_buffer := mem, ch_off := length rest\<rparr>);
             Some (0, evbuffer_invoke_callbacks
                        (buf2\<lparr>n_add_for_cb := szadd (n_add_for_cb buf2) (length rest)\<rparr>))
           })"

definition evbuffer_add_last :: "malloc \<Rightarrow> evbuffer \<Rightarrow> byte list \<Rightarrow> (int \<times> evbuffer) option" where
  "evbuffer_add_last mal buf data =
     (let datlen = length data; chain = last (chains buf) in
      if \<not> CHAIN_IMMUTABLE chain then do {
        ev_assert (ch_misalign chain \<le> EVBUFFER_CHAIN_MAX);
        let remain = szsub (szsub (ch_buffer_len chain) (ch_misalign chain)) (ch_off chain);
        if remain \<ge> datlen then do {
          mem \<leftarrow> mem_write (ch_buffer chain) (ch_misalign chain + ch_off chain) data;
          Some (0, evbuffer_invoke_callbacks
                     (added (set_last buf (chain\<lparr>ch_buffer := mem, ch_off := ch_off chain + datlen\<rparr>)) datlen))
        }
        else if \<not> CHAIN_PINNED chain \<and> evbuffer_chain_should_realign chain datlen then do {
          chain1 \<leftarrow> evbuffer_chain_align chain;
          mem \<leftarrow> mem_write (ch_buffer chain1) (ch_off chain1) data;
          Some (0, evbuffer_invoke_callbacks
                     (added (set_last buf (chain1\<lparr>ch_buffer := mem, ch_off := ch_off chain1 + datlen\<rparr>)) datlen))
        }
        else evbuffer_add_grow mal buf data remain
      }
      else evbuffer_add_grow mal buf data 0)"

definition evbuffer_add :: "malloc \<Rightarrow> evbuffer \<Rightarrow> byte list \<Rightarrow> (int \<times> evbuffer) option" where
  "evbuffer_add mal buf data =
     (let datlen = length data in
      if freeze_end buf then Some (-1, buf)
      else if datlen > EV_SIZE_MAX - total_len buf then Some (-1, buf)
      else if chains buf = [] then
        (case evbuffer_chain_new mal datlen of
           None \<Rightarrow> Some (-1, buf)
         | Some chain \<Rightarrow> do {
             buf1 \<leftarrow> evbuffer_chain_insert buf chain;
             evbuffer_add_last mal buf1 data
           })
      else evbuffer_add_last mal buf data)"

text \<open>
  \<open>evbuffer_prepend\<close>. The last line but one adds \<open>chain->misalign\<close> of the old first chain, not
  \<open>datlen\<close>, to \<open>n_add_for_cb\<close>; the model does as the code does.
\<close>

definition evbuffer_prepend_chain ::
    "malloc \<Rightarrow> evbuffer \<Rightarrow> byte list \<Rightarrow> (int \<times> evbuffer) option" where
  "evbuffer_prepend_chain mal buf data =
     (case evbuffer_chain_new mal (length data) of
        None \<Rightarrow> Some (-1, buf)
      | Some tmp \<Rightarrow> do {
          ev_assert (length data \<le> ch_buffer_len tmp);
          let mis = ch_buffer_len tmp - length data;
          mem \<leftarrow> mem_write (ch_buffer tmp) mis data;
          let buf1 = buf\<lparr>chains := tmp\<lparr>ch_buffer := mem, ch_off := length data, ch_misalign := mis\<rparr> # chains buf,
                          last_with_datap := Suc (last_with_datap buf),
                          total_len := szadd (total_len buf) (length data),
                          n_add_for_cb := szadd (n_add_for_cb buf) (ch_misalign (hd (chains buf)))\<rparr>;
          Some (0, evbuffer_invoke_callbacks buf1)
        })"

definition evbuffer_prepend_first :: "malloc \<Rightarrow> evbuffer \<Rightarrow> byte list \<Rightarrow> (int \<times> evbuffer) option" where
  "evbuffer_prepend_first mal buf data =
     (let datlen = length data; chain = hd (chains buf) in
      if \<not> CHAIN_IMMUTABLE chain then do {
        ev_assert (ch_misalign chain \<le> EVBUFFER_CHAIN_MAX);
        let mis = (if ch_off chain = 0 then ch_buffer_len chain else ch_misalign chain);
        if mis \<ge> datlen then do {
          mem \<leftarrow> mem_write (ch_buffer chain) (mis - datlen) data;
          let chain1 = chain\<lparr>ch_buffer := mem, ch_off := ch_off chain + datlen, ch_misalign := mis - datlen\<rparr>;
          Some (0, evbuffer_invoke_callbacks (added (buf\<lparr>chains := chain1 # tl (chains buf)\<rparr>) datlen))
        }
        else if mis \<noteq> 0 then do {
          mem \<leftarrow> mem_write (ch_buffer chain) 0 (drop (datlen - mis) data);
          let chain1 = chain\<lparr>ch_buffer := mem, ch_off := ch_off chain + mis, ch_misalign := 0\<rparr>;
          evbuffer_prepend_chain mal (added (buf\<lparr>chains := chain1 # tl (chains buf)\<rparr>) mis)
            (take (datlen - mis) data)
        }
        else evbuffer_prepend_chain mal (buf\<lparr>chains := chain\<lparr>ch_misalign := mis\<rparr> # tl (chains buf)\<rparr>) data
      }
      else evbuffer_prepend_chain mal buf data)"

definition evbuffer_prepend :: "malloc \<Rightarrow> evbuffer \<Rightarrow> byte list \<Rightarrow> (int \<times> evbuffer) option" where
  "evbuffer_prepend mal buf data =
     (let datlen = length data in
      if freeze_start buf then Some (-1, buf)
      else if datlen > EV_SIZE_MAX - total_len buf then Some (-1, buf)
      else if chains buf = [] then
        (case evbuffer_chain_new mal datlen of
           None \<Rightarrow> Some (-1, buf)
         | Some chain \<Rightarrow> do {
             buf1 \<leftarrow> evbuffer_chain_insert buf chain;
             evbuffer_prepend_first mal buf1 data
           })
      else evbuffer_prepend_first mal buf data)"

section \<open>Removing and reading bytes\<close>

definition HAS_PINNED_R :: "evbuffer \<Rightarrow> bool" where
  "HAS_PINNED_R buf \<longleftrightarrow> chains buf \<noteq> [] \<and> CHAIN_PINNED_R (last (chains buf))"

definition ZERO_CHAIN :: "evbuffer \<Rightarrow> evbuffer" where
  "ZERO_CHAIN buf = buf\<lparr>chains := [], last_with_datap := 0, total_len := 0\<rparr>"

text \<open>
  The loop of \<open>evbuffer_drain\<close>: the chains still linked, the number \<open>k\<close> of the first of them in the
  original list, \<open>last_with_datap\<close> as an index into the original list, the bytes still to drain, and
  the chains freed so far. Running off the list is a null dereference.
\<close>

fun drain_loop ::
    "evbuffer_chain list \<Rightarrow> nat \<Rightarrow> nat \<Rightarrow> nat \<Rightarrow> evbuffer_chain list \<Rightarrow>
     (evbuffer_chain list \<times> nat \<times> nat \<times> nat \<times> evbuffer_chain list) option" where
  "drain_loop [] k lwd remaining freed = None"
| "drain_loop (chain # cs) k lwd remaining freed =
     (if remaining \<ge> ch_off chain then
        let remaining' = remaining - ch_off chain;
            lwd1 = (if k = lwd then 0 else lwd);
            lwd2 = (if Suc k = lwd1 then 0 else lwd1)
        in if CHAIN_PINNED_R chain
           then do {
             ev_assert (remaining' = 0);
             Some (chain\<lparr>ch_misalign := ch_misalign chain + ch_off chain, ch_off := 0\<rparr> # cs,
                   k, lwd2, remaining', freed)
           }
           else drain_loop cs (Suc k) lwd2 remaining' (freed @ [chain])
      else Some (chain # cs, k, lwd, remaining, freed))"

definition evbuffer_drain :: "evbuffer \<Rightarrow> nat \<Rightarrow> (int \<times> evbuffer) option" where
  "evbuffer_drain buf len =
     (let old_len = total_len buf in
      if old_len = 0 then Some (0, buf)
      else if freeze_start buf then Some (-1, buf)
      else do {
        (len', buf1) \<leftarrow>
          (if len \<ge> old_len \<and> \<not> HAS_PINNED_R buf
           then Some (old_len, ZERO_CHAIN (evbuffer_free_all_chains (chains buf) buf))
           else
             let len' = (if len \<ge> old_len then old_len else len) in do {
               (cs, k, lwd, remaining, freed) \<leftarrow> drain_loop (chains buf) 0 (last_with_datap buf) len' [];
               ev_assert (remaining \<le> ch_off (hd cs));
               let chain = (hd cs)\<lparr>ch_misalign := ch_misalign (hd cs) + remaining,
                                   ch_off := ch_off (hd cs) - remaining\<rparr>;
               Some (len', (evbuffer_free_all_chains freed buf)
                       \<lparr>chains := chain # tl cs,
                        last_with_datap := (if lwd = 0 then 0 else lwd - k),
                        total_len := total_len buf - len'\<rparr>)
             });
        Some (0, evbuffer_invoke_callbacks (buf1\<lparr>n_del_for_cb := szadd (n_del_for_cb buf1) len'\<rparr>))
      })"

fun copyout_loop :: "evbuffer_chain list \<Rightarrow> nat \<Rightarrow> byte list \<Rightarrow> byte list option" where
  "copyout_loop [] datlen out = (if datlen = 0 then Some out else None)"
| "copyout_loop (chain # cs) datlen out =
     (if datlen \<noteq> 0 \<and> datlen \<ge> ch_off chain then do {
        bs \<leftarrow> mem_read (ch_buffer chain) (ch_misalign chain) (ch_off chain);
        ev_assert (cs \<noteq> [] \<or> datlen - ch_off chain = 0);
        copyout_loop cs (datlen - ch_off chain) (out @ bs)
      }
      else if datlen \<noteq> 0 then do {
        bs \<leftarrow> mem_read (ch_buffer chain) (ch_misalign chain) datlen;
        Some (out @ bs)
      }
      else Some out)"

text \<open>The return value and the bytes written to \<open>data_out\<close>.\<close>

definition evbuffer_copyout :: "evbuffer \<Rightarrow> nat \<Rightarrow> (int \<times> byte list) option" where
  "evbuffer_copyout buf datlen =
     (let datlen = (if datlen \<ge> total_len buf then total_len buf else datlen) in
      if datlen = 0 then Some (0, [])
      else if freeze_start buf then Some (-1, [])
      else do {
        out \<leftarrow> copyout_loop (chains buf) datlen [];
        Some (to_int32 datlen, out)
      })"

definition evbuffer_remove :: "evbuffer \<Rightarrow> nat \<Rightarrow> (int \<times> byte list \<times> evbuffer) option" where
  "evbuffer_remove buf datlen = do {
     (m, out) \<leftarrow> evbuffer_copyout buf datlen;
     if m > 0 then do {
       (rc, buf1) \<leftarrow> evbuffer_drain buf (nat m);
       Some (if rc < 0 then -1 else m, out, buf1)
     }
     else Some (m, out, buf)
   }"

end
