(* ===== verification/Evbuffer_Inv.thy ===== *)
theory Evbuffer_Inv
  imports Evbuffer
begin

text \<open>
  The representation invariant of buffers, the byte sequence a buffer stands for, and the proofs that
  adding, prepending, draining and copying out keep the one and act on the other as on a queue of
  bytes.
\<close>

named_theorems buf_simps

section \<open>Abstraction and invariant\<close>

definition chain_data :: "evbuffer_chain \<Rightarrow> byte list" where
  "chain_data ch = take (ch_off ch) (drop (ch_misalign ch) (ch_buffer ch))"

definition contents :: "evbuffer \<Rightarrow> byte list" where
  "contents buf = concat (map chain_data (chains buf))"

definition chain_ok :: "evbuffer_chain \<Rightarrow> bool" where
  "chain_ok ch \<longleftrightarrow> ch_misalign ch + ch_off ch \<le> ch_buffer_len ch \<and>
     ch_buffer_len ch \<le> EVBUFFER_CHAIN_MAX - EVBUFFER_CHAIN_SIZE \<and> \<not> CHAIN_PINNED ch"

text \<open>
  From \<open>last_with_datap\<close> on, every chain but the last has data: at most one empty chain ends the list.
\<close>

definition tail_ok :: "evbuffer_chain list \<Rightarrow> nat \<Rightarrow> bool" where
  "tail_ok cs lwd \<longleftrightarrow> (lwd < length cs \<or> cs = [] \<and> lwd = 0) \<and> (\<forall>ch \<in> set (butlast (drop lwd cs)). ch_off ch \<noteq> 0)"

definition chains_inv :: "evbuffer_chain list \<Rightarrow> nat \<Rightarrow> nat \<Rightarrow> bool" where
  "chains_inv cs lwd len \<longleftrightarrow> list_all chain_ok cs \<and> len = sum_list (map ch_off cs) \<and>
     len \<le> EV_SIZE_MAX \<and> tail_ok cs lwd"

definition evbuffer_inv :: "evbuffer \<Rightarrow> bool" where
  "evbuffer_inv buf \<longleftrightarrow> chains_inv (chains buf) (last_with_datap buf) (total_len buf)"

text \<open>What no operation on the bytes changes.\<close>

definition same_ctl :: "evbuffer \<Rightarrow> evbuffer \<Rightarrow> bool" where
  "same_ctl b b' \<longleftrightarrow> freeze_start b' = freeze_start b \<and> freeze_end b' = freeze_end b \<and>
     deferred_cbs b' = deferred_cbs b \<and> callbacks b' = callbacks b \<and> buf_flags b' = buf_flags b \<and>
     has_parent b' = has_parent b"

lemma same_ctl_refl [simp, intro]: "same_ctl b b"
  by (simp add: same_ctl_def)

lemma same_ctl_trans [trans]: "same_ctl a b \<Longrightarrow> same_ctl b c \<Longrightarrow> same_ctl a c"
  by (simp add: same_ctl_def)

lemma same_ctl_updates [simp]:
  "same_ctl c (b\<lparr>chains := x\<rparr>) = same_ctl c b" "same_ctl c (b\<lparr>last_with_datap := i\<rparr>) = same_ctl c b"
  "same_ctl c (b\<lparr>total_len := n\<rparr>) = same_ctl c b" "same_ctl c (b\<lparr>n_add_for_cb := n\<rparr>) = same_ctl c b"
  "same_ctl c (b\<lparr>n_del_for_cb := n\<rparr>) = same_ctl c b" "same_ctl c (b\<lparr>buf_log := l\<rparr>) = same_ctl c b"
  by (simp_all add: same_ctl_def)

lemma evbuffer_new_simps [simp]:
  "chains evbuffer_new = []" "total_len evbuffer_new = 0" "last_with_datap evbuffer_new = 0"
  "\<not> freeze_start evbuffer_new" "\<not> freeze_end evbuffer_new"
  by (simp_all add: evbuffer_new_def)

lemma evbuffer_new_inv [simp]: "evbuffer_inv evbuffer_new" "contents evbuffer_new = []"
  by (simp_all add: evbuffer_inv_def chains_inv_def tail_ok_def evbuffer_new_def contents_def)

section \<open>Callbacks do not touch the bytes\<close>

lemma run_callbacks_frame [simp]:
  "chains (evbuffer_run_callbacks b d) = chains b"
  "last_with_datap (evbuffer_run_callbacks b d) = last_with_datap b"
  "total_len (evbuffer_run_callbacks b d) = total_len b"
  "same_ctl c (evbuffer_run_callbacks b d) = same_ctl c b"
  by (simp_all add: evbuffer_run_callbacks_def Let_def same_ctl_def)

lemma invoke_callbacks_frame [simp]:
  "chains (evbuffer_invoke_callbacks b) = chains b"
  "last_with_datap (evbuffer_invoke_callbacks b) = last_with_datap b"
  "total_len (evbuffer_invoke_callbacks b) = total_len b"
  "same_ctl c (evbuffer_invoke_callbacks b) = same_ctl c b"
  unfolding evbuffer_invoke_callbacks_def Let_def
  by (simp_all add: evbuffer_incref_def) (simp_all add: same_ctl_def)

lemma inv_cong:
  "chains b' = chains b \<Longrightarrow> last_with_datap b' = last_with_datap b \<Longrightarrow> total_len b' = total_len b \<Longrightarrow>
   evbuffer_inv b' = evbuffer_inv b"
  by (simp add: evbuffer_inv_def)

lemma invoke_callbacks_inv [simp]: "evbuffer_inv (evbuffer_invoke_callbacks b) = evbuffer_inv b"
  by (rule inv_cong) simp_all

lemma invoke_callbacks_contents [simp]: "contents (evbuffer_invoke_callbacks b) = contents b"
  by (simp add: contents_def)

section \<open>Chains\<close>

lemma pinned_R_imp: "\<not> CHAIN_PINNED ch \<Longrightarrow> \<not> CHAIN_PINNED_R ch"
proof -
  have "ch_flags ch AND EVBUFFER_MEM_PINNED_R =
        (ch_flags ch AND EVBUFFER_MEM_PINNED_ANY) AND EVBUFFER_MEM_PINNED_R"
    by (simp add: EVBUFFER_MEM_PINNED_ANY_def EVBUFFER_MEM_PINNED_R_def EVBUFFER_MEM_PINNED_W_def ac_simps)
  then show "\<not> CHAIN_PINNED ch \<Longrightarrow> \<not> CHAIN_PINNED_R ch"
    by (auto simp: CHAIN_PINNED_def CHAIN_PINNED_R_def)
qed

lemma length_chain_data [simp]: "chain_ok ch \<Longrightarrow> length (chain_data ch) = ch_off ch"
  by (auto simp: chain_data_def chain_ok_def)

lemma chain_data_empty [simp]: "ch_off ch = 0 \<Longrightarrow> chain_data ch = []"
  by (simp add: chain_data_def)

lemma chain_space_len:
  "chain_ok ch \<Longrightarrow>
   CHAIN_SPACE_LEN ch = (if CHAIN_IMMUTABLE ch then 0 else ch_buffer_len ch - (ch_misalign ch + ch_off ch))"
  by (simp add: CHAIN_SPACE_LEN_def chain_ok_def cfg_defs)

lemma next_alloc_ge: "0 < t \<Longrightarrow> sz \<le> next_alloc t sz"
  by (induction t sz rule: next_alloc.induct) (subst next_alloc.simps, auto)

lemma next_alloc_le: "0 < t \<Longrightarrow> next_alloc t sz \<le> max t (2 * sz)"
proof (induction t sz rule: next_alloc.induct)
  case (1 t sz)
  show ?case
  proof (cases "t < sz")
    case True
    with 1 have "next_alloc (2 * t) sz \<le> max (2 * t) (2 * sz)" by simp
    with True "1.prems" show ?thesis by (subst next_alloc.simps) simp
  next
    case False
    then show ?thesis by (subst next_alloc.simps) simp
  qed
qed

lemma evbuffer_chain_new_Some:
  assumes "malloc_spec mal" "evbuffer_chain_new mal sz = Some ch"
  shows "ch_misalign ch = 0" "ch_off ch = 0" "ch_flags ch = 0" "sz \<le> ch_buffer_len ch" "chain_ok ch"
    "\<not> CHAIN_IMMUTABLE ch" "\<not> CHAIN_PINNED ch"
proof -
  define t where "t = (if sz + 24 < 1073741823 then next_alloc 512 (sz + 24) else sz + 24)"
  have sz: "sz \<le> 2147483623"
    using assms(2) by (simp add: evbuffer_chain_new_def cfg_defs split: if_splits)
  then obtain mem where mem: "mal t = Some mem"
      "ch = \<lparr>ch_buffer = drop 24 mem, ch_misalign = 0, ch_off = 0, ch_flags = 0, ch_cleanup = False\<rparr>"
    using assms(2) unfolding evbuffer_chain_new_def cfg_defs t_def Let_def
    by (auto split: option.splits)
  have "length mem = t" using malloc_specD [OF assms(1) mem(1)] .
  moreover have "sz + 24 \<le> t" "t \<le> 2147483647"
    using next_alloc_ge [of 512 "sz + 24"] next_alloc_le [of 512 "sz + 24"] sz by (auto simp: t_def)
  ultimately show "ch_misalign ch = 0" "ch_off ch = 0" "ch_flags ch = 0" "sz \<le> ch_buffer_len ch"
    "chain_ok ch" "\<not> CHAIN_IMMUTABLE ch" "\<not> CHAIN_PINNED ch"
    by (auto simp: mem(2) chain_ok_def CHAIN_PINNED_def CHAIN_IMMUTABLE_def cfg_defs)
qed

lemma evbuffer_chain_new_None:
  "evbuffer_chain_new mal sz = None \<Longrightarrow> sz > EVBUFFER_CHAIN_MAX - EVBUFFER_CHAIN_SIZE \<or> (\<exists>k. mal k = None)"
  by (auto simp: evbuffer_chain_new_def Let_def split: if_splits option.splits)

section \<open>Lists of chains\<close>

lemma contents_append [simp]: "concat (map chain_data (xs @ ys)) = concat (map chain_data xs) @ concat (map chain_data ys)"
  by simp

lemma length_concat_data:
  "list_all chain_ok cs \<Longrightarrow> length (concat (map chain_data cs)) = sum_list (map ch_off cs)"
  by (induction cs) simp_all

lemma length_contents: "evbuffer_inv buf \<Longrightarrow> length (contents buf) = total_len buf"
  by (simp add: contents_def evbuffer_inv_def chains_inv_def length_concat_data)

lemma tail_ok_snoc:
  "tail_ok cs lwd \<Longrightarrow> (cs \<noteq> [] \<Longrightarrow> ch_off (last cs) \<noteq> 0) \<Longrightarrow> tail_ok (cs @ [ch]) lwd"
  by (cases cs rule: rev_cases) (auto simp: tail_ok_def drop_append butlast_append split: if_splits)

lemma tail_ok_set_last: "cs \<noteq> [] \<Longrightarrow> tail_ok cs lwd \<Longrightarrow> tail_ok (butlast cs @ [ch]) lwd"
  by (cases cs rule: rev_cases) (auto simp: tail_ok_def butlast_append drop_append)

lemma tail_ok_last: "tail_ok (cs @ [ch]) (length cs)"
  by (simp add: tail_ok_def)

lemma first_victim_eq:
  assumes inv: "evbuffer_inv buf" and ne: "chains buf \<noteq> []"
  shows "first_victim buf =
    (if ch_off (last (chains buf)) = 0 then length (chains buf) - 1 else length (chains buf))"
proof -
  let ?l = "last_with_datap buf" and ?cs = "chains buf"
  have l: "?l < length ?cs" and data: "\<forall>ch \<in> set (butlast (drop ?l ?cs)). ch_off ch \<noteq> 0"
    and pin: "\<forall>ch \<in> set ?cs. \<not> CHAIN_PINNED ch"
    using inv ne by (auto simp: evbuffer_inv_def chains_inv_def tail_ok_def list_all_iff chain_ok_def)
  define xs where "xs = butlast (drop ?l ?cs)"
  have d: "drop ?l ?cs = xs @ [last ?cs]"
    using l ne by (simp add: xs_def flip: last_drop)
  have len: "length xs = length ?cs - ?l - 1" using l by (simp add: xs_def)
  have "\<not> CHAIN_PINNED (last ?cs)" using pin ne by simp
  then show ?thesis using data l len by (auto simp: first_victim_def d simp flip: xs_def)
qed

text \<open>Splitting off the last chain, the shape most proofs work with.\<close>

lemma evbuffer_snoc_cases:
  assumes "chains buf \<noteq> []"
  obtains cs ch where "chains buf = cs @ [ch]" "last (chains buf) = ch" "butlast (chains buf) = cs"
  using assms by (metis append_butlast_last_id)

lemma inv_snoc:
  "chains buf = cs @ [ch] \<Longrightarrow>
   evbuffer_inv buf \<longleftrightarrow> list_all chain_ok cs \<and> chain_ok ch \<and>
     total_len buf = sum_list (map ch_off cs) + ch_off ch \<and> total_len buf \<le> EV_SIZE_MAX \<and>
     tail_ok (cs @ [ch]) (last_with_datap buf)"
  by (auto simp: evbuffer_inv_def chains_inv_def)

lemma tail_ok_butlast:
  assumes "tail_ok (cs @ [ch]) lwd" shows "tail_ok (cs @ [ch']) lwd"
  using tail_ok_set_last [OF _ assms, of ch'] by simp

lemma tail_ok_insert:
  assumes "tail_ok (cs @ [ch]) lwd" "ch_off ch \<noteq> 0"
  shows "tail_ok (cs @ [ch, ch']) lwd"
  using tail_ok_snoc [OF assms(1), of ch'] assms(2) by simp

lemma set_last_simps [simp]:
  "chains (set_last buf ch) = butlast (chains buf) @ [ch]"
  "last_with_datap (set_last buf ch) = last_with_datap buf"
  "total_len (set_last buf ch) = total_len buf"
  "n_add_for_cb (set_last buf ch) = n_add_for_cb buf"
  "same_ctl b (set_last buf ch) = same_ctl b buf"
  by (simp_all add: set_last_def same_ctl_def)

lemma added_simps [simp]:
  "chains (added buf k) = chains buf" "last_with_datap (added buf k) = last_with_datap buf"
  "total_len (added buf k) = szadd (total_len buf) k"
  "same_ctl b (added buf k) = same_ctl b buf" "contents (added buf k) = contents buf"
  by (simp_all add: added_def same_ctl_def contents_def)

lemma free_all_chains_simps [simp]:
  "chains (evbuffer_free_all_chains cs buf) = chains buf"
  "last_with_datap (evbuffer_free_all_chains cs buf) = last_with_datap buf"
  "total_len (evbuffer_free_all_chains cs buf) = total_len buf"
  "same_ctl b (evbuffer_free_all_chains cs buf) = same_ctl b buf"
  by (simp_all add: evbuffer_free_all_chains_def same_ctl_def)

text \<open>Growing the last chain by \<open>bs\<close>.\<close>

lemma extend_last:
  assumes inv: "evbuffer_inv buf" and ne: "chains buf \<noteq> []"
    and ch: "chain_ok ch'" "chain_data ch' = chain_data (last (chains buf)) @ bs"
      "ch_off ch' = ch_off (last (chains buf)) + length bs"
    and len: "total_len buf + length bs \<le> EV_SIZE_MAX"
  shows "evbuffer_inv (added (set_last buf ch') (length bs))"
    and "contents (added (set_last buf ch') (length bs)) = contents buf @ bs"
    and "total_len (added (set_last buf ch') (length bs)) = total_len buf + length bs"
proof -
  obtain cs c where c: "chains buf = cs @ [c]" "last (chains buf) = c" "butlast (chains buf) = cs"
    using ne by (rule evbuffer_snoc_cases)
  have t: "szadd (total_len buf) (length bs) = total_len buf + length bs"
    using len by (simp add: cfg_defs)
  have "chains (added (set_last buf ch') (length bs)) = cs @ [ch']" by (simp add: c)
  note 1 = inv_snoc [OF this]
  show "evbuffer_inv (added (set_last buf ch') (length bs))"
    using inv ch len unfolding 1 inv_snoc [OF c(1)]
    by (auto simp: c cfg_defs intro: tail_ok_butlast)
  show "contents (added (set_last buf ch') (length bs)) = contents buf @ bs"
    using ch by (simp add: contents_def c)
  show "total_len (added (set_last buf ch') (length bs)) = total_len buf + length bs"
    by (simp add: t)
qed

text \<open>Bytes written right after the data of a chain.\<close>

lemma write_after_data:
  assumes ok: "chain_ok ch" and room: "ch_misalign ch + ch_off ch + length bs \<le> ch_buffer_len ch"
  obtains mem where "mem_write (ch_buffer ch) (ch_misalign ch + ch_off ch) bs = Some mem"
    "chain_ok (ch\<lparr>ch_buffer := mem, ch_off := ch_off ch + length bs\<rparr>)"
    "chain_data (ch\<lparr>ch_buffer := mem, ch_off := ch_off ch + length bs\<rparr>) = chain_data ch @ bs"
proof
  let ?at = "ch_misalign ch + ch_off ch"
  let ?mem = "take ?at (ch_buffer ch) @ bs @ drop (?at + length bs) (ch_buffer ch)"
  show "mem_write (ch_buffer ch) ?at bs = Some ?mem" using room by (simp add: mem_write_def)
  show "chain_ok (ch\<lparr>ch_buffer := ?mem, ch_off := ch_off ch + length bs\<rparr>)"
    using ok room by (auto simp: chain_ok_def CHAIN_PINNED_def)
  have "take (ch_off ch) (drop (ch_misalign ch) (take ?at (ch_buffer ch))) = chain_data ch"
    by (simp add: chain_data_def drop_take)
  moreover have "length (drop (ch_misalign ch) (take ?at (ch_buffer ch))) = ch_off ch"
    using ok by (simp add: chain_ok_def)
  ultimately show "chain_data (ch\<lparr>ch_buffer := ?mem, ch_off := ch_off ch + length bs\<rparr>) = chain_data ch @ bs"
    using ok room by (simp add: chain_data_def chain_ok_def)
qed

lemma evbuffer_chain_align_ok:
  assumes ok: "chain_ok ch" and mut: "\<not> CHAIN_IMMUTABLE ch"
  obtains ch' where "evbuffer_chain_align ch = Some ch'" "chain_ok ch'" "chain_data ch' = chain_data ch"
    "ch_off ch' = ch_off ch" "ch_misalign ch' = 0" "ch_buffer_len ch' = ch_buffer_len ch"
    "ch_flags ch' = ch_flags ch"
proof
  let ?mem = "chain_data ch @ drop (ch_off ch) (ch_buffer ch)"
  let ?ch = "ch\<lparr>ch_buffer := ?mem, ch_misalign := 0\<rparr>"
  have len: "length (chain_data ch) = ch_off ch" using ok by simp
  have room: "ch_misalign ch + ch_off ch \<le> ch_buffer_len ch" "\<not> CHAIN_PINNED ch"
    using ok by (auto simp: chain_ok_def)
  show "evbuffer_chain_align ch = Some ?ch"
    using room mut len
    by (simp add: evbuffer_chain_align_def mem_read_def mem_write_def chain_data_def [symmetric])
  show "chain_ok ?ch" using ok len room by (auto simp: chain_ok_def CHAIN_PINNED_def)
  show "chain_data ?ch = chain_data ch" using len by (simp add: chain_data_def [of ?ch])
qed (use assms in \<open>auto simp: chain_ok_def\<close>)

lemma evbuffer_chain_insert_ok:
  assumes inv: "evbuffer_inv buf" and ch: "chain_ok ch" and len: "total_len buf + ch_off ch \<le> EV_SIZE_MAX"
  obtains buf' where "evbuffer_chain_insert buf ch = Some buf'" "evbuffer_inv buf'"
    "contents buf' = contents buf @ chain_data ch" "total_len buf' = total_len buf + ch_off ch"
    "chains buf' \<noteq> []" "last (chains buf') = ch" "same_ctl buf buf'"
proof (cases "chains buf = []")
  case True
  let ?b = "buf\<lparr>chains := [ch], total_len := szadd (total_len buf) (ch_off ch)\<rparr>"
  have z: "last_with_datap buf = 0" "total_len buf = 0"
    using inv True by (auto simp: evbuffer_inv_def chains_inv_def tail_ok_def)
  have t: "szadd (total_len buf) (ch_off ch) = ch_off ch" using len z by (simp add: cfg_defs)
  show ?thesis
    by (rule that [of ?b])
       (use True z ch len t in \<open>auto simp: evbuffer_chain_insert_def evbuffer_inv_def chains_inv_def
          tail_ok_def contents_def same_ctl_def\<close>)
next
  case False
  obtain cs c where c: "chains buf = cs @ [c]" "last (chains buf) = c" "butlast (chains buf) = cs"
    using False by (rule evbuffer_snoc_cases)
  have t: "szadd (total_len buf) (ch_off ch) = total_len buf + ch_off ch" using len by (simp add: cfg_defs)
  have lwd: "last_with_datap buf < length (chains buf)"
    using inv False by (auto simp: evbuffer_inv_def chains_inv_def tail_ok_def)
  note fv = first_victim_eq [OF inv False] and i = inv [unfolded inv_snoc [OF c(1)]]
  show ?thesis
  proof (cases "ch_off c = 0")
    case True
    let ?b = "(evbuffer_free_all_chains [c] buf)
      \<lparr>chains := cs @ [ch], total_len := total_len buf + ch_off ch\<rparr>"
    have "evbuffer_chain_insert buf ch = Some ?b"
      using lwd fv True c t by (simp add: evbuffer_chain_insert_def evbuffer_chains_all_empty_def)
    moreover have "evbuffer_inv ?b"
      using i True ch len by (subst inv_snoc [of _ cs ch]) (auto intro: tail_ok_butlast)
    ultimately show ?thesis
      using True c by (intro that [of ?b]) (auto simp: contents_def same_ctl_def evbuffer_free_all_chains_def)
  next
    case False
    let ?b = "buf\<lparr>chains := chains buf @ [ch], total_len := total_len buf + ch_off ch,
       last_with_datap := (if ch_off ch \<noteq> 0 then length (chains buf) else last_with_datap buf)\<rparr>"
    have "evbuffer_chain_insert buf ch = Some ?b"
      using lwd fv False c t by (simp add: evbuffer_chain_insert_def)
    moreover have "evbuffer_inv ?b"
      using i False ch len c tail_ok_last [of "cs @ [c]" ch]
      by (subst inv_snoc [of _ "cs @ [c]" ch]) (auto intro: tail_ok_insert)
    ultimately show ?thesis
      by (intro that [of ?b]) (auto simp: contents_def same_ctl_def)
  qed
qed

section \<open>Adding at the end\<close>

definition alloc_refused :: "malloc \<Rightarrow> nat \<Rightarrow> bool" where
  "alloc_refused mal len \<longleftrightarrow> len > EVBUFFER_CHAIN_MAX - EVBUFFER_CHAIN_SIZE \<or> (\<exists>k. mal k = None)"

text \<open>
  The outcome of an operation that either turns the contents into \<open>new\<close> and returns 0, or returns -1
  for the reason \<open>why\<close> and leaves the contents alone.
\<close>

definition all_or_nothing :: "evbuffer \<Rightarrow> byte list \<Rightarrow> bool \<Rightarrow> (int \<times> evbuffer) option \<Rightarrow> bool" where
  "all_or_nothing buf new why res \<longleftrightarrow>
     (\<exists>r buf'. res = Some (r, buf') \<and> evbuffer_inv buf' \<and> same_ctl buf buf' \<and>
        (r = 0 \<and> contents buf' = new \<or> r = -1 \<and> contents buf' = contents buf \<and> why))"

lemma all_or_nothingI:
  "res = Some (0, buf') \<Longrightarrow> evbuffer_inv buf' \<Longrightarrow> same_ctl buf buf' \<Longrightarrow> contents buf' = new \<Longrightarrow>
   all_or_nothing buf new why res"
  "res = Some (-1, buf') \<Longrightarrow> evbuffer_inv buf' \<Longrightarrow> same_ctl buf buf' \<Longrightarrow> contents buf' = contents buf \<Longrightarrow> why \<Longrightarrow>
   all_or_nothing buf new why res"
  by (auto simp: all_or_nothing_def)

lemma n_add_update_frame [simp]:
  "evbuffer_inv (b\<lparr>n_add_for_cb := k\<rparr>) = evbuffer_inv b" "contents (b\<lparr>n_add_for_cb := k\<rparr>) = contents b"
  "evbuffer_inv (b\<lparr>n_del_for_cb := k\<rparr>) = evbuffer_inv b" "contents (b\<lparr>n_del_for_cb := k\<rparr>) = contents b"
  by (simp_all add: evbuffer_inv_def contents_def)

lemma inv_last_ok: "evbuffer_inv buf \<Longrightarrow> chains buf \<noteq> [] \<Longrightarrow> chain_ok (last (chains buf))"
  by (auto simp: evbuffer_inv_def chains_inv_def list_all_iff)

lemma evbuffer_fill_last_ok:
  assumes inv: "evbuffer_inv buf" and ne: "chains buf \<noteq> []"
    and len: "total_len buf + length data \<le> EV_SIZE_MAX"
    and rem: "remain \<le> length data"
      "remain \<noteq> 0 \<Longrightarrow> ch_misalign (last (chains buf)) + ch_off (last (chains buf)) + remain
                   \<le> ch_buffer_len (last (chains buf))"
  obtains buf1 where "evbuffer_fill_last buf data remain = Some buf1" "evbuffer_inv buf1"
    "same_ctl buf buf1" "contents buf1 = contents buf @ take remain data"
    "total_len buf1 = total_len buf + remain"
proof (cases "remain = 0")
  case False
  define ch where "ch = last (chains buf)"
  have ok: "chain_ok ch" using inv ne by (simp add: ch_def inv_last_ok)
  have l: "length (take remain data) = remain" using rem(1) by simp
  have room: "ch_misalign ch + ch_off ch + length (take remain data) \<le> ch_buffer_len ch"
    unfolding l ch_def by (rule rem(2) [OF False])
  obtain mem where m: "mem_write (ch_buffer ch) (ch_misalign ch + ch_off ch) (take remain data) = Some mem"
    "chain_ok (ch\<lparr>ch_buffer := mem, ch_off := ch_off ch + remain\<rparr>)"
    "chain_data (ch\<lparr>ch_buffer := mem, ch_off := ch_off ch + remain\<rparr>) = chain_data ch @ take remain data"
    using write_after_data [OF ok room] unfolding l by blast
  have le: "total_len buf + length (take remain data) \<le> EV_SIZE_MAX" using len rem(1) by simp
  note x = extend_last [OF inv ne m(2) _ _ le, folded ch_def, OF m(3)]
  show ?thesis
    by (rule that [of "added (set_last buf (ch\<lparr>ch_buffer := mem, ch_off := ch_off ch + remain\<rparr>)) remain"])
       (use False m x l in \<open>simp_all add: evbuffer_fill_last_def flip: ch_def\<close>)
qed (use that inv in \<open>simp add: evbuffer_fill_last_def\<close>)

lemma evbuffer_add_grow_ok:
  assumes mal: "malloc_spec mal" and inv: "evbuffer_inv buf" and ne: "chains buf \<noteq> []"
    and len: "total_len buf + length data \<le> EV_SIZE_MAX"
    and rem: "remain \<le> length data"
      "remain \<noteq> 0 \<Longrightarrow> ch_misalign (last (chains buf)) + ch_off (last (chains buf)) + remain
                   \<le> ch_buffer_len (last (chains buf))"
  shows "all_or_nothing buf (contents buf @ data) (alloc_refused mal (length data))
           (evbuffer_add_grow mal buf data remain)"
proof -
  define ch where "ch = last (chains buf)"
  define t where "t = (if ch_buffer_len ch \<le> EVBUFFER_CHAIN_MAX_AUTO_SIZE div 2 then 2 * ch_buffer_len ch
    else ch_buffer_len ch)"
  define u where "u = (if length data > t then length data else t)"
  define rest where "rest = drop remain data"
  have ok: "chain_ok ch" using inv ne by (simp add: ch_def inv_last_ok)
  have eq: "evbuffer_add_grow mal buf data remain =
    (case evbuffer_chain_new mal u of
       None \<Rightarrow> Some (-1, buf)
     | Some tmp \<Rightarrow> do {
         buf1 \<leftarrow> evbuffer_fill_last buf data remain;
         mem \<leftarrow> mem_write (ch_buffer tmp) 0 rest;
         buf2 \<leftarrow> evbuffer_chain_insert buf1 (tmp\<lparr>ch_buffer := mem, ch_off := length rest\<rparr>);
         Some (0, evbuffer_invoke_callbacks (buf2\<lparr>n_add_for_cb := szadd (n_add_for_cb buf2) (length rest)\<rparr>))
       })"
    by (simp only: evbuffer_add_grow_def ch_def t_def u_def rest_def Let_def)
  show ?thesis
  proof (cases "evbuffer_chain_new mal u")
    case None
    then have "alloc_refused mal (length data)"
      using evbuffer_chain_new_None [OF None] ok
      by (auto simp: alloc_refused_def u_def t_def chain_ok_def cfg_defs split: if_splits)
    then show ?thesis using None inv by (intro all_or_nothingI(2)) (simp_all add: eq)
  next
    case (Some tmp)
    note tmp = evbuffer_chain_new_Some [OF mal Some]
    obtain buf1 where b1: "evbuffer_fill_last buf data remain = Some buf1" "evbuffer_inv buf1"
        "same_ctl buf buf1" "contents buf1 = contents buf @ take remain data"
        "total_len buf1 = total_len buf + remain"
      by (rule evbuffer_fill_last_ok [OF inv ne len rem])
    have "length rest \<le> ch_buffer_len tmp" using tmp(4) by (simp add: u_def rest_def split: if_splits)
    then obtain mem where m: "mem_write (ch_buffer tmp) 0 rest = Some mem"
       "chain_ok (tmp\<lparr>ch_buffer := mem, ch_off := length rest\<rparr>)"
       "chain_data (tmp\<lparr>ch_buffer := mem, ch_off := length rest\<rparr>) = rest"
      using write_after_data [OF tmp(5), of rest] by (auto simp: tmp(1,2))
    obtain buf2 where b2: "evbuffer_chain_insert buf1 (tmp\<lparr>ch_buffer := mem, ch_off := length rest\<rparr>) = Some buf2"
       "evbuffer_inv buf2" "contents buf2 = contents buf1 @ rest" "same_ctl buf1 buf2"
      using evbuffer_chain_insert_ok [OF b1(2) m(2)] b1(5) len rem(1) m(3) by (auto simp: rest_def)
    have "evbuffer_add_grow mal buf data remain =
        Some (0, evbuffer_invoke_callbacks (buf2\<lparr>n_add_for_cb := szadd (n_add_for_cb buf2) (length rest)\<rparr>))"
      using Some b1 b2 m by (simp add: eq)
    then show ?thesis
      by (rule all_or_nothingI(1)) (use b1 b2 in \<open>auto simp: rest_def intro: same_ctl_trans\<close>)
  qed
qed

lemma evbuffer_add_last_ok:
  assumes mal: "malloc_spec mal" and inv: "evbuffer_inv buf" and ne: "chains buf \<noteq> []"
    and len: "total_len buf + length data \<le> EV_SIZE_MAX"
  shows "all_or_nothing buf (contents buf @ data) (alloc_refused mal (length data))
           (evbuffer_add_last mal buf data)"
proof -
  define ch where "ch = last (chains buf)"
  have ok: "chain_ok ch" using inv ne by (simp add: ch_def inv_last_ok)
  define space where "space = ch_buffer_len ch - ch_misalign ch - ch_off ch"
  have sp: "szsub (szsub (ch_buffer_len ch) (ch_misalign ch)) (ch_off ch) = space"
    using ok by (auto simp: space_def chain_ok_def cfg_defs)
  have mis: "ch_misalign ch \<le> EVBUFFER_CHAIN_MAX" using ok by (auto simp: chain_ok_def cfg_defs)
  note grow = evbuffer_add_grow_ok [OF mal inv ne len, folded ch_def]
  consider (imm) "CHAIN_IMMUTABLE ch" | (fits) "\<not> CHAIN_IMMUTABLE ch" "space \<ge> length data"
    | (realign) "\<not> CHAIN_IMMUTABLE ch" "\<not> space \<ge> length data" "evbuffer_chain_should_realign ch (length data)"
    | (grow) "\<not> CHAIN_IMMUTABLE ch" "\<not> space \<ge> length data" "\<not> evbuffer_chain_should_realign ch (length data)"
    by blast
  then show ?thesis
  proof cases
    case imm
    then show ?thesis using grow [of 0] by (simp add: evbuffer_add_last_def ch_def Let_def)
  next
    case fits
    then have "ch_misalign ch + ch_off ch + length data \<le> ch_buffer_len ch"
      using ok by (auto simp: space_def chain_ok_def)
    then obtain mem where m: "mem_write (ch_buffer ch) (ch_misalign ch + ch_off ch) data = Some mem"
      "chain_ok (ch\<lparr>ch_buffer := mem, ch_off := ch_off ch + length data\<rparr>)"
      "chain_data (ch\<lparr>ch_buffer := mem, ch_off := ch_off ch + length data\<rparr>) = chain_data ch @ data"
      using write_after_data [OF ok] by blast
    note x = extend_last [OF inv ne m(2) _ _ len, folded ch_def, OF m(3)]
    have "evbuffer_add_last mal buf data = Some (0, evbuffer_invoke_callbacks
        (added (set_last buf (ch\<lparr>ch_buffer := mem, ch_off := ch_off ch + length data\<rparr>)) (length data)))"
      using fits m(1) mis sp by (simp add: evbuffer_add_last_def Let_def flip: ch_def)
    then show ?thesis by (rule all_or_nothingI(1)) (use x in simp_all)
  next
    case realign
    obtain ch1 where a: "evbuffer_chain_align ch = Some ch1" "chain_ok ch1" "chain_data ch1 = chain_data ch"
      "ch_off ch1 = ch_off ch" "ch_misalign ch1 = 0" "ch_buffer_len ch1 = ch_buffer_len ch"
      using evbuffer_chain_align_ok [OF ok realign(1)] by blast
    have "ch_off ch1 + length data \<le> ch_buffer_len ch1"
      using realign(3) ok a by (auto simp: evbuffer_chain_should_realign_def chain_ok_def cfg_defs)
    then obtain mem where m: "mem_write (ch_buffer ch1) (ch_off ch1) data = Some mem"
      "chain_ok (ch1\<lparr>ch_buffer := mem, ch_off := ch_off ch1 + length data\<rparr>)"
      "chain_data (ch1\<lparr>ch_buffer := mem, ch_off := ch_off ch1 + length data\<rparr>) = chain_data ch @ data"
      using write_after_data [OF a(2), of data] a by auto
    note x = extend_last [OF inv ne m(2) _ _ len, folded ch_def, OF m(3)]
    have "\<not> CHAIN_PINNED ch" using ok by (simp add: chain_ok_def)
    then have "evbuffer_add_last mal buf data = Some (0, evbuffer_invoke_callbacks
        (added (set_last buf (ch1\<lparr>ch_buffer := mem, ch_off := ch_off ch1 + length data\<rparr>)) (length data)))"
      using realign m(1) mis sp a(1) by (simp add: evbuffer_add_last_def Let_def flip: ch_def)
    then show ?thesis by (rule all_or_nothingI(1)) (use x a(4) in simp_all)
  next
    case grow2: grow
    have "ch_misalign ch + ch_off ch + space \<le> ch_buffer_len ch"
      using ok by (auto simp: space_def chain_ok_def)
    then show ?thesis
      using grow [of space] grow2 mis sp by (simp add: evbuffer_add_last_def ch_def [symmetric] Let_def)
  qed
qed

lemma evbuffer_add_ok:
  assumes mal: "malloc_spec mal" and inv: "evbuffer_inv buf"
  shows "all_or_nothing buf (contents buf @ data)
     (freeze_end buf \<or> total_len buf + length data > EV_SIZE_MAX \<or> alloc_refused mal (length data))
     (evbuffer_add mal buf data)"
proof -
  let ?why = "freeze_end buf \<or> total_len buf + length data > EV_SIZE_MAX \<or> alloc_refused mal (length data)"
  have t: "total_len buf \<le> EV_SIZE_MAX" using inv by (simp add: evbuffer_inv_def chains_inv_def)
  consider (frozen) "freeze_end buf \<or> length data > EV_SIZE_MAX - total_len buf"
    | (empty) "\<not> freeze_end buf" "total_len buf + length data \<le> EV_SIZE_MAX" "chains buf = []"
    | (last) "\<not> freeze_end buf" "total_len buf + length data \<le> EV_SIZE_MAX" "chains buf \<noteq> []"
    using t by linarith
  then show ?thesis
  proof cases
    case frozen
    then have "evbuffer_add mal buf data = Some (-1, buf)" by (auto simp: evbuffer_add_def Let_def)
    then show ?thesis by (rule all_or_nothingI(2)) (use inv frozen in auto)
  next
    case empty
    show ?thesis
    proof (cases "evbuffer_chain_new mal (length data)")
      case None
      then have "evbuffer_add mal buf data = Some (-1, buf)"
        using empty t by (simp add: evbuffer_add_def Let_def)
      then show ?thesis
        by (rule all_or_nothingI(2)) (use inv evbuffer_chain_new_None [OF None] in \<open>auto simp: alloc_refused_def\<close>)
    next
      case (Some ch)
      note ch = evbuffer_chain_new_Some [OF mal Some]
      obtain buf1 where b1: "evbuffer_chain_insert buf ch = Some buf1" "evbuffer_inv buf1"
         "contents buf1 = contents buf" "total_len buf1 = total_len buf" "chains buf1 \<noteq> []" "same_ctl buf buf1"
        using evbuffer_chain_insert_ok [OF inv ch(5)] ch t by auto
      have "\<not> length data > EV_SIZE_MAX - total_len buf" using empty t by linarith
      then have "evbuffer_add mal buf data = evbuffer_add_last mal buf1 data"
        using empty Some b1(1) by (simp add: evbuffer_add_def Let_def)
      then show ?thesis
        using evbuffer_add_last_ok [OF mal b1(2,5), of data] b1 empty
        by (auto simp: all_or_nothing_def intro: same_ctl_trans)
    qed
  next
    case last
    then have "\<not> length data > EV_SIZE_MAX - total_len buf" using t by linarith
    with last have "evbuffer_add mal buf data = evbuffer_add_last mal buf data"
      by (simp add: evbuffer_add_def Let_def)
    then show ?thesis
      using evbuffer_add_last_ok [OF mal inv last(3,2)] by (auto simp: all_or_nothing_def)
  qed
qed

section \<open>Draining from the front\<close>

lemma tail_ok_drop: "tail_ok cs lwd \<Longrightarrow> m < length cs \<Longrightarrow> tail_ok (drop m cs) (lwd - m)"
proof -
  assume t: "tail_ok cs lwd" and m: "m < length cs"
  have "drop (lwd - m) (drop m cs) = drop (max lwd m) cs" by (simp add: max_def)
  moreover have "set (drop (max lwd m) (butlast cs)) \<subseteq> set (drop lwd (butlast cs))"
    by (rule set_drop_subset_set_drop) simp
  ultimately show "tail_ok (drop m cs) (lwd - m)"
    using t m by (auto simp: tail_ok_def simp flip: drop_butlast)
qed

lemma tail_ok_head:
  "tail_ok (c # cs) lwd \<Longrightarrow> (ch_off c \<noteq> 0 \<Longrightarrow> ch_off c' \<noteq> 0) \<Longrightarrow> tail_ok (c' # cs) lwd"
  by (cases lwd) (auto simp: tail_ok_def)

lemma drain_loop_ok:
  "list_all chain_ok cs \<Longrightarrow> r < sum_list (map ch_off cs) \<Longrightarrow>
   \<exists>pre c cs' r'. drain_loop cs k lwd r freed =
       Some (c # cs', k + length pre,
             (if pre \<noteq> [] \<and> k \<le> lwd \<and> lwd \<le> k + length pre then 0 else lwd), r', freed @ pre) \<and>
     cs = pre @ c # cs' \<and> sum_list (map ch_off pre) + r' = r \<and> r' < ch_off c"
proof (induction cs arbitrary: k lwd r freed)
  case Nil
  then show ?case by simp
next
  case (Cons c cs)
  show ?case
  proof (cases "ch_off c \<le> r")
    case False
    then show ?thesis by (intro exI [of _ "[]"] exI [of _ c] exI [of _ cs] exI [of _ r]) simp
  next
    case True
    define l1 where "l1 = (if k = lwd then 0 else lwd)"
    define l2 where "l2 = (if Suc k = l1 then 0 else l1)"
    have np: "\<not> CHAIN_PINNED_R c" using Cons.prems by (simp add: chain_ok_def pinned_R_imp)
    have "list_all chain_ok cs" "r - ch_off c < sum_list (map ch_off cs)"
      using Cons.prems True by simp_all
    from Cons.IH [OF this, of "Suc k" l2 "freed @ [c]"]
    obtain pre d cs' r' where IH: "drain_loop cs (Suc k) l2 (r - ch_off c) (freed @ [c]) =
       Some (d # cs', Suc k + length pre,
             (if pre \<noteq> [] \<and> Suc k \<le> l2 \<and> l2 \<le> Suc k + length pre then 0 else l2), r', (freed @ [c]) @ pre)"
       "cs = pre @ d # cs'" "sum_list (map ch_off pre) + r' = r - ch_off c" "r' < ch_off d"
      by blast
    have l: "(if pre \<noteq> [] \<and> Suc k \<le> l2 \<and> l2 \<le> Suc k + length pre then 0 else l2) =
             (if k \<le> lwd \<and> lwd \<le> Suc k + length pre then 0 else lwd)"
      by (cases pre) (auto simp: l1_def l2_def)
    have "drain_loop (c # cs) k lwd r freed = drain_loop cs (Suc k) l2 (r - ch_off c) (freed @ [c])"
      using True np by (simp add: l1_def l2_def Let_def)
    with IH l True show ?thesis
      by (intro exI [of _ "c # pre"] exI [of _ d] exI [of _ cs'] exI [of _ r']) auto
  qed
qed

lemma chain_ok_advance:
  assumes "chain_ok ch" "r \<le> ch_off ch"
  shows "chain_ok (ch\<lparr>ch_misalign := ch_misalign ch + r, ch_off := ch_off ch - r\<rparr>)"
    "chain_data (ch\<lparr>ch_misalign := ch_misalign ch + r, ch_off := ch_off ch - r\<rparr>) = drop r (chain_data ch)"
  using assms by (auto simp: chain_ok_def chain_data_def CHAIN_PINNED_def drop_take add.commute)

lemma not_pinned_R: "evbuffer_inv buf \<Longrightarrow> \<not> HAS_PINNED_R buf"
  using inv_last_ok pinned_R_imp by (auto simp: HAS_PINNED_R_def chain_ok_def)

text \<open>Dropping the chains \<open>pre\<close> and the first \<open>r\<close> bytes of the next one.\<close>

lemma chains_inv_advance:
  assumes inv: "chains_inv (pre @ c # cs) lwd len" and r: "r < ch_off c"
  defines "c' \<equiv> c\<lparr>ch_misalign := ch_misalign c + r, ch_off := ch_off c - r\<rparr>"
  shows "chains_inv (c' # cs) (lwd - length pre) (len - (sum_list (map ch_off pre) + r))"
    "concat (map chain_data (c' # cs)) =
     drop (sum_list (map ch_off pre) + r) (concat (map chain_data (pre @ c # cs)))"
proof -
  have c: "chain_ok c" "list_all chain_ok pre" using inv by (auto simp: chains_inv_def)
  note a = chain_ok_advance [OF c(1), of r, folded c'_def]
  have "tail_ok (c # cs) (lwd - length pre)"
    using tail_ok_drop [of "pre @ c # cs" lwd "length pre"] inv by (simp add: chains_inv_def)
  then have "tail_ok (c' # cs) (lwd - length pre)"
    using r by (elim tail_ok_head) (simp add: c'_def)
  with inv a r show "chains_inv (c' # cs) (lwd - length pre) (len - (sum_list (map ch_off pre) + r))"
    by (auto simp: chains_inv_def c'_def)
  have "length (concat (map chain_data pre)) = sum_list (map ch_off pre)"
    using c(2) by (rule length_concat_data)
  then show "concat (map chain_data (c' # cs)) =
     drop (sum_list (map ch_off pre) + r) (concat (map chain_data (pre @ c # cs)))"
    using a r c(1) by simp
qed

lemma evbuffer_drain_ok:
  assumes inv: "evbuffer_inv buf" and fr: "\<not> freeze_start buf"
  obtains buf' where "evbuffer_drain buf len = Some (0, buf')" "evbuffer_inv buf'" "same_ctl buf buf'"
    "contents buf' = drop len (contents buf)"
proof -
  have L: "length (contents buf) = total_len buf" by (rule length_contents [OF inv])
  consider (zero) "total_len buf = 0" | (all) "total_len buf \<noteq> 0" "len \<ge> total_len buf"
    | (some) "total_len buf \<noteq> 0" "len < total_len buf" by linarith
  then show ?thesis
  proof cases
    case zero
    then show ?thesis using that [of buf] inv L by (simp add: evbuffer_drain_def)
  next
    case all
    let ?b = "ZERO_CHAIN (evbuffer_free_all_chains (chains buf) buf)"
    have "evbuffer_drain buf len =
        Some (0, evbuffer_invoke_callbacks (?b\<lparr>n_del_for_cb := szadd (n_del_for_cb ?b) (total_len buf)\<rparr>))"
      using all fr not_pinned_R [OF inv] by (simp add: evbuffer_drain_def)
    moreover have "evbuffer_inv ?b" "contents ?b = []" "same_ctl buf ?b"
      by (simp_all add: ZERO_CHAIN_def evbuffer_inv_def chains_inv_def tail_ok_def contents_def
          same_ctl_def evbuffer_free_all_chains_def)
    ultimately show ?thesis
      using L all that [of "evbuffer_invoke_callbacks (?b\<lparr>n_del_for_cb := szadd (n_del_for_cb ?b) (total_len buf)\<rparr>)"]
      by auto
  next
    case some
    have "list_all chain_ok (chains buf)" "len < sum_list (map ch_off (chains buf))"
      using inv some by (auto simp: evbuffer_inv_def chains_inv_def)
    from drain_loop_ok [OF this, of 0 "last_with_datap buf" "[]"]
    obtain pre c cs r where d: "drain_loop (chains buf) 0 (last_with_datap buf) len [] =
        Some (c # cs, length pre,
              (if pre \<noteq> [] \<and> last_with_datap buf \<le> length pre then 0 else last_with_datap buf), r, pre)"
      and cs: "chains buf = pre @ c # cs" and r: "sum_list (map ch_off pre) + r = len" "r < ch_off c"
      by auto
    let ?c = "c\<lparr>ch_misalign := ch_misalign c + r, ch_off := ch_off c - r\<rparr>"
    let ?b = "(evbuffer_free_all_chains pre buf)\<lparr>chains := ?c # cs,
        last_with_datap := last_with_datap buf - length pre, total_len := total_len buf - len\<rparr>"
    have "evbuffer_drain buf len =
        Some (0, evbuffer_invoke_callbacks (?b\<lparr>n_del_for_cb := szadd (n_del_for_cb ?b) len\<rparr>))"
      using some fr d r(2) by (auto simp: evbuffer_drain_def Let_def)
    moreover have "evbuffer_inv ?b" "contents ?b = drop len (contents buf)"
      using chains_inv_advance [of pre c cs, OF _ r(2)] inv cs r(1) by (auto simp: evbuffer_inv_def contents_def)
    moreover have "same_ctl buf ?b" by (simp add: same_ctl_def evbuffer_free_all_chains_def)
    ultimately show ?thesis
      using that [of "evbuffer_invoke_callbacks (?b\<lparr>n_del_for_cb := szadd (n_del_for_cb ?b) len\<rparr>)"] by auto
  qed
qed

section \<open>Copying out\<close>

lemma copyout_loop_ok:
  "list_all chain_ok cs \<Longrightarrow> n \<le> sum_list (map ch_off cs) \<Longrightarrow>
   copyout_loop cs n out = Some (out @ take n (concat (map chain_data cs)))"
proof (induction cs arbitrary: n out)
  case Nil
  then show ?case by simp
next
  case (Cons c cs)
  then have ok: "ch_misalign c + ch_off c \<le> ch_buffer_len c" "length (chain_data c) = ch_off c"
    by (simp_all add: chain_ok_def)
  have rd: "m \<le> ch_off c \<Longrightarrow> mem_read (ch_buffer c) (ch_misalign c) m = Some (take m (chain_data c))" for m
    using ok(1) by (simp add: mem_read_def chain_data_def)
  consider "n = 0" | "n \<noteq> 0" "ch_off c \<le> n" | "n \<noteq> 0" "n < ch_off c" by linarith
  then show ?case
  proof cases
    case 2
    then have "n - ch_off c \<le> sum_list (map ch_off cs)" using Cons.prems by simp
    moreover from this have "cs \<noteq> [] \<or> n - ch_off c = 0" by auto
    ultimately show ?thesis
      using 2 Cons.IH Cons.prems rd [of "ch_off c"] ok(2) by simp
  qed (use rd [of n] ok(2) in simp_all)
qed

lemma evbuffer_copyout_ok:
  assumes inv: "evbuffer_inv buf" and fr: "\<not> freeze_start buf"
  shows "evbuffer_copyout buf n = Some (to_int32 (min n (total_len buf)), take n (contents buf))"
proof -
  define m where "m = min n (total_len buf)"
  have L: "length (contents buf) = total_len buf" by (rule length_contents [OF inv])
  have m: "(if n \<ge> total_len buf then total_len buf else n) = m" by (simp add: m_def)
  have "take n (contents buf) = take m (contents buf)" using L by (simp add: m_def min_def)
  moreover have "copyout_loop (chains buf) m [] = Some (take m (contents buf))"
    using copyout_loop_ok [of "chains buf" m "[]"] inv
    by (simp add: contents_def m_def evbuffer_inv_def chains_inv_def)
  ultimately show ?thesis
    using fr by (simp add: evbuffer_copyout_def m Let_def flip: m_def)
qed

lemma evbuffer_remove_ok:
  assumes inv: "evbuffer_inv buf" and fr: "\<not> freeze_start buf" and n: "min n (total_len buf) \<le> EV_SSIZE_MAX"
  obtains buf' where "evbuffer_remove buf n = Some (int (min n (total_len buf)), take n (contents buf), buf')"
    "evbuffer_inv buf'" "same_ctl buf buf'" "contents buf' = drop n (contents buf)"
proof -
  define m where "m = min n (total_len buf)"
  have L: "length (contents buf) = total_len buf" by (rule length_contents [OF inv])
  have c: "evbuffer_copyout buf n = Some (int m, take n (contents buf))"
    using evbuffer_copyout_ok [OF inv fr, of n] n by (simp add: m_def cfg_defs)
  obtain buf' where d: "evbuffer_drain buf m = Some (0, buf')" "evbuffer_inv buf'" "same_ctl buf buf'"
    "contents buf' = drop m (contents buf)"
    by (rule evbuffer_drain_ok [OF inv fr])
  show ?thesis
  proof (cases "m = 0")
    case True
    then have "evbuffer_remove buf n = Some (int m, take n (contents buf), buf)"
      using c by (simp add: evbuffer_remove_def)
    then show ?thesis using True that [of buf] inv L by (auto simp: m_def min_def split: if_splits)
  next
    case False
    then have "evbuffer_remove buf n = Some (int m, take n (contents buf), buf')"
      using c d(1) by (simp add: evbuffer_remove_def)
    then show ?thesis using that [of buf'] d L by (auto simp: m_def min_def split: if_splits)
  qed
qed

section \<open>Prepending\<close>

text \<open>Bytes written right before the data of a chain; an empty chain is filled from its end.\<close>

lemma write_before_data:
  assumes ok: "chain_ok ch"
    and mis: "mis = (if ch_off ch = 0 then ch_buffer_len ch else ch_misalign ch)"
    and room: "length bs \<le> mis"
  obtains mem where "mem_write (ch_buffer ch) (mis - length bs) bs = Some mem"
    "chain_ok (ch\<lparr>ch_buffer := mem, ch_off := ch_off ch + length bs, ch_misalign := mis - length bs\<rparr>)"
    "chain_data (ch\<lparr>ch_buffer := mem, ch_off := ch_off ch + length bs, ch_misalign := mis - length bs\<rparr>) =
     bs @ chain_data ch"
proof
  let ?mem = "take (mis - length bs) (ch_buffer ch) @ bs @ drop mis (ch_buffer ch)"
  let ?ch = "ch\<lparr>ch_buffer := ?mem, ch_off := ch_off ch + length bs, ch_misalign := mis - length bs\<rparr>"
  have m: "mis \<le> ch_buffer_len ch" "mis + ch_off ch \<le> ch_buffer_len ch"
    using ok by (auto simp: mis chain_ok_def)
  show "mem_write (ch_buffer ch) (mis - length bs) bs = Some ?mem"
    using m room by (simp add: mem_write_def)
  show "chain_ok ?ch" using m room ok by (auto simp: chain_ok_def CHAIN_PINNED_def)
  have "take (ch_off ch) (drop mis (ch_buffer ch)) = chain_data ch"
    by (simp add: chain_data_def mis)
  then show "chain_data ?ch = bs @ chain_data ch"
    using m room by (simp add: chain_data_def [of ?ch])
qed

lemma extend_first:
  assumes inv: "evbuffer_inv buf" and cs: "chains buf = c # cs"
    and ch: "chain_ok c'" "chain_data c' = bs @ chain_data c" "ch_off c' = ch_off c + length bs"
    and len: "total_len buf + length bs \<le> EV_SIZE_MAX"
  defines "b \<equiv> added (buf\<lparr>chains := c' # cs\<rparr>) (length bs)"
  shows "evbuffer_inv b" "contents b = bs @ contents buf" "total_len b = total_len buf + length bs"
    "same_ctl buf b"
proof -
  have t: "szadd (total_len buf) (length bs) = total_len buf + length bs"
    using len by (simp add: cfg_defs)
  have "tail_ok (c # cs) (last_with_datap buf)" using inv cs by (simp add: evbuffer_inv_def chains_inv_def)
  then have "tail_ok (c' # cs) (last_with_datap buf)" by (rule tail_ok_head) (simp add: ch)
  then show "evbuffer_inv b"
    using inv cs ch len by (simp add: b_def evbuffer_inv_def chains_inv_def t)
  show "contents b = bs @ contents buf" "total_len b = total_len buf + length bs" "same_ctl buf b"
    using cs ch t by (simp_all add: b_def contents_def)
qed

lemma evbuffer_prepend_chain_ok:
  assumes mal: "malloc_spec mal" and inv: "evbuffer_inv buf" and ne: "chains buf \<noteq> []"
    and len: "total_len buf + length data \<le> EV_SIZE_MAX"
  shows "all_or_nothing buf (data @ contents buf) (alloc_refused mal (length data))
           (evbuffer_prepend_chain mal buf data)"
proof (cases "evbuffer_chain_new mal (length data)")
  case None
  then have "evbuffer_prepend_chain mal buf data = Some (-1, buf)" by (simp add: evbuffer_prepend_chain_def)
  then show ?thesis
    by (rule all_or_nothingI(2)) (use inv evbuffer_chain_new_None [OF None] in \<open>auto simp: alloc_refused_def\<close>)
next
  case (Some tmp)
  note tmp = evbuffer_chain_new_Some [OF mal Some]
  let ?mis = "ch_buffer_len tmp - length data"
  obtain mem where m: "mem_write (ch_buffer tmp) ?mis data = Some mem"
    "chain_ok (tmp\<lparr>ch_buffer := mem, ch_off := length data, ch_misalign := ?mis\<rparr>)"
    "chain_data (tmp\<lparr>ch_buffer := mem, ch_off := length data, ch_misalign := ?mis\<rparr>) = data"
    using write_before_data [OF tmp(5), of "ch_buffer_len tmp" data] tmp(2,4) by auto
  let ?c = "tmp\<lparr>ch_buffer := mem, ch_off := length data, ch_misalign := ?mis\<rparr>"
  let ?b = "buf\<lparr>chains := ?c # chains buf, last_with_datap := Suc (last_with_datap buf),
      total_len := szadd (total_len buf) (length data),
      n_add_for_cb := szadd (n_add_for_cb buf) (ch_misalign (hd (chains buf)))\<rparr>"
  have t: "szadd (total_len buf) (length data) = total_len buf + length data" using len by (simp add: cfg_defs)
  have "evbuffer_prepend_chain mal buf data = Some (0, evbuffer_invoke_callbacks ?b)"
    using Some tmp(4) m(1) by (simp add: evbuffer_prepend_chain_def)
  then show ?thesis
  proof (rule all_or_nothingI(1))
    show "evbuffer_inv (evbuffer_invoke_callbacks ?b)"
      using inv ne m(2) len by (auto simp: evbuffer_inv_def chains_inv_def tail_ok_def t)
    show "contents (evbuffer_invoke_callbacks ?b) = data @ contents buf"
      unfolding invoke_callbacks_contents using m(3) by (simp add: contents_def)
    show "same_ctl buf (evbuffer_invoke_callbacks ?b)"
      unfolding invoke_callbacks_frame by (simp add: same_ctl_def)
  qed
qed

text \<open>
  A prepend that runs out of memory may already have put the end of the data in front of the first
  chain; it leaves it there.
\<close>

definition prepend_result :: "evbuffer \<Rightarrow> byte list \<Rightarrow> bool \<Rightarrow> (int \<times> evbuffer) option \<Rightarrow> bool" where
  "prepend_result buf data why res \<longleftrightarrow>
     (\<exists>r buf'. res = Some (r, buf') \<and> evbuffer_inv buf' \<and> same_ctl buf buf' \<and>
        (r = 0 \<and> contents buf' = data @ contents buf \<or>
         r = -1 \<and> why \<and> (\<exists>k. contents buf' = drop k data @ contents buf)))"

lemma all_or_nothing_prepend:
  assumes "all_or_nothing buf1 (d1 @ contents buf1) why1 res" "same_ctl buf buf1"
    "contents buf1 = d2 @ contents buf" "data = d1 @ d2" "why1 \<Longrightarrow> why"
  shows "prepend_result buf data why res"
proof -
  obtain r buf' where r: "res = Some (r, buf')" "evbuffer_inv buf'" "same_ctl buf1 buf'"
    "r = 0 \<and> contents buf' = d1 @ contents buf1 \<or> r = -1 \<and> contents buf' = contents buf1 \<and> why1"
    using assms(1) by (auto simp: all_or_nothing_def)
  have 1: "contents buf1 = drop (length d1) data @ contents buf" "same_ctl buf buf'"
    using assms r(3) by (auto intro: same_ctl_trans)
  have "r = 0 \<and> contents buf' = data @ contents buf \<or>
        r = -1 \<and> why \<and> (\<exists>k. contents buf' = drop k data @ contents buf)"
    using r(4)
  proof
    assume "r = -1 \<and> contents buf' = contents buf1 \<and> why1"
    with assms(5) 1(1) show ?thesis by metis
  qed (use assms(3,4) in simp)
  with r(1,2) 1(2) show ?thesis by (simp add: prepend_result_def)
qed

lemma evbuffer_prepend_first_ok:
  assumes mal: "malloc_spec mal" and inv: "evbuffer_inv buf" and ne: "chains buf \<noteq> []"
    and len: "total_len buf + length data \<le> EV_SIZE_MAX"
  shows "prepend_result buf data (alloc_refused mal (length data)) (evbuffer_prepend_first mal buf data)"
proof -
  obtain c cs where cs: "chains buf = c # cs" using ne by (cases "chains buf") auto
  have ok: "chain_ok c" using inv cs by (simp add: evbuffer_inv_def chains_inv_def)
  have mal': "alloc_refused mal (length data - k) \<Longrightarrow> alloc_refused mal (length data)" for k
    by (auto simp: alloc_refused_def)
  have mis_ok: "ch_misalign c \<le> EVBUFFER_CHAIN_MAX" using ok by (auto simp: chain_ok_def cfg_defs)
  define mis where "mis = (if ch_off c = 0 then ch_buffer_len c else ch_misalign c)"
  define d2 where "d2 = drop (length data - mis) data"
  define d1 where "d1 = take (length data - mis) data"
  let ?pre = "\<lambda>mem. c\<lparr>ch_buffer := mem, ch_off := ch_off c + length d2, ch_misalign := mis - length d2\<rparr>"
  have d2: "length d2 \<le> mis" and d12: "data = d1 @ d2" by (simp_all add: d1_def d2_def)
  obtain mem where m: "mem_write (ch_buffer c) (mis - length d2) d2 = Some mem" "chain_ok (?pre mem)"
      "chain_data (?pre mem) = d2 @ chain_data c"
    by (rule write_before_data [OF ok mis_def d2])
  have len2: "total_len buf + length d2 \<le> EV_SIZE_MAX" using len by (simp add: d2_def)
  let ?b = "added (buf\<lparr>chains := ?pre mem # cs\<rparr>) (length d2)"
  have "ch_off (?pre mem) = ch_off c + length d2" by simp
  note x = extend_first [OF inv cs m(2,3) this len2]
  consider (imm) "CHAIN_IMMUTABLE c" | (fits) "\<not> CHAIN_IMMUTABLE c" "length data \<le> mis"
    | (part) "\<not> CHAIN_IMMUTABLE c" "mis < length data" "mis \<noteq> 0" | (full) "\<not> CHAIN_IMMUTABLE c" "mis < length data" "mis = 0"
    by linarith
  then show ?thesis
  proof cases
    case imm
    then have "evbuffer_prepend_first mal buf data = evbuffer_prepend_chain mal buf data"
      by (simp add: evbuffer_prepend_first_def cs Let_def)
    then show ?thesis
      using all_or_nothing_prepend [OF evbuffer_prepend_chain_ok [OF mal inv ne len], of buf "[]"] by simp
  next
    case fits
    then have "d2 = data" by (simp add: d2_def)
    then have "evbuffer_prepend_first mal buf data = Some (0, evbuffer_invoke_callbacks ?b)"
      using fits m(1) mis_ok by (simp add: evbuffer_prepend_first_def cs Let_def flip: mis_def)
    with x \<open>d2 = data\<close> show ?thesis by (simp add: prepend_result_def)
  next
    case part
    then have l: "length d2 = mis" "length d1 = length data - mis" by (simp_all add: d1_def d2_def)
    have "evbuffer_prepend_first mal buf data = evbuffer_prepend_chain mal ?b d1"
      using part m(1) mis_ok l(1)
      by (simp add: evbuffer_prepend_first_def cs Let_def flip: mis_def d1_def d2_def)
    moreover have "total_len ?b + length d1 \<le> EV_SIZE_MAX" "chains ?b \<noteq> []"
      using x(3) l part(2) len by simp_all
    ultimately show ?thesis
      using all_or_nothing_prepend [OF evbuffer_prepend_chain_ok [OF mal x(1)] x(4,2) d12] mal' [of mis] l(2)
      by simp
  next
    case full
    have "c\<lparr>ch_misalign := mis\<rparr> = c"
      using full(3) ok by (cases c) (auto simp: mis_def chain_ok_def split: if_splits)
    then have "buf\<lparr>chains := c\<lparr>ch_misalign := mis\<rparr> # cs\<rparr> = buf" using cs by (cases buf) simp
    then have "evbuffer_prepend_first mal buf data = evbuffer_prepend_chain mal buf data"
      using full mis_ok by (simp add: evbuffer_prepend_first_def cs Let_def flip: mis_def)
    then show ?thesis
      using all_or_nothing_prepend [OF evbuffer_prepend_chain_ok [OF mal inv ne len], of buf "[]"] by simp
  qed
qed


lemma evbuffer_prepend_ok:
  assumes mal: "malloc_spec mal" and inv: "evbuffer_inv buf"
  shows "prepend_result buf data
     (freeze_start buf \<or> total_len buf + length data > EV_SIZE_MAX \<or> alloc_refused mal (length data))
     (evbuffer_prepend mal buf data)"
proof -
  have t: "total_len buf \<le> EV_SIZE_MAX" using inv by (simp add: evbuffer_inv_def chains_inv_def)
  have refused: "prepend_result buf data why (Some (-1, buf))" if why for why
    using that inv by (simp add: prepend_result_def) (metis append_Nil drop_all order_refl)
  show ?thesis
  proof (cases "freeze_start buf \<or> length data > EV_SIZE_MAX - total_len buf")
    case True
    then have "evbuffer_prepend mal buf data = Some (-1, buf)" by (auto simp: evbuffer_prepend_def Let_def)
    moreover have "freeze_start buf \<or> total_len buf + length data > EV_SIZE_MAX" using True t by linarith
    ultimately show ?thesis by (auto intro: refused)
  next
    case False
    then have len: "total_len buf + length data \<le> EV_SIZE_MAX" using t by linarith
    show ?thesis
    proof (cases "chains buf = []")
      case False2: False
      have "evbuffer_prepend mal buf data = evbuffer_prepend_first mal buf data"
        using False False2 by (simp add: evbuffer_prepend_def Let_def)
      with evbuffer_prepend_first_ok [OF mal inv False2 len] show ?thesis
        by (auto simp: prepend_result_def)
    next
      case True
      show ?thesis
      proof (cases "evbuffer_chain_new mal (length data)")
        case None
        then have "evbuffer_prepend mal buf data = Some (-1, buf)"
          using False True by (simp add: evbuffer_prepend_def Let_def)
        then show ?thesis
          using evbuffer_chain_new_None [OF None] by (auto intro!: refused simp: alloc_refused_def)
      next
        case (Some ch)
        note ch = evbuffer_chain_new_Some [OF mal Some]
        obtain buf1 where b1: "evbuffer_chain_insert buf ch = Some buf1" "evbuffer_inv buf1"
           "contents buf1 = contents buf" "total_len buf1 = total_len buf" "chains buf1 \<noteq> []" "same_ctl buf buf1"
          using evbuffer_chain_insert_ok [OF inv ch(5)] ch t by auto
        have "evbuffer_prepend mal buf data = evbuffer_prepend_first mal buf1 data"
          using False True Some b1(1) by (simp add: evbuffer_prepend_def Let_def)
        then show ?thesis
          using evbuffer_prepend_first_ok [OF mal b1(2,5), of data] b1 len
          by (auto simp: prepend_result_def intro: same_ctl_trans)
      qed
    qed
  qed
qed


section \<open>Properties\<close>

text \<open>An allocator that always succeeds, for concrete runs.\<close>

definition zalloc :: malloc where
  "zalloc n = Some (replicate n 0)"

lemma zalloc_spec [simp]: "malloc_spec zalloc" "zalloc k \<noteq> None"
  by (auto simp: malloc_spec_def zalloc_def)

lemma zalloc_small:
  "length data \<le> 1000 \<Longrightarrow> \<not> alloc_refused zalloc (length data)"
  "length data \<le> 1000 \<Longrightarrow> \<not> length data > EV_SIZE_MAX"
  by (auto simp: alloc_refused_def cfg_defs)

text \<open>
  C4. \<open>evbuffer_add\<close> on a buffer with the invariant (its chains are well formed and from \<open>last_with_datap\<close>
  on only the last one may be empty) never runs into undefined behaviour or a failing assertion. The invariant excludes buffers on which two
  reservations were made and not committed, or two reads got nothing: there an assertion of \<open>evbuffer_chain_insert\<close>
  can fail (\<open>evbuffer_add_after_two_reserves_aborts\<close> in Evbuffer\_Read). It either returns 0 and appends exactly the bytes, or returns -1, leaves the bytes
  alone, and the end was frozen, the length would exceed \<open>EV_SIZE_MAX\<close>, or memory was refused. The
  invariant, the callbacks and the freeze flags survive.
\<close>

theorem evbuffer_add_appends:
  assumes "malloc_spec mal" "evbuffer_inv buf"
  shows "\<exists>r buf'. evbuffer_add mal buf data = Some (r, buf') \<and> evbuffer_inv buf' \<and> same_ctl buf buf' \<and>
     (r = 0 \<and> contents buf' = contents buf @ data \<or>
      r = -1 \<and> contents buf' = contents buf \<and>
      (freeze_end buf \<or> total_len buf + length data > EV_SIZE_MAX \<or> alloc_refused mal (length data)))"
  using evbuffer_add_ok [OF assms] by (simp add: all_or_nothing_def)

theorem evbuffer_add_appends_witness:
  "\<exists>buf'. evbuffer_add zalloc evbuffer_new [1, 2, 3] = Some (0, buf') \<and> contents buf' = [1, 2, 3]"
  using evbuffer_add_appends [of zalloc evbuffer_new "[1, 2, 3]"] zalloc_small [of "[1, 2, 3]"]
  by auto

text \<open>
  \<open>evbuffer_prepend\<close> returns 0 with exactly the bytes put in front, or -1 for one of its three
  reasons; when memory runs out half way, an end piece of the data stays in front of the old bytes.
\<close>

theorem evbuffer_prepend_prepends:
  assumes "malloc_spec mal" "evbuffer_inv buf"
  shows "\<exists>r buf'. evbuffer_prepend mal buf data = Some (r, buf') \<and> evbuffer_inv buf' \<and> same_ctl buf buf' \<and>
     (r = 0 \<and> contents buf' = data @ contents buf \<or>
      r = -1 \<and> (\<exists>k. contents buf' = drop k data @ contents buf) \<and>
      (freeze_start buf \<or> total_len buf + length data > EV_SIZE_MAX \<or> alloc_refused mal (length data)))"
  using evbuffer_prepend_ok [OF assms, of data] unfolding prepend_result_def by blast

theorem evbuffer_prepend_prepends_witness:
  "\<exists>buf'. evbuffer_prepend zalloc evbuffer_new [7, 8] = Some (0, buf') \<and> contents buf' = [7, 8]"
  using evbuffer_prepend_prepends [of zalloc evbuffer_new "[7, 8]"] zalloc_small [of "[7, 8]"]
  by auto

text \<open>
  \<open>evbuffer_drain\<close> of any length drops that many bytes from the front (all of them when there
  are fewer), keeps the invariant and always returns 0 unless the front is frozen.
\<close>

theorem evbuffer_drain_drops:
  assumes "evbuffer_inv buf" "\<not> freeze_start buf"
  shows "\<exists>buf'. evbuffer_drain buf len = Some (0, buf') \<and> evbuffer_inv buf' \<and> same_ctl buf buf' \<and>
     contents buf' = drop len (contents buf)"
  by (rule evbuffer_drain_ok [OF assms]) blast

text \<open>A buffer of two chains with five bytes.\<close>

definition chain_of :: "byte list \<Rightarrow> evbuffer_chain" where
  "chain_of bs = \<lparr>ch_buffer = 0 # bs @ [0], ch_misalign = 1, ch_off = length bs, ch_flags = 0, ch_cleanup = False\<rparr>"

definition two_chains :: evbuffer where
  "two_chains = evbuffer_new\<lparr>chains := [chain_of [1, 2, 3], chain_of [4, 5]], last_with_datap := 1, total_len := 5\<rparr>"

lemma two_chains_facts:
  "evbuffer_inv two_chains" "contents two_chains = [1, 2, 3, 4, 5]" "\<not> freeze_start two_chains"
  "\<not> freeze_end two_chains" "total_len two_chains = 5"
  by (simp_all add: two_chains_def chain_of_def evbuffer_new_def evbuffer_inv_def chains_inv_def
      tail_ok_def chain_ok_def CHAIN_PINNED_def contents_def chain_data_def cfg_defs)

theorem evbuffer_drain_drops_witness:
  "\<exists>buf'. evbuffer_drain two_chains 4 = Some (0, buf') \<and> evbuffer_inv buf' \<and> contents buf' = [5]"
  using evbuffer_drain_drops [OF two_chains_facts(1,3), of 4] by (auto simp: two_chains_facts)

text \<open>
  C5. \<open>evbuffer_remove\<close> hands out exactly the bytes it removes: the returned count, the bytes
  written to the caller's memory and what stays in the buffer fit together.
\<close>

theorem evbuffer_remove_fifo:
  assumes "evbuffer_inv buf" "\<not> freeze_start buf" "min n (total_len buf) \<le> EV_SSIZE_MAX"
  shows "\<exists>out buf'. evbuffer_remove buf n = Some (int (length out), out, buf') \<and> evbuffer_inv buf' \<and>
     length out = min n (total_len buf) \<and> out @ contents buf' = contents buf"
proof -
  obtain buf' where b: "evbuffer_remove buf n = Some (int (min n (total_len buf)), take n (contents buf), buf')"
    "evbuffer_inv buf'" "contents buf' = drop n (contents buf)"
    using assms by (rule evbuffer_remove_ok)
  have "length (take n (contents buf)) = min n (total_len buf)"
    by (simp add: length_contents [OF assms(1)] min.commute)
  with b show ?thesis by (intro exI [of _ "take n (contents buf)"] exI [of _ buf']) simp
qed

theorem evbuffer_remove_fifo_witness:
  "\<exists>out buf'. evbuffer_remove two_chains 4 = Some (int (length out), out, buf') \<and> length out = 4 \<and>
     out @ contents buf' = [1, 2, 3, 4, 5]"
  using evbuffer_remove_fifo [OF two_chains_facts(1,3), of 4] by (auto simp: two_chains_facts cfg_defs)

end
