(* ===== verification/Byte_Queue.thy ===== *)
theory Byte_Queue
  imports Prelude
begin

text \<open>
  The interface through which other components use byte buffers: what adding, draining, pulling up
  and removing do to the sequence of bytes a buffer stands for. The laws hold for buffers that are
  \<open>ready\<close> (well-formed, not frozen, within the size limit) and an environment (the allocator) that
  does not refuse memory.
\<close>

locale byte_queue =
  fixes env :: "'m \<Rightarrow> bool"
    and ready :: "'b \<Rightarrow> bool"
    and bytes :: "'b \<Rightarrow> byte list"
    and limit :: nat
    and add :: "'m \<Rightarrow> 'b \<Rightarrow> byte list \<Rightarrow> (int \<times> 'b) option"
    and drain :: "'b \<Rightarrow> nat \<Rightarrow> (int \<times> 'b) option"
    and pullup :: "'m \<Rightarrow> 'b \<Rightarrow> int \<Rightarrow> (byte list option \<times> 'b) option"
    and remove :: "'b \<Rightarrow> nat \<Rightarrow> (int \<times> byte list \<times> 'b) option"
    and size_of :: "'b \<Rightarrow> nat"
  assumes add_law: "env m \<Longrightarrow> ready b \<Longrightarrow> length (bytes b) + length xs \<le> limit \<Longrightarrow>
      \<exists>b'. add m b xs = Some (0, b') \<and> ready b' \<and> bytes b' = bytes b @ xs"
    and drain_law: "ready b \<Longrightarrow> \<exists>b'. drain b n = Some (0, b') \<and> ready b' \<and> bytes b' = drop n (bytes b)"
    and pullup_law: "env m \<Longrightarrow> ready b \<Longrightarrow> 0 < n \<Longrightarrow> n \<le> length (bytes b) \<Longrightarrow>
      \<exists>mem b'. pullup m b (int n) = Some (Some mem, b') \<and> ready b' \<and> bytes b' = bytes b \<and>
               n \<le> length mem \<and> take n mem = take n (bytes b)"
    and remove_law: "ready b \<Longrightarrow>
      \<exists>b'. remove b n = Some (int (min n (length (bytes b))), take n (bytes b), b') \<and> ready b' \<and>
           bytes b' = drop n (bytes b)"
    and size_law: "ready b \<Longrightarrow> size_of b = length (bytes b)"
    and limit_law: "ready b \<Longrightarrow> length (bytes b) \<le> limit"
begin

text \<open>A client that reads a prefix sees it as the start of the memory it gets.\<close>

lemma pullup_prefix:
  assumes "env m" "ready b" "0 < n" "n \<le> length (bytes b)" "bytes b = xs @ ys" "length xs \<le> n"
  obtains rest b' where "pullup m b (int n) = Some (Some (xs @ rest), b')" "ready b'" "bytes b' = bytes b"
    "n - length xs \<le> length rest" "take (n - length xs) rest = take (n - length xs) ys"
proof -
  obtain mem b' where p: "pullup m b (int n) = Some (Some mem, b')" "ready b'" "bytes b' = bytes b"
    "n \<le> length mem" "take n mem = take n (bytes b)"
    using pullup_law [OF assms(1-4)] by blast
  have t: "take n mem = xs @ take (n - length xs) ys" using p(5) assms(5,6) by simp
  then have "mem = xs @ drop (length xs) mem"
    using assms(6) by (metis append_take_drop_id append_eq_conv_conj le_iff_add take_add min.absorb1 take_take)
  moreover from t have "take (n - length xs) (drop (length xs) mem) = take (n - length xs) ys"
    by (metis append_eq_conv_conj drop_take)
  ultimately show ?thesis using that [of "drop (length xs) mem" b'] p assms(6) by simp
qed

text \<open>Taking a message off the front: look at it, then drain it.\<close>

lemma take_front:
  assumes "env m" "ready b" "bytes b = xs @ ys" "xs \<noteq> []"
  obtains rest b1 b2 where "pullup m b (int (length xs)) = Some (Some (xs @ rest), b1)"
    "drain b1 (length xs) = Some (0, b2)" "ready b2" "bytes b2 = ys"
proof -
  obtain rest b1 where p: "pullup m b (int (length xs)) = Some (Some (xs @ rest), b1)" "ready b1" "bytes b1 = bytes b"
    by (rule pullup_prefix [OF assms(1,2), of "length xs" xs ys]) (use assms in auto)
  obtain b2 where "drain b1 (length xs) = Some (0, b2)" "ready b2" "bytes b2 = drop (length xs) (bytes b1)"
    using drain_law [OF p(2)] by blast
  with p that show ?thesis using assms(3) by simp
qed

text \<open>First in, first out: what was added comes out behind what was there.\<close>

lemma add_remove:
  assumes "env m" "ready b" "length (bytes b) + length xs \<le> limit"
  obtains b1 b2 where "add m b xs = Some (0, b1)"
    "remove b1 (length (bytes b) + length xs) = Some (int (length (bytes b) + length xs), bytes b @ xs, b2)"
    "ready b2" "bytes b2 = []"
proof -
  obtain b1 where a: "add m b xs = Some (0, b1)" "ready b1" "bytes b1 = bytes b @ xs"
    using add_law [OF assms] by blast
  with remove_law [OF a(2), of "length (bytes b) + length xs"] that show ?thesis by auto
qed

end

end
