(* ===== verification/Evbuffer_Move.thy ===== *)
theory Evbuffer_Move
  imports Evbuffer_Inv Byte_Queue
begin

text \<open>
  Operations of \<^verbatim>\<open>buffer.c\<close> that move whole chains: between two buffers (\<open>evbuffer_add_buffer\<close>,
  \<open>evbuffer_prepend_buffer\<close>, \<open>evbuffer_remove_buffer\<close>) and within one (\<open>evbuffer_pullup\<close>). Two buffers
  passed to one call are two values; the flag \<open>same\<close> is the pointer comparison \<open>outbuf == inbuf\<close>.
\<close>

section \<open>Definitions\<close>

text \<open>The pinned chains cut off the source, or \<open>[]\<close> for \<open>*first = NULL\<close>.\<close>

definition PRESERVE_PINNED :: "malloc \<Rightarrow> evbuffer \<Rightarrow> (int \<times> evbuffer_chain list \<times> evbuffer) option" where
  "PRESERVE_PINNED mal src =
     (if \<not> HAS_PINNED_R src then Some (0, [], src)
      else do {
        let l = last_with_datap src;
        c \<leftarrow> nth_opt (chains src) l;
        let p = (if CHAIN_PINNED_R c then l else Suc l);
        chain \<leftarrow> nth_opt (chains src) p;
        ev_assert (CHAIN_PINNED_R chain);
        if ch_off chain \<noteq> 0 then do {
          ev_assert (p = l);
          case evbuffer_chain_new mal (ch_off chain) of
            None \<Rightarrow> Some (-1, drop p (chains src), src)
          | Some tmp \<Rightarrow> do {
              bs \<leftarrow> mem_read (ch_buffer chain) (ch_misalign chain) (ch_off chain);
              mem \<leftarrow> mem_write (ch_buffer tmp) 0 bs;
              Some (0, chain\<lparr>ch_misalign := ch_misalign chain + ch_off chain, ch_off := 0\<rparr> # drop (Suc p) (chains src),
                    src\<lparr>chains := take l (chains src) @ [tmp\<lparr>ch_buffer := mem, ch_off := ch_off chain\<rparr>]\<rparr>)
            }
        }
        else do {
          \<comment> \<open>\<open>src->last = *src->last_with_datap\<close> must be the chain before the cut\<close>
          ev_assert (p = Suc l);
          Some (0, drop p (chains src), src\<lparr>chains := take p (chains src)\<rparr>)
        }
      })"

definition RESTORE_PINNED :: "evbuffer \<Rightarrow> evbuffer_chain list \<Rightarrow> evbuffer" where
  "RESTORE_PINNED src pinned =
     (if pinned = [] then ZERO_CHAIN src
      else src\<lparr>chains := pinned, last_with_datap := 0, total_len := 0\<rparr>)"

definition COPY_CHAIN :: "evbuffer \<Rightarrow> evbuffer \<Rightarrow> evbuffer" where
  "COPY_CHAIN dst src =
     dst\<lparr>chains := chains src, last_with_datap := last_with_datap src, total_len := total_len src\<rparr>"

definition APPEND_CHAIN :: "evbuffer \<Rightarrow> evbuffer \<Rightarrow> evbuffer option" where
  "APPEND_CHAIN dst src = do {
     ev_assert (chains dst \<noteq> []);
     Some (dst\<lparr>chains := chains dst @ chains src,
               last_with_datap := length (chains dst) + last_with_datap src,
               total_len := szadd (total_len dst) (total_len src)\<rparr>)
   }"

definition PREPEND_CHAIN :: "evbuffer \<Rightarrow> evbuffer \<Rightarrow> evbuffer option" where
  "PREPEND_CHAIN dst src = do {
     ev_assert (chains src \<noteq> []);
     Some (dst\<lparr>chains := chains src @ chains dst,
               total_len := szadd (total_len dst) (total_len src),
               last_with_datap := (if last_with_datap dst \<ge> length (chains dst) then last_with_datap src
                                   else length (chains src) + last_with_datap dst)\<rparr>)
   }"

definition notify_moved :: "evbuffer \<Rightarrow> evbuffer \<Rightarrow> nat \<Rightarrow> evbuffer \<times> evbuffer" where
  "notify_moved outbuf inbuf n =
     (evbuffer_invoke_callbacks (outbuf\<lparr>n_add_for_cb := szadd (n_add_for_cb outbuf) n\<rparr>),
      evbuffer_invoke_callbacks (inbuf\<lparr>n_del_for_cb := szadd (n_del_for_cb inbuf) n\<rparr>))"

text \<open>Return value, \<open>outbuf\<close>, \<open>inbuf\<close>.\<close>

definition evbuffer_add_buffer ::
    "malloc \<Rightarrow> bool \<Rightarrow> evbuffer \<Rightarrow> evbuffer \<Rightarrow> (int \<times> evbuffer \<times> evbuffer) option" where
  "evbuffer_add_buffer mal same outbuf inbuf =
     (let in_total_len = total_len inbuf; out_total_len = total_len outbuf in
      if in_total_len = 0 \<or> same then Some (0, outbuf, inbuf)
      else if freeze_end outbuf \<or> freeze_start inbuf then Some (-1, outbuf, inbuf)
      else do {
        (rc, pinned, inbuf1) \<leftarrow> PRESERVE_PINNED mal inbuf;
        if rc < 0 then Some (-1, outbuf, inbuf1)
        else do {
          outbuf1 \<leftarrow> (if out_total_len = 0
                       then Some (COPY_CHAIN (evbuffer_free_all_chains (chains outbuf) outbuf) inbuf1)
                       else APPEND_CHAIN outbuf inbuf1);
          Some (0, notify_moved outbuf1 (RESTORE_PINNED inbuf1 pinned) in_total_len)
        }
      })"

definition evbuffer_prepend_buffer ::
    "malloc \<Rightarrow> bool \<Rightarrow> evbuffer \<Rightarrow> evbuffer \<Rightarrow> (int \<times> evbuffer \<times> evbuffer) option" where
  "evbuffer_prepend_buffer mal same outbuf inbuf =
     (let in_total_len = total_len inbuf; out_total_len = total_len outbuf in
      if in_total_len = 0 \<or> same then Some (0, outbuf, inbuf)
      else if freeze_start outbuf \<or> freeze_start inbuf then Some (-1, outbuf, inbuf)
      else do {
        (rc, pinned, inbuf1) \<leftarrow> PRESERVE_PINNED mal inbuf;
        if rc < 0 then Some (-1, outbuf, inbuf1)
        else do {
          outbuf1 \<leftarrow> (if out_total_len = 0
                       then Some (COPY_CHAIN (evbuffer_free_all_chains (chains outbuf) outbuf) inbuf1)
                       else PREPEND_CHAIN outbuf inbuf1);
          Some (0, notify_moved outbuf1 (RESTORE_PINNED inbuf1 pinned) in_total_len)
        }
      })"

definition advance_last_with_data :: "evbuffer \<Rightarrow> evbuffer" where
  "advance_last_with_data buf =
     (if last_with_datap buf \<ge> length (chains buf) then buf
      else buf\<lparr>last_with_datap := last_with_datap buf +
                 length (takeWhile (\<lambda>ch. ch_off ch \<noteq> 0) (drop (Suc (last_with_datap buf)) (chains buf)))\<rparr>)"

text \<open>
  The loop of \<open>evbuffer_remove_buffer\<close>: the chains not yet visited, the number of the first of them,
  \<open>last_with_datap\<close> as an index into the original list, \<open>datlen\<close>, \<open>nread\<close> and the chains visited.
\<close>

fun remove_buffer_loop ::
    "evbuffer_chain list \<Rightarrow> nat \<Rightarrow> nat \<Rightarrow> nat \<Rightarrow> nat \<Rightarrow> evbuffer_chain list \<Rightarrow>
     (evbuffer_chain list \<times> nat \<times> nat \<times> nat \<times> evbuffer_chain list) option" where
  "remove_buffer_loop [] k lwd datlen nread moved = None"
| "remove_buffer_loop (chain # cs) k lwd datlen nread moved =
     (if ch_off chain \<le> datlen then do {
        ev_assert (k \<noteq> lwd);
        remove_buffer_loop cs (Suc k) (if lwd = Suc k then 0 else lwd) (datlen - ch_off chain)
          (nread + ch_off chain) (moved @ [chain])
      }
      else Some (chain # cs, lwd, datlen, nread, moved))"

text \<open>
  The branch "if (nread)": the visited chains move to the end of \<open>dst\<close>. Otherwise they are all empty
  and stay in front of the others in \<open>src\<close> (the first component), though \<open>last_with_datap\<close> may have
  moved to the front.
\<close>

definition remove_buffer_link ::
    "evbuffer \<Rightarrow> evbuffer \<Rightarrow> nat \<Rightarrow> nat \<Rightarrow> evbuffer_chain list \<Rightarrow>
     (evbuffer_chain list \<times> evbuffer \<times> evbuffer) option" where
  "remove_buffer_link src dst lwd nread moved =
     (if nread \<noteq> 0 then do {
        (chp, dst0) \<leftarrow> evbuffer_free_trailing_empty_chains dst;
        let dst1 = advance_last_with_data (dst0\<lparr>chains := chains dst0 @ moved\<rparr>);
        Some ([], src\<lparr>last_with_datap := (if lwd = 0 then 0 else lwd - length moved)\<rparr>,
              dst1\<lparr>total_len := szadd (total_len dst1) nread, n_add_for_cb := szadd (n_add_for_cb dst1) nread\<rparr>)
      }
      else Some (moved, src\<lparr>last_with_datap := lwd\<rparr>, dst))"

definition evbuffer_remove_buffer ::
    "malloc \<Rightarrow> bool \<Rightarrow> evbuffer \<Rightarrow> evbuffer \<Rightarrow> nat \<Rightarrow> (int \<times> evbuffer \<times> evbuffer) option" where
  "evbuffer_remove_buffer mal same src dst datlen =
     (if datlen = 0 \<or> same then Some (0, src, dst)
      else if freeze_end dst \<or> freeze_start src then Some (-1, src, dst)
      else if datlen \<ge> total_len src then do {
        let datlen = total_len src;
        (rc, dst1, src1) \<leftarrow> evbuffer_add_buffer mal False dst src;
        Some (to_int32 datlen, src1, dst1)
      }
      else do {
        (rest, lwd, datlen1, nread, moved) \<leftarrow> remove_buffer_loop (chains src) 0 (last_with_datap src) datlen 0 [];
        (kept, src1, dst1) \<leftarrow> remove_buffer_link src dst lwd nread moved;
        let chain = hd rest;
        bs \<leftarrow> mem_read (ch_buffer chain) (ch_misalign chain) datlen1;
        (rc, dst2) \<leftarrow> evbuffer_add mal dst1 bs;
        let chain1 = chain\<lparr>ch_misalign := ch_misalign chain + datlen1, ch_off := ch_off chain - datlen1\<rparr>;
        let nread = nread + datlen1;
        let src2 = src1\<lparr>chains := kept @ chain1 # tl rest,
                         total_len := szsub (total_len src1) nread,
                         n_del_for_cb := szadd (n_del_for_cb src1) nread\<rparr>;
        Some (to_int32 nread,
              if nread \<noteq> 0 then evbuffer_invoke_callbacks src2 else src2,
              if nread \<noteq> 0 then evbuffer_invoke_callbacks dst2 else dst2)
      })"

text \<open>Whether the loop that looks for pinned chains finds one among those it has to copy.\<close>

fun pullup_pinned :: "evbuffer_chain list \<Rightarrow> nat \<Rightarrow> bool" where
  "pullup_pinned [] remaining \<longleftrightarrow> False"
| "pullup_pinned (tmp # cs) remaining \<longleftrightarrow>
     (if CHAIN_PINNED tmp then True
      else if ch_off tmp \<ge> remaining then False
      else pullup_pinned cs (remaining - ch_off tmp))"

text \<open>
  The copying loop of \<open>evbuffer_pullup\<close>: chains left, number of the first of them in the original
  list, \<open>sz\<close>, the bytes written so far and the chains freed.
\<close>

fun pullup_loop ::
    "evbuffer_chain list \<Rightarrow> nat \<Rightarrow> nat \<Rightarrow> byte list \<Rightarrow> evbuffer_chain list \<Rightarrow>
     (evbuffer_chain list \<times> nat \<times> nat \<times> byte list \<times> evbuffer_chain list) option" where
  "pullup_loop [] k sz out freed = Some ([], k, sz, out, freed)"
| "pullup_loop (chain # cs) k sz out freed =
     (if sz \<ge> ch_off chain then do {
        bs \<leftarrow> mem_read (ch_buffer chain) (ch_misalign chain) (ch_off chain);
        pullup_loop cs (Suc k) (sz - ch_off chain) (out @ bs) (freed @ [chain])
      }
      else Some (chain # cs, k, sz, out, freed))"

text \<open>What is copied from the first chain that stays.\<close>

fun pullup_last ::
    "evbuffer_chain list \<Rightarrow> nat \<Rightarrow> byte list \<Rightarrow> (evbuffer_chain list \<times> byte list) option" where
  "pullup_last [] sz out = Some ([], out)"
| "pullup_last (chain # cs) sz out = do {
     bs \<leftarrow> mem_read (ch_buffer chain) (ch_misalign chain) sz;
     Some (chain\<lparr>ch_misalign := ch_misalign chain + sz, ch_off := ch_off chain - sz\<rparr> # cs, out @ bs)
   }"

text \<open>
  \<open>last_with_datap\<close> afterwards: the chains \<open>k0\<close> up to \<open>k - 1\<close> of the original list are freed, the
  chains \<open>rest\<close> follow the chain pulled into, which is now the first.
\<close>

definition pullup_lwd :: "nat \<Rightarrow> nat \<Rightarrow> nat \<Rightarrow> evbuffer_chain list \<Rightarrow> nat" where
  "pullup_lwd lwd k0 k rest =
     (let removed_last_with_data = (lwd \<noteq> 0 \<and> k0 \<le> lwd \<and> lwd < k);
          removed_last_with_datap = (lwd \<noteq> 0 \<and> k0 \<le> lwd - 1 \<and> lwd - 1 < k)
      in if removed_last_with_data then 0
         else if removed_last_with_datap then (if rest \<noteq> [] \<and> ch_off (hd rest) \<noteq> 0 then 1 else 0)
         else if lwd = 0 then 0 else Suc (lwd - k))"

text \<open>
  The second half of \<open>evbuffer_pullup\<close>, from the copying loop on: \<open>tmp\<close> receives \<open>sz\<close> bytes from
  position \<open>at\<close> of its memory; the chains to copy from start with number \<open>k0\<close> (0 when \<open>tmp\<close> is a new
  chain, 1 when it is the first chain of the buffer).
\<close>

definition evbuffer_pullup_into ::
    "evbuffer \<Rightarrow> evbuffer_chain \<Rightarrow> nat \<Rightarrow> nat \<Rightarrow> nat \<Rightarrow> (byte list option \<times> evbuffer) option" where
  "evbuffer_pullup_into buf tmp at sz k0 = do {
     (rest, k, sz1, out, freed) \<leftarrow> pullup_loop (drop k0 (chains buf)) k0 sz [] [];
     (rest1, out1) \<leftarrow> pullup_last rest sz1 out;
     mem \<leftarrow> mem_write (ch_buffer tmp) at out1;
     Some (Some (drop (ch_misalign tmp) mem),
           (evbuffer_free_all_chains freed buf)
             \<lparr>chains := tmp\<lparr>ch_buffer := mem\<rparr> # rest1,
              last_with_datap := pullup_lwd (last_with_datap buf) k0 k rest1\<rparr>)
   }"

text \<open>
  The returned pointer is the memory behind it, from the first byte on; \<open>None\<close> is NULL.
\<close>

definition evbuffer_pullup :: "malloc \<Rightarrow> evbuffer \<Rightarrow> int \<Rightarrow> (byte list option \<times> evbuffer) option" where
  "evbuffer_pullup mal buf size0 =
     (let sz = (if size0 < 0 then total_len buf else nat size0) in
      if sz = 0 \<or> sz > total_len buf then Some (None, buf)
      else case chains buf of
        [] \<Rightarrow> None
      | chain # cs \<Rightarrow>
          if ch_off chain \<ge> sz then Some (Some (drop (ch_misalign chain) (ch_buffer chain)), buf)
          else do {
            ev_assert (to_int32 (sz - ch_off chain) \<ge> 0);
            if pullup_pinned cs (sz - ch_off chain) then Some (None, buf)
            else if CHAIN_PINNED chain then
              (if CHAIN_SPACE_LEN chain < sz - ch_off chain then Some (None, buf)
               else evbuffer_pullup_into buf (chain\<lparr>ch_off := sz\<rparr>) (ch_misalign chain + ch_off chain)
                      (sz - ch_off chain) 1)
            else if szsub (ch_buffer_len chain) (ch_misalign chain) \<ge> sz then
              evbuffer_pullup_into buf (chain\<lparr>ch_off := sz\<rparr>) (ch_misalign chain + ch_off chain)
                (sz - ch_off chain) 1
            else case evbuffer_chain_new mal sz of
                None \<Rightarrow> Some (None, buf)
              | Some tmp \<Rightarrow> evbuffer_pullup_into buf (tmp\<lparr>ch_off := sz\<rparr>) 0 sz 0
          })"

section \<open>Moving between two buffers\<close>

lemma tail_ok_append: "cs2 \<noteq> [] \<Longrightarrow> tail_ok cs2 l2 \<Longrightarrow> tail_ok (cs1 @ cs2) (length cs1 + l2)"
  by (auto simp: tail_ok_def)

lemma chains_inv_append:
  assumes "chains_inv cs1 l1 n1" "chains_inv cs2 l2 n2" "cs2 \<noteq> []" "n1 + n2 \<le> EV_SIZE_MAX"
  shows "chains_inv (cs1 @ cs2) (length cs1 + l2) (n1 + n2)"
  using assms by (auto simp: chains_inv_def intro: tail_ok_append)

lemma total_len_pos: "evbuffer_inv buf \<Longrightarrow> total_len buf \<noteq> 0 \<Longrightarrow> chains buf \<noteq> []"
  by (auto simp: evbuffer_inv_def chains_inv_def)

lemma total_len_0: "evbuffer_inv buf \<Longrightarrow> total_len buf = 0 \<longleftrightarrow> contents buf = []"
  using length_contents [of buf] by auto

lemma PRESERVE_PINNED_none [simp]: "evbuffer_inv buf \<Longrightarrow> PRESERVE_PINNED mal buf = Some (0, [], buf)"
  by (simp add: PRESERVE_PINNED_def not_pinned_R)

lemma ZERO_CHAIN_ok [simp]:
  "evbuffer_inv (ZERO_CHAIN buf)" "contents (ZERO_CHAIN buf) = []" "same_ctl b (ZERO_CHAIN buf) = same_ctl b buf"
  by (simp_all add: ZERO_CHAIN_def evbuffer_inv_def chains_inv_def tail_ok_def contents_def same_ctl_def)

lemma notify_moved_ok:
  assumes "notify_moved a b n = (a', b')"
  shows "evbuffer_inv a' = evbuffer_inv a" "evbuffer_inv b' = evbuffer_inv b"
    "contents a' = contents a" "contents b' = contents b" "total_len a' = total_len a"
    "same_ctl c a' = same_ctl c a" "same_ctl c b' = same_ctl c b"
  using assms by (auto simp: notify_moved_def)

text \<open>The two outcomes of moving all of \<open>inbuf\<close>.\<close>

definition moved_all :: "evbuffer \<Rightarrow> evbuffer \<Rightarrow> byte list \<Rightarrow> (int \<times> evbuffer \<times> evbuffer) option \<Rightarrow> bool" where
  "moved_all outbuf inbuf new res \<longleftrightarrow>
     (\<exists>out' in'. res = Some (0, out', in') \<and> evbuffer_inv out' \<and> evbuffer_inv in' \<and>
        contents out' = new \<and> contents in' = [] \<and> same_ctl outbuf out' \<and> same_ctl inbuf in')"

lemma moved_allI:
  assumes "res = Some (0, notify_moved out1 (ZERO_CHAIN inbuf) n)" "evbuffer_inv out1" "contents out1 = new"
    "same_ctl outbuf out1"
  shows "moved_all outbuf inbuf new res"
proof -
  obtain o' i' where n: "notify_moved out1 (ZERO_CHAIN inbuf) n = (o', i')" by fastforce
  show ?thesis
    unfolding moved_all_def
    by (intro exI [of _ o'] exI [of _ i']) (use assms n in \<open>simp add: notify_moved_ok [OF n]\<close>)
qed

lemma evbuffer_add_buffer_ok:
  assumes inv: "evbuffer_inv outbuf" "evbuffer_inv inbuf"
    and len: "total_len outbuf + total_len inbuf \<le> EV_SIZE_MAX"
    and fr: "\<not> freeze_end outbuf" "\<not> freeze_start inbuf"
  shows "moved_all outbuf inbuf (contents outbuf @ contents inbuf) (evbuffer_add_buffer mal False outbuf inbuf)"
proof -
  consider (none) "total_len inbuf = 0" | (copy) "total_len inbuf \<noteq> 0" "total_len outbuf = 0"
    | (app) "total_len inbuf \<noteq> 0" "total_len outbuf \<noteq> 0" by blast
  then show ?thesis
  proof cases
    case none
    then show ?thesis using inv total_len_0 [OF inv(2)]
      by (simp add: moved_all_def evbuffer_add_buffer_def)
  next
    case copy
    let ?o = "COPY_CHAIN (evbuffer_free_all_chains (chains outbuf) outbuf) inbuf"
    have "evbuffer_add_buffer mal False outbuf inbuf = Some (0, notify_moved ?o (ZERO_CHAIN inbuf) (total_len inbuf))"
      using copy fr inv by (simp add: evbuffer_add_buffer_def RESTORE_PINNED_def)
    then show ?thesis
      by (rule moved_allI)
         (use inv copy total_len_0 [OF inv(1)] in
           \<open>simp_all add: COPY_CHAIN_def evbuffer_inv_def contents_def same_ctl_def evbuffer_free_all_chains_def\<close>)
  next
    case app
    note ne = total_len_pos [OF inv(1) app(2)] total_len_pos [OF inv(2) app(1)]
    obtain o1 where o1: "APPEND_CHAIN outbuf inbuf = Some o1" by (simp add: APPEND_CHAIN_def ne)
    then have "evbuffer_add_buffer mal False outbuf inbuf = Some (0, notify_moved o1 (ZERO_CHAIN inbuf) (total_len inbuf))"
      using app fr inv by (simp add: evbuffer_add_buffer_def RESTORE_PINNED_def)
    then show ?thesis
      by (rule moved_allI)
         (use o1 inv ne len chains_inv_append in
           \<open>auto simp: APPEND_CHAIN_def evbuffer_inv_def contents_def same_ctl_def\<close>)
  qed
qed

lemma evbuffer_prepend_buffer_ok:
  assumes inv: "evbuffer_inv outbuf" "evbuffer_inv inbuf"
    and len: "total_len outbuf + total_len inbuf \<le> EV_SIZE_MAX"
    and fr: "\<not> freeze_start outbuf" "\<not> freeze_start inbuf"
  shows "moved_all outbuf inbuf (contents inbuf @ contents outbuf) (evbuffer_prepend_buffer mal False outbuf inbuf)"
proof -
  consider (none) "total_len inbuf = 0" | (copy) "total_len inbuf \<noteq> 0" "total_len outbuf = 0"
    | (app) "total_len inbuf \<noteq> 0" "total_len outbuf \<noteq> 0" by blast
  then show ?thesis
  proof cases
    case none
    then show ?thesis using inv total_len_0 [OF inv(2)]
      by (simp add: moved_all_def evbuffer_prepend_buffer_def)
  next
    case copy
    let ?o = "COPY_CHAIN (evbuffer_free_all_chains (chains outbuf) outbuf) inbuf"
    have "evbuffer_prepend_buffer mal False outbuf inbuf = Some (0, notify_moved ?o (ZERO_CHAIN inbuf) (total_len inbuf))"
      using copy fr inv by (simp add: evbuffer_prepend_buffer_def RESTORE_PINNED_def)
    then show ?thesis
      by (rule moved_allI)
         (use inv copy total_len_0 [OF inv(1)] in
           \<open>simp_all add: COPY_CHAIN_def evbuffer_inv_def contents_def same_ctl_def evbuffer_free_all_chains_def\<close>)
  next
    case app
    note ne = total_len_pos [OF inv(1) app(2)] total_len_pos [OF inv(2) app(1)]
    have lwd: "last_with_datap outbuf < length (chains outbuf)"
      using inv(1) ne(1) by (auto simp: evbuffer_inv_def chains_inv_def tail_ok_def)
    obtain o1 where o1: "PREPEND_CHAIN outbuf inbuf = Some o1" by (simp add: PREPEND_CHAIN_def ne)
    then have "evbuffer_prepend_buffer mal False outbuf inbuf = Some (0, notify_moved o1 (ZERO_CHAIN inbuf) (total_len inbuf))"
      using app fr inv by (simp add: evbuffer_prepend_buffer_def RESTORE_PINNED_def)
    then show ?thesis
      by (rule moved_allI)
         (use o1 inv ne len lwd chains_inv_append [of "chains inbuf" _ _ "chains outbuf"] in
           \<open>auto simp: PREPEND_CHAIN_def evbuffer_inv_def contents_def same_ctl_def add.commute\<close>)
  qed
qed

section \<open>Pulling up\<close>

lemma pullup_loop_ok:
  "list_all chain_ok cs \<Longrightarrow>
   \<exists>pre rest sz'. pullup_loop cs k sz out freed =
       Some (rest, k + length pre, sz', out @ concat (map chain_data pre), freed @ pre) \<and>
     cs = pre @ rest \<and> sum_list (map ch_off pre) + sz' = sz \<and> (rest \<noteq> [] \<longrightarrow> sz' < ch_off (hd rest))"
proof (induction cs arbitrary: k sz out freed)
  case Nil
  then show ?case by simp
next
  case (Cons c cs)
  show ?case
  proof (cases "ch_off c \<le> sz")
    case False
    then show ?thesis by (intro exI [of _ "[]"] exI [of _ "c # cs"] exI [of _ sz]) simp
  next
    case True
    have rd: "mem_read (ch_buffer c) (ch_misalign c) (ch_off c) = Some (chain_data c)"
      using Cons.prems by (simp add: mem_read_def chain_data_def chain_ok_def)
    have "list_all chain_ok cs" using Cons.prems by simp
    from Cons.IH [OF this, of "Suc k" "sz - ch_off c" "out @ chain_data c" "freed @ [c]"]
    obtain pre rest sz' where IH:
      "pullup_loop cs (Suc k) (sz - ch_off c) (out @ chain_data c) (freed @ [c]) =
         Some (rest, Suc k + length pre, sz', (out @ chain_data c) @ concat (map chain_data pre), (freed @ [c]) @ pre)"
      "cs = pre @ rest" "sum_list (map ch_off pre) + sz' = sz - ch_off c" "rest \<noteq> [] \<longrightarrow> sz' < ch_off (hd rest)"
      by blast
    then show ?thesis
      using True rd by (intro exI [of _ "c # pre"] exI [of _ rest] exI [of _ sz']) auto
  qed
qed

lemma tail_ok_Cons_0: "tail_ok (c # cs) 0 \<longleftrightarrow> (cs \<noteq> [] \<longrightarrow> ch_off c \<noteq> 0 \<and> tail_ok cs 0)"
  by (auto simp: tail_ok_def)

lemma tail_ok_Cons_Suc: "cs \<noteq> [] \<Longrightarrow> tail_ok (c # cs) (Suc l) \<longleftrightarrow> tail_ok cs l"
  by (auto simp: tail_ok_def)

lemma tail_ok_pulled:
  assumes t: "tail_ok cs lwd" "cs \<noteq> []" and r: "rest1 = [] \<and> length cs \<le> k \<or>
      k < length cs \<and> rest1 = c' # tl (drop k cs) \<and> ch_off c' \<noteq> 0"
    and tmp: "ch_off tmp \<noteq> 0"
  shows "lwd \<le> k \<Longrightarrow> tail_ok (tmp # rest1) 0"
    and "k \<le> lwd \<Longrightarrow> tail_ok (tmp # rest1) (Suc (lwd - k))"
proof -
  have rest: "k < length cs \<Longrightarrow> tail_ok rest1 (lwd - k)"
  proof -
    assume k: "k < length cs"
    then obtain c cs' where d: "drop k cs = c # cs'" by (metis drop_eq_Nil neq_Nil_conv not_le)
    with tail_ok_drop [OF t(1) k] have "tail_ok (c # cs') (lwd - k)" by simp
    with r k d show "tail_ok rest1 (lwd - k)" by (auto intro: tail_ok_head)
  qed
  show "lwd \<le> k \<Longrightarrow> tail_ok (tmp # rest1) 0"
    using rest r tmp by (cases "k < length cs") (auto simp: tail_ok_Cons_0)
  have "lwd < length cs" using t by (simp add: tail_ok_def)
  then show "k \<le> lwd \<Longrightarrow> tail_ok (tmp # rest1) (Suc (lwd - k))"
    using rest r by (subst tail_ok_Cons_Suc) auto
qed

lemma tail_ok_pullup_lwd:
  assumes t: "tail_ok cs lwd" "cs \<noteq> []" and r: "rest1 = [] \<and> length cs \<le> k \<or>
      k < length cs \<and> rest1 = c' # tl (drop k cs) \<and> ch_off c' \<noteq> 0"
    and tmp: "ch_off tmp \<noteq> 0" and k0: "k0 \<le> 1" "k0 \<le> k"
  shows "tail_ok (tmp # rest1) (pullup_lwd lwd k0 k rest1)"
proof -
  let ?l = "pullup_lwd lwd k0 k rest1"
  note p = tail_ok_pulled [OF t r tmp]
  have l: "lwd < length cs" using t by (simp add: tail_ok_def)
  consider "lwd < k" | "lwd = k" | "k < lwd" by linarith
  then have "?l = 0 \<and> lwd \<le> k \<or> ?l = Suc (lwd - k) \<and> k \<le> lwd"
    by cases (use l r k0 in \<open>auto simp: pullup_lwd_def Let_def\<close>)
  then show ?thesis using p by auto
qed

text \<open>What the loop and the last partial copy leave.\<close>

lemma pullup_copies:
  assumes ok: "list_all chain_ok cs" and sz: "sz \<le> sum_list (map ch_off cs)"
  obtains pre rest sz' rest1 out c' where
    "pullup_loop cs k0 sz [] [] = Some (rest, k0 + length pre, sz', concat (map chain_data pre), pre)"
    "pullup_last rest sz' (concat (map chain_data pre)) = Some (rest1, out)"
    "length out = sz" "out @ concat (map chain_data rest1) = concat (map chain_data cs)"
    "list_all chain_ok rest1" "sz + sum_list (map ch_off rest1) = sum_list (map ch_off cs)"
    "rest1 = [] \<and> length cs \<le> length pre \<or>
     length pre < length cs \<and> rest1 = c' # tl (drop (length pre) cs) \<and> ch_off c' \<noteq> 0"
proof -
  obtain pre rest sz' where lp: "pullup_loop cs k0 sz [] [] =
      Some (rest, k0 + length pre, sz', concat (map chain_data pre), pre)"
    and pr: "cs = pre @ rest" "sum_list (map ch_off pre) + sz' = sz" "rest \<noteq> [] \<longrightarrow> sz' < ch_off (hd rest)"
    using pullup_loop_ok [OF ok, of k0 sz "[]" "[]"] by auto
  have len: "length (concat (map chain_data pre)) = sum_list (map ch_off pre)"
    using ok pr by (intro length_concat_data) simp
  show ?thesis
  proof (cases rest)
    case Nil
    then show ?thesis
      using that [OF lp, of "[]" "concat (map chain_data pre)" undefined] pr len sz by simp
  next
    case (Cons c cs')
    let ?c = "c\<lparr>ch_misalign := ch_misalign c + sz', ch_off := ch_off c - sz'\<rparr>"
    have c: "chain_ok c" "sz' < ch_off c" "list_all chain_ok cs'" using ok pr Cons by auto
    note a = chain_ok_advance [OF c(1), of sz']
    have rd: "mem_read (ch_buffer c) (ch_misalign c) sz' = Some (take sz' (chain_data c))"
      using c(1,2) by (auto simp: mem_read_def chain_data_def chain_ok_def min_def)
    then show ?thesis
      using that [OF lp, of "?c # cs'" "concat (map chain_data pre) @ take sz' (chain_data c)" ?c]
        pr Cons a c len by simp
  qed
qed

text \<open>
  \<open>tmp\<close> ends up with the bytes it already had in front (\<open>d0\<close>) and the next \<open>sz\<close> bytes of the buffer.
\<close>

lemma evbuffer_pullup_into_ok:
  assumes inv: "evbuffer_inv buf" and cs: "chains buf = pre0 @ cs" "length pre0 = k0" "k0 \<le> 1"
    and d0: "concat (map chain_data pre0) = d0" "length d0 + ch_misalign tmp = at"
      "drop (ch_misalign tmp) (take at (ch_buffer tmp)) = d0"
    and tmp: "at + sz \<le> ch_buffer_len tmp" "ch_off tmp = length d0 + sz"
      "ch_buffer_len tmp \<le> EVBUFFER_CHAIN_MAX - EVBUFFER_CHAIN_SIZE" "\<not> CHAIN_PINNED tmp" "0 < sz"
    and sz: "sz \<le> sum_list (map ch_off cs)"
  obtains m buf' where "evbuffer_pullup_into buf tmp at sz k0 = Some (Some m, buf')"
    "evbuffer_inv buf'" "contents buf' = contents buf" "same_ctl buf buf'" "total_len buf' = total_len buf"
    "length d0 + sz \<le> length m" "take (length d0 + sz) m = take (length d0 + sz) (contents buf)"
proof -
  have ok: "list_all chain_ok cs" "list_all chain_ok pre0"
    and tl: "total_len buf = sum_list (map ch_off pre0) + sum_list (map ch_off cs)"
    and tok: "tail_ok (pre0 @ cs) (last_with_datap buf)"
    using inv cs by (auto simp: evbuffer_inv_def chains_inv_def)
  obtain pre rest sz' rest1 out c' where
    c: "pullup_loop cs k0 sz [] [] = Some (rest, k0 + length pre, sz', concat (map chain_data pre), pre)"
    "pullup_last rest sz' (concat (map chain_data pre)) = Some (rest1, out)"
    "length out = sz" "out @ concat (map chain_data rest1) = concat (map chain_data cs)"
    "list_all chain_ok rest1" "sz + sum_list (map ch_off rest1) = sum_list (map ch_off cs)"
    and shape: "rest1 = [] \<and> length cs \<le> length pre \<or>
     length pre < length cs \<and> rest1 = c' # tl (drop (length pre) cs) \<and> ch_off c' \<noteq> 0"
    by (rule pullup_copies [OF ok(1) sz])
  define mem where "mem = take at (ch_buffer tmp) @ out @ drop (at + sz) (ch_buffer tmp)"
  define tmp1 where "tmp1 = tmp\<lparr>ch_buffer := mem\<rparr>"
  let ?lwd = "pullup_lwd (last_with_datap buf) k0 (k0 + length pre) rest1"
  let ?b = "(evbuffer_free_all_chains pre buf)\<lparr>chains := tmp1 # rest1, last_with_datap := ?lwd\<rparr>"
  have mw: "mem_write (ch_buffer tmp) at out = Some mem" using tmp(1) c(3) by (simp add: mem_write_def mem_def)
  have dm: "drop (ch_misalign tmp) mem = d0 @ out @ drop (at + sz) (ch_buffer tmp)"
    using d0(2,3) tmp(1) by (simp add: mem_def)
  have td: "chain_data tmp1 = d0 @ out" using dm tmp(2) c(3) by (simp add: chain_data_def tmp1_def)
  have "length mem = ch_buffer_len tmp" using tmp(1) c(3) by (simp add: mem_def)
  then have tmp1: "chain_ok tmp1" "ch_off tmp1 = length d0 + sz"
    using tmp d0(2) by (simp_all add: chain_ok_def tmp1_def CHAIN_PINNED_def)
  have "rest1 = [] \<and> length (pre0 @ cs) \<le> k0 + length pre \<or> k0 + length pre < length (pre0 @ cs) \<and>
      rest1 = c' # tl (drop (k0 + length pre) (pre0 @ cs)) \<and> ch_off c' \<noteq> 0"
    using shape cs(2) by simp
  then have "tail_ok (tmp1 # rest1) ?lwd"
    by (intro tail_ok_pullup_lwd [OF tok]) (use sz tmp(5) cs(3) tmp1(2) in auto)
  moreover have "length d0 = sum_list (map ch_off pre0)" using length_concat_data [OF ok(2)] d0(1) by simp
  ultimately have "evbuffer_inv ?b"
    using inv tmp1 c(5,6) tl by (auto simp: evbuffer_inv_def chains_inv_def)
  moreover have b: "contents ?b = contents buf" using td c(4) cs d0(1) by (simp add: contents_def)
  moreover have "evbuffer_pullup_into buf tmp at sz k0 = Some (Some (drop (ch_misalign tmp) mem), ?b)"
    using c(1,2) mw cs by (simp add: evbuffer_pullup_into_def tmp1_def)
  moreover have "take (length d0 + sz) (contents buf) = d0 @ out"
    unfolding b [symmetric] using td c(3) by (simp add: contents_def)
  ultimately show ?thesis
    using that [of "drop (ch_misalign tmp) mem" ?b] dm c(3) by (simp add: same_ctl_def evbuffer_free_all_chains_def)
qed

lemma pullup_not_pinned: "list_all chain_ok cs \<Longrightarrow> \<not> pullup_pinned cs r"
  by (induction cs arbitrary: r) (auto simp: chain_ok_def)

text \<open>What a successful call hands out: memory that starts with the first \<open>n\<close> bytes of the buffer.\<close>

definition pulled :: "evbuffer \<Rightarrow> nat \<Rightarrow> bool \<Rightarrow> (byte list option \<times> evbuffer) option \<Rightarrow> bool" where
  "pulled buf n why res \<longleftrightarrow>
     (\<exists>p buf'. res = Some (p, buf') \<and> evbuffer_inv buf' \<and> contents buf' = contents buf \<and> same_ctl buf buf' \<and>
        total_len buf' = total_len buf \<and>
        (case p of None \<Rightarrow> why \<and> buf' = buf
                 | Some m \<Rightarrow> n \<le> length m \<and> take n m = take n (contents buf)))"

lemma pulledI:
  "res = Some (Some m, buf') \<Longrightarrow> evbuffer_inv buf' \<Longrightarrow> contents buf' = contents buf \<Longrightarrow> same_ctl buf buf' \<Longrightarrow>
   total_len buf' = total_len buf \<Longrightarrow> n \<le> length m \<Longrightarrow> take n m = take n (contents buf) \<Longrightarrow> pulled buf n why res"
  by (auto simp: pulled_def)

lemma evbuffer_pullup_ok:
  assumes mal: "malloc_spec mal" and inv: "evbuffer_inv buf" and small: "total_len buf \<le> EV_SSIZE_MAX"
    and n: "n = (if s < 0 then total_len buf else nat s)" "0 < n" "n \<le> total_len buf"
  shows "pulled buf n (alloc_refused mal n) (evbuffer_pullup mal buf s)"
proof -
  obtain c cs where cs: "chains buf = c # cs"
    using total_len_pos [OF inv] n by (cases "chains buf") auto
  have ok: "chain_ok c" "list_all chain_ok cs" and tl: "total_len buf = ch_off c + sum_list (map ch_off cs)"
    using inv cs by (auto simp: evbuffer_inv_def chains_inv_def)
  have c: "\<not> CHAIN_PINNED c" "ch_misalign c + ch_off c \<le> ch_buffer_len c"
    "ch_buffer_len c \<le> EVBUFFER_CHAIN_MAX - EVBUFFER_CHAIN_SIZE" "length (chain_data c) = ch_off c"
    using ok(1) by (auto simp: chain_ok_def)
  have sub: "szsub (ch_buffer_len c) (ch_misalign c) = ch_buffer_len c - ch_misalign c"
    using c(2,3) by (simp add: cfg_defs)
  have as: "to_int32 (n - ch_off c) \<ge> 0" using small n(3) by (simp add: cfg_defs)
  have eq: "evbuffer_pullup mal buf s =
     (if ch_off c \<ge> n then Some (Some (drop (ch_misalign c) (ch_buffer c)), buf)
      else if ch_buffer_len c - ch_misalign c \<ge> n then
        evbuffer_pullup_into buf (c\<lparr>ch_off := n\<rparr>) (ch_misalign c + ch_off c) (n - ch_off c) 1
      else case evbuffer_chain_new mal n of None \<Rightarrow> Some (None, buf)
         | Some tmp \<Rightarrow> evbuffer_pullup_into buf (tmp\<lparr>ch_off := n\<rparr>) 0 n 0)"
    unfolding evbuffer_pullup_def n(1) [symmetric] Let_def cs list.case
    using n(2,3) as c(1) pullup_not_pinned [OF ok(2)] by (simp add: sub)
  consider (got) "n \<le> ch_off c" | (room) "ch_off c < n" "n \<le> ch_buffer_len c - ch_misalign c"
    | (new) "ch_off c < n" "ch_buffer_len c - ch_misalign c < n" by linarith
  then show ?thesis
  proof cases
    case got
    then have "take n (drop (ch_misalign c) (ch_buffer c)) = take n (contents buf)"
      using c(4) by (simp add: contents_def cs) (simp add: chain_data_def min_def)
    with got inv c(2) eq show ?thesis
      by (intro pulledI [of _ "drop (ch_misalign c) (ch_buffer c)" buf]) auto
  next
    case room
    let ?c = "c\<lparr>ch_off := n\<rparr>"
    have p: "drop (ch_misalign c) (take (ch_misalign c + ch_off c) (ch_buffer c)) = chain_data c"
      by (simp add: chain_data_def drop_take)
    have r: "ch_misalign c + n \<le> ch_buffer_len c" "n - ch_off c \<le> sum_list (map ch_off cs)"
      using room c(2) tl n(3) by linarith+
    obtain m buf' where "evbuffer_pullup_into buf ?c (ch_misalign c + ch_off c) (n - ch_off c) 1 = Some (Some m, buf')"
      "evbuffer_inv buf'" "contents buf' = contents buf" "same_ctl buf buf'" "total_len buf' = total_len buf"
      "length (chain_data c) + (n - ch_off c) \<le> length m"
      "take (length (chain_data c) + (n - ch_off c)) m = take (length (chain_data c) + (n - ch_off c)) (contents buf)"
      using evbuffer_pullup_into_ok [OF inv, of "[c]" cs 1 "chain_data c" ?c "ch_misalign c + ch_off c" "n - ch_off c"]
        room(1) c cs p r by (auto simp: CHAIN_PINNED_def)
    with room eq c(4) show ?thesis by (intro pulledI [of _ m buf']) simp_all
  next
    case new
    show ?thesis
    proof (cases "evbuffer_chain_new mal n")
      case None
      then show ?thesis
        using new eq inv evbuffer_chain_new_None [OF None] by (simp add: pulled_def alloc_refused_def)
    next
      case (Some tmp)
      note t = evbuffer_chain_new_Some [OF mal Some]
      obtain m buf' where "evbuffer_pullup_into buf (tmp\<lparr>ch_off := n\<rparr>) 0 n 0 = Some (Some m, buf')"
        "evbuffer_inv buf'" "contents buf' = contents buf" "same_ctl buf buf'" "total_len buf' = total_len buf"
        "n \<le> length m" "take n m = take n (contents buf)"
        using evbuffer_pullup_into_ok [OF inv, of "[]" "chains buf" 0 "[]" "tmp\<lparr>ch_off := n\<rparr>" 0 n]
          t n(2,3) tl cs by (auto simp: chain_ok_def CHAIN_PINNED_def)
      with new eq Some show ?thesis by (intro pulledI [of _ m buf']) simp_all
    qed
  qed
qed

section \<open>Removing into another buffer\<close>

text \<open>
  \<open>last_with_datap\<close> is exact and no empty chain comes before it. Buffers built by \<open>evbuffer_add\<close> need
  not be like this, see below.
\<close>

definition dense :: "evbuffer \<Rightarrow> bool" where
  "dense buf \<longleftrightarrow> (\<forall>ch \<in> set (take (Suc (last_with_datap buf)) (chains buf)). ch_off ch \<noteq> 0) \<and>
     (\<forall>ch \<in> set (drop (Suc (last_with_datap buf)) (chains buf)). ch_off ch = 0)"

lemma remove_buffer_loop_ok:
  assumes "datlen < sum_list (map ch_off (take (Suc lwd - k) cs))" "k \<le> lwd"
  shows "\<exists>pre c rest r. remove_buffer_loop cs k lwd datlen nread mv =
      Some (c # rest, (if pre \<noteq> [] \<and> lwd = k + length pre then 0 else lwd), r,
            nread + sum_list (map ch_off pre), mv @ pre) \<and>
    cs = pre @ c # rest \<and> k + length pre \<le> lwd \<and> sum_list (map ch_off pre) + r = datlen \<and> r < ch_off c"
  using assms
proof (induction cs arbitrary: k datlen nread mv)
  case Nil
  then show ?case by simp
next
  case (Cons c cs)
  show ?case
  proof (cases "ch_off c \<le> datlen")
    case False
    with Cons.prems show ?thesis
      by (intro exI [of _ "[]"] exI [of _ c] exI [of _ cs] exI [of _ datlen]) simp
  next
    case True
    have lwd: "k \<noteq> lwd" using Cons.prems True by auto
    then have p: "datlen - ch_off c < sum_list (map ch_off (take (Suc lwd - Suc k) cs))" "Suc k \<le> lwd"
      using Cons.prems True by (simp_all add: Suc_diff_le)
    show ?thesis
    proof (cases "lwd = Suc k")
      case False
      with Cons.IH [OF p, of "nread + ch_off c" "mv @ [c]"] obtain pre d rest r where
        "remove_buffer_loop cs (Suc k) lwd (datlen - ch_off c) (nread + ch_off c) (mv @ [c]) =
           Some (d # rest, (if pre \<noteq> [] \<and> lwd = Suc k + length pre then 0 else lwd), r,
             nread + ch_off c + sum_list (map ch_off pre), (mv @ [c]) @ pre)"
        "cs = pre @ d # rest" "Suc k + length pre \<le> lwd" "sum_list (map ch_off pre) + r = datlen - ch_off c" "r < ch_off d"
        by blast
      with True lwd False show ?thesis
        by (intro exI [of _ "c # pre"] exI [of _ d] exI [of _ rest] exI [of _ r]) auto
    next
      case Suc: True
      with p obtain d rest where d: "cs = d # rest" "datlen - ch_off c < ch_off d" by (cases cs) auto
      with True lwd Suc show ?thesis
        by (intro exI [of _ "[c]"] exI [of _ d] exI [of _ rest] exI [of _ "datlen - ch_off c"]) auto
    qed
  qed
qed

lemma advance_to_end:
  assumes "last_with_datap b < length (chains b)"
    "\<forall>ch \<in> set (drop (Suc (last_with_datap b)) (chains b)). ch_off ch \<noteq> 0"
  shows "last_with_datap (advance_last_with_data b) = length (chains b) - 1"
proof -
  have "takeWhile (\<lambda>ch. 0 < ch_off ch) (drop (Suc (last_with_datap b)) (chains b)) =
        drop (Suc (last_with_datap b)) (chains b)"
    using assms(2) by simp
  then have "length (takeWhile (\<lambda>ch. 0 < ch_off ch) (drop (Suc (last_with_datap b)) (chains b))) =
        length (chains b) - Suc (last_with_datap b)"
    by (simp only: length_drop)
  with assms(1) show ?thesis by (simp add: advance_last_with_data_def)
qed

lemma tail_ok_data:
  assumes "tail_ok cs lwd" "cs \<noteq> []"
  shows "ch_off (last cs) = 0 \<Longrightarrow> \<forall>ch \<in> set (drop lwd (butlast cs)). ch_off ch \<noteq> 0"
    "ch_off (last cs) \<noteq> 0 \<Longrightarrow> \<forall>ch \<in> set (drop lwd cs). ch_off ch \<noteq> 0"
proof -
  have l: "lwd < length cs" and b: "\<forall>ch \<in> set (butlast (drop lwd cs)). ch_off ch \<noteq> 0"
    using assms by (auto simp: tail_ok_def)
  from b show "\<forall>ch \<in> set (drop lwd (butlast cs)). ch_off ch \<noteq> 0" by (simp add: drop_butlast)
  have "drop lwd cs = butlast (drop lwd cs) @ [last cs]"
    using l by (metis append_butlast_last_id drop_eq_Nil last_drop not_le)
  with b show "\<forall>ch \<in> set (drop lwd cs). ch_off ch \<noteq> 0" if "ch_off (last cs) \<noteq> 0"
    using that by (metis Un_iff empty_iff insert_iff list.set(1,2) set_append)
qed

lemma sum_list_map_eq_0: "\<forall>x \<in> set xs. f x = 0 \<Longrightarrow> sum_list (map f xs) = (0::nat)"
  by (induction xs) auto

text \<open>Linking the moved chains to the end of the destination.\<close>

lemma link_moved_ok:
  assumes inv: "evbuffer_inv dst" and mv: "mv \<noteq> []" "list_all chain_ok mv" "\<forall>ch \<in> set mv. ch_off ch \<noteq> 0"
    and len: "total_len dst + sum_list (map ch_off mv) \<le> EV_SIZE_MAX"
  obtains chp d0 where "evbuffer_free_trailing_empty_chains dst = Some (chp, d0)"
    "chains_inv (chains d0 @ mv) (last_with_datap (advance_last_with_data (d0\<lparr>chains := chains d0 @ mv\<rparr>)))
       (total_len dst + sum_list (map ch_off mv))"
    "contents d0 = contents dst" "same_ctl dst d0" "total_len d0 = total_len dst"
proof -
  define cs where "cs = (if chains dst \<noteq> [] \<and> ch_off (last (chains dst)) = 0 then butlast (chains dst) else chains dst)"
  define fr where "fr = (if chains dst \<noteq> [] \<and> ch_off (last (chains dst)) = 0 then [last (chains dst)] else [])"
  have cf: "chains dst = cs @ fr" and fr: "\<forall>ch \<in> set fr. ch_off ch = 0" by (simp_all add: cs_def fr_def)
  have i: "list_all chain_ok (chains dst)" "total_len dst = sum_list (map ch_off (chains dst))"
    "tail_ok (chains dst) (last_with_datap dst)"
    using inv by (auto simp: evbuffer_inv_def chains_inv_def)
  have fv: "first_victim dst = length cs"
  proof (cases "chains dst = []")
    case True
    with i(3) show ?thesis by (simp add: first_victim_def tail_ok_def cs_def)
  next
    case False
    with first_victim_eq [OF inv False] show ?thesis by (simp add: cs_def)
  qed
  let ?d0 = "(if fr = [] then dst else (evbuffer_free_all_chains fr dst)\<lparr>chains := cs\<rparr>)"
  have ft: "evbuffer_free_trailing_empty_chains dst = Some (length cs, ?d0)"
    using fv cf fr by (auto simp: evbuffer_free_trailing_empty_chains_def evbuffer_chains_all_empty_def list_all_iff)
  have d0: "chains ?d0 = cs" "last_with_datap ?d0 = last_with_datap dst" "total_len ?d0 = total_len dst"
    using cf by auto
  have con: "contents ?d0 = contents dst" using cf fr by (simp add: contents_def)
  have ctl: "same_ctl dst ?d0" by (simp add: same_ctl_def evbuffer_free_all_chains_def)
  have data: "\<forall>ch \<in> set (drop (last_with_datap dst) cs). ch_off ch \<noteq> 0" "last_with_datap dst \<le> length cs"
  proof -
    show "\<forall>ch \<in> set (drop (last_with_datap dst) cs). ch_off ch \<noteq> 0"
    proof (cases "chains dst = []")
      case False
      from tail_ok_data [OF i(3) this] show ?thesis by (simp add: cs_def)
    qed (simp add: cs_def)
    show "last_with_datap dst \<le> length cs" using i(3) by (auto simp: cs_def tail_ok_def)
  qed
  let ?all = "cs @ mv" and ?l = "last_with_datap dst"
  have "\<forall>ch \<in> set (drop (Suc ?l) ?all). ch_off ch \<noteq> 0"
    using data(1) mv(3) set_drop_subset_set_drop [of ?l "Suc ?l" cs] by (auto dest: in_set_dropD)
  moreover have "?l < length ?all" using data(2) mv(1) by (cases mv) auto
  ultimately have adv: "last_with_datap (advance_last_with_data (?d0\<lparr>chains := ?all\<rparr>)) = length ?all - 1"
    using advance_to_end [of "?d0\<lparr>chains := ?all\<rparr>"] by (cases "fr = []") auto
  have "tail_ok ?all (length ?all - 1)"
    using mv(1) by (cases mv rule: rev_cases) (simp_all add: tail_ok_def)
  then have "chains_inv ?all (length ?all - 1) (total_len dst + sum_list (map ch_off mv))"
    using i mv len cf fr by (simp add: chains_inv_def)
  with adv d0 con ctl show ?thesis by (intro that [OF ft]) simp_all
qed

text \<open>The result of taking \<open>n\<close> bytes from \<open>src\<close> to \<open>dst\<close>.\<close>

definition taken :: "evbuffer \<Rightarrow> evbuffer \<Rightarrow> nat \<Rightarrow> (int \<times> evbuffer \<times> evbuffer) option \<Rightarrow> bool" where
  "taken src dst n res \<longleftrightarrow>
     (\<exists>src' dst'. res = Some (int (min n (total_len src)), src', dst') \<and> evbuffer_inv src' \<and> evbuffer_inv dst' \<and>
        contents src' = drop n (contents src) \<and> contents dst' = contents dst @ take n (contents src) \<and>
        same_ctl src src' \<and> same_ctl dst dst')"

lemma evbuffer_remove_buffer_all:
  assumes inv: "evbuffer_inv src" "evbuffer_inv dst"
    and len: "total_len dst + total_len src \<le> EV_SIZE_MAX" "total_len src \<le> EV_SSIZE_MAX"
    and fr: "\<not> freeze_end dst" "\<not> freeze_start src" and n: "total_len src \<le> n" "n \<noteq> 0"
  shows "taken src dst n (evbuffer_remove_buffer mal False src dst n)"
proof -
  obtain d s where m: "evbuffer_add_buffer mal False dst src = Some (0, d, s)" "evbuffer_inv d" "evbuffer_inv s"
    "contents d = contents dst @ contents src" "contents s = []" "same_ctl dst d" "same_ctl src s"
    using evbuffer_add_buffer_ok [OF inv(2,1) len(1) fr, of mal] unfolding moved_all_def by blast
  have "evbuffer_remove_buffer mal False src dst n = Some (int (total_len src), s, d)"
    using n fr m(1) len(2) by (simp add: evbuffer_remove_buffer_def cfg_defs)
  then show ?thesis
    using m n length_contents [OF inv(1)] by (simp add: taken_def)
qed

lemma advance_frame [simp]:
  "chains (advance_last_with_data b) = chains b" "total_len (advance_last_with_data b) = total_len b"
  "same_ctl c (advance_last_with_data b) = same_ctl c b"
  by (simp_all add: advance_last_with_data_def)

lemma remove_buffer_link_ok:
  assumes inv: "evbuffer_inv dst" and mv: "list_all chain_ok mv" "\<forall>ch \<in> set mv. ch_off ch \<noteq> 0"
    and len: "total_len dst + sum_list (map ch_off mv) \<le> EV_SIZE_MAX"
  obtains dst1 where
    "remove_buffer_link src dst (if mv \<noteq> [] \<and> lwd = length mv then 0 else lwd) (sum_list (map ch_off mv)) mv =
       Some ([], src\<lparr>last_with_datap := lwd - length mv\<rparr>, dst1)"
    "evbuffer_inv dst1" "contents dst1 = contents dst @ concat (map chain_data mv)" "same_ctl dst dst1"
    "total_len dst1 = total_len dst + sum_list (map ch_off mv)"
proof (cases "mv = []")
  case True
  then show ?thesis using that [of dst] inv by (simp add: remove_buffer_link_def)
next
  case False
  have nz: "sum_list (map ch_off mv) \<noteq> 0" using False mv(2) by (cases mv) auto
  obtain chp d0 where d: "evbuffer_free_trailing_empty_chains dst = Some (chp, d0)"
    "chains_inv (chains d0 @ mv) (last_with_datap (advance_last_with_data (d0\<lparr>chains := chains d0 @ mv\<rparr>)))
       (total_len dst + sum_list (map ch_off mv))"
    "contents d0 = contents dst" "same_ctl dst d0" "total_len d0 = total_len dst"
    by (rule link_moved_ok [OF inv False mv len])
  let ?a = "advance_last_with_data (d0\<lparr>chains := chains d0 @ mv\<rparr>)"
  let ?n = "sum_list (map ch_off mv)"
  show ?thesis
    by (rule that [of "?a\<lparr>total_len := szadd (total_len ?a) ?n, n_add_for_cb := szadd (n_add_for_cb ?a) ?n\<rparr>"])
       (use d nz len in \<open>simp_all add: remove_buffer_link_def evbuffer_inv_def contents_def Let_def\<close>)
qed

lemma dense_sum:
  assumes "evbuffer_inv buf" "dense buf"
  shows "sum_list (map ch_off (take (Suc (last_with_datap buf)) (chains buf))) = total_len buf"
proof -
  have "sum_list (map ch_off (drop (Suc (last_with_datap buf)) (chains buf))) = 0"
    using assms(2) by (simp add: dense_def)
  moreover have "sum_list (map ch_off (take k (chains buf))) + sum_list (map ch_off (drop k (chains buf))) = total_len buf" for k
    using assms(1) by (metis append_take_drop_id evbuffer_inv_def chains_inv_def map_append sum_list_append)
  ultimately show ?thesis by (metis add.right_neutral)
qed

lemma evbuffer_remove_buffer_part:
  assumes mal: "malloc_spec mal" "\<not> alloc_refused mal n" and inv: "evbuffer_inv src" "evbuffer_inv dst"
    and len: "total_len dst + total_len src \<le> EV_SIZE_MAX" "n \<le> EV_SSIZE_MAX"
    and fr: "\<not> freeze_end dst" "\<not> freeze_start src" and n: "n < total_len src" "n \<noteq> 0" and dense: "dense src"
  shows "taken src dst n (evbuffer_remove_buffer mal False src dst n)"
proof -
  let ?l = "last_with_datap src"
  have i: "chains_inv (chains src) ?l (total_len src)" using inv by (simp add: evbuffer_inv_def)
  obtain pre c rest r where lp: "remove_buffer_loop (chains src) 0 ?l n 0 [] =
      Some (c # rest, (if pre \<noteq> [] \<and> ?l = length pre then 0 else ?l), r, sum_list (map ch_off pre), pre)"
    and cs: "chains src = pre @ c # rest" "length pre \<le> ?l" "sum_list (map ch_off pre) + r = n" "r < ch_off c"
    using remove_buffer_loop_ok [of n ?l 0 "chains src" 0 "[]"] dense_sum [OF inv(1) dense] n by auto
  have ok: "list_all chain_ok pre" "chain_ok c" using i cs by (auto simp: chains_inv_def)
  have nz: "\<forall>ch \<in> set pre. ch_off ch \<noteq> 0" using dense cs(1,2) by (simp add: dense_def)
  have le: "total_len dst + sum_list (map ch_off pre) \<le> EV_SIZE_MAX" using len(1) cs(3) n(1) by linarith
  obtain d1 where d1: "remove_buffer_link src dst (if pre \<noteq> [] \<and> ?l = length pre then 0 else ?l)
       (sum_list (map ch_off pre)) pre = Some ([], src\<lparr>last_with_datap := ?l - length pre\<rparr>, d1)"
    "evbuffer_inv d1" "contents d1 = contents dst @ concat (map chain_data pre)" "same_ctl dst d1"
    "total_len d1 = total_len dst + sum_list (map ch_off pre)"
    by (rule remove_buffer_link_ok [OF inv(2) ok(1) nz le])
  define bs where "bs = take r (chain_data c)"
  have bs: "mem_read (ch_buffer c) (ch_misalign c) r = Some bs" "length bs = r"
    using ok(2) cs(4) by (auto simp: bs_def mem_read_def chain_data_def chain_ok_def min_def)
  have "\<not> alloc_refused mal r" using mal(2) cs(3) by (auto simp: alloc_refused_def)
  moreover have "\<not> freeze_end d1" using d1(4) fr by (simp add: same_ctl_def)
  moreover have "total_len d1 + r \<le> EV_SIZE_MAX" using d1(5) cs(3) n(1) len(1) by linarith
  ultimately obtain d2 where d2: "evbuffer_add mal d1 bs = Some (0, d2)" "evbuffer_inv d2" "same_ctl d1 d2"
    "contents d2 = contents d1 @ bs"
    using evbuffer_add_ok [OF mal(1) d1(2), of bs] bs(2) unfolding all_or_nothing_def by auto
  let ?c = "c\<lparr>ch_misalign := ch_misalign c + r, ch_off := ch_off c - r\<rparr>"
  let ?s = "src\<lparr>last_with_datap := ?l - length pre, chains := ?c # rest, total_len := szsub (total_len src) n,
      n_del_for_cb := szadd (n_del_for_cb src) n\<rparr>"
  note adv = chains_inv_advance [OF i [unfolded cs(1)] cs(4), unfolded cs(3)]
  have "szsub (total_len src) n = total_len src - n" using n i by (simp add: chains_inv_def cfg_defs)
  then have s: "evbuffer_inv ?s" "contents ?s = drop n (contents src)" "same_ctl src ?s"
    using adv cs(1) by (simp_all add: evbuffer_inv_def contents_def same_ctl_def)
  have z: "\<not> ((\<forall>ch \<in> set pre. ch_off ch = 0) \<and> r = 0)"
    using cs(3) n(2) by (metis add.right_neutral sum_list_map_eq_0)
  have "evbuffer_remove_buffer mal False src dst n =
      Some (int n, evbuffer_invoke_callbacks ?s, evbuffer_invoke_callbacks d2)"
    using z n fr lp d1(1) bs(1) d2(1) cs(3) len(2) by (simp add: evbuffer_remove_buffer_def cfg_defs) auto
  moreover have "concat (map chain_data pre) @ bs = take n (contents src)"
    using length_concat_data [OF ok(1)] cs bs(2) ok(2) by (auto simp: contents_def bs_def)
  ultimately show ?thesis
    using s d1 d2 n(1) same_ctl_trans by (auto simp: taken_def)
qed

section \<open>Buffers as byte queues\<close>

definition BUF_LIMIT :: nat where [cfg_defs]:
  "BUF_LIMIT = EVBUFFER_CHAIN_MAX - EVBUFFER_CHAIN_SIZE"

definition buf_ready :: "evbuffer \<Rightarrow> bool" where
  "buf_ready buf \<longleftrightarrow> evbuffer_inv buf \<and> \<not> freeze_start buf \<and> \<not> freeze_end buf \<and> total_len buf \<le> BUF_LIMIT"

text \<open>An allocator with memory to spare.\<close>

definition malloc_ok :: "malloc \<Rightarrow> bool" where
  "malloc_ok mal \<longleftrightarrow> malloc_spec mal \<and> (\<forall>k. mal k \<noteq> None)"

lemma malloc_ok_not_refused: "malloc_ok mal \<Longrightarrow> n \<le> BUF_LIMIT \<Longrightarrow> \<not> alloc_refused mal n"
  by (simp add: malloc_ok_def alloc_refused_def BUF_LIMIT_def)

lemma buf_readyI:
  "buf_ready buf \<Longrightarrow> evbuffer_inv buf' \<Longrightarrow> same_ctl buf buf' \<Longrightarrow> length (contents buf') \<le> BUF_LIMIT \<Longrightarrow> buf_ready buf'"
  by (simp add: buf_ready_def same_ctl_def length_contents)

lemma buf_ready_len: "buf_ready buf \<Longrightarrow> length (contents buf) = total_len buf"
  by (simp add: buf_ready_def length_contents)

lemma buf_ready_limit: "buf_ready buf \<Longrightarrow> length (contents buf) \<le> BUF_LIMIT"
  by (simp add: buf_ready_len) (simp add: buf_ready_def)

interpretation ebuf: byte_queue malloc_ok buf_ready contents BUF_LIMIT evbuffer_add evbuffer_drain
  evbuffer_pullup evbuffer_remove evbuffer_get_length
proof
  fix m b and xs :: "byte list"
  assume m: "malloc_ok m" and b: "buf_ready b" and len: "length (contents b) + length xs \<le> BUF_LIMIT"
  have "\<not> alloc_refused m (length xs)" using malloc_ok_not_refused [OF m] len by simp
  moreover have "\<not> EV_SIZE_MAX < total_len b + length xs" using len buf_ready_len [OF b] by (simp add: cfg_defs)
  ultimately obtain b' where "evbuffer_add m b xs = Some (0, b')" "evbuffer_inv b'" "same_ctl b b'" "contents b' = contents b @ xs"
    using evbuffer_add_ok [of m b xs] m b by (auto simp: all_or_nothing_def malloc_ok_def buf_ready_def)
  with b len show "\<exists>b'. evbuffer_add m b xs = Some (0, b') \<and> buf_ready b' \<and> contents b' = contents b @ xs"
    by (auto intro: buf_readyI)
next
  fix b n
  assume b: "buf_ready b"
  obtain b' where "evbuffer_drain b n = Some (0, b')" "evbuffer_inv b'" "same_ctl b b'" "contents b' = drop n (contents b)"
    using b unfolding buf_ready_def by (metis evbuffer_drain_ok)
  with b show "\<exists>b'. evbuffer_drain b n = Some (0, b') \<and> buf_ready b' \<and> contents b' = drop n (contents b)"
    using buf_ready_limit [OF b] by (auto intro: buf_readyI)
next
  fix m b n
  assume m: "malloc_ok m" and b: "buf_ready b" and n: "0 < n" "n \<le> length (contents b)"
  have i: "evbuffer_inv b" "total_len b \<le> EV_SSIZE_MAX" "n \<le> total_len b" "\<not> alloc_refused m n"
    using b n buf_ready_len [OF b] malloc_ok_not_refused [OF m, of n] by (auto simp: buf_ready_def cfg_defs)
  have "pulled b n (alloc_refused m n) (evbuffer_pullup m b (int n))"
    by (rule evbuffer_pullup_ok) (use m i n in \<open>auto simp: malloc_ok_def\<close>)
  then obtain mem b' where "evbuffer_pullup m b (int n) = Some (Some mem, b')" "evbuffer_inv b'"
     "contents b' = contents b" "same_ctl b b'" "total_len b' = total_len b" "n \<le> length mem"
     "take n mem = take n (contents b)"
    using i(4) by (auto simp: pulled_def split: option.splits)
  with b show "\<exists>mem b'. evbuffer_pullup m b (int n) = Some (Some mem, b') \<and> buf_ready b' \<and>
      contents b' = contents b \<and> n \<le> length mem \<and> take n mem = take n (contents b)"
    by (auto simp: buf_ready_def same_ctl_def)
next
  fix b n
  assume b: "buf_ready b"
  have L: "length (contents b) = total_len b" by (rule buf_ready_len [OF b])
  have "min n (total_len b) \<le> EV_SSIZE_MAX" using b by (auto simp: buf_ready_def cfg_defs min_def)
  then obtain b' where "evbuffer_remove b n = Some (int (min n (total_len b)), take n (contents b), b')"
    "evbuffer_inv b'" "same_ctl b b'" "contents b' = drop n (contents b)"
    using b unfolding buf_ready_def by (metis evbuffer_remove_ok)
  with b L show "\<exists>b'. evbuffer_remove b n = Some (int (min n (length (contents b))), take n (contents b), b') \<and>
      buf_ready b' \<and> contents b' = drop n (contents b)"
    using buf_ready_limit [OF b] by (auto intro: buf_readyI)
next
  show "buf_ready b \<Longrightarrow> evbuffer_get_length b = length (contents b)" for b
    by (simp add: evbuffer_get_length_def buf_ready_len)
  show "buf_ready b \<Longrightarrow> length (contents b) \<le> BUF_LIMIT" for b
    by (rule buf_ready_limit)
qed

section \<open>Properties\<close>

text \<open>
  \<open>evbuffer_add_buffer\<close> moves all bytes of the input buffer behind those of the output buffer and
  leaves the input buffer empty; both stay well-formed.
\<close>

theorem evbuffer_add_buffer_moves:
  assumes "evbuffer_inv outbuf" "evbuffer_inv inbuf" "total_len outbuf + total_len inbuf \<le> EV_SIZE_MAX"
    "\<not> freeze_end outbuf" "\<not> freeze_start inbuf"
  shows "\<exists>out' in'. evbuffer_add_buffer mal False outbuf inbuf = Some (0, out', in') \<and>
     evbuffer_inv out' \<and> evbuffer_inv in' \<and> contents out' = contents outbuf @ contents inbuf \<and>
     contents in' = [] \<and> same_ctl outbuf out' \<and> same_ctl inbuf in'"
  using evbuffer_add_buffer_ok [OF assms, of mal] by (simp add: moved_all_def)

theorem evbuffer_add_buffer_moves_witness:
  "\<exists>out' in'. evbuffer_add_buffer zalloc False two_chains two_chains = Some (0, out', in') \<and>
     contents out' = [1, 2, 3, 4, 5, 1, 2, 3, 4, 5] \<and> contents in' = []"
  using evbuffer_add_buffer_moves [of two_chains two_chains zalloc]
  by (auto simp: two_chains_facts) (auto simp: cfg_defs)

text \<open>
  \<open>evbuffer_prepend_buffer\<close> moves all bytes of the input buffer in front of those of the output
  buffer.
\<close>

theorem evbuffer_prepend_buffer_moves:
  assumes "evbuffer_inv outbuf" "evbuffer_inv inbuf" "total_len outbuf + total_len inbuf \<le> EV_SIZE_MAX"
    "\<not> freeze_start outbuf" "\<not> freeze_start inbuf"
  shows "\<exists>out' in'. evbuffer_prepend_buffer mal False outbuf inbuf = Some (0, out', in') \<and>
     evbuffer_inv out' \<and> evbuffer_inv in' \<and> contents out' = contents inbuf @ contents outbuf \<and>
     contents in' = [] \<and> same_ctl outbuf out' \<and> same_ctl inbuf in'"
  using evbuffer_prepend_buffer_ok [OF assms, of mal] by (simp add: moved_all_def)

theorem evbuffer_prepend_buffer_moves_witness:
  "\<exists>out' in'. evbuffer_prepend_buffer zalloc False evbuffer_new two_chains = Some (0, out', in') \<and>
     contents out' = [1, 2, 3, 4, 5] \<and> contents in' = []"
  using evbuffer_prepend_buffer_moves [of evbuffer_new two_chains zalloc]
  by (auto simp: two_chains_facts) (auto simp: cfg_defs)

text \<open>
  C6. \<open>evbuffer_remove_buffer\<close> moves exactly the first \<open>n\<close> bytes (all of them when there are fewer)
  and returns their number, provided \<open>last_with_datap\<close> of the source is exact and memory is available.
\<close>

theorem evbuffer_remove_buffer_takes:
  assumes "malloc_spec mal" "\<not> alloc_refused mal n" "evbuffer_inv src" "evbuffer_inv dst"
    "total_len dst + total_len src \<le> EV_SIZE_MAX" "n \<le> EV_SSIZE_MAX" "total_len src \<le> EV_SSIZE_MAX"
    "\<not> freeze_end dst" "\<not> freeze_start src" "n \<noteq> 0" "dense src"
  shows "\<exists>src' dst'. evbuffer_remove_buffer mal False src dst n = Some (int (min n (total_len src)), src', dst') \<and>
     evbuffer_inv src' \<and> evbuffer_inv dst' \<and> contents src' = drop n (contents src) \<and>
     contents dst' = contents dst @ take n (contents src)"
proof -
  have "taken src dst n (evbuffer_remove_buffer mal False src dst n)"
    using evbuffer_remove_buffer_all [OF assms(3,4,5,7,8,9), of n mal]
      evbuffer_remove_buffer_part [OF assms(1-6,8,9) _ assms(10,11)] assms(10) by linarith
  then show ?thesis unfolding taken_def by blast
qed

theorem evbuffer_remove_buffer_takes_witness:
  "\<exists>src' dst'. evbuffer_remove_buffer zalloc False two_chains evbuffer_new 4 = Some (4, src', dst') \<and>
     contents src' = [5] \<and> contents dst' = [1, 2, 3, 4]"
proof -
  have d: "dense two_chains" by (simp add: dense_def two_chains_def chain_of_def)
  have a: "\<not> alloc_refused zalloc 4" by (auto simp: alloc_refused_def cfg_defs)
  show ?thesis
    using evbuffer_remove_buffer_takes [OF zalloc_spec(1) a two_chains_facts(1) evbuffer_new_inv(1) _ _ _ _
        two_chains_facts(3) _ d]
    by (auto simp: two_chains_facts cfg_defs)
qed

text \<open>
  C7. \<open>evbuffer_pullup\<close> makes the first bytes contiguous: the memory it returns starts with them, and
  the byte sequence and the invariant of the buffer do not change. It returns NULL only for a refused
  allocation, an empty request or one longer than the buffer.
\<close>

theorem evbuffer_pullup_linearizes:
  assumes "malloc_spec mal" "evbuffer_inv buf" "total_len buf \<le> EV_SSIZE_MAX"
  shows "let n = (if s < 0 then total_len buf else nat s) in
     \<exists>p buf'. evbuffer_pullup mal buf s = Some (p, buf') \<and> evbuffer_inv buf' \<and> contents buf' = contents buf \<and>
       same_ctl buf buf' \<and>
       (case p of None \<Rightarrow> n = 0 \<or> total_len buf < n \<or> alloc_refused mal n
                | Some m \<Rightarrow> n \<le> length m \<and> take n m = take n (contents buf))"
proof -
  define n where "n = (if s < 0 then total_len buf else nat s)"
  show ?thesis
  proof (cases "n = 0 \<or> total_len buf < n")
    case True
    then have "evbuffer_pullup mal buf s = Some (None, buf)"
      unfolding evbuffer_pullup_def n_def [symmetric] Let_def by auto
    with True assms(2) show ?thesis unfolding n_def [symmetric] Let_def by auto
  next
    case False
    with evbuffer_pullup_ok [OF assms n_def] show ?thesis
      unfolding n_def [symmetric] Let_def pulled_def by (fastforce split: option.splits)
  qed
qed

theorem evbuffer_pullup_linearizes_witness:
  "\<exists>m buf'. evbuffer_pullup zalloc two_chains 4 = Some (Some m, buf') \<and> take 4 m = [1, 2, 3, 4] \<and>
     contents buf' = [1, 2, 3, 4, 5]"
proof -
  have a: "\<not> alloc_refused zalloc 4" by (auto simp: alloc_refused_def cfg_defs)
  then show ?thesis
    using evbuffer_pullup_linearizes [OF zalloc_spec(1) two_chains_facts(1), of 4]
    by (auto simp: two_chains_facts cfg_defs split: option.splits)
qed

end
