(* ===== verification/Evbuffer_Space.thy ===== *)
theory Evbuffer_Space
  imports Evbuffer_Move
begin

text \<open>
  Space at the end of a buffer (\<open>evbuffer_expand\<close>, \<open>evbuffer_reserve_space\<close>, \<open>evbuffer_commit_space\<close>)
  and the transfer between buffers and file descriptors (\<open>evbuffer_read\<close>, \<open>evbuffer_write_atmost\<close>) of
  \<^verbatim>\<open>buffer.c\<close>. What the kernel does in \<open>ioctl\<close>, \<open>readv\<close>, \<open>writev\<close> and \<open>sendfile\<close> is a parameter.

  A pointer to free space, \<open>CHAIN_SPACE_PTR\<close>, is the number of the chain in the buffer and the position
  in its memory.
\<close>

section \<open>Expanding\<close>

text \<open>The number of the first chain with space, \<open>chainp\<close>: the one at \<open>last_with_datap\<close> or the next.\<close>

definition first_space :: "evbuffer \<Rightarrow> nat" where
  "first_space buf =
     (let l = last_with_datap buf in
      if l < length (chains buf) \<and> CHAIN_SPACE_LEN (chains buf ! l) = 0 then Suc l else l)"

text \<open>Insert a new chain of the given size; the result is its number.\<close>

definition insert_new :: "malloc \<Rightarrow> evbuffer \<Rightarrow> nat \<Rightarrow> (nat option \<times> evbuffer) option" where
  "insert_new mal buf datlen = do {
     r \<leftarrow> evbuffer_chain_insert_new mal buf datlen;
     case r of
       None \<Rightarrow> Some (None, buf)
     | Some buf1 \<Rightarrow> do {
         ev_assert (CHAIN_SPACE_LEN (last (chains buf1)) \<ge> datlen);
         Some (Some (length (chains buf1) - 1), buf1)
       }
   }"

text \<open>
  The number of the chain with the space, or \<open>None\<close> for NULL. The branch that resizes a chain is taken
  only when \<open>datlen\<close> plus the data of the chain exceeds \<open>EVBUFFER_CHAIN_MAX\<close>: the last condition of the
  test has its sense inverted.
\<close>

definition evbuffer_expand_singlechain :: "malloc \<Rightarrow> evbuffer \<Rightarrow> nat \<Rightarrow> (nat option \<times> evbuffer) option" where
  "evbuffer_expand_singlechain mal buf datlen =
     (let c = first_space buf in
      if c \<ge> length (chains buf) then insert_new mal buf datlen
      else
        let chain = chains buf ! c in
        if ch_flags chain AND (EVBUFFER_IMMUTABLE OR EVBUFFER_MEM_PINNED_ANY) \<noteq> 0 then insert_new mal buf datlen
        else if CHAIN_SPACE_LEN chain \<ge> datlen then Some (Some c, buf)
        else if ch_off chain = 0 then insert_new mal buf datlen
        else if evbuffer_chain_should_realign chain datlen then do {
          chain1 \<leftarrow> evbuffer_chain_align chain;
          ev_assert (CHAIN_SPACE_LEN chain1 \<ge> datlen);
          Some (Some c, buf\<lparr>chains := (chains buf)[c := chain1]\<rparr>)
        }
        else if CHAIN_SPACE_LEN chain < ch_buffer_len chain div 8 \<or> ch_off chain > MAX_TO_COPY_IN_EXPAND \<or>
                (datlen < EVBUFFER_CHAIN_MAX \<and> EVBUFFER_CHAIN_MAX - datlen \<ge> ch_off chain) then
          (if Suc c < length (chains buf) \<and> CHAIN_SPACE_LEN (chains buf ! Suc c) \<ge> datlen
           then Some (Some (Suc c), buf)
           else insert_new mal buf datlen)
        else
          (let len = szadd (ch_off chain) datlen in
           case evbuffer_chain_new mal len of
             None \<Rightarrow> Some (None, buf)
           | Some tmp \<Rightarrow> do {
               bs \<leftarrow> mem_read (ch_buffer chain) (ch_misalign chain) (ch_off chain);
               mem \<leftarrow> mem_write (ch_buffer tmp) 0 bs;
               let tmp1 = tmp\<lparr>ch_buffer := mem, ch_off := ch_off chain\<rparr>;
               ev_assert (CHAIN_SPACE_LEN tmp1 \<ge> datlen);
               Some (Some c, (evbuffer_free_all_chains [chain] buf)\<lparr>chains := (chains buf)[c := tmp1]\<rparr>)
             }))"

definition evbuffer_expand :: "malloc \<Rightarrow> evbuffer \<Rightarrow> nat \<Rightarrow> (int \<times> evbuffer) option" where
  "evbuffer_expand mal buf datlen = do {
     (r, buf1) \<leftarrow> evbuffer_expand_singlechain mal buf datlen;
     Some (if r = None then -1 else 0, buf1)
   }"

text \<open>
  The loop of \<open>_evbuffer_expand_fast\<close> over the chains from \<open>last_with_datap\<close> on; \<open>first\<close> says whether
  the chain looked at is that one. Returns the chains (empty ones realigned), the space found, the
  number of chains used, and whether it stopped because there is enough.
\<close>

fun expand_fast_loop ::
    "evbuffer_chain list \<Rightarrow> bool \<Rightarrow> nat \<Rightarrow> nat \<Rightarrow> nat \<Rightarrow> nat \<Rightarrow> (evbuffer_chain list \<times> nat \<times> nat \<times> bool) option" where
  "expand_fast_loop [] first datlen n avail used = Some ([], avail, used, False)"
| "expand_fast_loop (chain # cs) first datlen n avail used = do {
     (chain1, avail1, used1) \<leftarrow>
       (if ch_off chain \<noteq> 0 then do {
          ev_assert first;
          let space = CHAIN_SPACE_LEN chain;
          Some (if space \<noteq> 0 then (chain, szadd avail space, used + 1) else (chain, avail, used))
        }
        else Some (chain\<lparr>ch_misalign := 0\<rparr>, szadd avail (ch_buffer_len chain), used + 1));
     if avail1 \<ge> datlen then Some (chain1 # cs, avail1, used1, True)
     else if used1 = n then Some (chain1 # cs, avail1, used1, False)
     else do {
       (cs1, avail2, used2, enough) \<leftarrow> expand_fast_loop cs False datlen n avail1 used1;
       Some (chain1 # cs1, avail2, used2, enough)
     }
   }"

text \<open>"Nuke all the empty chains" and put one with enough space in their place.\<close>

definition expand_fast_nuke :: "malloc \<Rightarrow> evbuffer \<Rightarrow> nat \<Rightarrow> (int \<times> evbuffer) option" where
  "expand_fast_nuke mal buf datlen = do {
     let l = last_with_datap buf;
     chain \<leftarrow> nth_opt (chains buf) l;
     rmv_all \<leftarrow> (if ch_off chain = 0 then do { ev_assert (l = 0); Some True } else Some False);
     let avail = (if rmv_all then 0 else CHAIN_SPACE_LEN chain);
     let victims = (if rmv_all then drop l (chains buf) else drop (Suc l) (chains buf));
     ev_assert (list_all (\<lambda>ch. ch_off ch = 0) victims);
     ev_assert (datlen \<ge> avail);
     let buf1 = evbuffer_free_all_chains victims buf;
     case evbuffer_chain_new mal (datlen - avail) of
       None \<Rightarrow> Some (-1, if rmv_all then ZERO_CHAIN buf1 else buf1\<lparr>chains := take (Suc l) (chains buf)\<rparr>)
     | Some tmp \<Rightarrow> Some (0, if rmv_all then buf1\<lparr>chains := [tmp], last_with_datap := 0\<rparr>
                               else buf1\<lparr>chains := take (Suc l) (chains buf) @ [tmp]\<rparr>)
   }"

definition evbuffer_expand_fast :: "malloc \<Rightarrow> evbuffer \<Rightarrow> nat \<Rightarrow> nat \<Rightarrow> (int \<times> evbuffer) option" where
  "evbuffer_expand_fast mal buf datlen n = do {
     ev_assert (n \<ge> 2);
     if chains buf = [] \<or> CHAIN_IMMUTABLE (last (chains buf)) then
       (case evbuffer_chain_new mal datlen of
          None \<Rightarrow> Some (-1, buf)
        | Some chain \<Rightarrow> do { buf1 \<leftarrow> evbuffer_chain_insert buf chain; Some (0, buf1) })
     else do {
       let l = last_with_datap buf;
       (cs, avail, used, enough) \<leftarrow> expand_fast_loop (drop l (chains buf)) True datlen n 0 0;
       let buf1 = buf\<lparr>chains := take l (chains buf) @ cs\<rparr>;
       if enough then Some (0, buf1)
       else if used < n then
         (case evbuffer_chain_new mal (szsub datlen avail) of
            None \<Rightarrow> Some (-1, buf1)
          | Some tmp \<Rightarrow> Some (0, buf1\<lparr>chains := chains buf1 @ [tmp]\<rparr>))
       else expand_fast_nuke mal buf1 datlen
     }
   }"

section \<open>Reserving and committing\<close>

record evbuffer_iovec =
  iov_chain :: nat
  iov_pos :: nat
  iov_len :: nat

definition space_vec :: "nat \<Rightarrow> evbuffer_chain \<Rightarrow> nat \<Rightarrow> evbuffer_iovec" where
  "space_vec k chain len = \<lparr>iov_chain = k, iov_pos = ch_misalign chain + ch_off chain, iov_len = len\<rparr>"

text \<open>
  The loop of \<open>_evbuffer_read_setup_vecs\<close>: the chains from \<open>firstchain\<close> (number \<open>k\<close>) on, the vectors
  still available, \<open>so_far\<close>. Running off the list is a null dereference.
\<close>

fun setup_vecs_loop ::
    "evbuffer_chain list \<Rightarrow> nat \<Rightarrow> nat \<Rightarrow> nat \<Rightarrow> nat \<Rightarrow> bool \<Rightarrow> evbuffer_iovec list option" where
  "setup_vecs_loop cs k 0 howmuch so_far exact = Some []"
| "setup_vecs_loop cs k (Suc n) howmuch so_far exact =
     (if so_far < howmuch then
        (case cs of
           [] \<Rightarrow> None
         | chain # cs' \<Rightarrow>
             let avail = CHAIN_SPACE_LEN chain;
                 avail = (if avail > howmuch - so_far \<and> exact then howmuch - so_far else avail)
             in do {
               vs \<leftarrow> setup_vecs_loop cs' (Suc k) n howmuch (szadd so_far avail) exact;
               Some (space_vec k chain avail # vs)
             })
      else Some [])"

text \<open>The vectors and the number of the first chain.\<close>

definition evbuffer_read_setup_vecs ::
    "evbuffer \<Rightarrow> int \<Rightarrow> nat \<Rightarrow> bool \<Rightarrow> (evbuffer_iovec list \<times> nat) option option" where
  "evbuffer_read_setup_vecs buf howmuch n_vecs_avail exact =
     (if howmuch < 0 then Some None
      else do {
        ev_assert (last_with_datap buf < length (chains buf));
        let f = first_space buf;
        vs \<leftarrow> setup_vecs_loop (drop f (chains buf)) f n_vecs_avail (nat howmuch) 0 exact;
        Some (Some (vs, f))
      })"

text \<open>Number of vectors or -1, the vectors, the buffer.\<close>

definition evbuffer_reserve_space ::
    "malloc \<Rightarrow> evbuffer \<Rightarrow> int \<Rightarrow> int \<Rightarrow> (int \<times> evbuffer_iovec list \<times> evbuffer) option" where
  "evbuffer_reserve_space mal buf sz n_vecs =
     (if freeze_end buf then Some (-1, [], buf)
      else if n_vecs < 1 then Some (-1, [], buf)
      else if n_vecs = 1 then do {
        (r, buf1) \<leftarrow> evbuffer_expand_singlechain mal buf (nat (sz mod 4294967296));
        case r of
          None \<Rightarrow> Some (-1, [], buf1)
        | Some c \<Rightarrow> do {
            let chain = chains buf1 ! c;
            ev_assert (sz < 0 \<or> CHAIN_SPACE_LEN chain \<ge> nat sz);
            Some (1, [space_vec c chain (CHAIN_SPACE_LEN chain)], buf1)
          }
      }
      else do {
        (r, buf1) \<leftarrow> evbuffer_expand_fast mal buf (nat (sz mod 4294967296)) (nat n_vecs);
        if r < 0 then Some (-1, [], buf1)
        else do {
          v \<leftarrow> evbuffer_read_setup_vecs buf1 sz (nat n_vecs) False;
          case v of
            None \<Rightarrow> Some (-1, [], buf1)
          | Some (vs, f) \<Rightarrow> Some (int (length vs), vs, buf1)
        }
      })"

text \<open>Passes 1 and 2 of \<open>evbuffer_commit_space\<close>.\<close>

fun commit_check :: "evbuffer_chain list \<Rightarrow> nat \<Rightarrow> evbuffer_iovec list \<Rightarrow> bool" where
  "commit_check cs k [] = True"
| "commit_check [] k (v # vs) = False"
| "commit_check (chain # cs) k (v # vs) \<longleftrightarrow>
     iov_chain v = k \<and> iov_pos v = ch_misalign chain + ch_off chain \<and> iov_len v \<le> CHAIN_SPACE_LEN chain \<and>
     commit_check cs (Suc k) vs"

fun commit_chains :: "evbuffer_chain list \<Rightarrow> evbuffer_iovec list \<Rightarrow> evbuffer_chain list" where
  "commit_chains cs [] = cs"
| "commit_chains [] (v # vs) = []"
| "commit_chains (chain # cs) (v # vs) = chain\<lparr>ch_off := ch_off chain + iov_len v\<rparr> # commit_chains cs vs"

fun commit_lwd :: "nat \<Rightarrow> nat \<Rightarrow> evbuffer_iovec list \<Rightarrow> nat" where
  "commit_lwd lwd k [] = lwd"
| "commit_lwd lwd k (v # vs) = commit_lwd (if iov_len v \<noteq> 0 then k else lwd) (Suc k) vs"

definition commit_done :: "evbuffer \<Rightarrow> nat \<Rightarrow> int \<times> evbuffer" where
  "commit_done buf n = (0, evbuffer_invoke_callbacks (added buf n))"

definition evbuffer_commit_space :: "evbuffer \<Rightarrow> evbuffer_iovec list \<Rightarrow> (int \<times> evbuffer) option" where
  "evbuffer_commit_space buf vec =
     (if freeze_end buf then Some (-1, buf)
      else case vec of
        [] \<Rightarrow> Some (0, buf)
      | v # vs \<Rightarrow>
          if vs = [] \<and> chains buf \<noteq> [] \<and> iov_chain v = length (chains buf) - 1 \<and>
             iov_pos v = ch_misalign (last (chains buf)) + ch_off (last (chains buf)) then
            (let lst = last (chains buf) in
             if iov_len v > CHAIN_SPACE_LEN lst then Some (-1, buf)
             else
               let buf1 = set_last buf (lst\<lparr>ch_off := ch_off lst + iov_len v\<rparr>);
                   buf2 = (if iov_len v \<noteq> 0 then advance_last_with_data buf1 else buf1)
               in Some (commit_done buf2 (iov_len v)))
          else if last_with_datap buf \<ge> length (chains buf) then Some (-1, buf)
          else
            let f = first_space buf in
            if \<not> commit_check (drop f (chains buf)) f vec then Some (-1, buf)
            else Some (commit_done
                   (buf\<lparr>chains := take f (chains buf) @ commit_chains (drop f (chains buf)) vec,
                        last_with_datap := commit_lwd (last_with_datap buf) f vec\<rparr>)
                   (sum_list (map iov_len vec))))"

section \<open>Reading from a descriptor\<close>

definition NUM_READ_IOVEC :: nat where [cfg_defs]: "NUM_READ_IOVEC = 4"
definition EVBUFFER_MAX_READ :: int where [cfg_defs]: "EVBUFFER_MAX_READ = 4096"
definition NUM_WRITE_IOVEC :: nat where [cfg_defs]: "NUM_WRITE_IOVEC = 128"

text \<open>
  \<open>readv\<close>, given the space offered: \<open>None\<close> for -1, otherwise the bytes, which it puts into the vectors
  in order. \<open>scatter\<close> is what that does to the memory of the chains.
\<close>

type_synonym readv = "nat \<Rightarrow> byte list option"

definition readv_spec :: "readv \<Rightarrow> bool" where
  "readv_spec rv \<longleftrightarrow> (\<forall>n bs. rv n = Some bs \<longrightarrow> length bs \<le> n)"

fun scatter :: "evbuffer_chain list \<Rightarrow> evbuffer_iovec list \<Rightarrow> byte list \<Rightarrow> evbuffer_chain list option" where
  "scatter cs [] bs = Some cs"
| "scatter cs (v # vs) bs = do {
     chain \<leftarrow> nth_opt cs (iov_chain v);
     mem \<leftarrow> mem_write (ch_buffer chain) (iov_pos v) (take (iov_len v) bs);
     scatter (cs[iov_chain v := chain\<lparr>ch_buffer := mem\<rparr>]) vs (drop (iov_len v) bs)
   }"

text \<open>
  \<open>get_n_bytes_readable_on_socket\<close>: the answer of \<open>ioctl(FIONREAD)\<close>, \<open>None\<close> when it fails.
\<close>

definition get_n_bytes_readable_on_socket :: "int option \<Rightarrow> int" where
  "get_n_bytes_readable_on_socket fionread = (case fionread of None \<Rightarrow> -1 | Some n \<Rightarrow> n)"

text \<open>
  The loop that distributes the \<open>n\<close> bytes read over the chains: chains from \<open>*chainp\<close> (number \<open>k\<close>) on,
  \<open>nvecs\<close>, \<open>remaining\<close>; the result has the new \<open>last_with_datap\<close> when the loop broke off.
\<close>

fun read_bump :: "evbuffer_chain list \<Rightarrow> nat \<Rightarrow> nat \<Rightarrow> nat \<Rightarrow> (evbuffer_chain list \<times> nat option) option" where
  "read_bump cs k 0 remaining = Some (cs, None)"
| "read_bump cs k (Suc n) remaining =
     (case cs of
        [] \<Rightarrow> None
      | chain # cs' \<Rightarrow>
          let space = CHAIN_SPACE_LEN chain;
              space = (if space > EVBUFFER_CHAIN_MAX then EVBUFFER_CHAIN_MAX else space)
          in if space < remaining then do {
               (cs1, lwd) \<leftarrow> read_bump cs' (Suc k) n (remaining - space);
               Some (chain\<lparr>ch_off := ch_off chain + space\<rparr> # cs1, lwd)
             }
             else Some (chain\<lparr>ch_off := ch_off chain + remaining\<rparr> # cs', Some k))"

definition evbuffer_read_into ::
    "evbuffer \<Rightarrow> readv \<Rightarrow> evbuffer_iovec list \<Rightarrow> nat \<Rightarrow> (int \<times> evbuffer) option" where
  "evbuffer_read_into buf rv vecs f =
     (case rv (sum_list (map iov_len vecs)) of
        None \<Rightarrow> Some (-1, buf)
      | Some bs \<Rightarrow> do {
          cs \<leftarrow> scatter (chains buf) vecs bs;
          if bs = [] then Some (0, buf\<lparr>chains := cs\<rparr>)
          else do {
            (cs1, lwd) \<leftarrow> read_bump (drop f cs) f (length vecs) (length bs);
            let buf1 = buf\<lparr>chains := take f cs @ cs1,
                           last_with_datap := (case lwd of None \<Rightarrow> last_with_datap buf | Some l \<Rightarrow> l)\<rparr>;
            Some (int (length bs), evbuffer_invoke_callbacks (added buf1 (length bs)))
          }
        })"

definition evbuffer_read ::
    "malloc \<Rightarrow> int option \<Rightarrow> readv \<Rightarrow> evbuffer \<Rightarrow> int \<Rightarrow> (int \<times> evbuffer) option" where
  "evbuffer_read mal fionread rv buf howmuch =
     (if freeze_end buf then Some (-1, buf)
      else
        let n = get_n_bytes_readable_on_socket fionread;
            n = (if n \<le> 0 \<or> n > EVBUFFER_MAX_READ then EVBUFFER_MAX_READ else n);
            howmuch = (if howmuch < 0 \<or> howmuch > n then n else howmuch)
        in do {
          (rc, buf1) \<leftarrow> evbuffer_expand_fast mal buf (nat howmuch) NUM_READ_IOVEC;
          if rc = -1 then Some (-1, buf1)
          else do {
            v \<leftarrow> evbuffer_read_setup_vecs buf1 howmuch NUM_READ_IOVEC True;
            case v of
              None \<Rightarrow> None  \<comment> \<open>not reached: \<open>howmuch\<close> is not negative\<close>
            | Some (vecs, f) \<Rightarrow> evbuffer_read_into buf1 rv vecs f
          }
        })"

section \<open>Writing to a descriptor\<close>

text \<open>
  \<open>writev\<close>, given the bytes of the vectors: how many it took, or -1. \<open>sendfile\<close>, given the offset and
  the length: how many it sent, or -1 (\<open>Inl True\<close>: with a retriable error).
\<close>

type_synonym writev = "byte list \<Rightarrow> int"
type_synonym sendfile = "nat \<Rightarrow> nat \<Rightarrow> bool + nat"

definition writev_spec :: "writev \<Rightarrow> bool" where
  "writev_spec wv \<longleftrightarrow> (\<forall>bs. -1 \<le> wv bs \<and> wv bs \<le> int (length bs))"

text \<open>The loop that fills the vectors: chains, vectors left, \<open>howmuch\<close>.\<close>

fun write_iovecs :: "evbuffer_chain list \<Rightarrow> nat \<Rightarrow> nat \<Rightarrow> byte list list option" where
  "write_iovecs [] n howmuch = Some []"
| "write_iovecs (chain # cs) n howmuch =
     (if n = 0 \<or> howmuch = 0 then Some []
      else if ch_flags chain AND EVBUFFER_SENDFILE \<noteq> 0 then Some []
      else if howmuch \<ge> ch_off chain then do {
        b \<leftarrow> mem_read (ch_buffer chain) (ch_misalign chain) (ch_off chain);
        bs \<leftarrow> write_iovecs cs (n - 1) (howmuch - ch_off chain);
        Some (b # bs)
      }
      else do {
        b \<leftarrow> mem_read (ch_buffer chain) (ch_misalign chain) howmuch;
        Some [b]
      })"

definition evbuffer_write_iovec :: "evbuffer \<Rightarrow> writev \<Rightarrow> int \<Rightarrow> int option" where
  "evbuffer_write_iovec buf wv howmuch =
     (if howmuch < 0 then Some (-1)
      else do {
        iov \<leftarrow> write_iovecs (chains buf) NUM_WRITE_IOVEC (nat howmuch);
        Some (if iov = [] then 0 else wv (concat iov))
      })"

definition evbuffer_write_sendfile :: "evbuffer \<Rightarrow> sendfile \<Rightarrow> int option" where
  "evbuffer_write_sendfile buf sf = do {
     chain \<leftarrow> nth_opt (chains buf) 0;
     Some (case sf (ch_misalign chain) (ch_off chain) of
             Inl retriable \<Rightarrow> (if retriable then 0 else -1)
           | Inr n \<Rightarrow> int n)
   }"

definition evbuffer_write_atmost ::
    "writev \<Rightarrow> sendfile \<Rightarrow> evbuffer \<Rightarrow> int \<Rightarrow> (int \<times> evbuffer) option" where
  "evbuffer_write_atmost wv sf buf howmuch0 =
     (if freeze_start buf then Some (-1, buf)
      else
        let howmuch = (if howmuch0 < 0 \<or> nat howmuch0 > total_len buf then to_int32 (total_len buf) else howmuch0) in do {
          n \<leftarrow> (if howmuch > 0 then
                  (if chains buf \<noteq> [] \<and> ch_flags (hd (chains buf)) AND EVBUFFER_SENDFILE \<noteq> 0
                   then evbuffer_write_sendfile buf sf
                   else evbuffer_write_iovec buf wv howmuch)
                else Some (-1));
          if n > 0 then do { (rc, buf1) \<leftarrow> evbuffer_drain buf (nat n); Some (n, buf1) }
          else Some (n, buf)
        })"

definition evbuffer_write :: "writev \<Rightarrow> sendfile \<Rightarrow> evbuffer \<Rightarrow> (int \<times> evbuffer) option" where
  "evbuffer_write wv sf buf = evbuffer_write_atmost wv sf buf (-1)"

section \<open>Writing hands out the bytes in order\<close>

text \<open>
  How many bytes a call may write: what is asked for, at most what there is (and all of it for a negative number); and how many of
  them \<open>writev\<close> is given: those in the first \<open>NUM_WRITE_IOVEC\<close> chains.
\<close>

definition write_atmost :: "evbuffer \<Rightarrow> int \<Rightarrow> nat" where
  "write_atmost buf howmuch = (if howmuch < 0 then total_len buf else min (nat howmuch) (total_len buf))"

definition write_given :: "evbuffer \<Rightarrow> int \<Rightarrow> nat" where
  "write_given buf howmuch = min (write_atmost buf howmuch) (sum_list (map ch_off (take NUM_WRITE_IOVEC (chains buf))))"

lemma write_iovecs_ok:
  "list_all chain_ok cs \<Longrightarrow> \<forall>ch \<in> set cs. ch_flags ch AND EVBUFFER_SENDFILE = 0 \<Longrightarrow>
   \<exists>iov. write_iovecs cs n h = Some iov \<and> (iov = [] \<longleftrightarrow> cs = [] \<or> n = 0 \<or> h = 0) \<and>
     concat iov = take (min h (sum_list (map ch_off (take n cs)))) (concat (map chain_data cs))"
proof (induction cs arbitrary: n h)
  case Nil
  then show ?case by simp
next
  case (Cons c cs)
  then have c: "ch_misalign c + ch_off c \<le> ch_buffer_len c" "length (chain_data c) = ch_off c" "ch_flags c AND EVBUFFER_SENDFILE = 0"
    by (simp_all add: chain_ok_def)
  have rd: "m \<le> ch_off c \<Longrightarrow> mem_read (ch_buffer c) (ch_misalign c) m = Some (take m (chain_data c))" for m
    using c(1) by (simp add: mem_read_def chain_data_def)
  consider (stop) "n = 0 \<or> h = 0" | (all) k where "n = Suc k" "h \<noteq> 0" "ch_off c \<le> h" | (part) k where "n = Suc k" "h \<noteq> 0" "h < ch_off c"
    by (metis not0_implies_Suc not_le)
  then show ?case
  proof cases
    case stop
    then show ?thesis by auto
  next
    case all
    obtain iov where "write_iovecs cs k (h - ch_off c) = Some iov"
      "concat iov = take (min (h - ch_off c) (sum_list (map ch_off (take k cs)))) (concat (map chain_data cs))"
      using Cons.IH [of k "h - ch_off c"] Cons.prems by auto
    moreover have "min h (ch_off c + a) = ch_off c + min (h - ch_off c) a" for a using all(3) by linarith
    ultimately show ?thesis using all rd [of "ch_off c"] c(2,3) by simp
  next
    case part
    then have "min h (ch_off c + a) = h" for a by linarith
    then show ?thesis using part rd [of h] c(2,3) by simp
  qed
qed

lemma evbuffer_write_atmost_ok:
  assumes inv: "evbuffer_inv buf" and fr: "\<not> freeze_start buf" and small: "total_len buf \<le> EV_SSIZE_MAX"
    and wv: "writev_spec wv" and sf: "\<forall>ch \<in> set (chains buf). ch_flags ch AND EVBUFFER_SENDFILE = 0"
    and n: "n = (if write_atmost buf h = 0 then -1 else wv (take (write_given buf h) (contents buf)))"
  shows "\<exists>buf'. evbuffer_write_atmost wv sf buf h = Some (n, buf') \<and> evbuffer_inv buf' \<and> same_ctl buf buf' \<and>
    contents buf' = drop (nat n) (contents buf)"
proof -
  define hm where "hm = (if h < 0 \<or> nat h > total_len buf then to_int32 (total_len buf) else h)"
  have hm: "hm = int (write_atmost buf h)"
    using small by (auto simp: hm_def write_atmost_def cfg_defs)
  have ok: "list_all chain_ok (chains buf)" using inv by (simp add: evbuffer_inv_def chains_inv_def)
  have ne: "hm > 0 \<Longrightarrow> chains buf \<noteq> []" using inv hm by (auto simp: write_atmost_def evbuffer_inv_def chains_inv_def split: if_splits)
  obtain iov where iov: "write_iovecs (chains buf) NUM_WRITE_IOVEC (nat hm) = Some iov"
    "iov = [] \<longleftrightarrow> chains buf = [] \<or> NUM_WRITE_IOVEC = 0 \<or> nat hm = 0"
    "concat iov = take (min (nat hm) (sum_list (map ch_off (take NUM_WRITE_IOVEC (chains buf))))) (concat (map chain_data (chains buf)))"
    using write_iovecs_ok [OF ok sf, of NUM_WRITE_IOVEC "nat hm"] by (elim exE conjE)
  have w: "hm > 0 \<Longrightarrow> iov \<noteq> []" using iov(2) ne by (simp add: cfg_defs)
  have given: "concat iov = take (write_given buf h) (contents buf)"
    unfolding iov(3) write_given_def contents_def hm nat_int by (rule refl)
  have eq: "evbuffer_write_atmost wv sf buf h =
     (if n > 0 then do { (rc, buf1) \<leftarrow> evbuffer_drain buf (nat n); Some (n, buf1) } else Some (n, buf))"
  proof -
    have "\<not> (chains buf \<noteq> [] \<and> ch_flags (hd (chains buf)) AND EVBUFFER_SENDFILE \<noteq> 0)" using sf hd_in_set by blast
    moreover have "hm > 0 \<Longrightarrow> evbuffer_write_iovec buf wv hm = Some n"
      using iov(1) w given hm by (simp add: evbuffer_write_iovec_def n)
    moreover have "\<not> hm > 0 \<Longrightarrow> n = -1" using hm by (simp add: n)
    ultimately show ?thesis
      unfolding evbuffer_write_atmost_def Let_def hm_def [symmetric] using fr by (cases "hm > 0") auto
  qed
  obtain b where d: "evbuffer_drain buf (nat n) = Some (0, b)" "evbuffer_inv b" "same_ctl buf b" "contents b = drop (nat n) (contents buf)"
    by (rule evbuffer_drain_ok [OF inv fr])
  show ?thesis using eq d inv by (cases "n > 0") auto
qed

text \<open>
  C8. \<open>evbuffer_write_atmost\<close> on a well-formed buffer whose start is not frozen, without sendfile chains: when there is nothing to write the result is -1 and \<open>writev\<close> is not
  called; otherwise \<open>writev\<close> is given exactly the first bytes, as many as are asked for, are there and lie in the first
  \<open>NUM_WRITE_IOVEC\<close> chains; its result is returned, and exactly the number of bytes it took is removed from the front. On an error
  or when nothing was taken the bytes stay as they are.
\<close>

theorem evbuffer_write_atmost_in_order:
  assumes "evbuffer_inv buf" "\<not> freeze_start buf" "total_len buf \<le> EV_SSIZE_MAX" "writev_spec wv"
    and "\<forall>ch \<in> set (chains buf). ch_flags ch AND EVBUFFER_SENDFILE = 0"
    and "n = (if write_atmost buf h = 0 then -1 else wv (take (write_given buf h) (contents buf)))"
  shows "\<exists>buf'. evbuffer_write_atmost wv sf buf h = Some (n, buf') \<and> evbuffer_inv buf' \<and> same_ctl buf buf' \<and>
     contents buf' = drop (nat n) (contents buf)"
  by (rule evbuffer_write_atmost_ok [OF assms])

theorem evbuffer_write_atmost_in_order_witness:
  "\<exists>buf'. evbuffer_write_atmost (\<lambda>bs. if bs = [1, 2, 3] then 2 else -1) (\<lambda>_ _. Inr 0) two_chains 3 = Some (2, buf') \<and>
     contents buf' = [3, 4, 5]"
proof -
  let ?wv = "\<lambda>bs :: byte list. if bs = [1, 2, 3] then 2 else (-1 :: int)"
  have "writev_spec ?wv" by (simp add: writev_spec_def)
  moreover have "\<forall>ch \<in> set (chains two_chains). ch_flags ch AND EVBUFFER_SENDFILE = 0" by (simp add: two_chains_def chain_of_def)
  moreover have "total_len two_chains \<le> EV_SSIZE_MAX" by (simp add: two_chains_facts cfg_defs)
  moreover have "2 = (if write_atmost two_chains 3 = 0 then -1 else ?wv (take (write_given two_chains 3) (contents two_chains)))"
    by (simp add: write_atmost_def write_given_def two_chains_facts cfg_defs) (simp add: two_chains_def chain_of_def)
  ultimately show ?thesis
    using evbuffer_write_atmost_in_order [OF two_chains_facts(1,3), of ?wv 2 3 "\<lambda>_ _. Inr 0"] by (auto simp: two_chains_facts)
qed

end
