(* ===== verification/Evbuffer_Read.thy ===== *)
theory Evbuffer_Read
  imports Evbuffer_Space
begin

text \<open>
  Reading from a descriptor. \<open>_evbuffer_expand_fast\<close> may leave several empty chains at the end, so the
  invariant here is another one than for \<open>evbuffer_add\<close>: \<open>last_with_datap\<close> must be exact, and then any
  number of empty chains may follow. The last section shows what happens when the two uses are mixed.
\<close>

section \<open>The invariant of buffers that are read into\<close>

definition read_inv :: "evbuffer \<Rightarrow> bool" where
  "read_inv buf \<longleftrightarrow> list_all chain_ok (chains buf) \<and> total_len buf = sum_list (map ch_off (chains buf)) \<and>
     total_len buf \<le> EV_SIZE_MAX \<and>
     (last_with_datap buf < length (chains buf) \<or> chains buf = [] \<and> last_with_datap buf = 0) \<and>
     (\<forall>ch \<in> set (drop (Suc (last_with_datap buf)) (chains buf)). ch_off ch = 0) \<and>
     (last_with_datap buf \<noteq> 0 \<longrightarrow> ch_off (chains buf ! last_with_datap buf) \<noteq> 0) \<and>
     (\<forall>ch \<in> set (chains buf). ch_off ch = 0 \<longrightarrow> \<not> CHAIN_IMMUTABLE ch)"

lemma read_inv_new: "read_inv evbuffer_new"
  by (simp add: read_inv_def)

lemma read_inv_iff:
  assumes "chains buf = pre @ c # es" "last_with_datap buf = length pre"
  shows "read_inv buf \<longleftrightarrow> list_all chain_ok pre \<and> chain_ok c \<and> list_all chain_ok es \<and>
     (\<forall>ch \<in> set es. ch_off ch = 0) \<and> (pre \<noteq> [] \<longrightarrow> ch_off c \<noteq> 0) \<and>
     total_len buf = sum_list (map ch_off pre) + ch_off c \<and> total_len buf \<le> EV_SIZE_MAX \<and>
     (\<forall>ch \<in> set (pre @ c # es). ch_off ch = 0 \<longrightarrow> \<not> CHAIN_IMMUTABLE ch)"
  using assms by (auto simp: read_inv_def nth_append sum_list_map_eq_0)

lemma read_inv_split:
  assumes "read_inv buf" "chains buf \<noteq> []"
  obtains pre c es where "chains buf = pre @ c # es" "last_with_datap buf = length pre"
proof -
  let ?l = "last_with_datap buf"
  have l: "?l < length (chains buf)" using assms by (auto simp: read_inv_def)
  then have "chains buf = take ?l (chains buf) @ chains buf ! ?l # drop (Suc ?l) (chains buf)"
    by (simp add: id_take_nth_drop)
  from that [OF this] l show ?thesis by simp
qed

lemma read_inv_length: "read_inv buf \<Longrightarrow> length (contents buf) = total_len buf"
  by (simp add: read_inv_def contents_def length_concat_data)

section \<open>Making room\<close>

definition room :: "nat \<Rightarrow> evbuffer_chain list \<Rightarrow> nat" where
  "room n cs = sum_list (map CHAIN_SPACE_LEN (take n cs))"

lemma room_Cons [simp]: "room (Suc n) (c # cs) = CHAIN_SPACE_LEN c + room n cs" "room 0 cs = 0" "room n [] = 0"
  by (simp_all add: room_def)

lemma room_mono: "n \<le> m \<Longrightarrow> room n cs \<le> room m cs"
proof (induction cs arbitrary: n m)
  case (Cons c cs)
  then show ?case by (cases n; cases m) simp_all
qed simp

lemma room_append: "room n cs \<le> room n (cs @ ds)"
proof (induction cs arbitrary: n)
  case (Cons c cs)
  then show ?case by (cases n) simp_all
qed simp

text \<open>Empty chains after the loop of \<open>_evbuffer_expand_fast\<close>: only their misalignment may have changed.\<close>

definition realigned :: "evbuffer_chain list \<Rightarrow> evbuffer_chain list \<Rightarrow> bool" where
  "realigned es es' \<longleftrightarrow> length es' = length es \<and> list_all chain_ok es' \<and> (\<forall>ch \<in> set es'. ch_off ch = 0) \<and>
     (\<forall>ch \<in> set es'. \<not> CHAIN_IMMUTABLE ch)"

lemma space_empty:
  "chain_ok ch \<Longrightarrow> ch_off ch = 0 \<Longrightarrow> \<not> CHAIN_IMMUTABLE ch \<Longrightarrow>
   CHAIN_SPACE_LEN (ch\<lparr>ch_misalign := 0\<rparr>) = ch_buffer_len ch \<and> chain_ok (ch\<lparr>ch_misalign := 0\<rparr>) \<and>
   \<not> CHAIN_IMMUTABLE (ch\<lparr>ch_misalign := 0\<rparr>)"
  by (auto simp: CHAIN_SPACE_LEN_def chain_ok_def CHAIN_IMMUTABLE_def CHAIN_PINNED_def cfg_defs)

lemma space_bound: "chain_ok ch \<Longrightarrow> CHAIN_SPACE_LEN ch \<le> 2147483623" "chain_ok ch \<Longrightarrow> ch_buffer_len ch \<le> 2147483623"
  by (auto simp: chain_space_len) (auto simp: chain_ok_def cfg_defs)

lemma expand_fast_loop_empty:
  "list_all chain_ok es \<Longrightarrow> \<forall>ch \<in> set es. ch_off ch = 0 \<and> \<not> CHAIN_IMMUTABLE ch \<Longrightarrow> avail < datlen \<Longrightarrow>
   datlen \<le> 2147483623 \<Longrightarrow> used < n \<Longrightarrow>
   \<exists>es' avail' used' enough. expand_fast_loop es False datlen n avail used = Some (es', avail', used', enough) \<and>
     realigned es es' \<and>
     (enough \<longrightarrow> datlen \<le> avail + room (n - used) es') \<and>
     (\<not> enough \<longrightarrow> used' = n \<or> used' = used + length es \<and> used' < n \<and> avail' < datlen \<and>
        avail' = avail + room (length es) es')"
proof (induction es arbitrary: avail used)
  case Nil
  then show ?case by (auto simp: realigned_def intro: exI [of _ False])
next
  case (Cons c es)
  let ?c = "c\<lparr>ch_misalign := 0\<rparr>" and ?a = "avail + ch_buffer_len c"
  have c: "CHAIN_SPACE_LEN ?c = ch_buffer_len c" "chain_ok ?c" "\<not> CHAIN_IMMUTABLE ?c" "ch_off c = 0"
    using space_empty [of c] Cons.prems by auto
  have "ch_buffer_len c \<le> 2147483623" using Cons.prems(1) by (simp add: space_bound)
  then have a: "szadd avail (ch_buffer_len c) = ?a" using Cons.prems(3,4) by simp
  have es: "list_all chain_ok es" "\<forall>ch \<in> set es. ch_off ch = 0 \<and> \<not> CHAIN_IMMUTABLE ch" using Cons.prems by auto
  then have re: "realigned (c # es) (?c # es)" using c by (auto simp: realigned_def)
  obtain m where m: "n - used = Suc m" "n - Suc used = m" using Cons.prems(5) by (cases "n - used") auto
  consider (enough) "datlen \<le> ?a" | (full) "?a < datlen" "Suc used = n" | (more) "?a < datlen" "Suc used < n"
    using Cons.prems(5) by linarith
  then show ?case
  proof cases
    case enough
    then show ?thesis using c a re m by auto
  next
    case full
    then show ?thesis using c a re by auto
  next
    case more
    obtain es' avail' used' enough where IH:
      "expand_fast_loop es False datlen n ?a (Suc used) = Some (es', avail', used', enough)" "realigned es es'"
      "enough \<longrightarrow> datlen \<le> ?a + room (n - Suc used) es'"
      "\<not> enough \<longrightarrow> used' = n \<or> used' = Suc used + length es \<and> used' < n \<and> avail' < datlen \<and> avail' = ?a + room (length es) es'"
      using Cons.IH [OF es more(1) Cons.prems(4) more(2)] by blast
    have "expand_fast_loop (c # es) False datlen n avail used = Some (?c # es', avail', used', enough)"
      using c(4) a more IH(1) by simp
    moreover have "realigned (c # es) (?c # es')" using IH(2) c by (auto simp: realigned_def)
    ultimately show ?thesis using IH(3,4) c(1) m by auto
  qed
qed

text \<open>Chains that may follow the one at \<open>last_with_datap\<close>.\<close>

definition spare :: "evbuffer_chain list \<Rightarrow> bool" where
  "spare es \<longleftrightarrow> list_all chain_ok es \<and> (\<forall>ch \<in> set es. ch_off ch = 0 \<and> \<not> CHAIN_IMMUTABLE ch)"

lemma realigned_spare: "realigned es es' \<Longrightarrow> spare es'"
  by (auto simp: realigned_def spare_def)

lemma spare_snoc [simp]: "spare (es @ [t]) \<longleftrightarrow> spare es \<and> chain_ok t \<and> ch_off t = 0 \<and> \<not> CHAIN_IMMUTABLE t"
  "spare (t # es) \<longleftrightarrow> spare es \<and> chain_ok t \<and> ch_off t = 0 \<and> \<not> CHAIN_IMMUTABLE t" "spare []"
  by (auto simp: spare_def)

lemma spare_data: "spare es \<Longrightarrow> concat (map chain_data es) = []"
  by (induction es) (auto simp: spare_def)

lemma read_inv_change:
  assumes inv: "read_inv buf" and cs: "chains buf = pre @ c # es" "last_with_datap buf = length pre"
    and c': "chain_ok c'" "ch_off c' = ch_off c" "chain_data c' = chain_data c" "ch_flags c' = ch_flags c"
    and es': "spare es'"
    and b: "chains b = pre @ c' # es'" "last_with_datap b = last_with_datap buf" "total_len b = total_len buf"
  shows "read_inv b" "contents b = contents buf"
proof -
  have l: "last_with_datap b = length pre" using b(2) cs(2) by simp
  note i = inv [unfolded read_inv_iff [OF cs]]
  show "read_inv b"
    using i c' es' b(3) unfolding read_inv_iff [OF b(1) l] by (auto simp: spare_def CHAIN_IMMUTABLE_def)
  have e: "concat (map chain_data es) = []" using i by simp
  show "contents b = contents buf"
    by (simp only: contents_def cs(1) b(1) map_append list.map concat_append concat.simps c'(3)
        spare_data [OF es'] e)
qed

lemma first_space_room:
  assumes "chains b = pre @ c # es" "last_with_datap b = length pre"
  shows "room n (c # es) \<le> room n (drop (first_space b) (chains b))"
    "CHAIN_SPACE_LEN c = 0 \<Longrightarrow> room n (drop (first_space b) (chains b)) = room n es"
proof -
  have f: "first_space b = (if CHAIN_SPACE_LEN c = 0 then Suc (length pre) else length pre)"
    using assms by (simp add: first_space_def nth_append)
  show "CHAIN_SPACE_LEN c = 0 \<Longrightarrow> room n (drop (first_space b) (chains b)) = room n es"
    using f assms(1) by simp
  show "room n (c # es) \<le> room n (drop (first_space b) (chains b))"
    using f assms(1) room_mono [of "n - 1" n es] by (cases n) auto
qed

definition expanded :: "malloc \<Rightarrow> evbuffer \<Rightarrow> nat \<Rightarrow> nat \<Rightarrow> (int \<times> evbuffer) option \<Rightarrow> bool" where
  "expanded mal buf datlen n res \<longleftrightarrow>
     (\<exists>rc b. res = Some (rc, b) \<and> read_inv b \<and> contents b = contents buf \<and> same_ctl buf b \<and> total_len b = total_len buf \<and>
        (rc = -1 \<and> alloc_refused mal datlen \<or>
         rc = 0 \<and> chains b \<noteq> [] \<and> datlen \<le> room n (drop (first_space b) (chains b))))"

lemma expandedI:
  assumes inv: "read_inv buf" and cs: "chains buf = pre @ c # es" "last_with_datap buf = length pre"
    and c': "chain_ok c'" "ch_off c' = ch_off c" "chain_data c' = chain_data c" "ch_flags c' = ch_flags c" "spare es'"
    and res: "res = Some (rc, b)"
    and b: "chains b = pre @ c' # es'" "last_with_datap b = last_with_datap buf" "total_len b = total_len buf" "same_ctl buf b"
    and rc: "rc = -1 \<and> alloc_refused mal datlen \<or>
      rc = 0 \<and> (datlen \<le> room n (c' # es') \<or> CHAIN_SPACE_LEN c' = 0 \<and> datlen \<le> room n es')"
  shows "expanded mal buf datlen n res"
proof -
  note r = read_inv_change [OF inv cs c' b(1,2,3)]
  have "last_with_datap b = length pre" using cs(2) b(2) by simp
  note f = first_space_room [OF b(1) this, of n]
  have "rc = 0 \<Longrightarrow> datlen \<le> room n (drop (first_space b) (chains b))" using rc f by auto
  with r res rc b show ?thesis by (auto simp: expanded_def)
qed

lemma chain_new_spare:
  assumes "malloc_spec mal" "evbuffer_chain_new mal sz = Some t"
  shows "spare [t]" "sz \<le> CHAIN_SPACE_LEN t"
  using evbuffer_chain_new_Some [OF assms] by (auto simp: chain_space_len)

lemma chain_new_refused: "evbuffer_chain_new mal sz = None \<Longrightarrow> sz \<le> datlen \<Longrightarrow> alloc_refused mal datlen"
  by (drule evbuffer_chain_new_None) (auto simp: alloc_refused_def)

lemma expand_fast_nuke_ok:
  assumes mal: "malloc_spec mal" and inv: "read_inv buf" and cs: "chains buf = pre @ c # es" "last_with_datap buf = length pre"
    and lt: "CHAIN_SPACE_LEN c < datlen" and n: "2 \<le> n"
  shows "expanded mal buf datlen n (expand_fast_nuke mal buf datlen)"
proof -
  note i = inv [unfolded read_inv_iff [OF cs]]
  obtain m where m: "n = Suc (Suc m)" using n by (metis Suc_le_D numeral_2_eq_2 Suc_le_mono)
  have es: "list_all (\<lambda>ch. ch_off ch = 0) es" using i by (auto simp: list_all_iff)
  show ?thesis
  proof (cases "ch_off c = 0")
    case True
    then have pre: "pre = []" using i by auto
    have tl: "total_len buf = 0" "contents buf = []" using i True pre read_inv_length [OF inv] by auto
    let ?b = "evbuffer_free_all_chains (c # es) buf"
    show ?thesis
    proof (cases "evbuffer_chain_new mal datlen")
      case None
      have "expand_fast_nuke mal buf datlen = Some (-1, ZERO_CHAIN ?b)"
        using cs True pre es None by (simp add: expand_fast_nuke_def)
      moreover have "read_inv (ZERO_CHAIN ?b)" by (simp add: read_inv_def ZERO_CHAIN_def)
      ultimately show ?thesis
        using tl chain_new_refused [OF None order_refl] by (simp add: expanded_def) (simp add: ZERO_CHAIN_def)
    next
      case (Some t)
      note t = chain_new_spare [OF mal Some]
      let ?b1 = "?b\<lparr>chains := [t], last_with_datap := 0\<rparr>"
      have e: "expand_fast_nuke mal buf datlen = Some (0, ?b1)"
        using cs True pre es Some by (simp add: expand_fast_nuke_def)
      have "read_inv ?b1" using t tl by (subst read_inv_iff [of _ "[]" t "[]"]) auto
      moreover have "datlen \<le> room n (drop (first_space ?b1) (chains ?b1))"
        using first_space_room(1) [of ?b1 "[]" t "[]" n] t(2) m by simp
      moreover have "contents ?b1 = []" using t by (simp add: contents_def)
      ultimately show ?thesis using e tl by (simp add: expanded_def)
    qed
  next
    case False
    let ?b = "evbuffer_free_all_chains es buf"
    show ?thesis
    proof (cases "evbuffer_chain_new mal (datlen - CHAIN_SPACE_LEN c)")
      case None
      then have e: "expand_fast_nuke mal buf datlen = Some (-1, ?b\<lparr>chains := pre @ [c]\<rparr>)"
        using cs False es lt by (simp add: expand_fast_nuke_def)
      show ?thesis
        by (rule expandedI [OF inv cs _ _ _ _ _ e, where c' = c and es' = "[]"])
           (use i chain_new_refused [OF None, of datlen] in simp_all)
    next
      case (Some t)
      note t = chain_new_spare [OF mal Some]
      have e: "expand_fast_nuke mal buf datlen = Some (0, ?b\<lparr>chains := pre @ [c, t]\<rparr>)"
        using cs False es lt Some by (simp add: expand_fast_nuke_def)
      show ?thesis
        by (rule expandedI [OF inv cs _ _ _ _ _ e, where c' = c and es' = "[t]"]) (use i t m in auto)
    qed
  qed
qed

lemma room_snoc: "length es < n \<Longrightarrow> room n (es @ [t]) = room (length es) es + CHAIN_SPACE_LEN t"
  by (simp add: room_def)

lemma expanded_transfer:
  "expanded mal b1 datlen n res \<Longrightarrow> contents b1 = contents buf \<Longrightarrow> total_len b1 = total_len buf \<Longrightarrow>
   same_ctl buf b1 \<Longrightarrow> expanded mal buf datlen n res"
  by (auto simp: expanded_def same_ctl_def)

text \<open>The loop, the chain added at the end, or the replacement of the empty chains.\<close>

lemma evbuffer_expand_fast_loop_ok:
  assumes mal: "malloc_spec mal" and inv: "read_inv buf" and cs: "chains buf = pre @ c # es" "last_with_datap buf = length pre"
    and im: "\<not> CHAIN_IMMUTABLE (last (chains buf))" and d: "datlen \<le> 2147483623" and n: "2 \<le> n"
  shows "expanded mal buf datlen n (evbuffer_expand_fast mal buf datlen n)"
proof -
  note i = inv [unfolded read_inv_iff [OF cs]]
  define c' where "c' = (if ch_off c \<noteq> 0 then c else c\<lparr>ch_misalign := 0\<rparr>)"
  define sp where "sp = CHAIN_SPACE_LEN c'"
  define used where "used = (if ch_off c \<noteq> 0 \<and> sp = 0 then 0 else Suc 0)"
  have c': "chain_ok c'" "ch_off c' = ch_off c" "chain_data c' = chain_data c" "ch_flags c' = ch_flags c"
    using i by (auto simp: c'_def space_empty)
  have sp: "sp \<le> 2147483623" using space_bound(1) [OF c'(1)] by (simp add: sp_def)
  have len: "ch_off c = 0 \<Longrightarrow> ch_buffer_len c = sp" using i space_empty [of c] by (auto simp: sp_def c'_def)
  have ne: "\<not> (chains buf = [] \<or> CHAIN_IMMUTABLE (last (chains buf)))" using cs(1) im by simp
  have head: "expand_fast_loop (c # es) True datlen n 0 0 =
     (if sp \<ge> datlen then Some (c' # es, sp, used, True)
      else do { (cs1, a, u, e) \<leftarrow> expand_fast_loop es False datlen n sp used; Some (c' # cs1, a, u, e) })"
    using len sp n by (auto simp: c'_def used_def sp_def)
  have un: "used < n" "used = 0 \<Longrightarrow> sp = 0" using n by (auto simp: used_def split: if_splits)
  have used: "used = 0 \<and> sp = 0 \<or> used = 1" by (simp add: used_def)
  show ?thesis
  proof (cases "sp \<ge> datlen")
    case True
    then have e: "evbuffer_expand_fast mal buf datlen n = Some (0, buf\<lparr>chains := pre @ c' # es\<rparr>)"
      using ne head cs n by (simp add: evbuffer_expand_fast_def)
    have "datlen \<le> room n (c' # es)" using True n by (cases n) (simp_all add: sp_def)
    then show ?thesis
      by (intro expandedI [OF inv cs c' _ e, where es' = es]) (use i in \<open>auto simp: spare_def\<close>)
  next
    case False
    have es: "list_all chain_ok es" "\<forall>ch \<in> set es. ch_off ch = 0 \<and> \<not> CHAIN_IMMUTABLE ch" using i by auto
    obtain es' a u en where loop: "expand_fast_loop es False datlen n sp used = Some (es', a, u, en)" "realigned es es'"
      "en \<longrightarrow> datlen \<le> sp + room (n - used) es'"
      "\<not> en \<longrightarrow> u = n \<or> u = used + length es \<and> u < n \<and> a < datlen \<and> a = sp + room (length es) es'"
      using expand_fast_loop_empty [OF es, of sp datlen used n] False d un(1) by auto
    have es': "spare es'" "length es' = length es" using loop(2) realigned_spare by (auto simp: realigned_def)
    let ?b1 = "buf\<lparr>chains := pre @ c' # es'\<rparr>"
    have eq: "evbuffer_expand_fast mal buf datlen n =
      (if en then Some (0, ?b1)
       else if u < n then
         (case evbuffer_chain_new mal (szsub datlen a) of
            None \<Rightarrow> Some (-1, ?b1) | Some tmp \<Rightarrow> Some (0, ?b1\<lparr>chains := (pre @ c' # es') @ [tmp]\<rparr>))
       else expand_fast_nuke mal ?b1 datlen)"
      using ne head loop(1) cs n False by (simp add: evbuffer_expand_fast_def Let_def split: option.split)
    have room_c: "room n (c' # xs) = sp + room (n - 1) xs" for xs using n by (cases n) (simp_all add: sp_def)
    consider (enough) en | (add) "\<not> en" "u < n" | (nuke) "\<not> en" "\<not> u < n" by blast
    then show ?thesis
    proof cases
      case enough
      have "datlen \<le> room n (c' # es') \<or> CHAIN_SPACE_LEN c' = 0 \<and> datlen \<le> room n es'"
        using enough loop(3) room_c [of es'] used by (cases "used = 0") (simp_all add: sp_def)
      moreover have e: "evbuffer_expand_fast mal buf datlen n = Some (0, ?b1)" using enough eq by simp
      ultimately show ?thesis by (intro expandedI [OF inv cs c' es'(1) e]) simp_all
    next
      case add
      then have a: "u = used + length es" "a < datlen" "a = sp + room (length es) es'" using loop(4) by auto
      have sz: "szsub datlen a = datlen - a" using a(2) d by simp
      show ?thesis
      proof (cases "evbuffer_chain_new mal (datlen - a)")
        case None
        then have e: "evbuffer_expand_fast mal buf datlen n = Some (-1, ?b1)" using add eq sz by simp
        show ?thesis by (rule expandedI [OF inv cs c' es'(1) e]) (simp_all add: chain_new_refused [OF None])
      next
        case (Some t)
        note t = chain_new_spare [OF mal Some]
        have "datlen \<le> room n (c' # es' @ [t]) \<or> CHAIN_SPACE_LEN c' = 0 \<and> datlen \<le> room n (es' @ [t])"
          using a t(2) add(2) es'(2) room_c [of "es' @ [t]"] used by (cases "used = 0") (simp_all add: room_snoc sp_def, linarith+)
        moreover have e: "evbuffer_expand_fast mal buf datlen n = Some (0, ?b1\<lparr>chains := pre @ c' # es' @ [t]\<rparr>)"
          using add eq sz Some by simp
        ultimately show ?thesis using t es'
          by (intro expandedI [OF inv cs c' _ e, where es' = "es' @ [t]"]) simp_all
      qed
    next
      case nuke
      note r = read_inv_change [OF inv cs c' es'(1), of ?b1]
      have "expanded mal ?b1 datlen n (expand_fast_nuke mal ?b1 datlen)"
        by (rule expand_fast_nuke_ok [OF mal r(1), of pre c' es']) (use False cs n in \<open>simp_all add: sp_def\<close>)
      then show ?thesis using nuke eq r(2) by (auto intro: expanded_transfer)
    qed
  qed
qed

text \<open>All cases together: an empty buffer and an immutable last chain get a new chain.\<close>

lemma chain_insert_room:
  assumes mal: "malloc_spec mal" and inv: "read_inv buf" and t: "evbuffer_chain_new mal datlen = Some t"
    and cs: "chains buf = [] \<or> CHAIN_IMMUTABLE (last (chains buf))" and n: "2 \<le> n"
  shows "expanded mal buf datlen n (do { buf1 \<leftarrow> evbuffer_chain_insert buf t; Some (0, buf1) })"
proof (cases "chains buf = []")
  case True
  note t = chain_new_spare [OF mal t]
  have l: "last_with_datap buf = 0" "total_len buf = 0" "total_len buf \<le> EV_SIZE_MAX"
    using inv True by (auto simp: read_inv_def)
  let ?b = "buf\<lparr>chains := [t], total_len := 0\<rparr>"
  have "evbuffer_chain_insert buf t = Some ?b"
    using True l t by (simp add: evbuffer_chain_insert_def)
  moreover have "read_inv ?b" using t l by (subst read_inv_iff [of _ "[]" t "[]"]) auto
  moreover have "datlen \<le> room n (drop (first_space ?b) (chains ?b))"
    using first_space_room(1) [of ?b "[]" t "[]" n] t(2) l n by (cases n) simp_all
  ultimately show ?thesis using True l t by (simp add: expanded_def contents_def)
next
  case False
  obtain pre c es where s: "chains buf = pre @ c # es" "last_with_datap buf = length pre"
    by (rule read_inv_split [OF inv False])
  note i = inv [unfolded read_inv_iff [OF s]]
  have "es = []" using cs False i s(1) by (cases es rule: rev_cases) auto
  moreover have im: "CHAIN_IMMUTABLE c" using cs False s(1) calculation by simp
  ultimately have s': "chains buf = pre @ [c]" "ch_off c \<noteq> 0" "CHAIN_SPACE_LEN c = 0"
    using s i by (auto simp: CHAIN_SPACE_LEN_def)
  note t = chain_new_spare [OF mal t]
  let ?b = "buf\<lparr>chains := pre @ [c, t]\<rparr>"
  have "first_victim buf = length (chains buf)" using s s' by (simp add: first_victim_def)
  then have e: "(do { buf1 \<leftarrow> evbuffer_chain_insert buf t; Some (0 :: int, buf1) }) = Some (0, ?b)"
    using s s' t i by (simp add: evbuffer_chain_insert_def cfg_defs)
  show ?thesis
    by (rule expandedI [OF inv s _ _ _ _ _ e, where c' = c and es' = "[t]"])
       (use i t s' n in \<open>auto simp: room_def take_Cons' numeral_2_eq_2\<close>)
qed

lemma evbuffer_expand_fast_ok:
  assumes mal: "malloc_spec mal" and inv: "read_inv buf" and d: "datlen \<le> 2147483623" and n: "2 \<le> n"
  shows "expanded mal buf datlen n (evbuffer_expand_fast mal buf datlen n)"
proof (cases "chains buf = [] \<or> CHAIN_IMMUTABLE (last (chains buf))")
  case new: True
  show ?thesis
  proof (cases "evbuffer_chain_new mal datlen")
    case None
    then show ?thesis using new n inv chain_new_refused [OF None]
      by (simp add: evbuffer_expand_fast_def expanded_def)
  next
    case (Some t)
    then show ?thesis using chain_insert_room [OF mal inv Some new n] new n
      by (simp add: evbuffer_expand_fast_def)
  qed
next
  case False
  then obtain pre c es where "chains buf = pre @ c # es" "last_with_datap buf = length pre"
    by (meson read_inv_split inv)
  then show ?thesis using evbuffer_expand_fast_loop_ok [OF mal inv _ _ _ d n] False by blast
qed

section \<open>Filling the room\<close>

text \<open>The chains after bytes were read into them; \<open>j\<close> is the last one that got some.\<close>

definition filled :: "evbuffer_chain list \<Rightarrow> byte list \<Rightarrow> evbuffer_chain list \<Rightarrow> nat \<Rightarrow> bool" where
  "filled cs bs cs' j \<longleftrightarrow> list_all chain_ok cs' \<and>
     list_all2 (\<lambda>c c'. ch_flags c' = ch_flags c \<and> ch_off c \<le> ch_off c') cs cs' \<and>
     concat (map chain_data cs') = concat (map chain_data cs) @ bs \<and>
     j < length cs' \<and> ch_off (cs' ! j) \<noteq> 0 \<and> (\<forall>ch \<in> set (drop (Suc j) cs'). ch_off ch = 0)"

lemma no_data: "\<forall>ch \<in> set cs. ch_off ch = 0 \<Longrightarrow> concat (map chain_data cs) = []"
  by simp

lemma filled_refl: "list_all chain_ok cs \<Longrightarrow>
    list_all2 (\<lambda>c c'. ch_flags c' = ch_flags c \<and> ch_off c \<le> ch_off c') cs cs"
  by (simp add: list.rel_refl)

lemma scatter_step:
  assumes c: "chain_ok c" and len: "length p \<le> CHAIN_SPACE_LEN c" and p: "p = take a bs"
  obtains mem where "\<forall>pre cs vs. length pre = k \<longrightarrow> scatter (pre @ c # cs) (space_vec k c a # vs) bs =
       scatter ((pre @ [c\<lparr>ch_buffer := mem\<rparr>]) @ cs) vs (drop a bs)"
    "CHAIN_SPACE_LEN (c\<lparr>ch_buffer := mem\<rparr>) = CHAIN_SPACE_LEN c" "p = [] \<longrightarrow> mem = ch_buffer c"
    "chain_ok (c\<lparr>ch_buffer := mem, ch_off := ch_off c + length p\<rparr>)"
    "chain_data (c\<lparr>ch_buffer := mem, ch_off := ch_off c + length p\<rparr>) = chain_data c @ p"
proof -
  have "ch_misalign c + ch_off c + length p \<le> ch_buffer_len c"
    using c len by (auto simp: chain_space_len chain_ok_def split: if_splits)
  then obtain mem where m: "mem_write (ch_buffer c) (ch_misalign c + ch_off c) p = Some mem"
    "chain_ok (c\<lparr>ch_buffer := mem, ch_off := ch_off c + length p\<rparr>)"
    "chain_data (c\<lparr>ch_buffer := mem, ch_off := ch_off c + length p\<rparr>) = chain_data c @ p"
    using write_after_data [OF c] by blast
  have "CHAIN_SPACE_LEN (c\<lparr>ch_buffer := mem\<rparr>) = CHAIN_SPACE_LEN c"
    using mem_write_length [OF m(1)] by (simp add: CHAIN_SPACE_LEN_def CHAIN_IMMUTABLE_def)
  moreover have "p = [] \<longrightarrow> mem = ch_buffer c" using m(1) by (auto simp: mem_write_def split: if_splits)
  ultimately show ?thesis using m p
    by (intro that [of mem]) (simp_all add: space_vec_def nth_append list_update_append)
qed

lemma filled_Cons_last:
  assumes "chain_ok c'" "ch_flags c' = ch_flags c" "ch_off c' = ch_off c + length bs" "bs \<noteq> []"
    "chain_data c' = chain_data c @ bs" "list_all chain_ok cs" "\<forall>ch \<in> set cs. ch_off ch = 0"
  shows "filled (c # cs) bs (c' # cs) 0"
  using assms by (simp add: filled_def filled_refl no_data)

lemma filled_Cons:
  assumes "chain_ok c'" "ch_flags c' = ch_flags c" "ch_off c \<le> ch_off c'" "chain_data c' = chain_data c @ p"
    "filled cs bs cs' j" "\<forall>ch \<in> set cs. ch_off ch = 0"
  shows "filled (c # cs) (p @ bs) (c' # cs') (Suc j)"
  using assms by (simp add: filled_def no_data)

lemma fill_ok:
  "list_all chain_ok cs \<Longrightarrow> \<forall>ch \<in> set (tl cs). ch_off ch = 0 \<Longrightarrow> h \<le> so_far + room n cs \<Longrightarrow>
   h \<le> 2147483623 \<Longrightarrow> so_far \<le> h \<Longrightarrow>
   \<exists>vs. setup_vecs_loop cs k n h so_far True = Some vs \<and> sum_list (map iov_len vs) = h - so_far \<and>
     (\<forall>pre. length pre = k \<longrightarrow> scatter (pre @ cs) vs [] = Some (pre @ cs)) \<and>
     (\<forall>pre bs. length pre = k \<longrightarrow> bs \<noteq> [] \<longrightarrow> length bs \<le> h - so_far \<longrightarrow>
        (\<exists>cs1 cs2 j. scatter (pre @ cs) vs bs = Some (pre @ cs1) \<and>
           read_bump cs1 k (length vs) (length bs) = Some (cs2, Some (k + j)) \<and> filled cs bs cs2 j))"
proof (induction n arbitrary: cs k so_far)
  case 0
  then show ?case by auto
next
  case (Suc n)
  show ?case
  proof (cases "so_far < h")
    case False
    then show ?thesis using Suc.prems by (intro exI [of _ "[]"]) auto
  next
    case True
    with Suc.prems(3) obtain c cs' where cs: "cs = c # cs'" by (cases cs) auto
    let ?sp = "CHAIN_SPACE_LEN c"
    define a where "a = (if ?sp > h - so_far then h - so_far else ?sp)"
    have c: "chain_ok c" "list_all chain_ok cs'" "\<forall>ch \<in> set cs'. ch_off ch = 0" using Suc.prems(1,2) cs by auto
    have "\<forall>ch \<in> set (tl cs'). ch_off ch = 0" using c(3) by (cases cs') auto
    moreover have "h \<le> so_far + a + room n cs'" "so_far + a \<le> h" "a \<le> ?sp"
      using Suc.prems(3,5) cs by (auto simp: a_def)
    ultimately obtain vs where vs: "setup_vecs_loop cs' (Suc k) n h (so_far + a) True = Some vs"
      "sum_list (map iov_len vs) = h - (so_far + a)"
      "\<forall>pre. length pre = Suc k \<longrightarrow> scatter (pre @ cs') vs [] = Some (pre @ cs')"
      "\<forall>pre bs. length pre = Suc k \<longrightarrow> bs \<noteq> [] \<longrightarrow> length bs \<le> h - (so_far + a) \<longrightarrow>
        (\<exists>cs1 cs2 j. scatter (pre @ cs') vs bs = Some (pre @ cs1) \<and>
           read_bump cs1 (Suc k) (length vs) (length bs) = Some (cs2, Some (Suc k + j)) \<and> filled cs' bs cs2 j)"
      using Suc.IH [of cs' "so_far + a" "Suc k"] c(2) Suc.prems(4) by blast
    have sz: "szadd so_far a = so_far + a" using \<open>so_far + a \<le> h\<close> Suc.prems(4) by simp
    let ?vs = "space_vec k c a # vs"
    have vecs: "setup_vecs_loop cs k (Suc n) h so_far True = Some ?vs"
      using True cs vs(1) sz by (simp add: a_def Let_def)
    have clamp: "(if ?sp > EVBUFFER_CHAIN_MAX then EVBUFFER_CHAIN_MAX else ?sp) = ?sp"
      using space_bound(1) [OF c(1)] by (simp add: cfg_defs)
    have empty: "scatter (pre @ cs) ?vs [] = Some (pre @ cs)" if "length pre = k" for pre
    proof -
      have "mem_write (ch_buffer c) (ch_misalign c + ch_off c) [] = Some (ch_buffer c)"
        using c(1) by (simp add: mem_write_def chain_ok_def)
      then have "scatter (pre @ c # cs') ?vs [] = scatter ((pre @ [c]) @ cs') vs []"
        using that by (simp add: space_vec_def nth_append list_update_append)
      also have "\<dots> = Some ((pre @ [c]) @ cs')" using vs(3) that by (metis length_append_singleton)
      finally show ?thesis unfolding cs by simp
    qed
    have step: "\<exists>cs1 cs2 j. scatter (pre @ cs) ?vs bs = Some (pre @ cs1) \<and>
        read_bump cs1 k (length ?vs) (length bs) = Some (cs2, Some (k + j)) \<and> filled cs bs cs2 j"
      if pre: "length pre = k" and bs: "bs \<noteq> []" "length bs \<le> h - so_far" for pre bs
    proof -
      have "length (take a bs) \<le> ?sp" using \<open>a \<le> ?sp\<close> by simp
      from scatter_step [OF c(1) this refl, of k] obtain mem where
        sc: "scatter (pre @ c # cs') ?vs bs = scatter ((pre @ [c\<lparr>ch_buffer := mem\<rparr>]) @ cs') vs (drop a bs)" and
        sp: "CHAIN_SPACE_LEN (c\<lparr>ch_buffer := mem\<rparr>) = ?sp" and
        c2: "chain_ok (c\<lparr>ch_buffer := mem, ch_off := ch_off c + length (take a bs)\<rparr>)"
          "chain_data (c\<lparr>ch_buffer := mem, ch_off := ch_off c + length (take a bs)\<rparr>) = chain_data c @ take a bs"
        using pre by metis
      let ?c1 = "c\<lparr>ch_buffer := mem\<rparr>"
      show ?thesis
      proof (cases "length bs \<le> ?sp")
        case True
        then have a: "take a bs = bs" "drop a bs = []" using bs by (auto simp: a_def)
        have "scatter ((pre @ [?c1]) @ cs') vs [] = Some ((pre @ [?c1]) @ cs')"
          using vs(3) pre by (metis length_append_singleton)
        then have "scatter (pre @ cs) ?vs bs = Some (pre @ ?c1 # cs')" unfolding cs sc a by simp
        moreover have "read_bump (?c1 # cs') k (length ?vs) (length bs) =
            Some (?c1\<lparr>ch_off := ch_off c + length bs\<rparr> # cs', Some (k + 0))"
          using True sp clamp by (simp add: Let_def)
        moreover have "filled cs bs (?c1\<lparr>ch_off := ch_off c + length bs\<rparr> # cs') 0"
          unfolding cs using c2 a c bs by (intro filled_Cons_last) auto
        ultimately show ?thesis by blast
      next
        case False
        then have a: "a = ?sp" "length (take a bs) = ?sp" "drop a bs \<noteq> []" "length (drop a bs) \<le> h - (so_far + a)"
          using bs by (auto simp: a_def)
        obtain cs1 cs2 j where r: "scatter ((pre @ [?c1]) @ cs') vs (drop a bs) = Some ((pre @ [?c1]) @ cs1)"
          "read_bump cs1 (Suc k) (length vs) (length (drop a bs)) = Some (cs2, Some (Suc k + j))" "filled cs' (drop a bs) cs2 j"
          using vs(4) a(3,4) pre by (metis length_append_singleton)
        have "scatter (pre @ cs) ?vs bs = Some (pre @ ?c1 # cs1)" unfolding cs sc r(1) by simp
        moreover have "read_bump (?c1 # cs1) k (length ?vs) (length bs) =
            Some (?c1\<lparr>ch_off := ch_off c + ?sp\<rparr> # cs2, Some (k + Suc j))"
          using False sp clamp r(2) a(1) by (simp add: Let_def)
        moreover have "filled cs (take a bs @ drop a bs) (?c1\<lparr>ch_off := ch_off c + ?sp\<rparr> # cs2) (Suc j)"
          unfolding cs using c2 a(2) c r(3) by (intro filled_Cons) auto
        ultimately show ?thesis by (metis append_take_drop_id)
      qed
    qed
    have "sum_list (map iov_len ?vs) = h - so_far"
      using vs(2) \<open>so_far + a \<le> h\<close> by (simp add: space_vec_def)
    with vecs empty step show ?thesis by blast
  qed
qed

lemma filled_immutable:
  assumes "filled cs bs cs' j" "\<forall>ch \<in> set cs. ch_off ch = 0 \<longrightarrow> \<not> CHAIN_IMMUTABLE ch"
  shows "\<forall>ch \<in> set cs'. ch_off ch = 0 \<longrightarrow> \<not> CHAIN_IMMUTABLE ch"
proof
  fix ch assume "ch \<in> set cs'"
  then obtain i where i: "i < length cs'" "ch = cs' ! i" by (auto simp: in_set_conv_nth)
  then have "i < length cs" "ch_flags ch = ch_flags (cs ! i)" "ch_off (cs ! i) \<le> ch_off ch"
    using assms(1) by (auto simp: filled_def list_all2_conv_all_nth)
  then show "ch_off ch = 0 \<longrightarrow> \<not> CHAIN_IMMUTABLE ch"
    using assms(2) nth_mem by (fastforce simp: CHAIN_IMMUTABLE_def)
qed

lemma read_inv_filled:
  assumes inv: "read_inv b" and f: "f \<le> length (chains b)" and fl: "filled (drop f (chains b)) bs cs' j"
    and len: "total_len b + length bs \<le> EV_SIZE_MAX"
    and b': "chains b' = take f (chains b) @ cs'" "last_with_datap b' = f + j" "total_len b' = total_len b + length bs"
  shows "read_inv b'" "contents b' = contents b @ bs"
proof -
  have i: "list_all chain_ok (chains b)" "total_len b = sum_list (map ch_off (chains b))"
    "\<forall>ch \<in> set (chains b). ch_off ch = 0 \<longrightarrow> \<not> CHAIN_IMMUTABLE ch" using inv by (auto simp: read_inv_def)
  have spl: "concat (map chain_data (chains b)) = concat (map chain_data (take f (chains b))) @ concat (map chain_data (drop f (chains b)))"
    by (metis append_take_drop_id contents_append)
  show c: "contents b' = contents b @ bs" using fl spl by (simp add: contents_def b' filled_def)
  have ok: "list_all chain_ok (take f (chains b) @ cs')"
    using i(1) fl by (auto simp: filled_def list_all_iff dest: in_set_takeD)
  have "total_len b' = sum_list (map ch_off (chains b'))"
    using c length_concat_data [OF ok] length_concat_data [OF i(1)] i(2) b' by (simp add: contents_def)
  moreover have "\<forall>ch \<in> set cs'. ch_off ch = 0 \<longrightarrow> \<not> CHAIN_IMMUTABLE ch"
    using filled_immutable [OF fl] i(3) by (blast dest: in_set_dropD)
  moreover have "j < length cs'" "ch_off (cs' ! j) \<noteq> 0" "\<forall>ch \<in> set (drop (Suc j) cs'). ch_off ch = 0"
    using fl by (auto simp: filled_def)
  ultimately show "read_inv b'"
    using ok i(3) f len by (auto simp: read_inv_def b' nth_append dest: in_set_takeD)
qed

definition read_result :: "readv \<Rightarrow> evbuffer \<Rightarrow> nat \<Rightarrow> (int \<times> evbuffer) option \<Rightarrow> bool" where
  "read_result rv buf n res \<longleftrightarrow>
     (\<exists>rc b. res = Some (rc, b) \<and> read_inv b \<and> same_ctl buf b \<and>
        (case rv n of
           None \<Rightarrow> rc = -1 \<and> contents b = contents buf
         | Some bs \<Rightarrow> rc = int (length bs) \<and> contents b = contents buf @ bs))"

lemma first_space_le:
  assumes "read_inv b" "chains b \<noteq> []"
  shows "first_space b \<le> length (chains b)" "\<forall>ch \<in> set (tl (drop (first_space b) (chains b))). ch_off ch = 0"
proof -
  obtain pre c es where s: "chains b = pre @ c # es" "last_with_datap b = length pre"
    by (rule read_inv_split [OF assms])
  have "\<forall>ch \<in> set es. ch_off ch = 0" using assms(1) by (simp add: read_inv_iff [OF s])
  moreover have f: "first_space b = length pre \<or> first_space b = Suc (length pre)"
    using s by (simp add: first_space_def nth_append Let_def)
  ultimately have "drop (first_space b) (chains b) = c # es \<or> drop (first_space b) (chains b) = es" using s(1) by auto
  then show "\<forall>ch \<in> set (tl (drop (first_space b) (chains b))). ch_off ch = 0"
    using \<open>\<forall>ch \<in> set es. ch_off ch = 0\<close> by (cases es) auto
  show "first_space b \<le> length (chains b)" using f s(1) by auto
qed

lemma evbuffer_read_into_ok:
  assumes rv: "readv_spec rv" and inv: "read_inv b" and ne: "chains b \<noteq> []" and len: "total_len b + h \<le> EV_SIZE_MAX"
    and h: "h \<le> 4096" "h \<le> room n (drop (first_space b) (chains b))"
  obtains vs where "evbuffer_read_setup_vecs b (int h) n True = Some (Some (vs, first_space b))"
    "read_result rv b h (evbuffer_read_into b rv vs (first_space b))"
proof -
  let ?f = "first_space b" and ?cs = "drop (first_space b) (chains b)"
  have ok: "list_all chain_ok ?cs" using inv by (auto simp: read_inv_def list_all_iff dest: in_set_dropD)
  have l: "last_with_datap b < length (chains b)" "length (take ?f (chains b)) = ?f"
    using inv ne first_space_le [OF inv ne] by (auto simp: read_inv_def)
  obtain vs where vs: "setup_vecs_loop ?cs ?f n h 0 True = Some vs" "sum_list (map iov_len vs) = h"
    "\<forall>pre. length pre = ?f \<longrightarrow> scatter (pre @ ?cs) vs [] = Some (pre @ ?cs)"
    "\<forall>pre bs. length pre = ?f \<longrightarrow> bs \<noteq> [] \<longrightarrow> length bs \<le> h \<longrightarrow>
        (\<exists>cs1 cs2 j. scatter (pre @ ?cs) vs bs = Some (pre @ cs1) \<and>
           read_bump cs1 ?f (length vs) (length bs) = Some (cs2, Some (?f + j)) \<and> filled ?cs bs cs2 j)"
    using fill_ok [OF ok first_space_le(2) [OF inv ne], of h 0 n ?f] h by auto
  have set_up: "evbuffer_read_setup_vecs b (int h) n True = Some (Some (vs, ?f))"
    using l vs(1) by (simp add: evbuffer_read_setup_vecs_def Let_def)
  have "read_result rv b h (evbuffer_read_into b rv vs ?f)"
  proof (cases "rv h")
    case None
    then show ?thesis using vs(2) inv by (simp add: evbuffer_read_into_def read_result_def)
  next
    case (Some bs)
    show ?thesis
    proof (cases "bs = []")
      case True
      have "scatter (chains b) vs [] = Some (chains b)" using vs(3) l(2) by (metis append_take_drop_id)
      then show ?thesis using vs(2) Some True inv by (simp add: evbuffer_read_into_def read_result_def)
    next
      case False
      have lb: "length bs \<le> h" using rv Some by (auto simp: readv_spec_def)
      then obtain cs1 cs2 j where r: "scatter (chains b) vs bs = Some (take ?f (chains b) @ cs1)"
        "read_bump cs1 ?f (length vs) (length bs) = Some (cs2, Some (?f + j))" "filled ?cs bs cs2 j"
        using vs(4) l(2) False by (metis append_take_drop_id)
      let ?b1 = "b\<lparr>chains := take ?f (chains b) @ cs2, last_with_datap := ?f + j\<rparr>"
      let ?b' = "evbuffer_invoke_callbacks (added ?b1 (length bs))"
      have eq: "evbuffer_read_into b rv vs ?f = Some (int (length bs), ?b')"
        using vs(2) Some False r(1,2) l(2) by (simp add: evbuffer_read_into_def)
      have tl: "total_len b + length bs \<le> EV_SIZE_MAX" using lb len by simp
      note read_inv_filled [OF inv first_space_le(1) [OF inv ne] r(3) tl, of ?b']
      then show ?thesis using eq Some tl by (simp add: read_result_def)
    qed
  qed
  with set_up show ?thesis by (rule that)
qed

lemma read_result_transfer:
  "read_result rv b n res \<Longrightarrow> contents b = contents buf \<Longrightarrow> same_ctl buf b \<Longrightarrow> read_result rv buf n res"
  by (cases "rv n") (auto simp: read_result_def intro: same_ctl_trans)

text \<open>
  How many bytes \<open>evbuffer_read\<close> asks the descriptor for: what \<open>FIONREAD\<close> says is there, at most \<open>EVBUFFER_MAX_READ\<close> (also when it
  says nothing), and at most what the caller asks for.
\<close>

definition read_atmost :: "int option \<Rightarrow> int \<Rightarrow> nat" where
  "read_atmost fionread howmuch =
     (let k = (case fionread of Some n \<Rightarrow> if 0 < n \<and> n \<le> 4096 then n else 4096 | None \<Rightarrow> 4096) in
      nat (if howmuch < 0 then k else min howmuch k))"

text \<open>
  C9. \<open>evbuffer_read\<close> on a buffer whose \<open>last_with_datap\<close> is exact (\<^const>\<open>read_inv\<close>), whose end is not frozen, with room for 4096
  more bytes in the length: it asks \<open>readv\<close> for exactly \<^const>\<open>read_atmost\<close> bytes and appends exactly the bytes it got, in order, and
  returns their number; when memory is refused or \<open>readv\<close> fails it returns -1 and keeps the bytes. The invariant holds again, so reads can
  follow. A buffer whose \<open>last_with_datap\<close> is not exact makes it abort, as the last section shows.
\<close>

theorem evbuffer_read_appends:
  assumes "malloc_spec mal" "readv_spec rv" "read_inv buf" "\<not> freeze_end buf" "total_len buf + 4096 \<le> EV_SIZE_MAX"
    and "n = read_atmost fionread howmuch"
  shows "\<exists>rc b. evbuffer_read mal fionread rv buf howmuch = Some (rc, b) \<and> read_inv b \<and> same_ctl buf b \<and>
        (rc = -1 \<and> contents b = contents buf \<and> (alloc_refused mal n \<or> rv n = None) \<or>
         (\<exists>bs. rv n = Some bs \<and> rc = int (length bs) \<and> contents b = contents buf @ bs))"
proof -
  define k where "k = (let n = get_n_bytes_readable_on_socket fionread in if n \<le> 0 \<or> n > EVBUFFER_MAX_READ then EVBUFFER_MAX_READ else n)"
  define h where "h = (if howmuch < 0 \<or> howmuch > k then k else howmuch)"
  have k: "0 < k" "k \<le> 4096" by (auto simp: k_def Let_def cfg_defs)
  then have h: "0 \<le> h" "h \<le> 4096" by (auto simp: h_def)
  have n_def: "n = nat h"
    unfolding assms(6) read_atmost_def h_def k_def by (auto simp: get_n_bytes_readable_on_socket_def cfg_defs min_def split: option.splits)
  have n: "h = int n" "n \<le> 4096" using h by (auto simp: n_def)
  have eq: "evbuffer_read mal fionread rv buf howmuch = do {
          (rc, buf1) \<leftarrow> evbuffer_expand_fast mal buf n NUM_READ_IOVEC;
          if rc = -1 then Some (-1, buf1)
          else do {
            v \<leftarrow> evbuffer_read_setup_vecs buf1 h NUM_READ_IOVEC True;
            case v of None \<Rightarrow> None | Some (vecs, f) \<Rightarrow> evbuffer_read_into buf1 rv vecs f
          }
        }"
    unfolding evbuffer_read_def Let_def k_def [unfolded Let_def, symmetric] h_def [symmetric] n_def using assms(4) by simp
  have "expanded mal buf n NUM_READ_IOVEC (evbuffer_expand_fast mal buf n NUM_READ_IOVEC)"
    using n(2) by (intro evbuffer_expand_fast_ok assms) (simp_all add: cfg_defs)
  then obtain rc b where b: "evbuffer_expand_fast mal buf n NUM_READ_IOVEC = Some (rc, b)" "read_inv b"
    "contents b = contents buf" "same_ctl buf b" "total_len b = total_len buf"
    "rc = -1 \<and> alloc_refused mal n \<or> rc = 0 \<and> chains b \<noteq> [] \<and> n \<le> room NUM_READ_IOVEC (drop (first_space b) (chains b))"
    unfolding expanded_def by blast
  show ?thesis
  proof (cases "rc = -1")
    case True
    then show ?thesis using b eq by auto
  next
    case False
    then have "n \<le> room NUM_READ_IOVEC (drop (first_space b) (chains b))" "chains b \<noteq> []" using b(6) by auto
    then obtain vs where vs: "evbuffer_read_setup_vecs b (int n) NUM_READ_IOVEC True = Some (Some (vs, first_space b))"
      "read_result rv b n (evbuffer_read_into b rv vs (first_space b))"
      using evbuffer_read_into_ok [OF assms(2) b(2), of n NUM_READ_IOVEC] n(2) assms(5) b(5) by auto
    have "evbuffer_read mal fionread rv buf howmuch = evbuffer_read_into b rv vs (first_space b)"
      using eq b(1) vs(1) False n(1) by simp
    with read_result_transfer [OF vs(2) b(3,4)] show ?thesis
      by (auto simp: read_result_def split: option.splits)
  qed
qed

theorem evbuffer_read_appends_witness:
  "\<exists>b. evbuffer_read zalloc (Some 3) (\<lambda>n. Some (take n [7, 8, 9])) evbuffer_new 2 = Some (2, b) \<and> read_inv b \<and> contents b = [7, 8]"
proof -
  have "readv_spec (\<lambda>n. Some (take n [7, 8, 9 :: byte]))" by (simp add: readv_spec_def)
  moreover have "2 = read_atmost (Some 3) 2" by (simp add: read_atmost_def)
  moreover have "\<not> alloc_refused zalloc 2" by (auto simp: alloc_refused_def cfg_defs)
  ultimately show ?thesis
    using evbuffer_read_appends [OF zalloc_spec(1) _ read_inv_new, of "\<lambda>n. Some (take n [7, 8, 9])" 2 "Some 3" 2] by (auto simp: cfg_defs)
qed

section \<open>Space reserved and not used, then \<open>evbuffer_add\<close>\<close>

text \<open>
  \<open>evbuffer_add\<close> writes to \<open>buf->last\<close> without moving \<open>last_with_datap\<close>; after a reservation the last
  chain may not be the one after the data.
\<close>

definition reserve_then_add :: "byte list \<Rightarrow> byte list \<Rightarrow> (int \<times> int \<times> int \<times> evbuffer) option" where
  "reserve_then_add d1 d2 = do {
     (r1, b1) \<leftarrow> evbuffer_add zalloc evbuffer_new d1;
     (r2, vs, b2) \<leftarrow> evbuffer_reserve_space zalloc b1 10 2;
     (r3, b3) \<leftarrow> evbuffer_add zalloc b2 d2;
     Some (r1, r2, r3, b3)
   }"

definition blk :: "byte list \<Rightarrow> nat \<Rightarrow> evbuffer_chain" where
  "blk mem n = \<lparr>ch_buffer = mem, ch_misalign = 0, ch_off = n, ch_flags = 0, ch_cleanup = False\<rparr>"

lemma blk_simps: "CHAIN_SPACE_LEN (blk mem n) = szsub (length mem) n" "\<not> CHAIN_IMMUTABLE (blk mem n)" "\<not> CHAIN_PINNED (blk mem n)"
  "ch_buffer (blk mem n) = mem" "ch_off (blk mem n) = n" "ch_misalign (blk mem n) = 0" "blk mem n\<lparr>ch_misalign := 0\<rparr> = blk mem n"
  "blk mem n\<lparr>ch_buffer := m\<rparr> = blk m n" "blk mem n\<lparr>ch_off := k\<rparr> = blk mem k"
  by (simp_all add: CHAIN_SPACE_LEN_def CHAIN_IMMUTABLE_def CHAIN_PINNED_def blk_def)

lemma zalloc_chain: "sz \<le> 488 \<Longrightarrow> evbuffer_chain_new zalloc sz = Some (blk (replicate 488 0) 0)"
proof -
  assume "sz \<le> 488"
  then have "next_alloc 512 (sz + 24) = 512" by (subst next_alloc.simps) simp
  with \<open>sz \<le> 488\<close> show ?thesis by (simp add: evbuffer_chain_new_def zalloc_def blk_def cfg_defs)
qed

lemma mixed_1: "length d = 488 \<Longrightarrow> evbuffer_add zalloc evbuffer_new d = Some (0, evbuffer_new\<lparr>chains := [blk d 488], total_len := 488\<rparr>)"
  by (simp add: evbuffer_add_def zalloc_chain evbuffer_chain_insert_def evbuffer_add_last_def blk_simps)
     (simp add: blk_def mem_write_def cfg_defs set_last_def added_def evbuffer_invoke_callbacks_def evbuffer_new_def)

lemma mixed_2: "length d = 488 \<Longrightarrow> evbuffer_reserve_space zalloc (evbuffer_new\<lparr>chains := [blk d 488], total_len := 488\<rparr>) 10 2 =
  Some (1, [space_vec 1 (blk (replicate 488 0) 0) 488], evbuffer_new\<lparr>chains := [blk d 488, blk (replicate 488 0) 0], total_len := 488\<rparr>)"
  by (simp add: evbuffer_reserve_space_def evbuffer_expand_fast_def blk_simps zalloc_chain evbuffer_read_setup_vecs_def first_space_def Let_def)
     (simp add: numeral_2_eq_2 blk_simps Let_def)

lemma mixed_3: "0 < length e \<Longrightarrow> length e \<le> 488 \<Longrightarrow> \<exists>mem. evbuffer_add zalloc (evbuffer_new\<lparr>chains := [blk d 488, blk (replicate 488 0) 0], total_len := 488\<rparr>) e =
    Some (0, evbuffer_new\<lparr>chains := [blk d 488, blk mem (length e)], total_len := 488 + length e\<rparr>) \<and> take (length e) mem = e"
  by (simp add: evbuffer_add_def evbuffer_add_last_def blk_simps mem_write_def cfg_defs)
     (simp add: blk_simps set_last_def added_def evbuffer_invoke_callbacks_def evbuffer_new_def Let_def,
      rule exI [of _ "e @ replicate (488 - length e) 0"], simp)

lemma mixed_4: "length d = 488 \<Longrightarrow> k > 0 \<Longrightarrow> evbuffer_read zalloc None rv (evbuffer_new\<lparr>chains := [blk d 488, blk mem k], total_len := n\<rparr>) (-1) = None"
  by (simp add: evbuffer_read_def get_n_bytes_readable_on_socket_def evbuffer_expand_fast_def blk_simps cfg_defs)

text \<open>
  After two reservations of growing size there are two empty chains; \<open>evbuffer_add\<close> fills the second, and the next one that needs a
  new chain fails the assertion of \<open>evbuffer_chain_insert\<close> that nothing after \<open>last_with_datap\<close> holds data. \<^const>\<open>evbuffer_inv\<close>, which
  allows one empty chain at the end, excludes such buffers.
\<close>

definition reserve_twice_then_add :: "byte list \<Rightarrow> byte list \<Rightarrow> (int \<times> int \<times> int \<times> int \<times> evbuffer) option" where
  "reserve_twice_then_add d1 d2 = do {
     (r1, b1) \<leftarrow> evbuffer_add zalloc evbuffer_new d1;
     (r2, vs, b2) \<leftarrow> evbuffer_reserve_space zalloc b1 10 2;
     (r3, ws, b3) \<leftarrow> evbuffer_reserve_space zalloc b2 600 2;
     (r4, b4) \<leftarrow> evbuffer_add zalloc b3 d2;
     Some (r1, r2, r3, r4, b4)
   }"

lemma twice_3: "length d = 488 \<Longrightarrow> \<exists>vs. evbuffer_reserve_space zalloc (evbuffer_new\<lparr>chains := [blk d 488, blk (replicate 488 0) 0], total_len := 488\<rparr>) 600 2 =
  Some (2, vs, evbuffer_new\<lparr>chains := [blk d 488, blk (replicate 488 0) 0, blk (replicate 488 0) 0], total_len := 488\<rparr>)"
  by (simp add: evbuffer_reserve_space_def evbuffer_expand_fast_def blk_simps zalloc_chain evbuffer_read_setup_vecs_def first_space_def Let_def)
     (simp add: numeral_2_eq_2 blk_simps Let_def)

lemma twice_4: "0 < length e \<Longrightarrow> length e \<le> 400 \<Longrightarrow> \<exists>mem. evbuffer_add zalloc (evbuffer_new\<lparr>chains := [blk d 488, blk (replicate 488 0) 0, blk (replicate 488 0) 0], total_len := 488\<rparr>) e =
    Some (0, evbuffer_new\<lparr>chains := [blk d 488, blk (replicate 488 0) 0, blk mem (length e)], total_len := 488 + length e\<rparr>) \<and> length mem = 488"
  by (simp add: evbuffer_add_def evbuffer_add_last_def blk_simps mem_write_def cfg_defs)
     (simp add: blk_simps set_last_def added_def evbuffer_invoke_callbacks_def evbuffer_new_def Let_def,
      rule exI [of _ "e @ replicate (488 - length e) 0"], simp)

lemma twice_5:
  assumes "0 < k" "k \<le> 400" "length mem = 488" "length f = 1000"
  shows "evbuffer_add zalloc (evbuffer_new\<lparr>chains := [blk d 488, blk (replicate 488 0) 0, blk mem k], total_len := 488 + k\<rparr>) f = None"
proof -
  let ?b = "evbuffer_new\<lparr>chains := [blk d 488, blk (replicate 488 0) 0, blk mem k], total_len := 488 + k\<rparr>"
  have na: "next_alloc 512 1024 = 1024" by (subst next_alloc.simps, simp, subst next_alloc.simps, simp)
  have new: "evbuffer_chain_new zalloc 1000 = Some (blk (replicate 1000 0) 0)"
    using na by (simp add: evbuffer_chain_new_def zalloc_def blk_def cfg_defs)
  have "evbuffer_fill_last ?b f (488 - k) =
      Some (added (set_last ?b (blk (take k mem @ take (488 - k) f) 488)) (488 - k))"
    using assms by (simp add: evbuffer_fill_last_def blk_simps mem_write_def Let_def)
  then have "evbuffer_add_grow zalloc ?b f (488 - k) = None"
    using new assms by (simp add: evbuffer_add_grow_def blk_simps mem_write_def cfg_defs Let_def)
      (simp add: evbuffer_chain_insert_def first_victim_def set_last_def added_def evbuffer_new_def blk_simps evbuffer_chains_all_empty_def)
  moreover have "\<not> 1000 \<le> 488 - k" "\<not> 4294966807 - k < 1000" using assms(2) by linarith+
  ultimately show ?thesis
    using assms by (simp add: evbuffer_add_def evbuffer_add_last_def blk_simps cfg_defs evbuffer_chain_should_realign_def Let_def)
qed

theorem evbuffer_add_after_two_reserves_aborts:
  assumes "length d1 = 488" "d2 \<noteq> []" "length d2 \<le> 400" "length d3 = 1000"
  shows "\<exists>b. reserve_twice_then_add d1 d2 = Some (0, 1, 2, 0, b) \<and> \<not> evbuffer_inv b \<and> evbuffer_add zalloc b d3 = None"
proof -
  obtain vs where v: "evbuffer_reserve_space zalloc (evbuffer_new\<lparr>chains := [blk d1 488, blk (replicate 488 0) 0], total_len := 488\<rparr>) 600 2 =
      Some (2, vs, evbuffer_new\<lparr>chains := [blk d1 488, blk (replicate 488 0) 0, blk (replicate 488 0) 0], total_len := 488\<rparr>)"
    using twice_3 [OF assms(1)] by blast
  obtain mem where m: "evbuffer_add zalloc (evbuffer_new\<lparr>chains := [blk d1 488, blk (replicate 488 0) 0, blk (replicate 488 0) 0], total_len := 488\<rparr>) d2 =
      Some (0, evbuffer_new\<lparr>chains := [blk d1 488, blk (replicate 488 0) 0, blk mem (length d2)], total_len := 488 + length d2\<rparr>)" "length mem = 488"
    using twice_4 [of d2 d1] assms(2,3) by auto
  let ?b = "evbuffer_new\<lparr>chains := [blk d1 488, blk (replicate 488 0) 0, blk mem (length d2)], total_len := 488 + length d2\<rparr>"
  have none: "evbuffer_add zalloc ?b d3 = None" using twice_5 m(2) assms by simp
  moreover have "\<not> evbuffer_inv ?b"
  proof
    assume "evbuffer_inv ?b"
    from evbuffer_add_ok [OF zalloc_spec(1) this, of d3] show False using none by (simp add: all_or_nothing_def)
  qed
  moreover have "reserve_twice_then_add d1 d2 = Some (0, 1, 2, 0, ?b)"
    using mixed_1 [OF assms(1)] mixed_2 [OF assms(1)] v m(1) by (simp add: reserve_twice_then_add_def)
  ultimately show ?thesis by blast
qed

text \<open>
  C10. Fill a chain, reserve space, do not commit it, add bytes: every call succeeds and the buffer holds
  the right bytes, but \<open>last_with_datap\<close> is behind, and the next \<open>evbuffer_read\<close> fails an assertion in
  \<open>_evbuffer_expand_fast\<close> whatever the descriptor delivers.
\<close>

theorem evbuffer_add_after_reserve_aborts:
  assumes "length d1 = 488" "d2 \<noteq> []" "length d2 \<le> 488"
  shows "\<exists>b. reserve_then_add d1 d2 = Some (0, 1, 0, b) \<and> evbuffer_inv b \<and> contents b = d1 @ d2 \<and>
     \<not> read_inv b \<and> evbuffer_read zalloc None rv b (-1) = None"
proof -
  obtain mem where m: "evbuffer_add zalloc (evbuffer_new\<lparr>chains := [blk d1 488, blk (replicate 488 0) 0], total_len := 488\<rparr>) d2 =
      Some (0, evbuffer_new\<lparr>chains := [blk d1 488, blk mem (length d2)], total_len := 488 + length d2\<rparr>)"
    "take (length d2) mem = d2"
    using mixed_3 [of d2 d1] assms by auto
  let ?b = "evbuffer_new\<lparr>chains := [blk d1 488, blk mem (length d2)], total_len := 488 + length d2\<rparr>"
  have "reserve_then_add d1 d2 = Some (0, 1, 0, ?b)"
    using mixed_1 [OF assms(1)] mixed_2 [OF assms(1)] m(1) by (simp add: reserve_then_add_def)
  moreover have c: "contents ?b = d1 @ d2"
    using m(2) assms(1) by (simp add: contents_def chain_data_def blk_simps)
  moreover have "evbuffer_inv ?b"
  proof -
    obtain b1 where "evbuffer_inv b1" "b1 = evbuffer_new\<lparr>chains := [blk d1 488, blk (replicate 488 0) 0], total_len := 488\<rparr>"
      using assms(1) by (simp add: evbuffer_inv_def chains_inv_def tail_ok_def chain_ok_def blk_simps cfg_defs)
    then show ?thesis using evbuffer_add_ok [OF zalloc_spec(1), of b1 d2] m(1) by (simp add: all_or_nothing_def)
  qed
  moreover have "\<not> read_inv ?b" using assms by (simp add: read_inv_def blk_simps)
  moreover have "evbuffer_read zalloc None rv ?b (-1) = None" using mixed_4 assms by simp
  ultimately show ?thesis by blast
qed

theorem evbuffer_add_after_reserve_aborts_witness:
  "\<exists>b. reserve_then_add (replicate 488 1) [2] = Some (0, 1, 0, b) \<and> contents b = replicate 488 1 @ [2] \<and>
     evbuffer_read zalloc None (\<lambda>n. Some []) b (-1) = None"
  using evbuffer_add_after_reserve_aborts [of "replicate 488 1" "[2]" "\<lambda>n. Some []"] by auto

end
