(* ===== verification/Evbuffer_Search.thy ===== *)
theory Evbuffer_Search
  imports Evbuffer_Read
begin

text \<open>
  Searching in a buffer: positions (\<open>struct evbuffer_ptr\<close>), \<open>evbuffer_search\<close>, the search for the end
  of a line in its four styles, \<open>evbuffer_readln\<close>, \<open>evbuffer_find\<close> and \<open>evbuffer_peek\<close> of
  \<^verbatim>\<open>buffer.c\<close>, and their agreement with searches in the byte sequence.
\<close>

section \<open>Positions\<close>

text \<open>\<open>pt_chain\<close> is the number of the chain, \<open>None\<close> for NULL.\<close>

record evbuffer_ptr =
  pt_pos :: int
  pt_chain :: "nat option"
  pt_in :: nat

datatype evbuffer_ptr_how = EVBUFFER_PTR_SET | EVBUFFER_PTR_ADD

datatype evbuffer_eol_style = EVBUFFER_EOL_ANY | EVBUFFER_EOL_CRLF | EVBUFFER_EOL_CRLF_STRICT | EVBUFFER_EOL_LF

text \<open>The addition of a \<open>size_t\<close> to an \<open>ev_ssize_t\<close>, converted back.\<close>

definition ssadd :: "int \<Rightarrow> nat \<Rightarrow> int" where
  "ssadd p n = to_int32 (nat ((p + int n) mod 4294967296))"

text \<open>The chains from the one a pointer denotes on.\<close>

definition chains_from :: "evbuffer \<Rightarrow> nat option \<Rightarrow> evbuffer_chain list" where
  "chains_from buf c = (case c of None \<Rightarrow> [] | Some k \<Rightarrow> drop k (chains buf))"

definition chain_no :: "evbuffer_ptr \<Rightarrow> nat" where
  "chain_no it = (case pt_chain it of None \<Rightarrow> 0 | Some k \<Rightarrow> k)"

definition ptr_start :: "evbuffer \<Rightarrow> evbuffer_ptr" where
  "ptr_start buf = \<lparr>pt_pos = 0, pt_chain = (if chains buf = [] then None else Some 0), pt_in = 0\<rparr>"

text \<open>\<open>chain->next\<close>.\<close>

definition next_chain :: "nat \<Rightarrow> evbuffer_chain list \<Rightarrow> nat option" where
  "next_chain k cs = (if cs = [] then None else Some (Suc k))"

section \<open>Searching for a byte\<close>

fun find_idx :: "(byte \<Rightarrow> bool) \<Rightarrow> byte list \<Rightarrow> nat option" where
  "find_idx P [] = None"
| "find_idx P (b # bs) = (if P b then Some 0 else map_option Suc (find_idx P bs))"

definition memchr :: "byte list \<Rightarrow> byte \<Rightarrow> nat option" where
  "memchr bs c = find_idx (\<lambda>b. b = c) bs"

text \<open>Carriage returns and line feeds in chunks of 128 bytes.\<close>

function find_eol_char :: "byte list \<Rightarrow> nat option" where
  "find_eol_char s =
     (if s = [] then None
      else
        let chunk = (if 128 < length s then 128 else length s);
            cr = memchr (take chunk s) 13;
            lf = memchr (take chunk s) 10
        in case cr of
             Some c \<Rightarrow> (case lf of Some l \<Rightarrow> Some (if l < c then l else c) | None \<Rightarrow> Some c)
           | None \<Rightarrow> (case lf of Some l \<Rightarrow> Some l | None \<Rightarrow> map_option (\<lambda>n. n + 128) (find_eol_char (drop 128 s))))"
  by pat_completeness auto
termination
  by (relation "measure length") auto

declare find_eol_char.simps [simp del]

text \<open>
  The loop that \<open>evbuffer_strchr\<close> and \<open>evbuffer_find_eol_char\<close> have in common: look into each chain
  from number \<open>k\<close>, position \<open>i\<close> on. When nothing is found only \<open>pos\<close> of the pointer has moved.
\<close>

fun scan_chains ::
    "(byte list \<Rightarrow> nat option) \<Rightarrow> evbuffer_chain list \<Rightarrow> nat \<Rightarrow> nat \<Rightarrow> evbuffer_ptr \<Rightarrow> (int \<times> evbuffer_ptr) option" where
  "scan_chains look [] k i it = Some (-1, it)"
| "scan_chains look (chain # cs) k i it = do {
     bs \<leftarrow> mem_read (ch_buffer chain) (ch_misalign chain + i) (szsub (ch_off chain) i);
     case look bs of
       Some d \<Rightarrow>
         let it1 = it\<lparr>pt_chain := Some k, pt_in := i + d, pt_pos := ssadd (pt_pos it) d\<rparr>
         in Some (pt_pos it1, it1)
     | None \<Rightarrow> scan_chains look cs (Suc k) 0 (it\<lparr>pt_pos := ssadd (pt_pos it) (szsub (ch_off chain) i)\<rparr>)
   }"

definition evbuffer_strchr :: "evbuffer \<Rightarrow> evbuffer_ptr \<Rightarrow> byte \<Rightarrow> (int \<times> evbuffer_ptr) option" where
  "evbuffer_strchr buf it chr =
     scan_chains (\<lambda>bs. memchr bs chr) (chains_from buf (pt_chain it)) (chain_no it) (pt_in it) it"

definition evbuffer_find_eol_char :: "evbuffer \<Rightarrow> evbuffer_ptr \<Rightarrow> (int \<times> evbuffer_ptr) option" where
  "evbuffer_find_eol_char buf it =
     scan_chains find_eol_char (chains_from buf (pt_chain it)) (chain_no it) (pt_in it) it"

text \<open>
  The bytes from a position on that are in \<open>chrset\<close>, over the chains: their number, and chain and
  position where the count stopped (position 0 of the last chain when there are no more).
\<close>

fun strspn_loop :: "evbuffer_chain list \<Rightarrow> nat \<Rightarrow> nat \<Rightarrow> byte list \<Rightarrow> nat \<Rightarrow> (nat \<times> nat \<times> nat) option" where
  "strspn_loop [] k i chrset count = None"
| "strspn_loop (chain # cs) k i chrset count = do {
     bs \<leftarrow> (if i < ch_off chain then mem_read (ch_buffer chain) (ch_misalign chain + i) (ch_off chain - i) else Some []);
     let m = length (takeWhile (\<lambda>b. b \<in> set chrset) bs);
     if m < length bs then Some (count + m, k, i + m)
     else if cs = [] then Some (count + m, k, 0)
     else strspn_loop cs (Suc k) 0 chrset (count + m)
   }"

definition evbuffer_strspn :: "evbuffer \<Rightarrow> evbuffer_ptr \<Rightarrow> byte list \<Rightarrow> (int \<times> evbuffer_ptr) option" where
  "evbuffer_strspn buf it chrset =
     (if pt_chain it = None then Some (-1, it)
      else do {
        (count, k, i) \<leftarrow> strspn_loop (chains_from buf (pt_chain it)) (chain_no it) (pt_in it) chrset 0;
        Some (int count, it\<lparr>pt_chain := Some k, pt_in := i, pt_pos := ssadd (pt_pos it) count\<rparr>)
      })"

definition evbuffer_getchr :: "evbuffer \<Rightarrow> evbuffer_ptr \<Rightarrow> byte option" where
  "evbuffer_getchr buf it =
     (case chains_from buf (pt_chain it) of
        [] \<Rightarrow> None
      | chain # _ \<Rightarrow> nth_opt (ch_buffer chain) (ch_misalign chain + pt_in it))"

section \<open>Moving a position, comparing, searching a string\<close>

fun ptr_walk :: "evbuffer_chain list \<Rightarrow> nat \<Rightarrow> nat \<Rightarrow> nat \<Rightarrow> (nat \<times> nat) option" where
  "ptr_walk [] k position lft = None"
| "ptr_walk (chain # cs) k position lft =
     (if szadd position lft \<ge> ch_off chain
      then ptr_walk cs (Suc k) 0 (szsub lft (szsub (ch_off chain) position))
      else Some (k, szadd position lft))"

definition ptr_land :: "evbuffer_ptr \<Rightarrow> (nat \<times> nat) option \<Rightarrow> int \<times> evbuffer_ptr" where
  "ptr_land it r =
     (case r of
        Some (k, i) \<Rightarrow> (0, it\<lparr>pt_chain := Some k, pt_in := i\<rparr>)
      | None \<Rightarrow> (-1, it\<lparr>pt_chain := None, pt_pos := -1\<rparr>))"

definition evbuffer_ptr_set ::
    "evbuffer \<Rightarrow> evbuffer_ptr \<Rightarrow> nat \<Rightarrow> evbuffer_ptr_how \<Rightarrow> (int \<times> evbuffer_ptr) option" where
  "evbuffer_ptr_set buf it position how =
     (case how of
        EVBUFFER_PTR_SET \<Rightarrow>
          Some (ptr_land (it\<lparr>pt_pos := to_int32 position\<rparr>) (ptr_walk (chains buf) 0 0 position))
      | EVBUFFER_PTR_ADD \<Rightarrow>
          if pt_pos it < 0 \<or> int (EV_SIZE_MAX - position) < pt_pos it then Some (-1, it)
          else do {
            ev_assert (EV_SIZE_MAX - position \<ge> pt_in it);
            Some (ptr_land (it\<lparr>pt_pos := ssadd (pt_pos it) position\<rparr>)
                    (ptr_walk (chains_from buf (pt_chain it)) (chain_no it) (pt_in it) position))
          })"

text \<open>\<open>memcmp\<close> of two blocks of equal length; only the sign of its value is specified.\<close>

fun memcmp :: "byte list \<Rightarrow> byte list \<Rightarrow> int" where
  "memcmp (a # as) (b # bs) = (if a = b then memcmp as bs else if a < b then -1 else 1)"
| "memcmp _ _ = 0"

fun memcmp_loop :: "evbuffer_chain list \<Rightarrow> nat \<Rightarrow> byte list \<Rightarrow> int option" where
  "memcmp_loop [] position mem = Some 0"
| "memcmp_loop (chain # cs) position mem =
     (if mem = [] then Some 0
      else
        let n = (if szadd (length mem) position > ch_off chain then szsub (ch_off chain) position else length mem) in do {
          bs \<leftarrow> mem_read (ch_buffer chain) (ch_misalign chain + position) n;
          ev_assert (n \<le> length mem);
          let r = memcmp bs (take n mem);
          if r \<noteq> 0 then Some r else memcmp_loop cs 0 (drop n mem)
        })"

definition evbuffer_ptr_memcmp :: "evbuffer \<Rightarrow> evbuffer_ptr \<Rightarrow> byte list \<Rightarrow> int option" where
  "evbuffer_ptr_memcmp buf it mem =
     (let len = length mem in
      if pt_pos it < 0 \<or> int (EV_SIZE_MAX - len) < pt_pos it \<or> nat (pt_pos it) + len > total_len buf then Some (-1)
      else memcmp_loop (chains_from buf (pt_chain it)) (pt_in it) mem)"

definition ptr_not_found :: "evbuffer_ptr \<Rightarrow> evbuffer_ptr" where
  "ptr_not_found it = it\<lparr>pt_pos := -1, pt_chain := None\<rparr>"

text \<open>
  The loop of \<open>evbuffer_search_range\<close>: the chains from number \<open>k\<close> on. \<open>en\<close> is the end position, if any.
\<close>

function (sequential) search_loop ::
    "evbuffer \<Rightarrow> byte list \<Rightarrow> evbuffer_ptr option \<Rightarrow> evbuffer_chain list \<Rightarrow> nat \<Rightarrow> evbuffer_ptr \<Rightarrow> evbuffer_ptr option" where
  "search_loop buf what en [] k it = Some (ptr_not_found it)"
| "search_loop buf what en (chain # cs) k it =
     (if pt_in it > ch_off chain then None
      else do {
        bs \<leftarrow> mem_read (ch_buffer chain) (ch_misalign chain + pt_in it) (ch_off chain - pt_in it);
        case memchr bs (hd what) of
          Some d \<Rightarrow>
            let it1 = it\<lparr>pt_pos := ssadd (pt_pos it) d, pt_in := pt_in it + d\<rparr> in do {
              r \<leftarrow> evbuffer_ptr_memcmp buf it1 what;
              if r = 0 then
                Some (case en of
                        Some e \<Rightarrow> if ssadd (pt_pos it1) (length what) > pt_pos e then ptr_not_found it1 else it1
                      | None \<Rightarrow> it1)
              else
                let it2 = it1\<lparr>pt_pos := ssadd (pt_pos it1) 1, pt_in := pt_in it1 + 1\<rparr> in
                if pt_in it2 = ch_off chain
                then search_loop buf what en cs (Suc k) (it2\<lparr>pt_chain := next_chain k cs, pt_in := 0\<rparr>)
                else if pt_in it2 > ch_off chain then None  \<comment> \<open>not reached\<close>
                else search_loop buf what en (chain # cs) k it2
            }
        | None \<Rightarrow>
            if (case en of Some e \<Rightarrow> pt_chain e = Some k | None \<Rightarrow> False) then Some (ptr_not_found it)
            else search_loop buf what en cs (Suc k)
                   (it\<lparr>pt_pos := ssadd (pt_pos it) (ch_off chain - pt_in it), pt_chain := next_chain k cs, pt_in := 0\<rparr>)
      })"
  by pat_completeness auto
termination
  by (relation "measures [\<lambda>(buf, what, en, cs, k, it). length cs,
        \<lambda>(buf, what, en, cs, k, it). case cs of [] \<Rightarrow> 0 | c # _ \<Rightarrow> ch_off c - pt_in it]") auto

declare search_loop.simps [simp del]

definition evbuffer_search_range ::
    "evbuffer \<Rightarrow> byte list \<Rightarrow> evbuffer_ptr option \<Rightarrow> evbuffer_ptr option \<Rightarrow> evbuffer_ptr option" where
  "evbuffer_search_range buf what start en =
     (let it = (case start of Some p \<Rightarrow> p | None \<Rightarrow> ptr_start buf) in
      if what = [] \<or> length what > EV_SSIZE_MAX then Some it
      else search_loop buf what en (chains_from buf (pt_chain it)) (chain_no it) it)"

definition evbuffer_search :: "evbuffer \<Rightarrow> byte list \<Rightarrow> evbuffer_ptr option \<Rightarrow> evbuffer_ptr option" where
  "evbuffer_search buf what start = evbuffer_search_range buf what start None"

section \<open>Lines\<close>

text \<open>
  The search for a line end in style \<open>EVBUFFER_EOL_CRLF\<close>: a line feed, or a carriage return followed by
  one; other carriage returns are skipped. The loop is a partial function, its termination a theorem.
  The result: whether it was found, where, and how many bytes end the line.
\<close>

partial_function (option) eol_crlf_loop :: "evbuffer \<Rightarrow> evbuffer_ptr \<Rightarrow> (bool \<times> evbuffer_ptr \<times> nat) option" where
  "eol_crlf_loop buf it = do {
     (r, it1) \<leftarrow> evbuffer_find_eol_char buf it;
     if r < 0 then Some (False, it1, 0)
     else do {
       c \<leftarrow> evbuffer_getchr buf it1;
       if c = 10 then Some (True, it1, 1)
       else do {
         m \<leftarrow> evbuffer_ptr_memcmp buf it1 [13, 10];
         if m = 0 then Some (True, it1, 2)
         else do {
           (r2, it2) \<leftarrow> evbuffer_ptr_set buf it1 1 EVBUFFER_PTR_ADD;
           if r2 < 0 then Some (False, it2, 0) else eol_crlf_loop buf it2
         }
       }
     }
   }"

definition eol_find ::
    "evbuffer \<Rightarrow> evbuffer_ptr \<Rightarrow> evbuffer_eol_style \<Rightarrow> (bool \<times> evbuffer_ptr \<times> nat) option" where
  "eol_find buf it style =
     (case style of
        EVBUFFER_EOL_ANY \<Rightarrow> do {
          (r, it1) \<leftarrow> evbuffer_find_eol_char buf it;
          if r < 0 then Some (False, it1, 0)
          else do {
            (n, it2) \<leftarrow> evbuffer_strspn buf it1 [13, 10];
            Some (True, it1, nat (n mod 4294967296))
          }
        }
      | EVBUFFER_EOL_CRLF_STRICT \<Rightarrow> do {
          it1 \<leftarrow> evbuffer_search buf [13, 10] (Some it);
          Some (if pt_pos it1 < 0 then (False, it1, 0) else (True, it1, 2))
        }
      | EVBUFFER_EOL_CRLF \<Rightarrow> eol_crlf_loop buf it
      | EVBUFFER_EOL_LF \<Rightarrow> do {
          (r, it1) \<leftarrow> evbuffer_strchr buf it 10;
          Some (if r < 0 then (False, it1, 0) else (True, it1, 1))
        })"

text \<open>The position and \<open>*eol_len_out\<close>.\<close>

definition evbuffer_search_eol ::
    "evbuffer \<Rightarrow> evbuffer_ptr option \<Rightarrow> evbuffer_eol_style \<Rightarrow> (evbuffer_ptr \<times> nat) option" where
  "evbuffer_search_eol buf start style = do {
     (ok, it, extra_drain) \<leftarrow> eol_find buf (case start of Some p \<Rightarrow> p | None \<Rightarrow> ptr_start buf) style;
     Some (if ok then it else it\<lparr>pt_pos := -1\<rparr>, extra_drain)
   }"

text \<open>The line without its terminating zero (\<open>None\<close>: NULL), \<open>*n_read_out\<close>, the buffer.\<close>

definition evbuffer_readln ::
    "malloc \<Rightarrow> evbuffer \<Rightarrow> evbuffer_eol_style \<Rightarrow> (byte list option \<times> nat \<times> evbuffer) option" where
  "evbuffer_readln mal buf style =
     (if freeze_start buf then Some (None, 0, buf)
      else do {
        (it, extra_drain) \<leftarrow> evbuffer_search_eol buf None style;
        if pt_pos it < 0 then Some (None, 0, buf)
        else
          let n_to_copy = nat (pt_pos it) in
          case mal (szadd n_to_copy 1) of
            None \<Rightarrow> Some (None, 0, buf)
          | Some mem \<Rightarrow> do {
              (n, out, buf1) \<leftarrow> evbuffer_remove buf n_to_copy;
              mem1 \<leftarrow> mem_write mem 0 out;
              mem2 \<leftarrow> upd_opt mem1 n_to_copy 0;
              (r, buf2) \<leftarrow> evbuffer_drain buf1 extra_drain;
              Some (Some (take n_to_copy mem2), n_to_copy, buf2)
            }
      })"

definition evbuffer_readline :: "malloc \<Rightarrow> evbuffer \<Rightarrow> (byte list option \<times> evbuffer) option" where
  "evbuffer_readline mal buf = do {
     (line, n, buf1) \<leftarrow> evbuffer_readln mal buf EVBUFFER_EOL_ANY;
     Some (line, buf1)
   }"

section \<open>Finding and peeking\<close>

text \<open>The memory from the place found on (\<open>None\<close>: NULL).\<close>

definition evbuffer_find :: "malloc \<Rightarrow> evbuffer \<Rightarrow> byte list \<Rightarrow> (byte list option \<times> evbuffer) option" where
  "evbuffer_find mal buf what = do {
     it \<leftarrow> evbuffer_search buf what None;
     if pt_pos it < 0 then Some (None, buf)
     else do {
       (search, buf1) \<leftarrow> evbuffer_pullup mal buf (ssadd (pt_pos it) (length what));
       Some (map_option (drop (nat (pt_pos it))) search, buf1)
     }
   }"

text \<open>The loop of \<open>evbuffer_peek\<close>: \<open>idx\<close>, and the vectors filled in.\<close>

fun peek_loop ::
    "evbuffer_chain list \<Rightarrow> nat \<Rightarrow> int \<Rightarrow> int \<Rightarrow> int \<Rightarrow> int \<Rightarrow> int \<times> evbuffer_iovec list" where
  "peek_loop [] k idx n_vec len so_far = (idx, [])"
| "peek_loop (chain # cs) k idx n_vec len so_far =
     (if len \<ge> 0 \<and> so_far \<ge> len then (idx, [])
      else if idx < n_vec then
        (let (r, vs) = peek_loop cs (Suc k) (idx + 1) n_vec len (ssadd so_far (ch_off chain))
         in (r, \<lparr>iov_chain = k, iov_pos = ch_misalign chain, iov_len = ch_off chain\<rparr> # vs))
      else if len < 0 then (idx, [])
      else peek_loop cs (Suc k) (idx + 1) n_vec len (ssadd so_far (ch_off chain)))"

definition evbuffer_peek ::
    "evbuffer \<Rightarrow> int \<Rightarrow> evbuffer_ptr option \<Rightarrow> int \<Rightarrow> (int \<times> evbuffer_iovec list) option" where
  "evbuffer_peek buf len0 start_at n_vec =
     (let len = (if n_vec = 0 \<and> len0 < 0
                 then (case start_at of
                         None \<Rightarrow> to_int32 (total_len buf)
                       | Some p \<Rightarrow> to_int32 (nat ((int (total_len buf) - pt_pos p) mod 4294967296)))
                 else len0)
      in case start_at of
           None \<Rightarrow> Some (peek_loop (chains buf) 0 0 n_vec len 0)
         | Some p \<Rightarrow>
             (case chains_from buf (pt_chain p) of
                [] \<Rightarrow> None
              | chain # cs \<Rightarrow>
                  let so_far = to_int32 (szsub (ch_off chain) (pt_in p));
                      v = (if n_vec > 0
                           then [\<lparr>iov_chain = chain_no p, iov_pos = ch_misalign chain + pt_in p,
                                  iov_len = szsub (ch_off chain) (pt_in p)\<rparr>] else []);
                      (r, vs) = peek_loop cs (Suc (chain_no p)) 1 n_vec len so_far
                  in Some (r, v @ vs)))"

section \<open>Reference definitions on byte sequences\<close>

fun find_sub :: "byte list \<Rightarrow> byte list \<Rightarrow> nat option" where
  "find_sub w [] = None"
| "find_sub w (b # bs) = (if take (length w) (b # bs) = w then Some 0 else map_option Suc (find_sub w bs))"

text \<open>The length of the line end that starts a byte sequence, if one does.\<close>

definition eol_len :: "evbuffer_eol_style \<Rightarrow> byte list \<Rightarrow> nat option" where
  "eol_len style bs =
     (case style of
        EVBUFFER_EOL_LF \<Rightarrow> if take 1 bs = [10] then Some 1 else None
      | EVBUFFER_EOL_CRLF_STRICT \<Rightarrow> if take 2 bs = [13, 10] then Some 2 else None
      | EVBUFFER_EOL_CRLF \<Rightarrow> if take 1 bs = [10] then Some 1 else if take 2 bs = [13, 10] then Some 2 else None
      | EVBUFFER_EOL_ANY \<Rightarrow>
          if takeWhile (\<lambda>b. b \<in> {13, 10}) bs = [] then None else Some (length (takeWhile (\<lambda>b. b \<in> {13, 10}) bs)))"

text \<open>The first line end of a byte sequence: where it is and how long.\<close>

fun find_eol :: "evbuffer_eol_style \<Rightarrow> byte list \<Rightarrow> (nat \<times> nat) option" where
  "find_eol style [] = None"
| "find_eol style (b # bs) =
     (case eol_len style (b # bs) of
        Some n \<Rightarrow> Some (0, n)
      | None \<Rightarrow> map_option (\<lambda>(i, n). (Suc i, n)) (find_eol style bs))"

section \<open>The byte searches\<close>

lemma find_idx_append:
  "find_idx P (xs @ ys) = (case find_idx P xs of Some d \<Rightarrow> Some d | None \<Rightarrow> map_option (\<lambda>n. n + length xs) (find_idx P ys))"
  by (induction xs) (auto split: option.splits simp: option.map_comp comp_def map_option_case)

lemma find_idx_None: "find_idx P xs = None \<longleftrightarrow> (\<forall>x \<in> set xs. \<not> P x)"
  by (induction xs) auto

lemma find_idx_Some:
  "find_idx P xs = Some d \<longleftrightarrow> d < length xs \<and> P (xs ! d) \<and> (\<forall>e < d. \<not> P (xs ! e))"
proof (induction xs arbitrary: d)
  case (Cons x xs)
  then show ?case by (cases d) (auto simp: nth_Cons less_Suc_eq_0_disj split: nat.splits)
qed simp

lemma find_idx_disj:
  "find_idx (\<lambda>b. P b \<or> Q b) xs =
     (case find_idx P xs of
        Some c \<Rightarrow> (case find_idx Q xs of Some l \<Rightarrow> Some (if l < c then l else c) | None \<Rightarrow> Some c)
      | None \<Rightarrow> find_idx Q xs)"
  by (induction xs) (auto split: option.splits)

lemma find_eol_char_bytes: "find_eol_char s = find_idx (\<lambda>b. b = 13 \<or> b = 10) s"
proof (induction s rule: find_eol_char.induct)
  case (1 s)
  show ?case
  proof (cases "s = []")
    case True
    then show ?thesis by (subst find_eol_char.simps) simp
  next
    case False
    define c where "c = (if 128 < length s then 128 else length s)"
    have d: "drop c s = drop 128 s" "length (take c s) = c" "drop 128 s \<noteq> [] \<Longrightarrow> c = 128" by (auto simp: c_def)
    have IH: "memchr (take c s) 13 = None \<Longrightarrow> memchr (take c s) 10 = None \<Longrightarrow>
        find_eol_char (drop 128 s) = find_idx (\<lambda>b. b = 13 \<or> b = 10) (drop 128 s)"
      using 1 False by (simp add: c_def)
    have s: "find_idx (\<lambda>b. b = 13 \<or> b = 10) s =
       (case find_idx (\<lambda>b. b = 13 \<or> b = 10) (take c s) of Some d \<Rightarrow> Some d
        | None \<Rightarrow> map_option (\<lambda>n. n + c) (find_idx (\<lambda>b. b = 13 \<or> b = 10) (drop 128 s)))"
      using find_idx_append [of _ "take c s" "drop c s", unfolded append_take_drop_id d(2)] unfolding d(1) .
    have t: "map_option (\<lambda>n. n + c) (find_idx P (drop 128 s)) = map_option (\<lambda>n. n + 128) (find_idx P (drop 128 s))" for P
      using d(3) by (cases "drop 128 s") auto
    have m: "find_idx (\<lambda>b. b = 13 \<or> b = 10) (take c s) =
       (case memchr (take c s) 13 of
          Some c' \<Rightarrow> (case memchr (take c s) 10 of Some l \<Rightarrow> Some (if l < c' then l else c') | None \<Rightarrow> Some c')
        | None \<Rightarrow> memchr (take c s) 10)"
      unfolding memchr_def by (rule find_idx_disj)
    show ?thesis
      unfolding s t m using False IH
      by (subst find_eol_char.simps) (auto simp: Let_def c_def [symmetric] split: option.splits)
  qed
qed

text \<open>
  A position denotes byte \<open>p\<close>: the chain and the position in it where that byte is. A place, more
  generally, may also be the end of a chain.
\<close>

definition at_byte :: "evbuffer_chain list \<Rightarrow> nat \<Rightarrow> nat \<Rightarrow> nat \<Rightarrow> bool" where
  "at_byte cs k i p \<longleftrightarrow> k < length cs \<and> i < ch_off (cs ! k) \<and> p = sum_list (map ch_off (take k cs)) + i"

definition ptr_at :: "evbuffer \<Rightarrow> evbuffer_ptr \<Rightarrow> nat \<Rightarrow> bool" where
  "ptr_at buf it p \<longleftrightarrow> pt_pos it = int p \<and> (\<exists>k. pt_chain it = Some k \<and> at_byte (chains buf) k (pt_in it) p)"

definition place :: "evbuffer_chain list \<Rightarrow> nat \<Rightarrow> bool" where
  "place cs i \<longleftrightarrow> (case cs of [] \<Rightarrow> i = 0 | c # _ \<Rightarrow> i \<le> ch_off c)"

definition ptr_ok :: "evbuffer \<Rightarrow> evbuffer_ptr \<Rightarrow> nat \<Rightarrow> bool" where
  "ptr_ok buf it p \<longleftrightarrow> pt_pos it = int p \<and>
     (\<exists>pre cs. chains buf = pre @ cs \<and> p = sum_list (map ch_off pre) + pt_in it \<and> place cs (pt_in it) \<and>
        pt_chain it = (if cs = [] then None else Some (length pre)))"

definition search_ok :: "evbuffer \<Rightarrow> bool" where
  "search_ok buf \<longleftrightarrow> list_all chain_ok (chains buf) \<and> total_len buf = sum_list (map ch_off (chains buf)) \<and>
     total_len buf \<le> EV_SSIZE_MAX"

lemma search_okI: "evbuffer_inv buf \<Longrightarrow> total_len buf \<le> EV_SSIZE_MAX \<Longrightarrow> search_ok buf"
  by (simp add: search_ok_def evbuffer_inv_def chains_inv_def)

lemma search_ok_length: "search_ok buf \<Longrightarrow> length (contents buf) = total_len buf"
  by (simp add: search_ok_def contents_def length_concat_data)

lemma ptr_start_ok: "ptr_ok buf (ptr_start buf) 0"
proof -
  have "place (chains buf) 0" by (cases "chains buf") (simp_all add: place_def)
  then show ?thesis unfolding ptr_ok_def ptr_start_def by (intro conjI exI [of _ "[]"] exI [of _ "chains buf"]) auto
qed

lemma ssadd_small [simp]: "0 \<le> p \<Longrightarrow> p + int n \<le> 2147483647 \<Longrightarrow> ssadd p n = p + int n"
  by (simp add: ssadd_def)

lemma ptr_at_ok: "ptr_at buf it p \<Longrightarrow> ptr_ok buf it p"
proof -
  assume "ptr_at buf it p"
  then obtain k where k: "pt_pos it = int p" "pt_chain it = Some k" "k < length (chains buf)"
    "pt_in it < ch_off (chains buf ! k)" "p = sum_list (map ch_off (take k (chains buf))) + pt_in it"
    by (auto simp: ptr_at_def at_byte_def)
  then have "place (drop k (chains buf)) (pt_in it)" by (simp add: place_def Cons_nth_drop_Suc [symmetric])
  with k show ?thesis unfolding ptr_ok_def
    by (intro conjI exI [of _ "take k (chains buf)"] exI [of _ "drop k (chains buf)"]) auto
qed

text \<open>What the chains from a place on hold.\<close>

lemma drop_chain:
  "chain_ok c \<Longrightarrow> i \<le> ch_off c \<Longrightarrow>
   drop i (concat (map chain_data (c # cs))) = drop i (chain_data c) @ concat (map chain_data cs)"
  by simp

lemma read_chain:
  "chain_ok c \<Longrightarrow> i \<le> ch_off c \<Longrightarrow>
   mem_read (ch_buffer c) (ch_misalign c + i) (ch_off c - i) = Some (drop i (chain_data c))"
  by (simp add: mem_read_def chain_ok_def chain_data_def drop_take add.commute)

lemma szsub_off: "chain_ok c \<Longrightarrow> i \<le> ch_off c \<Longrightarrow> szsub (ch_off c) i = ch_off c - i"
  by (simp add: chain_ok_def cfg_defs)

lemma at_byte_app: "i < ch_off c \<Longrightarrow> at_byte (pre @ c # cs) (length pre) i (sum_list (map ch_off pre) + i)"
  by (simp add: at_byte_def)

lemma scan_chains_ok:
  assumes look: "\<And>bs. look bs = find_idx P bs"
  shows "list_all chain_ok cs \<Longrightarrow> sum_list (map ch_off (pre @ cs)) \<le> 2147483647 \<Longrightarrow> place cs i \<Longrightarrow>
   pt_pos it = int (sum_list (map ch_off pre) + i) \<Longrightarrow>
   case find_idx P (drop i (concat (map chain_data cs))) of
     None \<Rightarrow> \<exists>it'. scan_chains look cs (length pre) i it = Some (-1, it')
   | Some d \<Rightarrow> \<exists>it'. let p = sum_list (map ch_off pre) + i + d in
       scan_chains look cs (length pre) i it = Some (int p, it') \<and> pt_pos it' = int p \<and>
       (\<exists>k. pt_chain it' = Some k \<and> at_byte (pre @ cs) k (pt_in it') p)"
proof (induction cs arbitrary: pre i it)
  case Nil
  then show ?case by simp
next
  case (Cons c cs)
  let ?base = "sum_list (map ch_off pre)"
  have c: "chain_ok c" "i \<le> ch_off c" "list_all chain_ok cs" using Cons.prems by (auto simp: place_def)
  note rd = read_chain [OF c(1,2)] szsub_off [OF c(1,2)]
  show ?case
  proof (cases "find_idx P (drop i (chain_data c))")
    case (Some d)
    then have d: "d < ch_off c - i" using c(1) by (simp add: find_idx_Some)
    have "ssadd (int (?base + i)) d = int (?base + i + d)" using d c(2) Cons.prems(2) by simp
    then show ?thesis
      using Some rd d at_byte_app [of "i + d" c pre cs] Cons.prems(4) unfolding drop_chain [OF c(1,2)] find_idx_append
      by (simp add: look Let_def add.assoc)
  next
    case None
    let ?it = "it\<lparr>pt_pos := ssadd (pt_pos it) (ch_off c - i)\<rparr>"
    have eq: "scan_chains look (c # cs) (length pre) i it = scan_chains look cs (length (pre @ [c])) 0 ?it"
      using rd None by (simp add: look)
    have pos: "pt_pos ?it = int (sum_list (map ch_off (pre @ [c])) + 0)"
      using Cons.prems(2,4) c(2) by simp
    have "place cs 0" by (cases cs) (simp_all add: place_def)
    note IH = Cons.IH [of "pre @ [c]" 0 ?it, OF c(3) _ this pos]
    have len: "length (drop i (chain_data c)) = ch_off c - i" using c(1) by simp
    show ?thesis
      unfolding eq drop_chain [OF c(1,2)] find_idx_append None option.case len
      using IH Cons.prems(2) c(2) by (cases "find_idx P (concat (map chain_data cs))") (simp_all add: Let_def add_ac)
  qed
qed

text \<open>A place in a buffer, unfolded for the loops.\<close>

lemma ptr_okE:
  assumes ok: "search_ok buf" and p: "ptr_ok buf it p"
  obtains pre cs where "chains buf = pre @ cs" "chains_from buf (pt_chain it) = cs" "place cs (pt_in it)"
    "cs \<noteq> [] \<longrightarrow> chain_no it = length pre" "p = sum_list (map ch_off pre) + pt_in it" "pt_pos it = int p"
    "list_all chain_ok cs" "sum_list (map ch_off (pre @ cs)) \<le> 2147483647" "p \<le> total_len buf"
    "drop p (contents buf) = drop (pt_in it) (concat (map chain_data cs))"
    "pt_chain it = (if cs = [] then None else Some (length pre))"
proof -
  obtain pre cs where cs: "chains buf = pre @ cs" "p = sum_list (map ch_off pre) + pt_in it" "place cs (pt_in it)"
    "pt_chain it = (if cs = [] then None else Some (length pre))" "pt_pos it = int p"
    using p by (auto simp: ptr_ok_def)
  have ok': "list_all chain_ok pre" "list_all chain_ok cs" "sum_list (map ch_off (pre @ cs)) \<le> 2147483647"
    using ok cs(1) by (auto simp: search_ok_def cfg_defs)
  have "length (concat (map chain_data pre)) = sum_list (map ch_off pre)" by (rule length_concat_data [OF ok'(1)])
  then have "drop p (contents buf) = drop (pt_in it) (concat (map chain_data cs))"
    by (simp add: contents_def cs(1,2) del: length_concat)
  moreover have "p \<le> total_len buf" using ok cs(1-3) by (cases cs) (auto simp: search_ok_def place_def)
  moreover have "chains_from buf (pt_chain it) = cs" using cs(1,4) by (simp add: chains_from_def)
  moreover have "cs \<noteq> [] \<longrightarrow> chain_no it = length pre" using cs(4) by (simp add: chain_no_def)
  ultimately show ?thesis using cs ok' by (intro that [of pre cs])
qed

lemma scan_chains_empty [simp]: "cs = [] \<Longrightarrow> scan_chains look cs k i it = Some (-1, it)"
  by simp

lemma scan_buf_ok:
  assumes look: "\<And>bs. look bs = find_idx P bs" and ok: "search_ok buf" and p: "ptr_ok buf it p"
  shows "case find_idx P (drop p (contents buf)) of
     None \<Rightarrow> \<exists>it'. scan_chains look (chains_from buf (pt_chain it)) (chain_no it) (pt_in it) it = Some (-1, it')
   | Some d \<Rightarrow> \<exists>it'. scan_chains look (chains_from buf (pt_chain it)) (chain_no it) (pt_in it) it = Some (int (p + d), it') \<and>
       ptr_at buf it' (p + d)"
proof (rule ptr_okE [OF ok p], goal_cases)
  case (1 pre cs)
  show ?case
  proof (cases "cs = []")
    case True
    then show ?thesis using 1 by simp
  next
    case False
    with 1 have "chain_no it = length pre" by simp
    then show ?thesis
      using scan_chains_ok [OF look 1(7,8,3), of it] 1
      by (auto simp: ptr_at_def Let_def split: option.splits)
  qed
qed

lemmas evbuffer_strchr_ok = scan_buf_ok [of "\<lambda>bs. memchr bs c" "\<lambda>b. b = c" for c, OF memchr_def, folded evbuffer_strchr_def]
lemmas evbuffer_find_eol_char_ok =
  scan_buf_ok [of find_eol_char "\<lambda>b. b = 13 \<or> b = 10", OF find_eol_char_bytes, folded evbuffer_find_eol_char_def]

lemma takeWhile_append_all:
  "takeWhile P (xs @ ys) = (if length (takeWhile P xs) < length xs then takeWhile P xs else xs @ takeWhile P ys)"
  by (induction xs) auto

lemma strspn_loop_ok:
  "list_all chain_ok cs \<Longrightarrow> cs \<noteq> [] \<Longrightarrow> place cs i \<Longrightarrow>
   \<exists>k' i'. strspn_loop cs k i chrset count =
     Some (count + length (takeWhile (\<lambda>b. b \<in> set chrset) (drop i (concat (map chain_data cs)))), k', i')"
proof (induction cs arbitrary: k i count)
  case (Cons c cs)
  then have c: "chain_ok c" "i \<le> ch_off c" "list_all chain_ok cs" "place cs 0"
    by (auto simp: place_def split: list.splits)
  let ?P = "\<lambda>b. b \<in> set chrset" and ?bs = "drop i (chain_data c)"
  have rd: "(if i < ch_off c then mem_read (ch_buffer c) (ch_misalign c + i) (ch_off c - i) else Some []) = Some ?bs"
    using read_chain [OF c(1,2)] c(1) by simp
  have tw: "takeWhile ?P (?bs @ xs) = (if length (takeWhile ?P ?bs) < length ?bs then takeWhile ?P ?bs else ?bs @ takeWhile ?P xs)" for xs
    by (rule takeWhile_append_all)
  show ?case
  proof (cases "length (takeWhile ?P ?bs) < length ?bs \<or> cs = []")
    case True
    then show ?thesis using rd tw [of "concat (map chain_data cs)"] c(1) length_takeWhile_le [of ?P ?bs]
      unfolding drop_chain [OF c(1,2)] by (auto simp: Let_def)
  next
    case False
    then have m: "length (takeWhile ?P ?bs) = length ?bs" using length_takeWhile_le [of ?P ?bs] by linarith
    from False obtain k' i' where "strspn_loop cs (Suc k) 0 chrset (count + length ?bs) =
        Some (count + length ?bs + length (takeWhile ?P (concat (map chain_data cs))), k', i')"
      using Cons.IH [OF c(3) _ c(4), of "Suc k" "count + length ?bs"] by auto
    then show ?thesis using rd False m tw [of "concat (map chain_data cs)"]
      unfolding drop_chain [OF c(1,2)] by (auto simp: Let_def add.assoc)
  qed
qed simp

lemma evbuffer_strspn_ok:
  assumes ok: "search_ok buf" and p: "ptr_at buf it p"
  shows "\<exists>it'. evbuffer_strspn buf it chrset = Some (int (length (takeWhile (\<lambda>b. b \<in> set chrset) (drop p (contents buf)))), it')"
proof (rule ptr_okE [OF ok ptr_at_ok [OF p]], goal_cases)
  case (1 pre cs)
  have "cs \<noteq> []" using 1(11) p by (auto simp: ptr_at_def)
  with strspn_loop_ok [OF 1(7) this 1(3), of "chain_no it" chrset 0] show ?case
    using 1(2,10,11) by (auto simp: evbuffer_strspn_def)
qed

section \<open>Comparing, moving, searching a string\<close>

lemma memcmp_0: "length xs = length ys \<Longrightarrow> memcmp xs ys = 0 \<longleftrightarrow> xs = ys"
  by (induction xs ys rule: memcmp.induct) auto

lemma memcmp_loop_ok:
  "list_all chain_ok cs \<Longrightarrow> place cs i \<Longrightarrow> length mem \<le> EV_SSIZE_MAX \<Longrightarrow>
   length mem \<le> length (drop i (concat (map chain_data cs))) \<Longrightarrow>
   \<exists>r. memcmp_loop cs i mem = Some r \<and> (r = 0 \<longleftrightarrow> take (length mem) (drop i (concat (map chain_data cs))) = mem)"
proof (induction cs arbitrary: i mem)
  case Nil
  then show ?case by simp
next
  case (Cons c cs)
  then have c: "chain_ok c" "i \<le> ch_off c" "list_all chain_ok cs" "place cs 0"
    by (auto simp: place_def split: list.splits)
  have off: "ch_off c \<le> 2147483623" using c(1) by (simp add: chain_ok_def cfg_defs)
  define n where "n = (if length mem + i > ch_off c then ch_off c - i else length mem)"
  have n: "(if szadd (length mem) i > ch_off c then szsub (ch_off c) i else length mem) = n"
    using Cons.prems(3) c(2) off by (simp add: n_def cfg_defs szsub_off [OF c(1,2)])
  have nle: "n \<le> length mem" "n \<le> ch_off c - i" using c(2) by (auto simp: n_def)
  let ?d = "drop i (chain_data c)" and ?R = "concat (map chain_data cs)"
  have rd: "mem_read (ch_buffer c) (ch_misalign c + i) n = Some (take n ?d)"
  proof -
    have "ch_misalign c + ch_off c \<le> ch_buffer_len c" using c(1) by (simp add: chain_ok_def)
    then have "ch_misalign c + i + n \<le> ch_buffer_len c" using c(2) nle(2) by linarith
    then show ?thesis using nle(2) by (simp add: mem_read_def chain_data_def drop_take add.commute min_def)
  qed
  have len: "length ?d = ch_off c - i" using c(1) by simp
  have cmp: "memcmp (take n ?d) (take n mem) = 0 \<longleftrightarrow> take n ?d = take n mem"
    using nle len by (intro memcmp_0) simp
  have rest: "length (drop n mem) \<le> length (drop 0 ?R)"
    using Cons.prems(4) len nle unfolding drop_chain [OF c(1,2)] by (auto simp: n_def)
  have tk: "take (length mem) (?d @ ?R) = take n ?d @ take (length (drop n mem)) ?R"
    using len nle c(2) by (auto simp: n_def)
  have split: "take n ?d @ ys = mem \<longleftrightarrow> take n ?d = take n mem \<and> ys = drop n mem" for ys
    using append_eq_conv_conj [of "take n ?d" ys mem] nle len by auto
  obtain r where r: "memcmp_loop cs 0 (drop n mem) = Some r" "r = 0 \<longleftrightarrow> take (length (drop n mem)) ?R = drop n mem"
  proof -
    have "length (drop n mem) \<le> EV_SSIZE_MAX" using Cons.prems(3) by simp
    from Cons.IH [OF c(3,4) this rest] show ?thesis using that by auto
  qed
  show ?case
  proof (cases "mem = []")
    case False
    then show ?thesis
      using n rd cmp r nle unfolding drop_chain [OF c(1,2)] tk split by (auto simp: Let_def)
  qed simp
qed

lemma evbuffer_ptr_memcmp_ok:
  assumes ok: "search_ok buf" and p: "ptr_ok buf it p" and len: "length mem \<le> EV_SSIZE_MAX"
  shows "\<exists>r. evbuffer_ptr_memcmp buf it mem = Some r \<and> (r = 0 \<longleftrightarrow> take (length mem) (drop p (contents buf)) = mem)"
proof (rule ptr_okE [OF ok p], goal_cases)
  case (1 pre cs)
  have tl: "total_len buf \<le> 2147483647" using ok by (simp add: search_ok_def cfg_defs)
  have L: "length (drop p (contents buf)) = total_len buf - p" using search_ok_length [OF ok] by simp
  show ?case
  proof (cases "p + length mem > total_len buf")
    case True
    then have "length (take (length mem) (drop p (contents buf))) \<noteq> length mem" using L 1(9) by simp
    then have "take (length mem) (drop p (contents buf)) \<noteq> mem" by metis
    moreover have "evbuffer_ptr_memcmp buf it mem = Some (-1)" using True 1(6) by (simp add: evbuffer_ptr_memcmp_def)
    ultimately show ?thesis by simp
  next
    case False
    then have "\<not> EV_SIZE_MAX - length mem < p" using tl by (simp add: cfg_defs)
    then have "evbuffer_ptr_memcmp buf it mem = memcmp_loop cs (pt_in it) mem"
      using False 1(2,6) by (simp add: evbuffer_ptr_memcmp_def)
    then show ?thesis using memcmp_loop_ok [OF 1(7,3) len] False L 1(10) by simp
  qed
qed

lemma ptr_walk_ok:
  "list_all chain_ok cs \<Longrightarrow> place cs i \<Longrightarrow> i + lft \<le> EV_SIZE_MAX \<Longrightarrow>
   case ptr_walk cs (length pre) i lft of
     Some (k, j) \<Rightarrow> at_byte (pre @ cs) k j (sum_list (map ch_off pre) + i + lft)
   | None \<Rightarrow> sum_list (map ch_off cs) \<le> i + lft"
proof (induction cs arbitrary: pre i lft)
  case Nil
  then show ?case by simp
next
  case (Cons c cs)
  then have c: "chain_ok c" "i \<le> ch_off c" "list_all chain_ok cs" "place cs 0"
    by (auto simp: place_def split: list.splits)
  have sz: "szadd i lft = i + lft" using Cons.prems(3) by simp
  show ?case
  proof (cases "i + lft \<ge> ch_off c")
    case True
    then have l: "szsub lft (szsub (ch_off c) i) = lft - (ch_off c - i)"
      using Cons.prems(3) by (simp add: szsub_off [OF c(1,2)] cfg_defs)
    have "0 + (lft - (ch_off c - i)) \<le> EV_SIZE_MAX" using Cons.prems(3) by simp
    note IH = Cons.IH [OF c(3,4) this, of "pre @ [c]"]
    have "sum_list (map ch_off (pre @ [c])) + 0 + (lft - (ch_off c - i)) = sum_list (map ch_off pre) + i + lft"
      using True c(2) by simp
    with IH True c(2) sz l show ?thesis by (auto simp: add_ac split: option.splits prod.splits)
  next
    case False
    then show ?thesis using sz at_byte_app [of "i + lft" c pre cs] by (simp add: add.assoc)
  qed
qed

lemma evbuffer_ptr_add_ok:
  assumes ok: "search_ok buf" and p: "ptr_ok buf it p" and n: "n \<le> EV_SSIZE_MAX"
  shows "\<exists>r it'. evbuffer_ptr_set buf it n EVBUFFER_PTR_ADD = Some (r, it') \<and>
     (if p + n < total_len buf then r = 0 \<and> ptr_at buf it' (p + n) else r = -1 \<and> pt_pos it' = -1)"
proof (rule ptr_okE [OF ok p], goal_cases)
  case (1 pre cs)
  have tl: "total_len buf \<le> 2147483647" "total_len buf = sum_list (map ch_off pre) + sum_list (map ch_off cs)"
    using ok 1(1) by (auto simp: search_ok_def cfg_defs)
  have b: "pt_in it + n \<le> EV_SIZE_MAX" using 1(5,9) tl n by (simp add: cfg_defs)
  note w = ptr_walk_ok [OF 1(7,3) b, of pre]
  let ?it = "it\<lparr>pt_pos := ssadd (pt_pos it) n\<rparr>"
  have eq: "evbuffer_ptr_set buf it n EVBUFFER_PTR_ADD = Some (ptr_land ?it (ptr_walk cs (chain_no it) (pt_in it) n))"
    using 1(2,5,6,9) tl(1) n b by (simp add: evbuffer_ptr_set_def cfg_defs)
  have wk: "ptr_walk cs (chain_no it) (pt_in it) n = ptr_walk cs (length pre) (pt_in it) n"
    using 1(4) by (cases "cs = []") auto
  show ?case
  proof (cases "ptr_walk cs (length pre) (pt_in it) n")
    case None
    then have "\<not> p + n < total_len buf" using w 1(5) tl(2) by simp
    then show ?thesis using None eq wk by (simp add: ptr_land_def)
  next
    case (Some kj)
    then obtain k j where k: "ptr_walk cs (length pre) (pt_in it) n = Some (k, j)" "at_byte (chains buf) k j (p + n)"
      using w 1(1,5) by (cases kj) auto
    have "sum_list (map ch_off (take k (chains buf))) + ch_off (chains buf ! k) \<le> total_len buf"
    proof -
      have "k < length (chains buf)" using k(2) by (simp add: at_byte_def)
      then have "chains buf = take k (chains buf) @ chains buf ! k # drop (Suc k) (chains buf)" by (simp add: id_take_nth_drop)
      then have "sum_list (map ch_off (chains buf)) = sum_list (map ch_off (take k (chains buf) @ chains buf ! k # drop (Suc k) (chains buf)))" by simp
      then show ?thesis using ok by (simp add: search_ok_def)
    qed
    then have lt: "p + n < total_len buf" using k(2) by (simp add: at_byte_def)
    then have "ssadd (int p) n = int (p + n)" using tl(1) by simp
    then show ?thesis using lt k eq wk 1(6) by (simp add: ptr_land_def ptr_at_def)
  qed
qed

lemma find_sub_skip:
  "n \<le> length R \<Longrightarrow> \<forall>e < n. take (length w) (drop e R) \<noteq> w \<Longrightarrow>
   find_sub w R = map_option (\<lambda>d. d + n) (find_sub w (drop n R))"
proof (induction n arbitrary: R)
  case 0
  then show ?case by (simp add: option.map_ident)
next
  case (Suc n)
  then obtain b bs where R: "R = b # bs" by (cases R) auto
  have b: "take (length w) (b # bs) \<noteq> w" using Suc.prems(2) R by (metis drop0 zero_less_Suc)
  have "\<forall>e < n. take (length w) (drop e bs) \<noteq> w"
  proof (intro allI impI)
    fix e assume "e < n"
    then show "take (length w) (drop e bs) \<noteq> w" using Suc.prems(2) [rule_format, of "Suc e"] R by simp
  qed
  with Suc.IH [of bs] Suc.prems(1) R b show ?case by (simp add: option.map_comp comp_def)
qed

lemma find_sub_here: "w \<noteq> [] \<Longrightarrow> take (length w) R = w \<Longrightarrow> find_sub w R = Some 0"
  by (cases R) auto

lemma match_hd: "w \<noteq> [] \<Longrightarrow> take (length w) (drop e R) = w \<Longrightarrow> e < length R \<and> R ! e = hd w"
  by (cases w; cases "drop e R") (auto simp: nth_via_drop dest: arg_cong [of _ _ length])

lemma find_sub_memchr:
  assumes "w \<noteq> []" "n \<le> length xs" "\<forall>e < n. xs ! e \<noteq> hd w"
  shows "\<forall>e < n. take (length w) (drop e (xs @ ys)) \<noteq> w"
  using assms match_hd [of w _ "xs @ ys"] by (metis nth_append order_less_le_trans)

text \<open>What a place in the middle of the list means for the rest of it.\<close>

lemma ptr_okI:
  "chains buf = pre @ cs \<Longrightarrow> p = sum_list (map ch_off pre) + pt_in it \<Longrightarrow> place cs (pt_in it) \<Longrightarrow> pt_pos it = int p \<Longrightarrow>
   pt_chain it = (if cs = [] then None else Some (length pre)) \<Longrightarrow> ptr_ok buf it p"
  unfolding ptr_ok_def by blast

lemma place_0 [simp]: "place cs 0"
  by (cases cs) (simp_all add: place_def)

text \<open>One round of the search, by what it finds in the chain.\<close>

lemma search_loop_round:
  assumes c: "chain_ok c" "pt_in it \<le> ch_off c"
  shows "memchr (drop (pt_in it) (chain_data c)) (hd what) = None \<Longrightarrow>
      search_loop buf what None (c # cs) k it = search_loop buf what None cs (Suc k)
        (it\<lparr>pt_pos := ssadd (pt_pos it) (ch_off c - pt_in it), pt_chain := next_chain k cs, pt_in := 0\<rparr>)"
    and "memchr (drop (pt_in it) (chain_data c)) (hd what) = Some d \<Longrightarrow>
      it1 = it\<lparr>pt_pos := ssadd (pt_pos it) d, pt_in := pt_in it + d\<rparr> \<Longrightarrow>
      evbuffer_ptr_memcmp buf it1 what = Some r \<Longrightarrow> pt_in it + d + 1 \<le> ch_off c \<Longrightarrow>
      it2 = it1\<lparr>pt_pos := ssadd (pt_pos it1) 1, pt_in := pt_in it + d + 1\<rparr> \<Longrightarrow>
      search_loop buf what None (c # cs) k it =
        (if r = 0 then Some it1
         else if pt_in it + d + 1 = ch_off c
         then search_loop buf what None cs (Suc k) (it2\<lparr>pt_chain := next_chain k cs, pt_in := 0\<rparr>)
         else search_loop buf what None (c # cs) k it2)"
  using read_chain [OF c] c(2) by (subst search_loop.simps(2), simp add: Let_def)+

lemma search_loop_ok:
  assumes ok: "search_ok buf" and w: "what \<noteq> []" "length what \<le> EV_SSIZE_MAX"
  shows "chains buf = pre @ cs \<Longrightarrow> p = sum_list (map ch_off pre) + pt_in it \<Longrightarrow> place cs (pt_in it) \<Longrightarrow> pt_pos it = int p \<Longrightarrow>
     pt_chain it = (if cs = [] then None else Some (length pre)) \<Longrightarrow>
     \<exists>it'. search_loop buf what None cs (length pre) it = Some it' \<and>
       (case find_sub what (drop p (contents buf)) of None \<Rightarrow> pt_pos it' = -1 | Some d \<Rightarrow> ptr_at buf it' (p + d))"
proof (induction "length cs + (total_len buf - p)" arbitrary: pre cs it p rule: less_induct)
  case less
  note cs = less.prems
  obtain R: "drop p (contents buf) = drop (pt_in it) (concat (map chain_data cs))" and cok: "list_all chain_ok cs"
    and ple: "p \<le> total_len buf"
  proof (rule ptr_okE [OF ok ptr_okI [OF cs]], goal_cases)
    case (1 pre' cs')
    then have "cs' = cs" using cs(1,5) by (auto simp: chains_from_def split: if_splits)
    with 1 show ?thesis using that by blast
  qed
  have tl: "total_len buf \<le> 2147483647" "total_len buf = sum_list (map ch_off pre) + sum_list (map ch_off cs)"
    using ok cs(1) by (auto simp: search_ok_def cfg_defs)
  show ?case
  proof (cases cs)
    case Nil
    then show ?thesis using R by (simp add: search_loop.simps ptr_not_found_def)
  next
    case (Cons c cs')
    let ?i = "pt_in it" and ?bs = "drop (pt_in it) (chain_data c)" and ?rest = "concat (map chain_data cs')"
    have c: "chain_ok c" "?i \<le> ch_off c" using cok cs(3) Cons by (auto simp: place_def)
    have R': "drop p (contents buf) = ?bs @ ?rest" using R Cons drop_chain [OF c] by simp
    have len: "length ?bs = ch_off c - ?i" using c by simp
    show ?thesis
    proof (cases "memchr ?bs (hd what)")
      case None
      let ?it = "it\<lparr>pt_pos := ssadd (pt_pos it) (ch_off c - ?i), pt_chain := next_chain (length pre) cs', pt_in := 0\<rparr>"
      have eq: "search_loop buf what None cs (length pre) it = search_loop buf what None cs' (length (pre @ [c])) ?it"
        using search_loop_round(1) [OF c None] Cons by simp
      have le: "p + (ch_off c - ?i) \<le> total_len buf" using tl(2) cs(2) c(2) Cons by simp
      have "\<exists>it'. search_loop buf what None cs' (length (pre @ [c])) ?it = Some it' \<and>
        (case find_sub what (drop (p + (ch_off c - ?i)) (contents buf)) of None \<Rightarrow> pt_pos it' = -1
         | Some d \<Rightarrow> ptr_at buf it' (p + (ch_off c - ?i) + d))"
        by (rule less.hyps) (use Cons cs c le tl in \<open>simp_all add: next_chain_def\<close>)
      moreover have "find_sub what (drop p (contents buf)) = map_option (\<lambda>d. d + (ch_off c - ?i)) (find_sub what (drop (p + (ch_off c - ?i)) (contents buf)))"
      proof -
        have "\<forall>e < length ?bs. ?bs ! e \<noteq> hd what"
          using None unfolding memchr_def find_idx_None by (meson nth_mem)
        from find_sub_skip [OF _ find_sub_memchr [OF w(1) order_refl this, of ?rest]]
        have "find_sub what (?bs @ ?rest) = map_option (\<lambda>d. d + length ?bs) (find_sub what (drop (length ?bs) (?bs @ ?rest)))"
          by simp
        then show ?thesis unfolding R' [symmetric] len by (simp add: add.commute)
      qed
      ultimately show ?thesis unfolding eq by (auto simp: add_ac split: option.splits)
    next
      case (Some d)
      then have d: "d < ch_off c - ?i" "\<forall>e < d. ?bs ! e \<noteq> hd what" using len by (auto simp: memchr_def find_idx_Some)
      let ?it1 = "it\<lparr>pt_pos := ssadd (pt_pos it) d, pt_in := ?i + d\<rparr>"
      have ltp: "p + d < total_len buf" using tl(2) cs(2) d(1) Cons by simp
      have at1: "ptr_at buf ?it1 (p + d)"
        using at_byte_app [of "?i + d" c pre cs'] d(1) cs Cons ltp tl(1) by (simp add: ptr_at_def add.assoc)
      obtain r where r: "evbuffer_ptr_memcmp buf ?it1 what = Some r" "r = 0 \<longleftrightarrow> take (length what) (drop (p + d) (contents buf)) = what"
        using evbuffer_ptr_memcmp_ok [OF ok ptr_at_ok [OF at1] w(2)] by blast
      let ?it2 = "?it1\<lparr>pt_pos := ssadd (pt_pos ?it1) 1, pt_in := ?i + d + 1\<rparr>"
      have rnd: "search_loop buf what None (c # cs') (length pre) it =
        (if r = 0 then Some ?it1
         else if ?i + d + 1 = ch_off c
         then search_loop buf what None cs' (Suc (length pre)) (?it2\<lparr>pt_chain := next_chain (length pre) cs', pt_in := 0\<rparr>)
         else search_loop buf what None (c # cs') (length pre) ?it2)"
        by (rule search_loop_round(2) [OF c Some refl r(1) _ refl]) (use d(1) in linarith)
      have dR: "d \<le> length (drop p (contents buf))" "\<forall>e < d. take (length what) (drop e (drop p (contents buf))) \<noteq> what"
        using d len find_sub_memchr [OF w(1) _ d(2), of ?rest] unfolding R' by auto
      show ?thesis
      proof (cases "r = 0")
        case True
        then have "search_loop buf what None cs (length pre) it = Some ?it1" using rnd Cons by simp
        moreover have "find_sub what (drop p (contents buf)) = Some d"
          using find_sub_skip [OF dR] find_sub_here [OF w(1)] True r(2) by (simp add: add.commute)
        ultimately show ?thesis using at1 by simp
      next
        case False
        define p2 where "p2 = p + d + 1"
        have sub: "find_sub what (drop p (contents buf)) = map_option (\<lambda>e. e + (d + 1)) (find_sub what (drop p2 (contents buf)))"
        proof -
          have "\<forall>e < Suc d. take (length what) (drop e (drop p (contents buf))) \<noteq> what"
            using dR(2) r(2) False by (auto simp: less_Suc_eq add.commute)
          from find_sub_skip [OF _ this] show ?thesis using ltp search_ok_length [OF ok] by (simp add: p2_def add_ac)
        qed
        have pos2: "ssadd (ssadd (pt_pos it) d) 1 = int p2" using ltp tl(1) cs(4) by (simp add: p2_def)
        have "\<exists>it'. search_loop buf what None cs (length pre) it = Some it' \<and>
          (case find_sub what (drop p2 (contents buf)) of None \<Rightarrow> pt_pos it' = -1 | Some e \<Rightarrow> ptr_at buf it' (p2 + e))"
        proof (cases "?i + d + 1 = ch_off c")
          case True
          let ?it3 = "?it2\<lparr>pt_chain := next_chain (length pre) cs', pt_in := 0\<rparr>"
          have eq: "search_loop buf what None cs (length pre) it = search_loop buf what None cs' (length (pre @ [c])) ?it3"
            using rnd Cons False True by simp
          show ?thesis unfolding eq
            by (rule less.hyps) (use Cons cs c ltp tl True pos2 in \<open>simp_all add: next_chain_def p2_def\<close>)
        next
          case ne: False
          then have lt: "?i + d + 1 < ch_off c" using d(1) by linarith
          have "search_loop buf what None cs (length pre) it = search_loop buf what None cs (length pre) ?it2"
            using rnd Cons False ne by simp
          moreover have "\<exists>it'. search_loop buf what None cs (length pre) ?it2 = Some it' \<and>
            (case find_sub what (drop p2 (contents buf)) of None \<Rightarrow> pt_pos it' = -1 | Some e \<Rightarrow> ptr_at buf it' (p2 + e))"
            by (rule less.hyps) (use Cons cs c ltp tl lt pos2 in \<open>simp_all add: p2_def place_def\<close>)
          ultimately show ?thesis by metis
        qed
        then show ?thesis unfolding sub by (auto simp: p2_def add_ac split: option.splits)
      qed
    qed
  qed
qed

lemma evbuffer_search_ok:
  assumes ok: "search_ok buf" and w: "what \<noteq> []" "length what \<le> EV_SSIZE_MAX" and p: "ptr_ok buf it p"
  shows "\<exists>it'. evbuffer_search buf what (Some it) = Some it' \<and>
     (case find_sub what (drop p (contents buf)) of None \<Rightarrow> pt_pos it' = -1 | Some d \<Rightarrow> ptr_at buf it' (p + d))"
proof (rule ptr_okE [OF ok p], goal_cases)
  case (1 pre cs)
  have "search_loop buf what None cs (chain_no it) it = search_loop buf what None cs (length pre) it"
    using 1(4) by (cases "cs = []") (simp_all add: search_loop.simps)
  then have "evbuffer_search buf what (Some it) = search_loop buf what None cs (length pre) it"
    using 1(2) w by (simp add: evbuffer_search_def evbuffer_search_range_def)
  with search_loop_ok [OF ok w 1(1,5,3,6,11)] show ?case by simp
qed

section \<open>Line ends\<close>

lemma eol_len_None: "b \<noteq> 13 \<Longrightarrow> b \<noteq> 10 \<Longrightarrow> eol_len style (b # bs) = None"
  by (auto simp: eol_len_def take_Cons' split: evbuffer_eol_style.split)

lemma find_eol_LF: "find_eol EVBUFFER_EOL_LF R = map_option (\<lambda>d. (d, 1)) (find_idx (\<lambda>b. b = 10) R)"
  by (induction R) (auto simp: eol_len_def option.map_comp comp_def)

lemma find_eol_STRICT: "find_eol EVBUFFER_EOL_CRLF_STRICT R = map_option (\<lambda>d. (d, 2)) (find_sub [13, 10] R)"
  by (induction R) (auto simp: eol_len_def option.map_comp comp_def)

lemma find_eol_skip:
  "n \<le> length R \<Longrightarrow> \<forall>e < n. eol_len style (drop e R) = None \<Longrightarrow>
   find_eol style R = map_option (\<lambda>(i, m). (i + n, m)) (find_eol style (drop n R))"
proof (induction n arbitrary: R)
  case 0
  then show ?case by (simp add: option.map_ident)
next
  case (Suc n)
  then obtain b bs where R: "R = b # bs" by (cases R) auto
  have b: "eol_len style (b # bs) = None" using Suc.prems(2) [rule_format, of 0] R by simp
  have "\<forall>e < n. eol_len style (drop e bs) = None"
  proof (intro allI impI)
    fix e assume "e < n"
    then show "eol_len style (drop e bs) = None" using Suc.prems(2) [rule_format, of "Suc e"] R by simp
  qed
  with Suc.IH [of bs] Suc.prems(1) R b show ?case by (simp add: option.map_comp comp_def case_prod_beta)
qed

text \<open>In the styles \<open>ANY\<close> and \<open>CRLF\<close> the first candidate is the first carriage return or line feed.\<close>

lemma no_eol_before:
  assumes "find_idx (\<lambda>b. b = 13 \<or> b = 10) R = Some d" "e < d"
  shows "eol_len style (drop e R) = None"
proof -
  have "e < length R" "R ! e \<noteq> 13" "R ! e \<noteq> 10" using assms by (auto simp: find_idx_Some)
  then show ?thesis by (metis Cons_nth_drop_Suc eol_len_None)
qed

lemma find_eol_first:
  assumes "find_idx (\<lambda>b. b = 13 \<or> b = 10) R = Some d"
  shows "find_eol style R = map_option (\<lambda>(i, m). (i + d, m)) (find_eol style (drop d R))"
  using assms no_eol_before by (intro find_eol_skip) (auto simp: find_idx_Some)

lemma find_eol_None: "find_idx (\<lambda>b. b = 13 \<or> b = 10) R = None \<Longrightarrow> find_eol style R = None"
  by (induction R) (auto simp: eol_len_None split: if_splits)

lemma drop_nth: "d < length R \<Longrightarrow> drop d R = R ! d # drop (Suc d) R"
  by (simp add: Cons_nth_drop_Suc)

lemma find_eol_ANY:
  assumes "find_idx (\<lambda>b. b = 13 \<or> b = 10) R = Some d"
  shows "find_eol EVBUFFER_EOL_ANY R = Some (d, length (takeWhile (\<lambda>b. b \<in> set [13, 10]) (drop d R)))"
proof -
  have d: "d < length R" "R ! d = 13 \<or> R ! d = 10" using assms by (auto simp: find_idx_Some)
  then show ?thesis unfolding find_eol_first [OF assms] drop_nth [OF d(1)] by (auto simp: eol_len_def)
qed

lemma find_eol_CRLF:
  assumes "find_idx (\<lambda>b. b = 13 \<or> b = 10) R = Some d"
  shows "find_eol EVBUFFER_EOL_CRLF R =
     (if R ! d = 10 then Some (d, 1)
      else if take 2 (drop d R) = [13, 10] then Some (d, 2)
      else map_option (\<lambda>(i, m). (i + (d + 1), m)) (find_eol EVBUFFER_EOL_CRLF (drop (d + 1) R)))"
proof -
  have d: "d < length R" "R ! d = 13 \<or> R ! d = 10" using assms by (auto simp: find_idx_Some)
  show ?thesis unfolding find_eol_first [OF assms] drop_nth [OF d(1)] using d(2)
    by (auto simp: eol_len_def option.map_comp comp_def case_prod_unfold)
qed

definition eol_result :: "evbuffer \<Rightarrow> nat \<Rightarrow> (nat \<times> nat) option \<Rightarrow> (bool \<times> evbuffer_ptr \<times> nat) option \<Rightarrow> bool" where
  "eol_result buf p spec res \<longleftrightarrow>
     (\<exists>ok it n. res = Some (ok, it, n) \<and>
        (case spec of None \<Rightarrow> \<not> ok \<and> n = 0 | Some (d, m) \<Rightarrow> ok \<and> ptr_at buf it (p + d) \<and> n = m))"

lemma evbuffer_getchr_ok:
  assumes ok: "search_ok buf" and p: "ptr_at buf it p"
  shows "evbuffer_getchr buf it = Some (contents buf ! p)" "p < length (contents buf)"
proof -
  obtain pre cs where 1: "chains_from buf (pt_chain it) = cs" "list_all chain_ok cs"
    "drop p (contents buf) = drop (pt_in it) (concat (map chain_data cs))" "pt_chain it = (if cs = [] then None else Some (length pre))"
    "chains buf = pre @ cs"
    by (rule ptr_okE [OF ok ptr_at_ok [OF p]]) blast
  then obtain c cs' where cs: "cs = c # cs'" using p by (cases cs) (auto simp: ptr_at_def)
  have i: "pt_in it < ch_off c" using p 1(4,5) cs by (auto simp: ptr_at_def at_byte_def)
  have c: "chain_ok c" using 1(2) cs by simp
  have "drop p (contents buf) = drop (pt_in it) (chain_data c) @ concat (map chain_data cs')"
    using 1(3) cs drop_chain [OF c] i by simp
  moreover have "drop (pt_in it) (chain_data c) = chain_data c ! pt_in it # drop (Suc (pt_in it)) (chain_data c)"
    using i c by (simp add: Cons_nth_drop_Suc)
  ultimately have d: "drop p (contents buf) = chain_data c ! pt_in it # (drop (Suc (pt_in it)) (chain_data c) @ concat (map chain_data cs'))"
    by simp
  then show pl: "p < length (contents buf)" by (metis drop_all list.distinct(1) not_le_imp_less)
  have "ch_misalign c + pt_in it < ch_buffer_len c" using c i by (auto simp: chain_ok_def)
  then show "evbuffer_getchr buf it = Some (contents buf ! p)"
    using 1(1) cs i d nth_via_drop [OF d] by (simp add: evbuffer_getchr_def chain_data_def)
qed

lemma eol_result_Some [simp]:
  "eol_result buf p spec (Some (ok, it, n)) \<longleftrightarrow>
     (case spec of None \<Rightarrow> \<not> ok \<and> n = 0 | Some (d, m) \<Rightarrow> ok \<and> ptr_at buf it (p + d) \<and> n = m)"
  by (simp add: eol_result_def)

lemma eol_crlf_loop_ok:
  assumes ok: "search_ok buf"
  shows "ptr_ok buf it p \<Longrightarrow> eol_result buf p (find_eol EVBUFFER_EOL_CRLF (drop p (contents buf))) (eol_crlf_loop buf it)"
proof (induction "total_len buf - p" arbitrary: p it rule: less_induct)
  case less
  let ?R = "drop p (contents buf)" and ?P = "\<lambda>b. b = 13 \<or> b = (10 :: byte)"
  note scan = evbuffer_find_eol_char_ok [OF ok less.prems]
  show ?case
  proof (cases "find_idx ?P ?R")
    case None
    then obtain it' where "evbuffer_find_eol_char buf it = Some (-1, it')" using scan by auto
    then show ?thesis using find_eol_None [OF None] by (subst eol_crlf_loop.simps) simp
  next
    case (Some d)
    then obtain it1 where it1: "evbuffer_find_eol_char buf it = Some (int (p + d), it1)" "ptr_at buf it1 (p + d)" using scan by auto
    note g = evbuffer_getchr_ok [OF ok it1(2)]
    obtain m where m: "evbuffer_ptr_memcmp buf it1 [13, 10] = Some m" "m = 0 \<longleftrightarrow> take 2 (drop (p + d) (contents buf)) = [13, 10]"
      using evbuffer_ptr_memcmp_ok [OF ok ptr_at_ok [OF it1(2)], of "[13, 10]"] by (auto simp: cfg_defs numeral_2_eq_2)
    obtain r it2 where it2: "evbuffer_ptr_set buf it1 1 EVBUFFER_PTR_ADD = Some (r, it2)"
      "if p + d + 1 < total_len buf then r = 0 \<and> ptr_at buf it2 (p + d + 1) else r = -1 \<and> pt_pos it2 = -1"
      using evbuffer_ptr_add_ok [OF ok ptr_at_ok [OF it1(2)], of 1] by (auto simp: cfg_defs)
    have R: "?R ! d = contents buf ! (p + d)" "drop d ?R = drop (p + d) (contents buf)"
      "drop (d + 1) ?R = drop (p + d + 1) (contents buf)" using g(2) by (simp_all add: add_ac)
    note spec = find_eol_CRLF [OF Some, unfolded R]
    have loop: "eol_crlf_loop buf it =
        (if contents buf ! (p + d) = 10 then Some (True, it1, 1) else if m = 0 then Some (True, it1, 2)
         else if r < 0 then Some (False, it2, 0) else eol_crlf_loop buf it2)"
      using it1(1) g(1) m(1) it2(1) by (subst eol_crlf_loop.simps) simp
    show ?thesis
    proof (cases "contents buf ! (p + d) = 10 \<or> m = 0")
      case True
      then show ?thesis unfolding loop spec using it1(2) m(2) by auto
    next
      case False
      show ?thesis
      proof (cases "p + d + 1 < total_len buf")
        case True
        then have at2: "ptr_at buf it2 (p + d + 1)" "r = 0" using it2(2) by auto
        have "eol_result buf (p + d + 1) (find_eol EVBUFFER_EOL_CRLF (drop (p + d + 1) (contents buf))) (eol_crlf_loop buf it2)"
          using True by (intro less.hyps ptr_at_ok at2(1)) simp
        with False at2(2) m(2) show ?thesis unfolding loop spec
          by (auto simp: eol_result_def add_ac split: option.splits)
      next
        case fin: False
        then have "drop (p + d + 1) (contents buf) = []" "r = -1" using it2(2) search_ok_length [OF ok] by auto
        with False m(2) show ?thesis unfolding loop spec by simp
      qed
    qed
  qed
qed

lemma eol_find_ok:
  assumes ok: "search_ok buf" and p: "ptr_ok buf it p"
  shows "eol_result buf p (find_eol style (drop p (contents buf))) (eol_find buf it style)"
proof (cases style)
  case EVBUFFER_EOL_LF
  then show ?thesis
    using evbuffer_strchr_ok [OF ok p, of 10] by (auto simp: eol_find_def find_eol_LF split: option.splits)
next
  case EVBUFFER_EOL_CRLF
  then show ?thesis using eol_crlf_loop_ok [OF ok p] by (simp add: eol_find_def)
next
  case EVBUFFER_EOL_CRLF_STRICT
  then show ?thesis
    using evbuffer_search_ok [OF ok _ _ p, of "[13, 10]"]
    by (auto simp: eol_find_def find_eol_STRICT ptr_at_def cfg_defs split: option.splits)
next
  case EVBUFFER_EOL_ANY
  let ?P = "\<lambda>b. b = 13 \<or> b = (10 :: byte)"
  show ?thesis
  proof (cases "find_idx ?P (drop p (contents buf))")
    case None
    then show ?thesis using evbuffer_find_eol_char_ok [OF ok p] find_eol_None [OF None] EVBUFFER_EOL_ANY
      by (auto simp: eol_find_def)
  next
    case (Some d)
    then obtain it1 where it1: "evbuffer_find_eol_char buf it = Some (int (p + d), it1)" "ptr_at buf it1 (p + d)"
      using evbuffer_find_eol_char_ok [OF ok p] by auto
    define n where "n = length (takeWhile (\<lambda>b. b \<in> set [13, 10 :: byte]) (drop (p + d) (contents buf)))"
    obtain it2 where it2: "evbuffer_strspn buf it1 [13, 10] = Some (int n, it2)"
      using evbuffer_strspn_ok [OF ok it1(2), of "[13, 10]"] unfolding n_def by blast
    have "n \<le> length (drop (p + d) (contents buf))" unfolding n_def by (rule length_takeWhile_le)
    moreover have "total_len buf \<le> 2147483647" using ok by (simp add: search_ok_def cfg_defs)
    ultimately have "n < 4294967296" using search_ok_length [OF ok] by simp
    then have "nat (int n mod 4294967296) = n" by simp
    moreover have "find_eol EVBUFFER_EOL_ANY (drop p (contents buf)) = Some (d, n)"
      using find_eol_ANY [OF Some] by (simp add: n_def add.commute)
    ultimately show ?thesis using it1 it2 EVBUFFER_EOL_ANY by (simp add: eol_find_def)
  qed
qed

section \<open>The searches agree with their reference definitions\<close>

text \<open>
  The search for a carriage return or line feed in chunks of 128 bytes, two \<open>memchr\<close> per chunk,
  finds what a search byte by byte finds.
\<close>

theorem find_eol_char_equiv: "find_eol_char s = find_idx (\<lambda>b. b = 13 \<or> b = 10) s"
  by (rule find_eol_char_bytes)

text \<open>
  C11. \<open>evbuffer_search\<close> from the start returns the position of the first occurrence of a non-empty string
  in the byte sequence, also when the occurrence lies across chains, and -1 when there is none; the
  position returned is that of the byte, as chain and place in the chain.
\<close>

theorem evbuffer_search_first:
  assumes "evbuffer_inv buf" "total_len buf \<le> EV_SSIZE_MAX" "what \<noteq> []" "length what \<le> EV_SSIZE_MAX"
  shows "\<exists>it. evbuffer_search buf what None = Some it \<and>
     (case find_sub what (contents buf) of None \<Rightarrow> pt_pos it = -1 | Some d \<Rightarrow> ptr_at buf it d)"
proof -
  have "evbuffer_search buf what None = evbuffer_search buf what (Some (ptr_start buf))"
    by (simp add: evbuffer_search_def evbuffer_search_range_def)
  then show ?thesis
    using evbuffer_search_ok [OF search_okI [OF assms(1,2)] assms(3,4) ptr_start_ok]
    by (simp only: add_0 drop0)
qed

theorem evbuffer_search_first_witness:
  "\<exists>it. evbuffer_search two_chains [3, 4] None = Some it \<and> ptr_at two_chains it 2"
  using evbuffer_search_first [OF two_chains_facts(1), of "[3, 4]"] by (simp add: two_chains_facts cfg_defs numeral_2_eq_2)

text \<open>
  C12. \<open>evbuffer_search_eol\<close>, in each of the four styles, returns the first line end of the byte sequence
  and its length, or -1. In particular the loop of the style \<open>CRLF\<close> ends.
\<close>

theorem evbuffer_search_eol_first:
  assumes "evbuffer_inv buf" "total_len buf \<le> EV_SSIZE_MAX"
  shows "\<exists>it n. evbuffer_search_eol buf None style = Some (it, n) \<and>
     (case find_eol style (contents buf) of None \<Rightarrow> pt_pos it = -1 | Some (d, m) \<Rightarrow> ptr_at buf it d \<and> n = m)"
  using eol_find_ok [OF search_okI [OF assms] ptr_start_ok, of style]
  by (auto simp: evbuffer_search_eol_def eol_result_def split: option.splits)

theorem evbuffer_search_eol_first_witness:
  "\<exists>it n. evbuffer_search_eol two_chains None EVBUFFER_EOL_CRLF = Some (it, n) \<and> pt_pos it = -1"
  using evbuffer_search_eol_first [OF two_chains_facts(1), of EVBUFFER_EOL_CRLF]
  by (simp add: two_chains_facts cfg_defs eol_len_def)

lemma find_eol_bounds: "find_eol style bs = Some (d, m) \<Longrightarrow> d < length bs"
  by (induction bs arbitrary: d) (auto split: option.splits)

lemma evbuffer_search_eol_ok:
  assumes "evbuffer_inv buf" "total_len buf \<le> EV_SSIZE_MAX"
  obtains it n where "evbuffer_search_eol buf None style = Some (it, n)"
    "find_eol style (contents buf) = None \<longrightarrow> pt_pos it = -1"
    "\<forall>d m. find_eol style (contents buf) = Some (d, m) \<longrightarrow> pt_pos it = int d \<and> n = m \<and> d < total_len buf"
proof -
  have L: "length (contents buf) = total_len buf" using assms(1) by (rule length_contents)
  show ?thesis
    using eol_find_ok [OF search_okI [OF assms] ptr_start_ok, of style] find_eol_bounds [of style "contents buf"] L that
    by (auto simp: evbuffer_search_eol_def eol_result_def ptr_at_def split: option.splits)
qed

lemma evbuffer_readln_ok:
  assumes mal: "malloc_spec mal" and inv: "evbuffer_inv buf" and tl: "total_len buf \<le> EV_SSIZE_MAX" and fr: "\<not> freeze_start buf"
  shows "\<exists>line n buf'. evbuffer_readln mal buf style = Some (line, n, buf') \<and> evbuffer_inv buf' \<and> same_ctl buf buf' \<and>
     (case find_eol style (contents buf) of
        None \<Rightarrow> line = None \<and> n = 0 \<and> buf' = buf
      | Some (d, m) \<Rightarrow>
          if mal (d + 1) = None then line = None \<and> n = 0 \<and> buf' = buf
          else line = Some (take d (contents buf)) \<and> n = d \<and> contents buf' = drop (d + m) (contents buf))"
proof -
  obtain it n where s: "evbuffer_search_eol buf None style = Some (it, n)"
    "find_eol style (contents buf) = None \<longrightarrow> pt_pos it = -1"
    "\<forall>d m. find_eol style (contents buf) = Some (d, m) \<longrightarrow> pt_pos it = int d \<and> n = m \<and> d < total_len buf"
    by (rule evbuffer_search_eol_ok [OF inv tl])
  show ?thesis
  proof (cases "find_eol style (contents buf)")
    case None
    then show ?thesis using s(1,2) fr inv by (simp add: evbuffer_readln_def)
  next
    case (Some dm)
    then obtain d where d: "find_eol style (contents buf) = Some (d, n)" "pt_pos it = int d" "d < total_len buf"
      using s(3) by (cases dm) auto
    have sz: "szadd d 1 = d + 1" using d(3) tl by (simp add: cfg_defs)
    show ?thesis
    proof (cases "mal (d + 1)")
      case None
      then show ?thesis using s(1) d sz fr inv by (simp add: evbuffer_readln_def)
    next
      case (Some mem)
      obtain b1 where b1: "evbuffer_remove buf d = Some (int (min d (total_len buf)), take d (contents buf), b1)"
        "evbuffer_inv b1" "same_ctl buf b1" "contents b1 = drop d (contents buf)"
        by (rule evbuffer_remove_ok [OF inv fr]) (use d(3) tl in simp)
      have fr1: "\<not> freeze_start b1" using fr b1(3) by (simp add: same_ctl_def)
      obtain b2 where b2: "evbuffer_drain b1 n = Some (0, b2)" "evbuffer_inv b2" "same_ctl b1 b2" "contents b2 = drop n (contents b1)"
        by (rule evbuffer_drain_ok [OF b1(2) fr1])
      have lm: "length mem = Suc d" using malloc_specD [OF mal Some] by simp
      have lt: "length (take d (contents buf)) = d" using d(3) length_contents [OF inv] by simp
      have "mem_write mem 0 (take d (contents buf)) = Some (take d (contents buf) @ drop d mem)"
        using lm lt by (simp add: mem_write_def)
      then have "evbuffer_readln mal buf style = Some (Some (take d (contents buf)), d, b2)"
        using s(1) d(2) sz fr Some b1(1) b2(1) lm lt by (simp add: evbuffer_readln_def upd_opt_def list_update_append)
      moreover have "contents b2 = drop (d + n) (contents buf)" using b1(4) b2(4) by (simp add: add.commute)
      ultimately show ?thesis using d(1) Some b2 b1(3) by (auto intro: same_ctl_trans)
    qed
  qed
qed

text \<open>
  C13. \<open>evbuffer_readln\<close>: when the bytes have a line end in the given style, the line before it is returned
  and the line with its end is removed; otherwise, and when memory is refused, NULL is returned and the
  buffer is as before.
\<close>

theorem evbuffer_readln_line:
  assumes "malloc_spec mal" "evbuffer_inv buf" "total_len buf \<le> EV_SSIZE_MAX" "\<not> freeze_start buf"
  shows "\<exists>line n buf'. evbuffer_readln mal buf style = Some (line, n, buf') \<and> evbuffer_inv buf' \<and> same_ctl buf buf' \<and>
     (case find_eol style (contents buf) of
        None \<Rightarrow> line = None \<and> n = 0 \<and> buf' = buf
      | Some (d, m) \<Rightarrow>
          if mal (d + 1) = None then line = None \<and> n = 0 \<and> buf' = buf
          else line = Some (take d (contents buf)) \<and> n = d \<and> contents buf' = drop (d + m) (contents buf))"
  by (rule evbuffer_readln_ok [OF assms])

theorem evbuffer_readln_line_witness:
  "\<exists>n. evbuffer_readln zalloc two_chains EVBUFFER_EOL_LF = Some (None, n, two_chains)"
  using evbuffer_readln_line [OF zalloc_spec(1) two_chains_facts(1) _ two_chains_facts(3), of EVBUFFER_EOL_LF]
  by (auto simp: two_chains_facts cfg_defs eol_len_def)

fun read_lines :: "malloc \<Rightarrow> evbuffer_eol_style \<Rightarrow> nat \<Rightarrow> evbuffer \<Rightarrow> (byte list list \<times> evbuffer) option" where
  "read_lines mal style 0 buf = Some ([], buf)"
| "read_lines mal style (Suc n) buf = do {
     (line, k, buf1) \<leftarrow> evbuffer_readln mal buf style;
     l \<leftarrow> line;
     (ls, buf2) \<leftarrow> read_lines mal style n buf1;
     Some (l # ls, buf2)
   }"

lemma find_eol_line:
  assumes "style = EVBUFFER_EOL_CRLF \<or> style = EVBUFFER_EOL_CRLF_STRICT" "13 \<notin> set l" "10 \<notin> set l"
  shows "find_eol style (l @ 13 # 10 # bs) = Some (length l, 2)"
proof -
  have "\<forall>e < length l. eol_len style (drop e (l @ 13 # 10 # bs)) = None"
  proof (intro allI impI)
    fix e assume e: "e < length l"
    then have "drop e (l @ 13 # 10 # bs) = l ! e # (drop (Suc e) l @ 13 # 10 # bs)" by (simp add: Cons_nth_drop_Suc)
    moreover have "l ! e \<noteq> 13" "l ! e \<noteq> 10" using e assms(2,3) by (metis nth_mem)+
    ultimately show "eol_len style (drop e (l @ 13 # 10 # bs)) = None" by (simp add: eol_len_None)
  qed
  then have "find_eol style (l @ 13 # 10 # bs) =
      map_option (\<lambda>(i, m). (i + length l, m)) (find_eol style (drop (length l) (l @ 13 # 10 # bs)))"
    by (intro find_eol_skip) simp
  then show ?thesis using assms(1) by (auto simp: eol_len_def)
qed

lemma read_lines_ok:
  assumes mal: "malloc_spec mal" "\<forall>n. mal n \<noteq> None" and st: "style = EVBUFFER_EOL_CRLF \<or> style = EVBUFFER_EOL_CRLF_STRICT"
  shows "evbuffer_inv buf \<Longrightarrow> total_len buf \<le> EV_SSIZE_MAX \<Longrightarrow> \<not> freeze_start buf \<Longrightarrow>
     \<forall>l \<in> set lines. 13 \<notin> set l \<and> 10 \<notin> set l \<Longrightarrow> contents buf = concat (map (\<lambda>l. l @ [13, 10]) lines) @ rest \<Longrightarrow>
     \<exists>buf'. read_lines mal style (length lines) buf = Some (lines, buf') \<and> evbuffer_inv buf' \<and> contents buf' = rest"
proof (induction lines arbitrary: buf)
  case Nil
  then show ?case by simp
next
  case (Cons l ls)
  let ?r = "concat (map (\<lambda>l. l @ [13, 10]) ls) @ rest"
  have c: "contents buf = l @ 13 # 10 # ?r" using Cons.prems(5) by simp
  have e: "find_eol style (contents buf) = Some (length l, 2)"
    unfolding c using Cons.prems(4) by (intro find_eol_line [OF st]) auto
  obtain n b where b: "evbuffer_readln mal buf style = Some (Some l, n, b)" "evbuffer_inv b" "same_ctl buf b" "contents b = ?r"
    using evbuffer_readln_ok [OF mal(1) Cons.prems(1,2,3), of style] mal(2) e c by auto
  have "total_len b \<le> EV_SSIZE_MAX"
    using Cons.prems(2) length_contents [OF b(2)] length_contents [OF Cons.prems(1)] b(4) c by simp
  moreover have "\<not> freeze_start b" using b(3) Cons.prems(3) by (simp add: same_ctl_def)
  ultimately obtain b' where "read_lines mal style (length ls) b = Some (ls, b')" "evbuffer_inv b'" "contents b' = rest"
    using Cons.IH [OF b(2) _ _ _ b(4)] Cons.prems(4) by auto
  then show ?case using b(1) by simp
qed

text \<open>
  C14. Lines without carriage returns and line feeds, each followed by CR LF, are read back one by one by
  \<open>evbuffer_readln\<close> in the styles \<open>CRLF\<close> and \<open>CRLF_STRICT\<close>, however the chains divide them, and what follows
  them stays in the buffer.
\<close>

theorem evbuffer_readln_roundtrip:
  assumes "malloc_spec mal" "\<forall>n. mal n \<noteq> None" "style = EVBUFFER_EOL_CRLF \<or> style = EVBUFFER_EOL_CRLF_STRICT"
    and "evbuffer_inv buf" "total_len buf \<le> EV_SSIZE_MAX" "\<not> freeze_start buf"
    and "\<forall>l \<in> set lines. 13 \<notin> set l \<and> 10 \<notin> set l" "contents buf = concat (map (\<lambda>l. l @ [13, 10]) lines) @ rest"
  shows "\<exists>buf'. read_lines mal style (length lines) buf = Some (lines, buf') \<and> evbuffer_inv buf' \<and> contents buf' = rest"
  using read_lines_ok [OF assms] .

definition two_lines :: evbuffer where
  "two_lines = evbuffer_new\<lparr>chains := [chain_of [71, 13], chain_of [10, 13, 10, 9]], last_with_datap := 1, total_len := 6\<rparr>"

lemma two_lines_facts:
  "evbuffer_inv two_lines" "contents two_lines = [71, 13, 10, 13, 10, 9]" "\<not> freeze_start two_lines" "total_len two_lines = 6"
  by (simp_all add: two_lines_def chain_of_def evbuffer_new_def evbuffer_inv_def chains_inv_def
      tail_ok_def chain_ok_def CHAIN_PINNED_def contents_def chain_data_def cfg_defs)

theorem evbuffer_readln_roundtrip_witness:
  "\<exists>buf'. read_lines zalloc EVBUFFER_EOL_CRLF 2 two_lines = Some ([[71], []], buf') \<and> contents buf' = [9]"
proof -
  have "total_len two_lines \<le> EV_SSIZE_MAX" "length [[71], []] = 2" "\<forall>n. zalloc n \<noteq> None" by (simp_all add: two_lines_facts cfg_defs)
  moreover have "\<forall>l \<in> set [[71], [] :: byte list]. 13 \<notin> set l \<and> 10 \<notin> set l" by simp
  moreover have "contents two_lines = concat (map (\<lambda>l. l @ [13, 10]) [[71], []]) @ [9]" by (simp add: two_lines_facts)
  ultimately show ?thesis
    using evbuffer_readln_roundtrip [OF zalloc_spec(1) _ _ two_lines_facts(1) _ two_lines_facts(3), of EVBUFFER_EOL_CRLF "[[71], []]" "[9]"]
    by (metis length_Cons list.size(3) numeral_2_eq_2)
qed

end
