(* ===== verification/Evbuffer_Print.thy ===== *)
theory Evbuffer_Print
  imports Evbuffer_Read
begin

text \<open>
  \<open>evbuffer_add_vprintf\<close> and \<open>evbuffer_add_reference\<close> of \<^verbatim>\<open>buffer.c\<close> and \<open>evutil_vsnprintf\<close> of
  \<^verbatim>\<open>evutil.c\<close>. What the format and its arguments produce is a parameter: the text, or \<open>None\<close> when
  \<open>vsnprintf\<close> reports an error. The last section shows what printing does to a buffer whose
  \<open>last_with_datap\<close> was left behind.
\<close>

section \<open>Operations\<close>

text \<open>The result and the memory after printing to \<open>buflen\<close> bytes at \<open>at\<close>.\<close>

definition evutil_vsnprintf :: "byte list \<Rightarrow> nat \<Rightarrow> nat \<Rightarrow> byte list option \<Rightarrow> (int \<times> byte list) option" where
  "evutil_vsnprintf mem at buflen out =
     (if buflen = 0 then Some (0, mem)
      else do {
        (r, mem1) \<leftarrow>
          (case out of
             None \<Rightarrow> Some (-1, mem)
           | Some text \<Rightarrow>
               if int (length text) > INT_MAX then Some (-1, mem)
               else do {
                 m \<leftarrow> mem_write mem at (take (buflen - 1) text @ [0]);
                 Some (int (length text), m)
               });
        mem2 \<leftarrow> upd_opt mem1 (at + buflen - 1) 0;
        Some (r, mem2)
      })"

definition set_chain :: "evbuffer \<Rightarrow> nat \<Rightarrow> evbuffer_chain \<Rightarrow> evbuffer" where
  "set_chain buf c chain = buf\<lparr>chains := (chains buf)[c := chain]\<rparr>"

text \<open>The endless loop, from the chain number \<open>c\<close> that has the space.\<close>

partial_function (option) vprintf_loop ::
    "malloc \<Rightarrow> byte list option \<Rightarrow> evbuffer \<Rightarrow> nat \<Rightarrow> (int \<times> evbuffer) option" where
  "vprintf_loop mal out buf c = do {
     chain \<leftarrow> nth_opt (chains buf) c;
     let space = CHAIN_SPACE_LEN chain;
     (sz, mem) \<leftarrow> evutil_vsnprintf (ch_buffer chain) (ch_misalign chain + ch_off chain) space out;
     let chain1 = chain\<lparr>ch_buffer := mem\<rparr>;
     let buf1 = set_chain buf c chain1;
     if sz < 0 then Some (-1, buf1)
     else if INT_MAX \<ge> int EVBUFFER_CHAIN_MAX \<and> nat sz \<ge> EVBUFFER_CHAIN_MAX then Some (-1, buf1)
     else if nat sz < space then
       Some (sz, evbuffer_invoke_callbacks (advance_last_with_data
                   (added (set_chain buf c (chain1\<lparr>ch_off := ch_off chain + nat sz\<rparr>)) (nat sz))))
     else do {
       (r, buf2) \<leftarrow> evbuffer_expand_singlechain mal buf1 (nat sz + 1);
       case r of None \<Rightarrow> Some (-1, buf2) | Some c2 \<Rightarrow> vprintf_loop mal out buf2 c2
     }
   }"

definition evbuffer_add_vprintf :: "malloc \<Rightarrow> evbuffer \<Rightarrow> byte list option \<Rightarrow> (int \<times> evbuffer) option" where
  "evbuffer_add_vprintf mal buf out =
     (if freeze_end buf then Some (-1, buf)
      else do {
        (r, buf1) \<leftarrow> evbuffer_expand_singlechain mal buf 64;
        case r of None \<Rightarrow> Some (-1, buf1) | Some c \<Rightarrow> vprintf_loop mal out buf1 c
      })"

text \<open>\<open>sizeof(struct evbuffer_chain_reference)\<close> is the size of two pointers.\<close>

definition evbuffer_add_reference :: "malloc \<Rightarrow> evbuffer \<Rightarrow> byte list \<Rightarrow> bool \<Rightarrow> (int \<times> evbuffer) option" where
  "evbuffer_add_reference mal outbuf data cleanupfn =
     (case evbuffer_chain_new mal 8 of
        None \<Rightarrow> Some (-1, outbuf)
      | Some chain \<Rightarrow>
          let chain1 = chain\<lparr>ch_flags := ch_flags chain OR (EVBUFFER_REFERENCE OR EVBUFFER_IMMUTABLE),
                             ch_buffer := data, ch_off := length data, ch_cleanup := cleanupfn\<rparr>
          in if freeze_end outbuf then Some (-1, outbuf)
             else do {
               buf1 \<leftarrow> evbuffer_chain_insert outbuf chain1;
               Some (0, evbuffer_invoke_callbacks (buf1\<lparr>n_add_for_cb := szadd (n_add_for_cb buf1) (length data)\<rparr>))
             })"

definition evbuffer_remove_cb_entry :: "evbuffer \<Rightarrow> nat \<Rightarrow> evbuffer" where
  "evbuffer_remove_cb_entry buf ent = buf\<lparr>callbacks := remove_first_cb ent (callbacks buf)\<rparr>"

section \<open>References\<close>

text \<open>
  \<open>evbuffer_add_reference\<close> appends the caller's memory without copying it, as one immutable chain,
  as long as the length does not overflow (which the code does not check); it returns -1 only for a
  frozen end or refused memory, and then the buffer is untouched.
\<close>

theorem evbuffer_add_reference_appends:
  assumes "malloc_spec mal" "evbuffer_inv buf" "total_len buf + length data \<le> EV_SIZE_MAX"
    and "length data \<le> EVBUFFER_CHAIN_MAX - EVBUFFER_CHAIN_SIZE"
  shows "\<exists>r buf'. evbuffer_add_reference mal buf data cl = Some (r, buf') \<and>
     (r = 0 \<and> evbuffer_inv buf' \<and> contents buf' = contents buf @ data \<and> same_ctl buf buf' \<and>
        ch_buffer (last (chains buf')) = data \<and> CHAIN_IMMUTABLE (last (chains buf')) \<or>
      r = -1 \<and> buf' = buf \<and> (freeze_end buf \<or> alloc_refused mal 8))"
proof (cases "evbuffer_chain_new mal 8")
  case None
  then show ?thesis using evbuffer_chain_new_None [OF None] by (auto simp: evbuffer_add_reference_def alloc_refused_def)
next
  case (Some t)
  note t = evbuffer_chain_new_Some [OF assms(1) Some]
  define ch where "ch = t\<lparr>ch_flags := ch_flags t OR (EVBUFFER_REFERENCE OR EVBUFFER_IMMUTABLE),
                             ch_buffer := data, ch_off := length data, ch_cleanup := cl\<rparr>"
  have fl: "ch_flags t = 0" "ch_misalign t = 0" using Some by (auto simp: evbuffer_chain_new_def Let_def split: if_splits option.splits)
  have ok: "chain_ok ch" "chain_data ch = data" "CHAIN_IMMUTABLE ch" "ch_off ch = length data" "ch_buffer ch = data"
    using assms(4) fl
    by (simp_all add: ch_def chain_ok_def chain_data_def CHAIN_PINNED_def CHAIN_IMMUTABLE_def EVBUFFER_REFERENCE_def EVBUFFER_IMMUTABLE_def
        EVBUFFER_MEM_PINNED_ANY_def EVBUFFER_MEM_PINNED_R_def EVBUFFER_MEM_PINNED_W_def)
  obtain b where b: "evbuffer_chain_insert buf ch = Some b" "evbuffer_inv b" "contents b = contents buf @ data"
    "chains b \<noteq> []" "last (chains b) = ch" "same_ctl buf b"
    using evbuffer_chain_insert_ok [OF assms(2) ok(1)] ok assms(3) by metis
  show ?thesis
    using Some b ok by (cases "freeze_end buf") (auto simp: evbuffer_add_reference_def ch_def [symmetric] Let_def)
qed

theorem evbuffer_add_reference_appends_witness:
  "\<exists>buf'. evbuffer_add_reference zalloc two_chains [6, 7] True = Some (0, buf') \<and> contents buf' = [1, 2, 3, 4, 5, 6, 7]"
proof -
  have "\<not> alloc_refused zalloc 8" by (auto simp: alloc_refused_def cfg_defs)
  then show ?thesis
    using evbuffer_add_reference_appends [OF zalloc_spec(1) two_chains_facts(1), of "[6, 7]" True]
    by (auto simp: two_chains_facts cfg_defs)
qed

section \<open>Space in one chain\<close>

text \<open>What \<open>evbuffer_expand_singlechain\<close> gives: chain number \<open>c\<close>, at or right after \<open>last_with_datap\<close>, has the space.\<close>

definition has_space :: "evbuffer \<Rightarrow> evbuffer \<Rightarrow> nat \<Rightarrow> nat \<Rightarrow> bool" where
  "has_space buf b c datlen \<longleftrightarrow> read_inv b \<and> contents b = contents buf \<and> same_ctl buf b \<and> total_len b = total_len buf \<and>
     c < length (chains b) \<and> datlen \<le> CHAIN_SPACE_LEN (chains b ! c) \<and>
     (c = last_with_datap b \<or> c = Suc (last_with_datap b))"

definition single_expanded :: "malloc \<Rightarrow> evbuffer \<Rightarrow> nat \<Rightarrow> (nat option \<times> evbuffer) option \<Rightarrow> bool" where
  "single_expanded mal buf datlen res \<longleftrightarrow>
     (\<exists>r b. res = Some (r, b) \<and>
        (case r of None \<Rightarrow> b = buf \<and> alloc_refused mal datlen | Some c \<Rightarrow> has_space buf b c datlen))"

lemma single_expanded_Some [simp]:
  "single_expanded mal buf datlen (Some (r, b)) \<longleftrightarrow>
     (case r of None \<Rightarrow> b = buf \<and> alloc_refused mal datlen | Some c \<Rightarrow> has_space buf b c datlen)"
  by (simp add: single_expanded_def)

text \<open>A new chain replaces the empty ones at the end.\<close>

lemma insert_new_ok:
  assumes mal: "malloc_spec mal" and inv: "read_inv buf"
  shows "single_expanded mal buf datlen (insert_new mal buf datlen)"
proof (cases "evbuffer_chain_new mal datlen")
  case None
  then show ?thesis by (simp add: insert_new_def evbuffer_chain_insert_new_def chain_new_refused)
next
  case (Some t)
  note t = chain_new_spare [OF mal Some]
  have ins: "insert_new mal buf datlen = Some (Some (length (chains b) - 1), b)"
    if "evbuffer_chain_insert buf t = Some b" "last (chains b) = t" for b
    using that t Some by (simp add: insert_new_def evbuffer_chain_insert_new_def)
  show ?thesis
  proof (cases "chains buf = []")
    case True
    have l: "last_with_datap buf = 0" "total_len buf = 0" using inv True by (auto simp: read_inv_def)
    let ?b = "buf\<lparr>chains := [t], total_len := 0\<rparr>"
    have "evbuffer_chain_insert buf t = Some ?b" using True l t by (simp add: evbuffer_chain_insert_def)
    moreover have "read_inv ?b" using t l by (subst read_inv_iff [of _ "[]" t "[]"]) auto
    ultimately show ?thesis using ins [of ?b] True l t by (simp add: has_space_def contents_def)
  next
    case False
    obtain pre c es where s: "chains buf = pre @ c # es" "last_with_datap buf = length pre" by (rule read_inv_split [OF inv False])
    note i = inv [unfolded read_inv_iff [OF s]]
    have np: "\<forall>ch \<in> set (c # es). \<not> CHAIN_PINNED ch" using i by (auto simp: list_all_iff chain_ok_def)
    have sz: "szadd (total_len buf) 0 = total_len buf" using i by (simp add: cfg_defs)
    show ?thesis
    proof (cases "ch_off c = 0")
      case True
      then have pre: "pre = []" "total_len buf = 0" using i by auto
      let ?b = "(evbuffer_free_all_chains (c # es) buf)\<lparr>chains := [t], total_len := 0\<rparr>"
      have "first_victim buf = 0" using s pre True np by (simp add: first_victim_def)
      then have "evbuffer_chain_insert buf t = Some ?b"
        using s pre True i t by (simp add: evbuffer_chain_insert_def evbuffer_chains_all_empty_def list_all_iff)
      moreover have "read_inv ?b" using t pre s by (subst read_inv_iff [of _ "[]" t "[]"]) auto
      moreover have "contents buf = []" using read_inv_length [OF inv] pre by simp
      ultimately show ?thesis using ins [of ?b] t pre s by (simp add: has_space_def contents_def)
    next
      case False
      let ?fb = "if es = [] then buf else evbuffer_free_all_chains es buf"
      let ?b = "?fb\<lparr>chains := pre @ [c, t]\<rparr>"
      have fv: "first_victim buf = Suc (length pre)" using s False i np by (cases es) (auto simp: first_victim_def)
      have ci: "evbuffer_chain_insert buf t = Some ?b"
        using s fv i t sz by (cases "es = []") (auto simp: evbuffer_chain_insert_def evbuffer_chains_all_empty_def list_all_iff)
      have "read_inv ?b" "contents ?b = contents buf"
        using i t s by (auto intro!: read_inv_change [OF inv s, where c' = c and es' = "[t]"])
      then show ?thesis using ins [OF ci] t s by (simp add: has_space_def nth_append)
    qed
  qed
qed

lemma first_space_split:
  assumes inv: "read_inv buf" and lt: "first_space buf < length (chains buf)"
  shows "(first_space buf = last_with_datap buf \<or> first_space buf = Suc (last_with_datap buf) \<and> ch_off (chains buf ! first_space buf) = 0) \<and>
    chain_ok (chains buf ! first_space buf)"
proof -
  have "chains buf \<noteq> []" using lt by auto
  then obtain pre c es where s: "chains buf = pre @ c # es" "last_with_datap buf = length pre" by (rule read_inv_split [OF inv])
  have i: "\<forall>ch \<in> set es. ch_off ch = 0" using inv by (simp add: read_inv_iff [OF s])
  have "chain_ok (chains buf ! first_space buf)" using inv lt by (simp add: read_inv_def list_all_length)
  moreover have "first_space buf = length pre \<or> first_space buf = Suc (length pre)" using s by (simp add: first_space_def nth_append Let_def)
  moreover have "first_space buf = Suc (length pre) \<Longrightarrow> ch_off (chains buf ! first_space buf) = 0"
    using s(1) i lt by (cases es) (auto simp: nth_append)
  ultimately show ?thesis using s(2) by auto
qed

lemma flags_clear: "f AND (EVBUFFER_IMMUTABLE OR EVBUFFER_MEM_PINNED_ANY) = 0 \<Longrightarrow> f AND EVBUFFER_IMMUTABLE = 0" for f :: u32
  by (simp add: bit.conj_disj_distrib or_eq_0_iff)

lemma chain_align_space:
  assumes ok: "chain_ok ch" and mut: "\<not> CHAIN_IMMUTABLE ch" and re: "evbuffer_chain_should_realign ch datlen"
  obtains ch' where "evbuffer_chain_align ch = Some ch'" "chain_ok ch'" "ch_off ch' = ch_off ch" "chain_data ch' = chain_data ch"
    "ch_flags ch' = ch_flags ch" "datlen \<le> CHAIN_SPACE_LEN ch'"
proof -
  obtain ch' where a: "evbuffer_chain_align ch = Some ch'" "chain_ok ch'" "chain_data ch' = chain_data ch"
    "ch_off ch' = ch_off ch" "ch_misalign ch' = 0" "ch_buffer_len ch' = ch_buffer_len ch"
    by (rule evbuffer_chain_align_ok [OF ok mut])
  have fl: "ch_flags ch' = ch_flags ch" using a(1) by (auto simp: evbuffer_chain_align_def bind_eq_Some_conv)
  have "\<not> CHAIN_IMMUTABLE ch'" using fl mut by (simp add: CHAIN_IMMUTABLE_def)
  moreover have "datlen \<le> ch_buffer_len ch - ch_off ch"
    using re ok by (simp add: evbuffer_chain_should_realign_def chain_ok_def cfg_defs)
  ultimately have "datlen \<le> CHAIN_SPACE_LEN ch'" using a by (simp add: chain_space_len)
  with a fl show ?thesis by (intro that)
qed

lemma evbuffer_expand_singlechain_ok:
  assumes mal: "malloc_spec mal" and inv: "read_inv buf" and d: "datlen \<le> 2147479551"
  shows "single_expanded mal buf datlen (evbuffer_expand_singlechain mal buf datlen)"
proof -
  let ?c = "first_space buf"
  let ?chain = "chains buf ! ?c"
  let ?im = "ch_flags ?chain AND (EVBUFFER_IMMUTABLE OR EVBUFFER_MEM_PINNED_ANY) \<noteq> 0"
  note new = insert_new_ok [OF mal inv, of datlen]
  consider (new) "?c \<ge> length (chains buf) \<or> ?im \<or> CHAIN_SPACE_LEN ?chain < datlen \<and> ch_off ?chain = 0"
    | (fits) "?c < length (chains buf)" "\<not> ?im" "CHAIN_SPACE_LEN ?chain \<ge> datlen"
    | (move) "?c < length (chains buf)" "\<not> ?im" "CHAIN_SPACE_LEN ?chain < datlen" "ch_off ?chain \<noteq> 0" by linarith
  then show ?thesis
  proof cases
    case new
    then show ?thesis using \<open>single_expanded mal buf datlen (insert_new mal buf datlen)\<close>
      by (auto simp: evbuffer_expand_singlechain_def Let_def)
  next
    case fits
    have "has_space buf buf ?c datlen" using fits inv first_space_split [OF inv fits(1)] by (auto simp: has_space_def)
    then show ?thesis using fits by (simp add: evbuffer_expand_singlechain_def)
  next
    case move
    have c: "?c = last_with_datap buf" "chain_ok ?chain" using first_space_split [OF inv move(1)] move(4) by auto
    have mut: "\<not> CHAIN_IMMUTABLE ?chain" using flags_clear move(2) by (auto simp: CHAIN_IMMUTABLE_def)
    have s: "chains buf = take ?c (chains buf) @ ?chain # drop (Suc ?c) (chains buf)" "last_with_datap buf = length (take ?c (chains buf))"
      using move(1) c(1) by (auto simp: id_take_nth_drop)
    show ?thesis
    proof (cases "evbuffer_chain_should_realign ?chain datlen")
      case True
      obtain ch' where a: "evbuffer_chain_align ?chain = Some ch'" "chain_ok ch'" "ch_off ch' = ch_off ?chain" "chain_data ch' = chain_data ?chain"
        "ch_flags ch' = ch_flags ?chain" "datlen \<le> CHAIN_SPACE_LEN ch'"
        by (rule chain_align_space [OF c(2) mut True])
      let ?b = "buf\<lparr>chains := (chains buf)[?c := ch']\<rparr>"
      have "chains ?b = take ?c (chains buf) @ ch' # drop (Suc ?c) (chains buf)" using move(1) by (simp add: upd_conv_take_nth_drop)
      moreover have "spare (drop (Suc ?c) (chains buf))"
        using inv c(1) by (auto simp: read_inv_def spare_def list_all_iff dest: in_set_dropD)
      ultimately have "read_inv ?b" "contents ?b = contents buf"
        using read_inv_change [OF inv s a(2-5), of _ ?b] by simp_all
      then have "has_space buf ?b ?c datlen" using a move(1) c(1) by (simp add: has_space_def)
      then show ?thesis using move True a by (simp add: evbuffer_expand_singlechain_def Let_def)
    next
      case False
      have "ch_off ?chain \<le> MAX_TO_COPY_IN_EXPAND \<Longrightarrow> datlen < EVBUFFER_CHAIN_MAX \<and> EVBUFFER_CHAIN_MAX - datlen \<ge> ch_off ?chain"
        using d by (simp add: cfg_defs)
      then have eq: "evbuffer_expand_singlechain mal buf datlen =
          (if Suc ?c < length (chains buf) \<and> CHAIN_SPACE_LEN (chains buf ! Suc ?c) \<ge> datlen
           then Some (Some (Suc ?c), buf) else insert_new mal buf datlen)"
        using move False by (auto simp: evbuffer_expand_singlechain_def Let_def)
      show ?thesis unfolding eq using new inv c(1) by (auto simp: has_space_def)
    qed
  qed
qed

section \<open>Printing\<close>

text \<open>What \<open>vsnprintf\<close> leaves in a chain: the data untouched, the text after it when it fits.\<close>

definition printed :: "evbuffer_chain \<Rightarrow> byte list \<Rightarrow> byte list option \<Rightarrow> int \<Rightarrow> bool" where
  "printed ch mem out sz \<longleftrightarrow> length mem = ch_buffer_len ch \<and>
     take (ch_misalign ch + ch_off ch) mem = take (ch_misalign ch + ch_off ch) (ch_buffer ch) \<and>
     (case out of
        None \<Rightarrow> sz = -1
      | Some t \<Rightarrow> if int (length t) > INT_MAX then sz = -1
                   else sz = int (length t) \<and>
                     (length t < CHAIN_SPACE_LEN ch \<longrightarrow> take (length t) (drop (ch_misalign ch + ch_off ch) mem) = t))"

lemma take_update_beyond: "n \<le> i \<Longrightarrow> take n (xs[i := x]) = take n xs"
  by simp

lemma evutil_vsnprintf_ok:
  assumes ok: "chain_ok ch" and sp: "0 < CHAIN_SPACE_LEN ch"
  obtains sz mem where "evutil_vsnprintf (ch_buffer ch) (ch_misalign ch + ch_off ch) (CHAIN_SPACE_LEN ch) out = Some (sz, mem)"
    "printed ch mem out sz"
proof -
  let ?at = "ch_misalign ch + ch_off ch" and ?sp = "CHAIN_SPACE_LEN ch" and ?B = "ch_buffer ch"
  have len: "length ?B = ?at + ?sp" using ok sp by (auto simp: chain_space_len chain_ok_def split: if_splits)
  show ?thesis
  proof (cases "\<exists>t. out = Some t \<and> int (length t) \<le> INT_MAX")
    case False
    let ?m = "?B[?at + ?sp - 1 := 0]"
    have "evutil_vsnprintf ?B ?at ?sp out = Some (-1, ?m)"
      using False len sp by (auto simp: evutil_vsnprintf_def upd_opt_def split: option.splits)
    moreover have "printed ch ?m out (-1)" using False sp by (auto simp: printed_def split: option.splits)
    ultimately show ?thesis by (rule that)
  next
    case True
    then obtain t where t: "out = Some t" "int (length t) \<le> INT_MAX" by blast
    let ?p = "take (?sp - 1) t @ [0]"
    let ?mw = "take ?at ?B @ ?p @ drop (?at + length ?p) ?B"
    let ?m = "?mw[?at + ?sp - 1 := 0]"
    have w: "mem_write ?B ?at ?p = Some ?mw"
      using len sp by (intro mem_write_in) (simp add: min_def, linarith)
    have l0: "length ?mw = length ?B" by (rule mem_write_length [OF w])
    have "evutil_vsnprintf ?B ?at ?sp out = Some (int (length t), ?m)"
      using t sp w l0 len by (simp add: evutil_vsnprintf_def upd_opt_def)
    moreover have "printed ch ?m out (int (length t))"
    proof -
      have "take ?at ?m = take ?at ?B" using len sp by simp
      moreover have "take (length t) (drop ?at ?m) = t" if "length t < ?sp"
      proof -
        have "take (length t) (drop ?at ?m) = take (length t) ((drop ?at ?mw)[?sp - 1 := 0])"
          using sp by (simp add: drop_update_swap)
        also have "\<dots> = take (length t) (drop ?at ?mw)" using that by simp
        also have "\<dots> = t" using that len by simp
        finally show ?thesis .
      qed
      ultimately show ?thesis using t l0 by (simp add: printed_def)
    qed
    ultimately show ?thesis by (rule that)
  qed
qed

lemma printed_chain:
  assumes ok: "chain_ok ch" and p: "printed ch mem out sz"
  shows "chain_ok (ch\<lparr>ch_buffer := mem\<rparr>)" "chain_data (ch\<lparr>ch_buffer := mem\<rparr>) = chain_data ch"
    "CHAIN_SPACE_LEN (ch\<lparr>ch_buffer := mem\<rparr>) = CHAIN_SPACE_LEN ch"
    "out = Some t \<Longrightarrow> int (length t) \<le> INT_MAX \<Longrightarrow> length t < CHAIN_SPACE_LEN ch \<Longrightarrow>
       chain_ok (ch\<lparr>ch_buffer := mem, ch_off := ch_off ch + length t\<rparr>) \<and>
       chain_data (ch\<lparr>ch_buffer := mem, ch_off := ch_off ch + length t\<rparr>) = chain_data ch @ t"
proof -
  have l: "length mem = ch_buffer_len ch" and tk: "take (ch_misalign ch + ch_off ch) mem = take (ch_misalign ch + ch_off ch) (ch_buffer ch)"
    using p by (auto simp: printed_def)
  show "chain_ok (ch\<lparr>ch_buffer := mem\<rparr>)" using ok l by (simp add: chain_ok_def CHAIN_PINNED_def)
  show "CHAIN_SPACE_LEN (ch\<lparr>ch_buffer := mem\<rparr>) = CHAIN_SPACE_LEN ch" using l by (simp add: CHAIN_SPACE_LEN_def CHAIN_IMMUTABLE_def)
  have dt: "take (ch_off ch) (drop (ch_misalign ch) m) = drop (ch_misalign ch) (take (ch_misalign ch + ch_off ch) m)" for m :: "byte list"
    by (simp add: drop_take)
  show cd: "chain_data (ch\<lparr>ch_buffer := mem\<rparr>) = chain_data ch" unfolding chain_data_def using dt tk by simp
  assume t: "out = Some t" "int (length t) \<le> INT_MAX" "length t < CHAIN_SPACE_LEN ch"
  have "chain_ok (ch\<lparr>ch_buffer := mem, ch_off := ch_off ch + length t\<rparr>)"
    using ok l t(3) by (auto simp: chain_space_len chain_ok_def CHAIN_PINNED_def split: if_splits)
  moreover have "take (length t) (drop (ch_misalign ch + ch_off ch) mem) = t" using p t by (simp add: printed_def)
  then have "chain_data (ch\<lparr>ch_buffer := mem, ch_off := ch_off ch + length t\<rparr>) = chain_data (ch\<lparr>ch_buffer := mem\<rparr>) @ t"
    by (simp add: chain_data_def take_add add.commute)
  ultimately show "chain_ok (ch\<lparr>ch_buffer := mem, ch_off := ch_off ch + length t\<rparr>) \<and>
       chain_data (ch\<lparr>ch_buffer := mem, ch_off := ch_off ch + length t\<rparr>) = chain_data ch @ t" using cd by simp
qed

lemma read_inv_upd:
  assumes inv: "read_inv b" and i: "i < length (chains b)"
    and ch: "chain_ok ch" "ch_off ch = ch_off (chains b ! i)" "chain_data ch = chain_data (chains b ! i)" "ch_flags ch = ch_flags (chains b ! i)"
  shows "read_inv (set_chain b i ch)" "contents (set_chain b i ch) = contents b"
proof -
  let ?cs = "(chains b)[i := ch]"
  have m: "map ch_off ?cs = map ch_off (chains b)" "map chain_data ?cs = map chain_data (chains b)"
    using ch i by (simp_all add: map_update list_update_same_conv)
  show "contents (set_chain b i ch) = contents b" by (simp add: contents_def set_chain_def m(2))
  have nth: "ch_off (?cs ! j) = ch_off (chains b ! j)" "CHAIN_IMMUTABLE (?cs ! j) = CHAIN_IMMUTABLE (chains b ! j)" for j
    using ch by (cases "j = i"; simp add: CHAIN_IMMUTABLE_def nth_list_update i)+
  have "\<forall>ch \<in> set (drop n ?cs). ch_off ch = 0" if "\<forall>ch \<in> set (drop n (chains b)). ch_off ch = 0" for n
    using that m(1) by (metis (no_types, lifting) drop_map imageE image_eqI list.set_map)
  moreover have "\<forall>ch \<in> set ?cs. ch_off ch = 0 \<longrightarrow> \<not> CHAIN_IMMUTABLE ch"
    using inv nth by (auto simp: read_inv_def all_set_conv_all_nth)
  moreover have "list_all chain_ok ?cs" using inv ch(1) by (auto simp: read_inv_def list_all_iff dest: set_update_subset_insert [THEN subsetD])
  ultimately show "read_inv (set_chain b i ch)"
    using inv i nth(1) unfolding read_inv_def set_chain_def by (simp add: m(1)) (metis length_greater_0_conv length_list_update)
qed

lemma set_chain_simps [simp]:
  "total_len (set_chain b i ch) = total_len b" "last_with_datap (set_chain b i ch) = last_with_datap b"
  "same_ctl x (set_chain b i ch) = same_ctl x b" "chains (set_chain b i ch) = (chains b)[i := ch]"
  by (simp_all add: set_chain_def)

text \<open>After the text is in the chain: the length grows and \<open>last_with_datap\<close> is right again.\<close>

lemma text_in_chain:
  assumes hs: "has_space buf b c 1" and len: "total_len b + length t \<le> EV_SIZE_MAX"
    and ch: "chain_ok ch" "chain_data ch = chain_data (chains b ! c) @ t" "ch_off ch = ch_off (chains b ! c) + length t"
      "ch_flags ch = ch_flags (chains b ! c)"
  defines "b' \<equiv> advance_last_with_data (added (set_chain b c ch) (length t))"
  shows "read_inv b'" "contents b' = contents b @ t" "same_ctl b b'"
proof -
  have inv: "read_inv b" and c: "c < length (chains b)" "c = last_with_datap b \<or> c = Suc (last_with_datap b)"
    using hs by (auto simp: has_space_def)
  let ?l = "last_with_datap b" and ?cs = "(chains b)[c := ch]"
  have z: "\<forall>ch \<in> set (drop (Suc ?l) (chains b)). ch_off ch = 0" "?l < length (chains b)" using inv c by (auto simp: read_inv_def)
  have zc: "\<forall>ch \<in> set (drop (Suc c) (chains b)). ch_off ch = 0"
  proof -
    have "Suc ?l \<le> Suc c" using c(2) by auto
    from set_drop_subset_set_drop [OF this, of "chains b"] z(1) show ?thesis by blast
  qed
  show "same_ctl b b'" by (simp add: b'_def advance_last_with_data_def)
  have sz: "szadd (total_len b) (length t) = total_len b + length t" using len by simp
  have ch': "chains b' = ?cs" "total_len b' = total_len b + length t" using sz by (simp_all add: b'_def advance_last_with_data_def)
  have cs: "?cs = take c (chains b) @ ch # drop (Suc c) (chains b)" using c(1) by (simp add: upd_conv_take_nth_drop)
  have adv: "last_with_datap b' = ?l + length (takeWhile (\<lambda>ch. 0 < ch_off ch) (drop (Suc ?l) ?cs))"
    using z(2) by (simp add: b'_def advance_last_with_data_def)
  have none: "takeWhile (\<lambda>ch. 0 < ch_off ch) xs = []" if "\<forall>ch \<in> set xs. ch_off ch = 0" for xs :: "evbuffer_chain list"
    using that by (cases xs) auto
  show "read_inv b'" "contents b' = contents b @ t"
  proof (atomize (full), cases "t = []")
    case True
    then have same: "read_inv (set_chain b c ch)" "contents (set_chain b c ch) = contents b"
      using read_inv_upd [OF inv c(1), of ch] ch by simp_all
    then have "\<forall>ch \<in> set (drop (Suc ?l) ?cs). ch_off ch = 0" by (simp add: read_inv_def)
    then have "last_with_datap b' = ?l" using adv none by simp
    with same True show "read_inv b' \<and> contents b' = contents b @ t" using ch' by (simp add: read_inv_def contents_def)
  next
    case False
    have lwd: "last_with_datap b' = c + 0"
      using c(2)
    proof
      assume "c = ?l"
      then have "drop (Suc ?l) ?cs = drop (Suc ?l) (chains b)" by (simp add: drop_update_cancel)
      then show ?thesis using adv none [OF z(1)] \<open>c = ?l\<close> by simp
    next
      assume e: "c = Suc ?l"
      then have "drop (Suc ?l) ?cs = ch # drop (Suc c) (chains b)" using cs c(1) by simp
      then show ?thesis using adv none [OF zc] False ch(3) e by simp
    qed
    have "filled (drop c (chains b)) t (ch # drop (Suc c) (chains b)) 0"
      unfolding Cons_nth_drop_Suc [OF c(1), symmetric] using ch False zc inv
      by (intro filled_Cons_last) (auto simp: read_inv_def list_all_iff dest: in_set_dropD)
    then show "read_inv b' \<and> contents b' = contents b @ t"
      using read_inv_filled [OF inv less_imp_le [OF c(1)] _ len, of "ch # drop (Suc c) (chains b)" 0 b'] ch' cs lwd by simp
  qed
qed

lemma read_inv_callbacks [simp]: "read_inv (evbuffer_invoke_callbacks b) = read_inv b"
  by (simp add: read_inv_def)

lemma alloc_refused_small: "alloc_refused mal n \<Longrightarrow> n \<le> 2147479551 \<Longrightarrow> \<exists>k. mal k = None"
  by (auto simp: alloc_refused_def cfg_defs)

lemma vprintf_round:
  assumes hs: "has_space buf b c 1" and t: "out = Some t" "length t \<le> 2147479550" "total_len buf + length t \<le> EV_SIZE_MAX"
  obtains (fits) b' where "vprintf_loop mal out b c = Some (int (length t), b')" "read_inv b'" "same_ctl buf b'" "contents b' = contents buf @ t"
  | (more) b1 where "length t \<ge> CHAIN_SPACE_LEN (chains b ! c)" "read_inv b1" "same_ctl buf b1" "contents b1 = contents buf" "total_len b1 = total_len buf"
    "vprintf_loop mal out b c = do {
       (r, buf2) \<leftarrow> evbuffer_expand_singlechain mal b1 (length t + 1);
       case r of None \<Rightarrow> Some (-1, buf2) | Some c2 \<Rightarrow> vprintf_loop mal out buf2 c2 }"
proof -
  let ?ch = "chains b ! c"
  have h: "read_inv b" "contents b = contents buf" "same_ctl buf b" "total_len b = total_len buf" "c < length (chains b)" "0 < CHAIN_SPACE_LEN ?ch"
    using hs by (auto simp: has_space_def)
  have ok: "chain_ok ?ch" using h(1,5) by (simp add: read_inv_def list_all_length)
  obtain sz mem where v: "evutil_vsnprintf (ch_buffer ?ch) (ch_misalign ?ch + ch_off ?ch) (CHAIN_SPACE_LEN ?ch) out = Some (sz, mem)"
    "printed ?ch mem out sz" by (rule evutil_vsnprintf_ok [OF ok h(6)])
  have it: "int (length t) \<le> INT_MAX" using t(2) by (simp add: cfg_defs)
  then have sz: "sz = int (length t)" using v(2) t(1) by (simp add: printed_def)
  note pc = printed_chain [OF ok v(2)]
  have big: "\<not> EVBUFFER_CHAIN_MAX \<le> length t" using t(2) by (simp add: cfg_defs)
  show ?thesis
  proof (cases "length t < CHAIN_SPACE_LEN ?ch")
    case True
    let ?c2 = "?ch\<lparr>ch_buffer := mem, ch_off := ch_off ?ch + length t\<rparr>"
    let ?b = "advance_last_with_data (added (set_chain b c ?c2) (length t))"
    have eq: "vprintf_loop mal out b c = Some (int (length t), evbuffer_invoke_callbacks ?b)"
      using v(1) sz big True h(5) by (subst vprintf_loop.simps) (simp add: Let_def)
    have "read_inv ?b" "contents ?b = contents b @ t" "same_ctl b ?b"
      using text_in_chain [OF hs, of t ?c2] t(3) h(4) pc(4) [OF t(1) it True] by auto
    with h(2) same_ctl_trans [OF h(3), of ?b] show ?thesis by (intro fits [OF eq]) simp_all
  next
    case False
    let ?b1 = "set_chain b c (?ch\<lparr>ch_buffer := mem\<rparr>)"
    have "vprintf_loop mal out b c = do {
       (r, buf2) \<leftarrow> evbuffer_expand_singlechain mal ?b1 (length t + 1);
       case r of None \<Rightarrow> Some (-1, buf2) | Some c2 \<Rightarrow> vprintf_loop mal out buf2 c2 }"
      using v(1) sz big False h(5) by (subst vprintf_loop.simps) (simp add: Let_def)
    moreover have "read_inv ?b1" "contents ?b1 = contents b"
      using read_inv_upd [OF h(1,5) pc(1)] pc(2) by simp_all
    ultimately show ?thesis using more [of ?b1] False h by simp
  qed
qed

lemma has_space_mono: "has_space buf b c n \<Longrightarrow> m \<le> n \<Longrightarrow> has_space buf b c m"
  by (simp add: has_space_def)

lemma has_space_trans:
  "has_space b1 b c n \<Longrightarrow> contents b1 = contents buf \<Longrightarrow> same_ctl buf b1 \<Longrightarrow> total_len b1 = total_len buf \<Longrightarrow> has_space buf b c n"
  by (auto simp: has_space_def intro: same_ctl_trans)

lemma vprintf_text:
  assumes mal: "malloc_spec mal" and inv: "read_inv buf" and fr: "\<not> freeze_end buf"
    and t: "length t \<le> 2147479550" "total_len buf + length t \<le> EV_SIZE_MAX"
  shows "\<exists>rc b. evbuffer_add_vprintf mal buf (Some t) = Some (rc, b) \<and> read_inv b \<and> same_ctl buf b \<and>
     (rc = int (length t) \<and> contents b = contents buf @ t \<or>
      rc = -1 \<and> contents b = contents buf \<and> (\<exists>k. mal k = None))"
proof -
  have "single_expanded mal buf 64 (evbuffer_expand_singlechain mal buf 64)"
    by (rule evbuffer_expand_singlechain_ok [OF mal inv]) simp
  then obtain r b where e: "evbuffer_expand_singlechain mal buf 64 = Some (r, b)"
    "case r of None \<Rightarrow> b = buf \<and> alloc_refused mal 64 | Some c \<Rightarrow> has_space buf b c 64" unfolding single_expanded_def by blast
  show ?thesis
  proof (cases r)
    case None
    then show ?thesis using e fr inv alloc_refused_small [of mal 64] by (auto simp: evbuffer_add_vprintf_def)
  next
    case (Some c)
    then have eq: "evbuffer_add_vprintf mal buf (Some t) = vprintf_loop mal (Some t) b c" using e(1) fr by (simp add: evbuffer_add_vprintf_def)
    have hs: "has_space buf b c 1" using e(2) Some has_space_mono by fastforce
    show ?thesis
    proof (cases rule: vprintf_round [OF hs refl t, of mal, case_names fits more])
      case (fits b')
      then show ?thesis using eq by auto
    next
      case (more b1)
      have "single_expanded mal b1 (length t + 1) (evbuffer_expand_singlechain mal b1 (length t + 1))"
        using t(1) by (intro evbuffer_expand_singlechain_ok [OF mal more(2)]) simp
      then obtain r2 b2 where e2: "evbuffer_expand_singlechain mal b1 (length t + 1) = Some (r2, b2)"
        "case r2 of None \<Rightarrow> b2 = b1 \<and> alloc_refused mal (length t + 1) | Some c \<Rightarrow> has_space b1 b2 c (length t + 1)"
        unfolding single_expanded_def by blast
      show ?thesis
      proof (cases r2)
        case None
        then show ?thesis using eq more e2 alloc_refused_small [of mal "length t + 1"] t(1) by auto
      next
        case (Some c2)
        then have h2: "has_space buf b2 c2 (length t + 1)" using e2(2) has_space_trans more(3-5) by auto
        have h1: "has_space buf b2 c2 1" by (rule has_space_mono [OF h2]) simp
        show ?thesis
        proof (cases rule: vprintf_round [OF h1 refl t, of mal, case_names fits more])
          case (fits b')
          then show ?thesis using eq more(6) e2(1) Some by auto
        next
          case (more b3)
          then show ?thesis using h2 by (simp add: has_space_def)
        qed
      qed
    qed
  qed
qed

lemma vprintf_error:
  assumes mal: "malloc_spec mal" and inv: "read_inv buf" and fr: "\<not> freeze_end buf"
  shows "\<exists>b. evbuffer_add_vprintf mal buf None = Some (-1, b) \<and> read_inv b \<and> same_ctl buf b \<and> contents b = contents buf"
proof -
  have "single_expanded mal buf 64 (evbuffer_expand_singlechain mal buf 64)"
    by (rule evbuffer_expand_singlechain_ok [OF mal inv]) simp
  then obtain r b where e: "evbuffer_expand_singlechain mal buf 64 = Some (r, b)"
    "case r of None \<Rightarrow> b = buf \<and> alloc_refused mal 64 | Some c \<Rightarrow> has_space buf b c 64" unfolding single_expanded_def by blast
  show ?thesis
  proof (cases r)
    case None
    then show ?thesis using e fr inv by (auto simp: evbuffer_add_vprintf_def)
  next
    case (Some c)
    let ?ch = "chains b ! c"
    have h: "read_inv b" "contents b = contents buf" "same_ctl buf b" "c < length (chains b)" "0 < CHAIN_SPACE_LEN ?ch"
      using e(2) Some has_space_mono by (auto simp: has_space_def)
    have ok: "chain_ok ?ch" using h(1,4) by (simp add: read_inv_def list_all_length)
    obtain sz mem where v: "evutil_vsnprintf (ch_buffer ?ch) (ch_misalign ?ch + ch_off ?ch) (CHAIN_SPACE_LEN ?ch) None = Some (sz, mem)"
      "printed ?ch mem None sz" by (rule evutil_vsnprintf_ok [OF ok h(5)])
    have "sz = -1" using v(2) by (simp add: printed_def)
    then have "evbuffer_add_vprintf mal buf None = Some (-1, set_chain b c (?ch\<lparr>ch_buffer := mem\<rparr>))"
      using e(1) fr Some v(1) h(4) by (simp add: evbuffer_add_vprintf_def vprintf_loop.simps [of mal None b c])
    moreover have "read_inv (set_chain b c (?ch\<lparr>ch_buffer := mem\<rparr>))" "contents (set_chain b c (?ch\<lparr>ch_buffer := mem\<rparr>)) = contents b"
      using read_inv_upd [OF h(1,4) printed_chain(1) [OF ok v(2)]] printed_chain(2) [OF ok v(2)] by simp_all
    ultimately show ?thesis using h(2,3) by simp
  qed
qed

text \<open>
  C15. \<open>evbuffer_add_vprintf\<close> on a buffer whose \<open>last_with_datap\<close> is exact (\<^const>\<open>read_inv\<close>), whose end is not frozen and
  whose length does not overflow, ends after at most two rounds. It appends exactly the text without its terminating zero and returns
  its length, or returns -1 with the bytes unchanged when memory is refused; when \<open>vsnprintf\<close> reports an error (no text) it returns
  -1 with the bytes unchanged. Without an exact \<open>last_with_datap\<close> the text may go elsewhere, as the next section shows.
\<close>

theorem evbuffer_add_vprintf_appends:
  assumes "malloc_spec mal" "read_inv buf" "\<not> freeze_end buf"
    and "\<And>t. out = Some t \<Longrightarrow> length t \<le> 2147479550 \<and> total_len buf + length t \<le> EV_SIZE_MAX"
  shows "\<exists>rc b. evbuffer_add_vprintf mal buf out = Some (rc, b) \<and> read_inv b \<and> same_ctl buf b \<and>
     (case out of
        None \<Rightarrow> rc = -1 \<and> contents b = contents buf
      | Some t \<Rightarrow> rc = int (length t) \<and> contents b = contents buf @ t \<or> rc = -1 \<and> contents b = contents buf \<and> (\<exists>k. mal k = None))"
  using vprintf_error [OF assms(1-3)] vprintf_text [OF assms(1-3)] assms(4) by (cases out) auto

theorem evbuffer_add_vprintf_appends_witness:
  "\<exists>b. evbuffer_add_vprintf zalloc evbuffer_new (Some [72, 105]) = Some (2, b) \<and> contents b = [72, 105]"
  using evbuffer_add_vprintf_appends [OF zalloc_spec(1) read_inv_new, of "Some [72, 105]"] by (auto simp: cfg_defs zalloc_def)

section \<open>Space asked for, bytes added, text printed\<close>

text \<open>
  \<open>evbuffer_expand\<close> leaves an empty chain at the end, \<open>evbuffer_add\<close> fills it without moving
  \<open>last_with_datap\<close>, and \<open>evbuffer_add_vprintf\<close> then writes into the free space of the chain before it.
\<close>

definition expand_add_print :: "byte list \<Rightarrow> byte list \<Rightarrow> byte list \<Rightarrow> (int \<times> int \<times> int \<times> int \<times> evbuffer) option" where
  "expand_add_print d1 d2 t = do {
     (r1, b1) \<leftarrow> evbuffer_add zalloc evbuffer_new d1;
     (r2, b2) \<leftarrow> evbuffer_expand zalloc b1 600;
     (r3, b3) \<leftarrow> evbuffer_add zalloc b2 d2;
     (r4, b4) \<leftarrow> evbuffer_add_vprintf zalloc b3 (Some t);
     Some (r1, r2, r3, r4, b4)
   }"

lemma zalloc_chain_1000: "evbuffer_chain_new zalloc 600 = Some (blk (replicate 1000 0) 0)"
proof -
  have "next_alloc 512 624 = 1024" by (subst next_alloc.simps, simp, subst next_alloc.simps, simp)
  then show ?thesis by (simp add: evbuffer_chain_new_def zalloc_def blk_def cfg_defs)
qed

lemma add_last_blank:
  assumes "length e \<le> N" "N \<le> 1000" "n \<le> 100"
  shows "evbuffer_add_last zalloc (evbuffer_new\<lparr>chains := cs @ [blk (replicate N 0) 0], total_len := n\<rparr>) e =
     Some (0, evbuffer_new\<lparr>chains := cs @ [blk (e @ replicate (N - length e) 0) (length e)], total_len := n + length e\<rparr>)"
proof -
  have w: "mem_write (replicate N 0) 0 e = Some (e @ replicate (N - length e) 0)" using assms by (simp add: mem_write_def)
  have sz: "szadd n (length e) = n + length e" "szsub (szsub N 0) 0 = N" using assms by simp_all
  have "evbuffer_add_last zalloc (evbuffer_new\<lparr>chains := cs @ [blk (replicate N 0) 0], total_len := n\<rparr>) e =
    Some (0, evbuffer_invoke_callbacks (added (set_last (evbuffer_new\<lparr>chains := cs @ [blk (replicate N 0) 0], total_len := n\<rparr>)
      (blk (e @ replicate (N - length e) 0) (length e))) (length e)))"
    using w sz assms by (simp add: evbuffer_add_last_def blk_simps Let_def)
  then show ?thesis using sz by (simp add: set_last_def added_def evbuffer_invoke_callbacks_def evbuffer_new_def)
qed

lemma reorder_1:
  assumes "length d \<le> 100"
  shows "evbuffer_add zalloc evbuffer_new d =
     Some (0, evbuffer_new\<lparr>chains := [blk (d @ replicate (488 - length d) 0) (length d)], total_len := length d\<rparr>)"
proof -
  have "evbuffer_chain_insert evbuffer_new (blk (replicate 488 0) 0) = Some (evbuffer_new\<lparr>chains := [] @ [blk (replicate 488 0) 0], total_len := 0\<rparr>)"
    by (simp add: evbuffer_chain_insert_def blk_simps)
  then show ?thesis
    using zalloc_chain [of "length d"] add_last_blank [of d 488 0 "[]"] assms
    by (simp add: evbuffer_add_def cfg_defs Let_def)
qed

lemma reorder_2:
  assumes "0 < n" "n \<le> 100" "length m = 488"
  shows "evbuffer_expand zalloc (evbuffer_new\<lparr>chains := [blk m n], total_len := n\<rparr>) 600 =
     Some (0, evbuffer_new\<lparr>chains := [blk m n, blk (replicate 1000 0) 0], total_len := n\<rparr>)"
proof -
  let ?b = "evbuffer_new\<lparr>chains := [blk m n], total_len := n\<rparr>"
  have f: "first_space ?b = 0" "ch_flags (blk m n) = 0" using assms by (simp_all add: first_space_def blk_simps) (simp add: blk_def)
  have r: "\<not> evbuffer_chain_should_realign (blk m n) 600" 
  proof -
    have "\<not> 600 \<le> 488 - n" by linarith
    then show ?thesis using assms by (simp add: evbuffer_chain_should_realign_def blk_simps)
  qed
  have "first_victim ?b = 1" using assms by (simp add: first_victim_def blk_simps)
  then have i: "insert_new zalloc ?b 600 = Some (Some 1, evbuffer_new\<lparr>chains := [blk m n, blk (replicate 1000 0) 0], total_len := n\<rparr>)"
    using assms by (simp add: insert_new_def evbuffer_chain_insert_new_def zalloc_chain_1000 evbuffer_chain_insert_def blk_simps)
  have "evbuffer_expand_singlechain zalloc ?b 600 = insert_new zalloc ?b 600"
  proof -
    have "\<not> 600 \<le> 488 - n" "n \<le> EVBUFFER_CHAIN_MAX - 600" "600 < EVBUFFER_CHAIN_MAX" using assms(2) by (simp_all add: cfg_defs)
    then show ?thesis using assms f r by (simp add: evbuffer_expand_singlechain_def blk_simps Let_def)
  qed
  then show ?thesis using i by (simp add: evbuffer_expand_def)
qed

lemma reorder_3:
  assumes "length e \<le> 100" "n \<le> 100"
  shows "evbuffer_add zalloc (evbuffer_new\<lparr>chains := [blk m n, blk (replicate 1000 0) 0], total_len := n\<rparr>) e =
     Some (0, evbuffer_new\<lparr>chains := [blk m n, blk (e @ replicate (1000 - length e) 0) (length e)], total_len := n + length e\<rparr>)"
proof -
  have "\<not> length e > EV_SIZE_MAX - n" using assms unfolding EV_SIZE_MAX_def by linarith
  then show ?thesis using add_last_blank [of e 1000 n "[blk m n]"] assms by (simp add: evbuffer_add_def Let_def)
qed

lemma reorder_4:
  assumes n: "0 < n" "n \<le> 100" "length m = 488" "k \<le> 100" and t: "length t \<le> 100"
  shows "\<exists>mem b. evbuffer_add_vprintf zalloc (evbuffer_new\<lparr>chains := [blk m n, blk m2 k], total_len := n + k\<rparr>) (Some t) = Some (int (length t), b) \<and>
     chains b = [blk mem (n + length t), blk m2 k] \<and> take (n + length t) mem = take n m @ t"
proof -
  let ?b = "evbuffer_new\<lparr>chains := [blk m n, blk m2 k], total_len := n + k\<rparr>"
  have f: "first_space ?b = 0" "ch_flags (blk m n) = 0" using n by (simp_all add: first_space_def blk_simps) (simp add: blk_def)
  have e: "evbuffer_expand_singlechain zalloc ?b 64 = Some (Some 0, ?b)"
  proof -
    have "64 \<le> 488 - n" using n(2) by linarith
    then show ?thesis using n f by (simp add: evbuffer_expand_singlechain_def blk_simps Let_def)
  qed
  have ok: "chain_ok (blk m n)" "CHAIN_SPACE_LEN (blk m n) = 488 - n" using n by (simp_all add: chain_ok_def blk_simps cfg_defs)
  obtain sz mem where v: "evutil_vsnprintf m n (488 - n) (Some t) = Some (sz, mem)" "printed (blk m n) mem (Some t) sz"
    using evutil_vsnprintf_ok [OF ok(1), of "Some t"] ok n by (auto simp: blk_simps)
  have sz: "sz = int (length t)" using v(2) t by (simp add: printed_def cfg_defs)
  have lt: "length t < 488 - n" using t n by linarith
  have "vprintf_loop zalloc (Some t) ?b 0 = Some (int (length t), evbuffer_invoke_callbacks (advance_last_with_data
      (added (set_chain ?b 0 (blk mem (n + length t))) (length t))))"
    using v(1) sz t lt ok(2) by (subst vprintf_loop.simps) (simp add: blk_simps Let_def cfg_defs)
  moreover have "take n mem = take n m" "take (length t) (drop n mem) = t"
    using v(2) sz t lt ok(2) by (auto simp: printed_def blk_simps(4-6) cfg_defs)
  ultimately show ?thesis using e
    by (intro exI [of _ mem]) (simp add: evbuffer_add_vprintf_def take_add advance_last_with_data_def set_chain_def)
qed

text \<open>
  C16. Four calls that all report success, on any short data: add \<open>d1\<close>, ask for space, add \<open>d2\<close>, print \<open>t\<close>.
  The buffer then holds \<open>d1\<close>, \<open>t\<close>, \<open>d2\<close>: the printed text overtook bytes added before it.
\<close>

theorem evbuffer_print_reorders:
  assumes "d1 \<noteq> []" "length d1 \<le> 100" "length d2 \<le> 100" "length t \<le> 100"
  shows "\<exists>b. expand_add_print d1 d2 t = Some (0, 0, 0, int (length t), b) \<and> contents b = d1 @ t @ d2"
proof -
  let ?m = "d1 @ replicate (488 - length d1) 0" and ?m2 = "d2 @ replicate (1000 - length d2) 0"
  have m: "length ?m = 488" using assms(2) by simp
  obtain mem b where b: "evbuffer_add_vprintf zalloc (evbuffer_new\<lparr>chains := [blk ?m (length d1), blk ?m2 (length d2)],
      total_len := length d1 + length d2\<rparr>) (Some t) = Some (int (length t), b)"
    "chains b = [blk mem (length d1 + length t), blk ?m2 (length d2)]" "take (length d1 + length t) mem = d1 @ t"
    using reorder_4 [OF _ assms(2) m assms(3,4), of ?m2] assms(1) by auto
  have "expand_add_print d1 d2 t = Some (0, 0, 0, int (length t), b)"
    using reorder_1 [OF assms(2)] reorder_2 [OF _ assms(2) m] reorder_3 [OF assms(3,2)] b(1) assms(1)
    by (simp add: expand_add_print_def)
  moreover have "contents b = d1 @ t @ d2" using b(2,3) by (simp add: contents_def chain_data_def blk_simps)
  ultimately show ?thesis by blast
qed

theorem evbuffer_print_reorders_witness:
  "\<exists>b. expand_add_print [1] [2] [3] = Some (0, 0, 0, 1, b) \<and> contents b = [1, 3, 2]"
  using evbuffer_print_reorders [of "[1]" "[2]" "[3]"] by simp

end
