(* ===== verification/Tag_Codec.thy ===== *)
theory Tag_Codec
  imports Prelude
begin

text \<open>
  The byte formats of \<^verbatim>\<open>event_tagging.c\<close>: integers by nibbles and tags by groups of seven bits, as
  functions on bytes, and the proofs that decoding undoes encoding.
\<close>

section \<open>Integers by nibbles\<close>

text \<open>
  The loop of \<open>ENCODE_INT_INTERNAL\<close>, at either width: the array and \<open>off\<close> after it. Writing past the
  array is undefined.
\<close>

definition put_nibble :: "byte list \<Rightarrow> nat \<Rightarrow> byte \<Rightarrow> byte list option" where
  "put_nibble data off v =
     (if off div 2 < length data
      then Some (data[off div 2 :=
             (if off mod 2 = 1 then (data ! (off div 2) AND 0xf0) OR (v AND 0x0f)
              else (data ! (off div 2) AND 0x0f) OR push_bit 4 (v AND 0x0f))])
      else None)"

lemma drop_bit_4_less: "number \<noteq> 0 \<Longrightarrow> unat (drop_bit 4 number) < unat number" for number :: "'a::len word"
  by (simp add: unat_drop_bit_eq drop_bit_nat_def word_greater_zero_iff unat_gt_0)

function encode_int_loop :: "'a::len word \<Rightarrow> nat \<Rightarrow> byte list \<Rightarrow> (nat \<times> byte list) option" where
  "encode_int_loop number off data =
     (if number \<noteq> 0 then do {
        data1 \<leftarrow> put_nibble data off (ucast number);
        encode_int_loop (drop_bit 4 number) (Suc off) data1
      }
      else Some (off, data))"
  by pat_completeness auto
termination
  by (relation "measure (\<lambda>(n, off, data). unat n)") (auto intro: drop_bit_4_less)

declare encode_int_loop.simps [simp del]

text \<open>The bytes written, as many as the macro returns.\<close>

definition ENCODE_INT_INTERNAL :: "'a::len word \<Rightarrow> byte list option" where
  "ENCODE_INT_INTERNAL number = do {
     (off, data) \<leftarrow> encode_int_loop number 1 (replicate (LENGTH('a) div 8 + 1) 0);
     let nibbles = (if off > 2 then off - 2 else 0);
     data1 \<leftarrow> put_nibble data 0 (of_nat nibbles);
     Some (take ((off + 1) div 2) data1)
   }"

definition encode_int_internal :: "u32 \<Rightarrow> byte list option" where
  "encode_int_internal number = ENCODE_INT_INTERNAL number"

definition encode_int64_internal :: "u64 \<Rightarrow> byte list option" where
  "encode_int64_internal number = ENCODE_INT_INTERNAL number"

section \<open>Tags\<close>

lemma drop_bit_7_less: "tag \<noteq> 0 \<Longrightarrow> unat (drop_bit 7 tag) < unat tag" for tag :: u32
  by (simp add: unat_drop_bit_eq drop_bit_nat_def word_greater_zero_iff unat_gt_0)

text \<open>The do-while loop of \<open>evtag_encode_tag\<close> on \<open>data[5]\<close>.\<close>

function encode_tag_loop :: "u32 \<Rightarrow> nat \<Rightarrow> byte list \<Rightarrow> (nat \<times> byte list) option" where
  "encode_tag_loop tag bytes data =
     (let lower = ucast tag AND 0x7f;
          tag1 = drop_bit 7 tag
      in do {
        data1 \<leftarrow> upd_opt data bytes (if tag1 \<noteq> 0 then lower OR 0x80 else lower);
        if tag1 \<noteq> 0 then encode_tag_loop tag1 (Suc bytes) data1 else Some (Suc bytes, data1)
      })"
  by pat_completeness auto
termination
  by (relation "measure (\<lambda>(t, b, d). unat t)") (auto intro!: drop_bit_7_less)

declare encode_tag_loop.simps [simp del]

definition encode_tag_bytes :: "u32 \<Rightarrow> byte list option" where
  "encode_tag_bytes tag = do {
     (bytes, data) \<leftarrow> encode_tag_loop tag 0 (replicate 5 0);
     Some (take bytes data)
   }"

text \<open>
  The loop of \<open>decode_tag_internal\<close> over the memory that \<open>evbuffer_pullup\<close> returned: \<open>n\<close> is the
  number of rounds left, \<open>len - count\<close>. A shift by 32 or more and a read past the memory are
  undefined. \<open>Some None\<close>: the bytes ran out before a byte without the high bit. The operand of the
  shift is promoted to a signed \<open>int\<close>; a bit shifted into or past the sign is given the value GCC
  documents for it, the low 32 bits of the product. The C standard leaves that shift undefined:
  \<open>tag_shifts_in_int\<close> below says when it happens.
\<close>

fun decode_tag_loop :: "byte list \<Rightarrow> nat \<Rightarrow> nat \<Rightarrow> nat \<Rightarrow> u32 \<Rightarrow> (nat \<times> u32) option option" where
  "decode_tag_loop m 0 i shift number = Some None"
| "decode_tag_loop m (Suc n) i shift number = do {
     lower \<leftarrow> nth_opt m i;
     ev_assert (shift < 32);
     let number1 = number OR push_bit shift (ucast (lower AND 0x7f));
     if lower AND 0x80 = 0 then Some (Some (Suc i, number1))
     else decode_tag_loop m n (Suc i) (shift + 7) number1
   }"

text \<open>
  The same loop as a test of what the C standard defines: every byte is read inside the memory, and
  every shift is by less than 32 and has a result that an \<open>int\<close> can hold.
\<close>

fun tag_shifts_in_int :: "byte list \<Rightarrow> nat \<Rightarrow> nat \<Rightarrow> nat \<Rightarrow> bool" where
  "tag_shifts_in_int m 0 i shift = True"
| "tag_shifts_in_int m (Suc n) i shift =
     (case nth_opt m i of
        None \<Rightarrow> False
      | Some lower \<Rightarrow> shift < 32 \<and> unat (lower AND 0x7f) * 2 ^ shift < 2 ^ 31 \<and>
          (lower AND 0x80 = 0 \<or> tag_shifts_in_int m n (Suc i) (shift + 7)))"

section \<open>Decoding integers\<close>

text \<open>"while (nibbles > 0)"; the number starts from 0. \<open>m\<close> is the memory behind \<open>data\<close>.\<close>

fun decode_int_loop :: "byte list \<Rightarrow> nat \<Rightarrow> 'a::len word \<Rightarrow> 'a word option" where
  "decode_int_loop m 0 number = Some number"
| "decode_int_loop m (Suc k) number = do {
     b \<leftarrow> nth_opt m (Suc k div 2);
     decode_int_loop m k
       (push_bit 4 number OR
        (if Suc k mod 2 = 1 then ucast (b AND 0x0f) else ucast (drop_bit 4 (b AND 0xf0))))
   }"

section \<open>Integers: decoding undoes encoding\<close>

text \<open>Nibble number \<open>off\<close> of an array, as the macros address it.\<close>

definition get_nibble :: "byte list \<Rightarrow> nat \<Rightarrow> byte" where
  "get_nibble data off =
     (if off mod 2 = 1 then data ! (off div 2) AND 0x0f else drop_bit 4 (data ! (off div 2) AND 0xf0))"

lemma nibble_masks: "(0x0f :: byte) = mask 4" "(0xf0 :: byte) = push_bit 4 (mask 4)"
  by (simp_all add: mask_eq_exp_minus_1 push_bit_eq_mult)

lemma put_nibble_Some:
  assumes "off div 2 < length data"
  obtains data1 where "put_nibble data off v = Some data1" "length data1 = length data"
    "get_nibble data1 off = v AND 0x0f" "\<And>o'. o' \<noteq> off \<Longrightarrow> get_nibble data1 o' = get_nibble data o'"
proof
  define x where "x = (if off mod 2 = 1 then (data ! (off div 2) AND 0xf0) OR (v AND 0x0f)
     else (data ! (off div 2) AND 0x0f) OR push_bit 4 (v AND 0x0f))"
  show "put_nibble data off v = Some (data[off div 2 := x])" using assms by (simp add: put_nibble_def x_def)
  show "length (data[off div 2 := x]) = length data" by simp
  show "get_nibble (data[off div 2 := x]) off = v AND 0x0f"
    using assms unfolding get_nibble_def x_def nibble_masks
    by (auto intro!: bit_word_eqI simp: bit_simps)
  show "get_nibble (data[off div 2 := x]) o' = get_nibble data o'" if "o' \<noteq> off" for o'
  proof (cases "o' div 2 = off div 2")
    case True
    then have "(o' mod 2 = 1) \<noteq> (off mod 2 = 1)" using that by presburger
    with True show ?thesis
      using assms unfolding get_nibble_def x_def nibble_masks
      by (auto intro!: bit_word_eqI simp: bit_simps)
  qed (simp add: get_nibble_def)
qed

text \<open>The nibbles of a number, least significant first, from position \<open>off\<close> on.\<close>

lemma encode_int_loop_ok:
  fixes number :: "'a::len word"
  assumes "unat number < 16 ^ d" "off + d \<le> 2 * length data"
  shows "\<exists>k data'. encode_int_loop number off data = Some (off + k, data') \<and> k \<le> d \<and>
     length data' = length data \<and> (k = 0 \<longleftrightarrow> number = 0) \<and> drop_bit (4 * k) number = 0 \<and>
     (\<forall>j < k. get_nibble data' (off + j) = ucast (drop_bit (4 * j) number) AND 0x0f) \<and>
     (\<forall>o'. o' < off \<or> off + k \<le> o' \<longrightarrow> get_nibble data' o' = get_nibble data o')"
  using assms
proof (induction number off data arbitrary: d rule: encode_int_loop.induct)
  case (1 number off data)
  show ?case
  proof (cases "number = 0")
    case True
    then show ?thesis by (subst encode_int_loop.simps) auto
  next
    case False
    then have d: "d \<noteq> 0" using "1.prems"(1) by (metis less_one power_0 unat_eq_zero)
    then have off: "off div 2 < length data" using "1.prems"(2) by linarith
    obtain data1 where p: "put_nibble data off (ucast number) = Some data1" "length data1 = length data"
      "get_nibble data1 off = ucast number AND 0x0f" "\<And>o'. o' \<noteq> off \<Longrightarrow> get_nibble data1 o' = get_nibble data o'"
      using put_nibble_Some [OF off, of "ucast number"] by blast
    have "unat (drop_bit 4 number) < 16 ^ (d - 1)"
      using "1.prems"(1) d by (cases d) (auto simp: unat_drop_bit_eq drop_bit_nat_def less_mult_imp_div_less mult.commute)
    moreover have "Suc off + (d - 1) \<le> 2 * length data1" using "1.prems"(2) d p(2) by simp
    ultimately obtain k data' where IH:
      "encode_int_loop (drop_bit 4 number) (Suc off) data1 = Some (Suc off + k, data')" "k \<le> d - 1"
      "length data' = length data1" "drop_bit (4 * k) (drop_bit 4 number) = 0"
      "\<forall>j < k. get_nibble data' (Suc off + j) = ucast (drop_bit (4 * j) (drop_bit 4 number)) AND 0x0f"
      "\<forall>o'. o' < Suc off \<or> Suc off + k \<le> o' \<longrightarrow> get_nibble data' o' = get_nibble data1 o'"
      using "1.IH" [OF False p(1), of "d - 1"] by blast
    have "encode_int_loop number off data = Some (off + Suc k, data')"
      using False p(1) IH(1) by (subst encode_int_loop.simps) simp
    moreover have "get_nibble data' (off + j) = ucast (drop_bit (4 * j) number) AND 0x0f" if "j < Suc k" for j
    proof (cases j)
      case 0
      with IH(6) p(3) show ?thesis by simp
    next
      case (Suc i)
      with that IH(5) show ?thesis by (simp add: drop_bit_drop_bit add.commute)
    qed
    ultimately show ?thesis
      using IH d p False
      by (intro exI [of _ "Suc k"] exI [of _ data']) (auto simp: drop_bit_drop_bit add.commute)
  qed
qed

lemma decode_int_loop_ok:
  fixes number :: "'a::len word"
  assumes "n div 2 < length m"
    "\<And>j. j < n \<Longrightarrow> get_nibble m (Suc j) = ucast (drop_bit (4 * j) number) AND 0x0f"
  shows "decode_int_loop m n (drop_bit (4 * n) number) = Some number"
  using assms
proof (induction n)
  case 0
  then show ?case by simp
next
  case (Suc n)
  have "decode_int_loop m (Suc n) (drop_bit (4 * Suc n) number) =
        decode_int_loop m n (push_bit 4 (drop_bit (4 * Suc n) number) OR ucast (get_nibble m (Suc n)))"
    using Suc.prems(1) by (simp add: get_nibble_def)
  also have "push_bit 4 (drop_bit (4 * Suc n) number) OR ucast (get_nibble m (Suc n)) = drop_bit (4 * n) number"
    unfolding Suc.prems(2) [OF lessI] nibble_masks
  proof (rule bit_word_eqI)
    fix i
    have "4 \<le> i \<Longrightarrow> 4 + 4 * n + (i - 4) = 4 * n + i" by simp
    then show "bit (push_bit 4 (drop_bit (4 * Suc n) number) OR ucast (ucast (drop_bit (4 * n) number) AND mask 4 :: byte)) i =
        bit (drop_bit (4 * n) number) i" if "i < LENGTH('a)"
      using that by (cases "4 \<le> i") (auto simp: bit_simps)
  qed
  also have "decode_int_loop m n (drop_bit (4 * n) number) = Some number"
    using Suc by (intro Suc.IH) auto
  finally show ?case .
qed

text \<open>
  The shape of an encoded integer: its first nibble counts the nibbles, less one; the bytes are as
  many as the decoder asks for; and the decoder, run on them, finds the number again.
\<close>

lemma ENCODE_INT_INTERNAL_ok:
  fixes number :: "'a::len word"
  assumes len: "LENGTH('a) = 8 * c" "c \<noteq> 0" "c \<le> 8"
  obtains data n where "ENCODE_INT_INTERNAL number = Some data" "length data = n div 2 + 1" "0 < n" "n \<le> 2 * c"
    "unat (drop_bit 4 (data ! 0 AND 0xf0)) + 1 = n"
    "\<forall>rest. decode_int_loop (data @ rest) n 0 = Some number"
proof -
  let ?z = "replicate (LENGTH('a) div 8 + 1) (0::byte)"
  have "unat number < 2 ^ (8 * c)" using unsigned_less [of number, where ?'a=nat] by (simp add: len)
  also have "(2::nat) ^ (8 * c) = 16 ^ (2 * c)" by (simp add: power_mult [symmetric] power_mult)
  finally have lt: "unat number < 16 ^ (2 * c)" .
  have room: "1 + 2 * c \<le> 2 * length ?z" by (simp add: len)
  obtain k data where e: "encode_int_loop number 1 ?z = Some (1 + k, data)" "k \<le> 2 * c" "length data = c + 1"
    "k = 0 \<longleftrightarrow> number = 0" "drop_bit (4 * k) number = 0"
    "\<forall>j < k. get_nibble data (1 + j) = ucast (drop_bit (4 * j) number) AND 0x0f"
    "\<forall>o'. o' < 1 \<or> 1 + k \<le> o' \<longrightarrow> get_nibble data o' = get_nibble ?z o'"
    using encode_int_loop_ok [OF lt room] len by auto
  define n where "n = max k 1"
  have "0 div 2 < length data" using e(3) by simp
  then obtain data1 where p: "put_nibble data 0 (of_nat (n - 1)) = Some data1" "length data1 = length data"
    "get_nibble data1 0 = of_nat (n - 1) AND 0x0f" "\<And>o'. o' \<noteq> 0 \<Longrightarrow> get_nibble data1 o' = get_nibble data o'"
    using put_nibble_Some [of 0 data "of_nat (n - 1)"] by blast
  have n: "0 < n" "n \<le> 2 * c" "n - 1 < 16" "(1 + k + 1) div 2 = n div 2 + 1" "n div 2 + 1 \<le> c + 1"
    using e(2) len(2,3) by (auto simp: n_def)
  have off: "(if 1 + k > 2 then 1 + k - 2 else 0) = n - 1" by (auto simp: n_def)
  define out where "out = take (n div 2 + 1) data1"
  have lo: "length out = n div 2 + 1" using p(2) e(3) n(5) by (simp add: out_def)
  have "ENCODE_INT_INTERNAL number = Some out"
    by (simp only: ENCODE_INT_INTERNAL_def e(1) bind.bind_lunit prod.case Let_def off p(1) n(4) out_def)
  moreover have "unat (drop_bit 4 (out ! 0 AND 0xf0)) + 1 = n"
  proof -
    have "drop_bit 4 (out ! 0 AND 0xf0) = (of_nat (n - 1) AND 0x0f :: byte)"
      using p(3) by (simp add: get_nibble_def out_def)
    also have "\<dots> = of_nat (n - 1)"
      using n(3) by (simp add: nibble_masks(1) take_bit_eq_mask [symmetric] take_bit_of_nat take_bit_nat_eq_self)
    finally have e: "drop_bit 4 (out ! 0 AND 0xf0) = of_nat (n - 1)" .
    have "unat (of_nat (n - 1) :: byte) = n - 1" using n(3) by (simp only: unat_of_nat) simp
    then show ?thesis unfolding e using n(1) by simp
  qed
  moreover have "decode_int_loop (out @ rest) n 0 = Some number" for rest
  proof -
    have g: "get_nibble (out @ rest) (Suc j) = ucast (drop_bit (4 * j) number) AND 0x0f" if "j < n" for j
    proof -
      have "Suc j div 2 < length out" using that lo by linarith
      then have "get_nibble (out @ rest) (Suc j) = get_nibble data1 (Suc j)"
        by (simp add: get_nibble_def nth_append out_def)
      also have "\<dots> = get_nibble data (1 + j)" using p(4) [of "Suc j"] by simp
      finally show ?thesis
        using that e(4,6,7) by (cases "k = 0") (auto simp: n_def get_nibble_def)
    qed
    have "k \<noteq> 0 \<Longrightarrow> n = k" by (simp add: n_def)
    then have "drop_bit (4 * n) number = 0" using e(4,5) by (cases "k = 0") auto
    with decode_int_loop_ok [of n "out @ rest" number] g lo show ?thesis by simp
  qed
  ultimately show ?thesis using that [of out n] lo n by blast
qed

section \<open>Tags: decoding undoes encoding\<close>

text \<open>What the encoder's loop leaves in the array, as a list of bytes.\<close>

function tag_groups :: "u32 \<Rightarrow> byte list" where
  "tag_groups tag =
     (if drop_bit 7 tag \<noteq> 0 then ((ucast tag AND 0x7f) OR 0x80) # tag_groups (drop_bit 7 tag)
      else [ucast tag AND 0x7f])"
  by pat_completeness auto
termination
  by (relation "measure unat") (auto intro!: drop_bit_7_less)

declare tag_groups.simps [simp del]

lemma tag_groups_len:
  "unat tag < 128 ^ d \<Longrightarrow> 0 < d \<Longrightarrow> length (tag_groups tag) \<le> d"
proof (induction tag arbitrary: d rule: tag_groups.induct)
  case (1 tag)
  show ?case
  proof (cases "drop_bit 7 tag = 0")
    case True
    with "1.prems" show ?thesis by (subst tag_groups.simps) simp
  next
    case False
    have "unat (drop_bit 7 tag) < 128 ^ (d - 1)"
      using "1.prems" by (cases d) (auto simp: unat_drop_bit_eq drop_bit_nat_def less_mult_imp_div_less mult.commute)
    moreover from this have "0 < d - 1" using False by (metis gr_zeroI less_one power_0 unat_eq_zero)
    ultimately have "length (tag_groups (drop_bit 7 tag)) \<le> d - 1" using "1.IH" [OF False] by blast
    with False "1.prems" show ?thesis by (subst tag_groups.simps) simp
  qed
qed

lemma encode_tag_loop_ok:
  "bytes + length (tag_groups tag) \<le> length data \<Longrightarrow>
   \<exists>data'. encode_tag_loop tag bytes data = Some (bytes + length (tag_groups tag), data') \<and>
     length data' = length data \<and> take bytes data' = take bytes data \<and>
     take (length (tag_groups tag)) (drop bytes data') = tag_groups tag"
proof (induction tag bytes data rule: encode_tag_loop.induct)
  case (1 tag bytes data)
  let ?low = "ucast tag AND 0x7f :: byte"
  show ?case
  proof (cases "drop_bit 7 tag = 0")
    case True
    then have g: "tag_groups tag = [?low]" by (subst tag_groups.simps) simp
    then have lt: "bytes < length data" using "1.prems" by simp
    then have "drop bytes (data[bytes := ?low]) = ?low # drop (Suc bytes) data"
      by (metis Cons_nth_drop_Suc drop_update_cancel length_list_update lessI nth_list_update_eq)
    with lt g True show ?thesis
      by (subst encode_tag_loop.simps) (auto intro!: exI [of _ "data[bytes := ?low]"])
  next
    case False
    let ?b = "?low OR 0x80"
    have g: "tag_groups tag = ?b # tag_groups (drop_bit 7 tag)" using False by (subst tag_groups.simps) simp
    have lt: "bytes < length data" using "1.prems" g by simp
    then have up: "upd_opt data bytes (if drop_bit 7 tag \<noteq> 0 then ?b else ?low) = Some (data[bytes := ?b])"
      using False by simp
    obtain data' where d: "encode_tag_loop (drop_bit 7 tag) (Suc bytes) (data[bytes := ?b]) =
        Some (Suc bytes + length (tag_groups (drop_bit 7 tag)), data')"
      "length data' = length data" "take (Suc bytes) data' = take (Suc bytes) (data[bytes := ?b])"
      "take (length (tag_groups (drop_bit 7 tag))) (drop (Suc bytes) data') = tag_groups (drop_bit 7 tag)"
      using "1.IH" [OF refl refl up False] "1.prems" g by auto
    have "encode_tag_loop tag bytes data = Some (bytes + length (tag_groups tag), data')"
      using False up d(1) g by (subst encode_tag_loop.simps) (simp add: Let_def)
    moreover have "take bytes data' = take bytes data"
      using arg_cong [OF d(3), of "take bytes"] by (simp add: min_def)
    moreover have "drop bytes data' = ?b # drop (Suc bytes) data'"
      using lt d(2,3) by (metis Cons_nth_drop_Suc lessI nth_list_update_eq nth_take)
    ultimately show ?thesis using d g by auto
  qed
qed

lemma encode_tag_bytes_eq: "encode_tag_bytes tag = Some (tag_groups tag)" and tag_groups_le5: "length (tag_groups tag) \<le> 5"
proof -
  have "unat tag < 2 ^ 32" using unsigned_less [of tag, where ?'a=nat] by simp
  then show len: "length (tag_groups tag) \<le> 5" by (intro tag_groups_len) simp_all
  then have "0 + length (tag_groups tag) \<le> length (replicate 5 (0::byte))" by simp
  from encode_tag_loop_ok [OF this] show "encode_tag_bytes tag = Some (tag_groups tag)"
    by (auto simp: encode_tag_bytes_def)
qed

lemma decode_tag_loop_groups:
  "length (tag_groups tag) \<le> n \<Longrightarrow> shift + 7 * length (tag_groups tag) < 39 \<Longrightarrow>
   drop i m = tag_groups tag @ rest \<Longrightarrow>
   decode_tag_loop m n i shift number =
     Some (Some (i + length (tag_groups tag), number OR push_bit shift tag))"
proof (induction tag arbitrary: n i shift number rule: tag_groups.induct)
  case (1 tag)
  let ?low = "ucast tag AND 0x7f :: byte"
  have masks: "(0x7f :: byte) = mask 7" "(0x80 :: byte) = push_bit 7 1"
    by (simp_all add: mask_eq_exp_minus_1 push_bit_eq_mult)
  obtain n' where n: "n = Suc n'" using "1.prems"(1) by (cases n) (auto simp: tag_groups.simps [of tag] split: if_splits)
  have m: "i < length m" "m ! i = hd (tag_groups tag)" "drop (Suc i) m = tl (tag_groups tag) @ rest"
  proof -
    have ne: "tag_groups tag \<noteq> []" by (subst tag_groups.simps) simp
    then show i: "i < length m" using "1.prems"(3) by (metis append_is_Nil_conv drop_eq_Nil not_le)
    show "m ! i = hd (tag_groups tag)" using "1.prems"(3) ne i by (metis hd_append2 hd_drop_conv_nth)
    show "drop (Suc i) m = tl (tag_groups tag) @ rest" using "1.prems"(3) ne by (metis drop_Suc tl_append2 tl_drop)
  qed
  show ?case
  proof (cases "drop_bit 7 tag = 0")
    case True
    then have g: "tag_groups tag = [?low]" by (subst tag_groups.simps) simp
    have "ucast (?low AND 0x7f) = tag"
    proof (rule bit_word_eqI)
      fix k
      have "7 \<le> k \<Longrightarrow> \<not> bit tag k" using arg_cong [OF True, of "\<lambda>w. bit w (k - 7)"] by (simp add: bit_simps)
      then show "bit (ucast (?low AND 0x7f) :: u32) k = bit tag k" if "k < LENGTH(32)"
        unfolding masks using that by (cases "7 \<le> k") (auto simp: bit_simps)
    qed
    moreover have "?low AND 0x80 = 0" by (simp add: and.assoc)
    moreover have "shift < 32" using "1.prems"(2) g by simp
    ultimately show ?thesis using n m(1,2) g by simp
  next
    case False
    let ?b = "?low OR 0x80" and ?t = "drop_bit 7 tag"
    have g: "tag_groups tag = ?b # tag_groups ?t" using False by (subst tag_groups.simps) simp
    have low: "?b AND 0x7f = ?low" by (simp add: bit.conj_disj_distrib2 and.assoc)
    have "bit (?b AND 0x80) 7" unfolding masks by (simp add: bit_simps)
    then have hi: "?b AND 0x80 \<noteq> 0" by (metis bit_0_eq bot2E bot_apply)
    have "decode_tag_loop m n i shift number =
          decode_tag_loop m n' (Suc i) (shift + 7) (number OR push_bit shift (ucast ?low))"
      using n m(1,2) g hi "1.prems"(2) by (simp add: low)
    also have "\<dots> = Some (Some (Suc i + length (tag_groups ?t),
        (number OR push_bit shift (ucast ?low)) OR push_bit (shift + 7) ?t))"
      using "1.prems" n g m(3) by (intro "1.IH" [OF False]) simp_all
    also have "(number OR push_bit shift (ucast ?low)) OR push_bit (shift + 7) ?t =
        number OR push_bit shift tag"
    proof (rule bit_word_eqI)
      fix k
      have "shift + 7 \<le> k \<Longrightarrow> 7 + (k - (shift + 7)) = k - shift" by simp
      then show "bit ((number OR push_bit shift (ucast ?low)) OR push_bit (shift + 7) ?t) k =
          bit (number OR push_bit shift tag) k" if "k < LENGTH(32)"
        unfolding masks using that by (cases "shift + 7 \<le> k") (auto simp: bit_simps)
    qed
    finally show ?thesis by (simp add: g)
  qed
qed

end
