(* ===== verification/Tagging.thy ===== *)
theory Tagging
  imports Evbuffer_Move Tag_Codec
begin

text \<open>
  Tagged data on buffers, \<^verbatim>\<open>event_tagging.c\<close>: variable length tags, integers by nibbles, and the
  marshalling of strings, integers, times and buffers on top of \<open>evbuffer_add\<close>, \<open>evbuffer_pullup\<close>
  and \<open>evbuffer_drain\<close>. An output parameter that the code writes only on success is an \<open>option\<close>.
\<close>

section \<open>Tags and integers on buffers\<close>

definition evtag_encode_int :: "malloc \<Rightarrow> evbuffer \<Rightarrow> u32 \<Rightarrow> evbuffer option" where
  "evtag_encode_int mal evbuf number = do {
     data \<leftarrow> encode_int_internal number;
     (rc, evbuf1) \<leftarrow> evbuffer_add mal evbuf data;
     Some evbuf1
   }"

definition evtag_encode_int64 :: "malloc \<Rightarrow> evbuffer \<Rightarrow> u64 \<Rightarrow> evbuffer option" where
  "evtag_encode_int64 mal evbuf number = do {
     data \<leftarrow> encode_int64_internal number;
     (rc, evbuf1) \<leftarrow> evbuffer_add mal evbuf data;
     Some evbuf1
   }"

text \<open>\<open>evbuf\<close> may be NULL.\<close>

definition evtag_encode_tag :: "malloc \<Rightarrow> evbuffer option \<Rightarrow> u32 \<Rightarrow> (int \<times> evbuffer option) option" where
  "evtag_encode_tag mal evbuf tag = do {
     data \<leftarrow> encode_tag_bytes tag;
     evbuf1 \<leftarrow> (case evbuf of
                  None \<Rightarrow> Some None
                | Some b \<Rightarrow> do { (rc, b1) \<leftarrow> evbuffer_add mal b data; Some (Some b1) });
     Some (int (length data), evbuf1)
   }"

definition decode_tag_internal :: "malloc \<Rightarrow> evbuffer \<Rightarrow> bool \<Rightarrow> (int \<times> u32 option \<times> evbuffer) option" where
  "decode_tag_internal mal evbuf dodrain = do {
     let len = evbuffer_get_length evbuf;
     (p, evbuf1) \<leftarrow> evbuffer_pullup mal evbuf (if len < 5 then int len else 5);
     case p of
       None \<Rightarrow> Some (-1, None, evbuf1)
     | Some m \<Rightarrow> do {
         r \<leftarrow> decode_tag_loop m len 0 0 0;
         case r of
           None \<Rightarrow> Some (-1, None, evbuf1)
         | Some (count, number) \<Rightarrow> do {
             evbuf2 \<leftarrow> (if dodrain then map_option snd (evbuffer_drain evbuf1 count) else Some evbuf1);
             Some (if int count > INT_MAX then INT_MAX else int count, Some number, evbuf2)
           }
       }
   }"

text \<open>\<open>decode_tag_internal\<close> as the C standard reads it: a shift that does not fit an \<open>int\<close> is undefined too.\<close>

definition decode_tag_internal_iso :: "malloc \<Rightarrow> evbuffer \<Rightarrow> bool \<Rightarrow> (int \<times> u32 option \<times> evbuffer) option" where
  "decode_tag_internal_iso mal evbuf dodrain = do {
     let len = evbuffer_get_length evbuf;
     (p, evbuf1) \<leftarrow> evbuffer_pullup mal evbuf (if len < 5 then int len else 5);
     ev_assert (case p of None \<Rightarrow> True | Some m \<Rightarrow> tag_shifts_in_int m len 0 0);
     decode_tag_internal mal evbuf dodrain
   }"

definition evtag_decode_tag :: "malloc \<Rightarrow> evbuffer \<Rightarrow> (int \<times> u32 option \<times> evbuffer) option" where
  "evtag_decode_tag mal evbuf = decode_tag_internal mal evbuf True"

definition evtag_peek :: "malloc \<Rightarrow> evbuffer \<Rightarrow> (int \<times> u32 option \<times> evbuffer) option" where
  "evtag_peek mal evbuf = decode_tag_internal mal evbuf False"

section \<open>Decoding integers\<close>

text \<open>
  \<open>evbuffer_pullup(...) + offset\<close>: a NULL result is only noticed when \<open>offset\<close> is 0; otherwise the
  pointer is dereferenced.
\<close>

definition pullup_at :: "malloc \<Rightarrow> evbuffer \<Rightarrow> nat \<Rightarrow> nat \<Rightarrow> (byte list option \<times> evbuffer) option" where
  "pullup_at mal evbuf n offset = do {
     (p, evbuf1) \<leftarrow> evbuffer_pullup mal evbuf (int n);
     case p of
       None \<Rightarrow> (if offset = 0 then Some (None, evbuf1) else None)
     | Some m \<Rightarrow> Some (Some (drop offset m), evbuf1)
   }"

definition DECODE_INT_INTERNAL ::
    "nat \<Rightarrow> malloc \<Rightarrow> evbuffer \<Rightarrow> nat \<Rightarrow> (int \<times> 'a::len word option \<times> evbuffer) option" where
  "DECODE_INT_INTERNAL maxnibbles mal evbuf offset =
     (let len = to_int32 (szsub (evbuffer_get_length evbuf) offset) in
      if len \<le> 0 then Some (-1, None, evbuf)
      else do {
        (p, evbuf1) \<leftarrow> pullup_at mal evbuf (offset + 1) offset;
        case p of
          None \<Rightarrow> Some (-1, None, evbuf1)
        | Some data \<Rightarrow> do {
            b0 \<leftarrow> nth_opt data 0;
            let nibbles = unat (drop_bit 4 (b0 AND 0xf0)) + 1;
            if nibbles > maxnibbles \<or> int (nibbles div 2 + 1) > len then Some (-1, None, evbuf1)
            else do {
              let len1 = nibbles div 2 + 1;
              (p2, evbuf2) \<leftarrow> pullup_at mal evbuf1 (offset + len1) offset;
              case p2 of
                None \<Rightarrow> Some (-1, None, evbuf2)
              | Some data2 \<Rightarrow> do {
                  number \<leftarrow> decode_int_loop data2 nibbles 0;
                  Some (int len1, Some number, evbuf2)
                }
            }
          }
      })"

definition decode_int_internal :: "malloc \<Rightarrow> evbuffer \<Rightarrow> nat \<Rightarrow> (int \<times> u32 option \<times> evbuffer) option" where
  "decode_int_internal = DECODE_INT_INTERNAL 8"

definition decode_int64_internal :: "malloc \<Rightarrow> evbuffer \<Rightarrow> nat \<Rightarrow> (int \<times> u64 option \<times> evbuffer) option" where
  "decode_int64_internal = DECODE_INT_INTERNAL 16"

definition evtag_decode_int :: "malloc \<Rightarrow> evbuffer \<Rightarrow> (int \<times> u32 option \<times> evbuffer) option" where
  "evtag_decode_int mal evbuf = do {
     (res, num, evbuf1) \<leftarrow> decode_int_internal mal evbuf 0;
     if res \<noteq> -1 then do {
       (rc, evbuf2) \<leftarrow> evbuffer_drain evbuf1 (nat res);
       Some (0, num, evbuf2)
     }
     else Some (-1, num, evbuf1)
   }"

definition evtag_decode_int64 :: "malloc \<Rightarrow> evbuffer \<Rightarrow> (int \<times> u64 option \<times> evbuffer) option" where
  "evtag_decode_int64 mal evbuf = do {
     (res, num, evbuf1) \<leftarrow> decode_int64_internal mal evbuf 0;
     if res \<noteq> -1 then do {
       (rc, evbuf2) \<leftarrow> evbuffer_drain evbuf1 (nat res);
       Some (0, num, evbuf2)
     }
     else Some (-1, num, evbuf1)
   }"

section \<open>Marshalling\<close>

text \<open>The calls in sequence; none of the results is checked.\<close>

definition evtag_marshal :: "malloc \<Rightarrow> evbuffer \<Rightarrow> u32 \<Rightarrow> byte list \<Rightarrow> evbuffer option" where
  "evtag_marshal mal evbuf tag data = do {
     (n, b1) \<leftarrow> evtag_encode_tag mal (Some evbuf) tag;
     b2 \<leftarrow> evtag_encode_int mal (the b1) (of_nat (length data));
     (rc, b3) \<leftarrow> evbuffer_add mal b2 data;
     Some b3
   }"

text \<open>Returns \<open>evbuf\<close> and \<open>data\<close>.\<close>

definition evtag_marshal_buffer :: "malloc \<Rightarrow> evbuffer \<Rightarrow> u32 \<Rightarrow> evbuffer \<Rightarrow> (evbuffer \<times> evbuffer) option" where
  "evtag_marshal_buffer mal evbuf tag data = do {
     (n, b1) \<leftarrow> evtag_encode_tag mal (Some evbuf) tag;
     b2 \<leftarrow> evtag_encode_int mal (the b1) (of_nat (evbuffer_get_length data));
     (rc, b3, data1) \<leftarrow> evbuffer_add_buffer mal False b2 data;
     Some (b3, data1)
   }"

definition evtag_marshal_int :: "malloc \<Rightarrow> evbuffer \<Rightarrow> u32 \<Rightarrow> u32 \<Rightarrow> evbuffer option" where
  "evtag_marshal_int mal evbuf tag integer = do {
     data \<leftarrow> encode_int_internal integer;
     (n, b1) \<leftarrow> evtag_encode_tag mal (Some evbuf) tag;
     b2 \<leftarrow> evtag_encode_int mal (the b1) (of_nat (length data));
     (rc, b3) \<leftarrow> evbuffer_add mal b2 data;
     Some b3
   }"

definition evtag_marshal_int64 :: "malloc \<Rightarrow> evbuffer \<Rightarrow> u32 \<Rightarrow> u64 \<Rightarrow> evbuffer option" where
  "evtag_marshal_int64 mal evbuf tag integer = do {
     data \<leftarrow> encode_int64_internal integer;
     (n, b1) \<leftarrow> evtag_encode_tag mal (Some evbuf) tag;
     b2 \<leftarrow> evtag_encode_int mal (the b1) (of_nat (length data));
     (rc, b3) \<leftarrow> evbuffer_add mal b2 data;
     Some b3
   }"

text \<open>The string up to its terminating 0.\<close>

definition evtag_marshal_string :: "malloc \<Rightarrow> evbuffer \<Rightarrow> u32 \<Rightarrow> byte list \<Rightarrow> evbuffer option" where
  "evtag_marshal_string mal buf tag str = evtag_marshal mal buf tag (takeWhile (\<lambda>b. b \<noteq> 0) str)"

text \<open>\<open>tv_sec\<close> and \<open>tv_usec\<close> as they are converted to \<open>ev_uint32_t\<close> by the call.\<close>

definition evtag_marshal_timeval :: "malloc \<Rightarrow> evbuffer \<Rightarrow> u32 \<Rightarrow> u32 \<Rightarrow> u32 \<Rightarrow> evbuffer option" where
  "evtag_marshal_timeval mal evbuf tag sec usec = do {
     d1 \<leftarrow> encode_int_internal sec;
     d2 \<leftarrow> encode_int_internal usec;
     evtag_marshal mal evbuf tag (d1 @ d2)
   }"

section \<open>Unmarshalling\<close>

definition evtag_peek_length :: "malloc \<Rightarrow> evbuffer \<Rightarrow> (int \<times> u32 option \<times> evbuffer) option" where
  "evtag_peek_length mal evbuf = do {
     (len, tag, b1) \<leftarrow> decode_tag_internal mal evbuf False;
     if len = -1 then Some (-1, None, b1)
     else do {
       (res, num, b2) \<leftarrow> decode_int_internal mal b1 (nat len);
       if res = -1 then Some (-1, None, b2)
       else Some (0, map_option (\<lambda>n. n + of_int (res + len)) num, b2)
     }
   }"

definition evtag_payload_length :: "malloc \<Rightarrow> evbuffer \<Rightarrow> (int \<times> u32 option \<times> evbuffer) option" where
  "evtag_payload_length mal evbuf = do {
     (len, tag, b1) \<leftarrow> decode_tag_internal mal evbuf False;
     if len = -1 then Some (-1, None, b1)
     else do {
       (res, num, b2) \<leftarrow> decode_int_internal mal b1 (nat len);
       if res = -1 then Some (-1, None, b2) else Some (0, num, b2)
     }
   }"

text \<open>The \<open>ev_uint32_t\<close> length is returned as an \<open>int\<close>.\<close>

definition evtag_unmarshal_header :: "malloc \<Rightarrow> evbuffer \<Rightarrow> (int \<times> u32 option \<times> evbuffer) option" where
  "evtag_unmarshal_header mal evbuf = do {
     (r, tag, b1) \<leftarrow> decode_tag_internal mal evbuf True;
     if r = -1 then Some (-1, None, b1)
     else do {
       (r2, len, b2) \<leftarrow> evtag_decode_int mal b1;
       if r2 = -1 then Some (-1, tag, b2)
       else if evbuffer_get_length b2 < unat (the len) then Some (-1, tag, b2)
       else Some (to_int32 (unat (the len)), tag, b2)
     }
   }"

text \<open>\<open>evbuffer_drain(evbuf, len)\<close> with an \<open>int\<close> argument: the conversion to \<open>size_t\<close>.\<close>

definition drain_int :: "evbuffer \<Rightarrow> int \<Rightarrow> evbuffer option" where
  "drain_int buf len = map_option snd (evbuffer_drain buf (nat (len mod 4294967296)))"

definition evtag_consume :: "malloc \<Rightarrow> evbuffer \<Rightarrow> (int \<times> evbuffer) option" where
  "evtag_consume mal evbuf = do {
     (len, tag, b1) \<leftarrow> evtag_unmarshal_header mal evbuf;
     if len = -1 then Some (-1, b1)
     else do { b2 \<leftarrow> drain_int b1 len; Some (0, b2) }
   }"

text \<open>
  Return value, tag, \<open>src\<close>, \<open>dst\<close>. A NULL from \<open>evbuffer_pullup\<close> is passed to \<open>evbuffer_add\<close>, which
  reads nothing from it only when \<open>len\<close> is 0.
\<close>

definition evtag_unmarshal ::
    "malloc \<Rightarrow> evbuffer \<Rightarrow> evbuffer \<Rightarrow> (int \<times> u32 option \<times> evbuffer \<times> evbuffer) option" where
  "evtag_unmarshal mal src dst = do {
     (len, tag, b1) \<leftarrow> evtag_unmarshal_header mal src;
     if len = -1 then Some (-1, tag, b1, dst)
     else do {
       (p, b2) \<leftarrow> evbuffer_pullup mal b1 len;
       data \<leftarrow> (case p of None \<Rightarrow> (if len = 0 then Some [] else None)
                          | Some m \<Rightarrow> mem_read m 0 (nat (len mod 4294967296)));
       (rc, dst1) \<leftarrow> evbuffer_add mal dst data;
       if rc = -1 then Some (-1, tag, b2, dst1)
       else do {
         b3 \<leftarrow> drain_int b2 len;
         Some (len, tag, b3, dst1)
       }
     }
   }"

definition evtag_unmarshal_int ::
    "malloc \<Rightarrow> evbuffer \<Rightarrow> u32 \<Rightarrow> (int \<times> u32 option \<times> evbuffer) option" where
  "evtag_unmarshal_int mal evbuf need_tag = do {
     (r, tag, b1) \<leftarrow> decode_tag_internal mal evbuf True;
     if r = -1 then Some (-1, None, b1)
     else if tag \<noteq> Some need_tag then Some (-1, None, b1)
     else do {
       (r2, len, b2) \<leftarrow> evtag_decode_int mal b1;
       if r2 = -1 then Some (-1, None, b2)
       else if evbuffer_get_length b2 < unat (the len) then Some (-1, None, b2)
       else do {
         (result, num, b3) \<leftarrow> decode_int_internal mal b2 0;
         (rc, b4) \<leftarrow> evbuffer_drain b3 (unat (the len));
         Some (if result < 0 \<or> nat result > unat (the len) then -1 else result, num, b4)
       }
     }
   }"

definition evtag_unmarshal_int64 ::
    "malloc \<Rightarrow> evbuffer \<Rightarrow> u32 \<Rightarrow> (int \<times> u64 option \<times> evbuffer) option" where
  "evtag_unmarshal_int64 mal evbuf need_tag = do {
     (r, tag, b1) \<leftarrow> decode_tag_internal mal evbuf True;
     if r = -1 then Some (-1, None, b1)
     else if tag \<noteq> Some need_tag then Some (-1, None, b1)
     else do {
       (r2, len, b2) \<leftarrow> evtag_decode_int mal b1;
       if r2 = -1 then Some (-1, None, b2)
       else if evbuffer_get_length b2 < unat (the len) then Some (-1, None, b2)
       else do {
         (result, num, b3) \<leftarrow> decode_int64_internal mal b2 0;
         (rc, b4) \<leftarrow> evbuffer_drain b3 (unat (the len));
         Some (if result < 0 \<or> nat result > unat (the len) then -1 else result, num, b4)
       }
     }
   }"

text \<open>Return value, the bytes written to \<open>data\<close>, the buffer.\<close>

definition evtag_unmarshal_fixed ::
    "malloc \<Rightarrow> evbuffer \<Rightarrow> u32 \<Rightarrow> nat \<Rightarrow> (int \<times> byte list \<times> evbuffer) option" where
  "evtag_unmarshal_fixed mal src need_tag len = do {
     (tag_len, tag, b1) \<leftarrow> evtag_unmarshal_header mal src;
     if tag_len < 0 \<or> tag \<noteq> Some need_tag then Some (-1, [], b1)
     else if nat tag_len \<noteq> len then Some (-1, [], b1)
     else do {
       (n, out, b2) \<leftarrow> evbuffer_remove b1 len;
       Some (0, out, b2)
     }
   }"

text \<open>
  \<open>mm_malloc(tag_len + 1)\<close>, \<open>evbuffer_remove\<close> into it and the terminating 0; a negative \<open>tag_len\<close> (a
  length of 2 GB or more) makes the size wrap.
\<close>

definition evtag_unmarshal_string ::
    "malloc \<Rightarrow> evbuffer \<Rightarrow> u32 \<Rightarrow> (int \<times> byte list option \<times> evbuffer) option" where
  "evtag_unmarshal_string mal evbuf need_tag = do {
     (tag_len, tag, b1) \<leftarrow> evtag_unmarshal_header mal evbuf;
     if tag_len = -1 \<or> tag \<noteq> Some need_tag then Some (-1, None, b1)
     else case mal (nat ((tag_len + 1) mod 4294967296)) of
       None \<Rightarrow> Some (-1, None, b1)
     | Some mem \<Rightarrow> do {
         (n, out, b2) \<leftarrow> evbuffer_remove b1 (nat (tag_len mod 4294967296));
         mem1 \<leftarrow> mem_write mem 0 out;
         ev_assert (tag_len \<ge> 0);
         mem2 \<leftarrow> upd_opt mem1 (nat tag_len) 0;
         Some (0, Some mem2, b2)
       }
   }"

text \<open>Return value, \<open>(tv_sec, tv_usec)\<close> as far as they were written, the buffer.\<close>

definition evtag_unmarshal_timeval ::
    "malloc \<Rightarrow> evbuffer \<Rightarrow> u32 \<Rightarrow> (int \<times> u32 option \<times> u32 option \<times> evbuffer) option" where
  "evtag_unmarshal_timeval mal evbuf need_tag = do {
     (len, tag, b1) \<leftarrow> evtag_unmarshal_header mal evbuf;
     if len = -1 then Some (-1, None, None, b1)
     else if tag \<noteq> Some need_tag then do { b2 \<leftarrow> drain_int b1 len; Some (-1, None, None, b2) }
     else do {
       (offset, sec, b2) \<leftarrow> decode_int_internal mal b1 0;
       if offset = -1 then do { b3 \<leftarrow> drain_int b2 len; Some (-1, None, None, b3) }
       else do {
         (offset2, usec, b3) \<leftarrow> decode_int_internal mal b2 (nat offset);
         if offset2 = -1 then do { b4 \<leftarrow> drain_int b3 len; Some (-1, sec, None, b4) }
         else do {
           b4 \<leftarrow> drain_int b3 len;
           Some (if offset + offset2 > len then -1 else 0, sec, usec, b4)
         }
       }
     }
   }"

section \<open>The encoders on buffers\<close>

definition int_bytes :: "'a::len word \<Rightarrow> byte list" where
  "int_bytes number = the (ENCODE_INT_INTERNAL number)"

text \<open>A number of bytes below which an encoded integer or tag always stays.\<close>

lemma int_bytes_ok:
  fixes number :: "'a::len word"
  assumes "LENGTH('a) = 8 * c" "c \<noteq> 0" "c \<le> 8"
  obtains n where "ENCODE_INT_INTERNAL number = Some (int_bytes number)" "length (int_bytes number) = n div 2 + 1"
    "0 < n" "n \<le> 2 * c" "unat (drop_bit 4 (int_bytes number ! 0 AND 0xf0)) + 1 = n"
    "\<forall>rest. decode_int_loop (int_bytes number @ rest) n 0 = Some number"
proof -
  obtain data n where "ENCODE_INT_INTERNAL number = Some data" "length data = n div 2 + 1" "0 < n" "n \<le> 2 * c"
    "unat (drop_bit 4 (data ! 0 AND 0xf0)) + 1 = n" "\<forall>rest. decode_int_loop (data @ rest) n 0 = Some number"
    using ENCODE_INT_INTERNAL_ok [OF assms, of number] by blast
  then show ?thesis using that [of n] by (simp add: int_bytes_def)
qed

lemma int_bytes_32: "encode_int_internal number = Some (int_bytes number)" "length (int_bytes number) \<le> 5"
  "int_bytes number \<noteq> []" for number :: u32
  by (rule int_bytes_ok [of 4 number]; auto simp: encode_int_internal_def)+

lemma int_bytes_64: "encode_int64_internal number = Some (int_bytes number)" "length (int_bytes number) \<le> 9"
  "int_bytes number \<noteq> []" for number :: u64
  by (rule int_bytes_ok [of 8 number]; auto simp: encode_int64_internal_def)+

lemma tag_groups_ne: "tag_groups tag \<noteq> []"
  by (subst tag_groups.simps) simp

text \<open>The frame \<open>evtag_marshal\<close> writes.\<close>

definition wire_frame :: "u32 \<Rightarrow> byte list \<Rightarrow> byte list" where
  "wire_frame tag data = tag_groups tag @ int_bytes (of_nat (length data) :: u32) @ data"

lemma wire_frame_len: "length (wire_frame tag data) \<le> 10 + length data"
  using tag_groups_le5 [of tag] int_bytes_32(2) [of "of_nat (length data)"] by (simp add: wire_frame_def)

lemma evtag_encode_tag_ok:
  assumes env: "malloc_ok mal" and rdy: "buf_ready b" and room: "length (contents b) + 5 \<le> BUF_LIMIT"
  obtains b' where "evtag_encode_tag mal (Some b) tag = Some (int (length (tag_groups tag)), Some b')" "buf_ready b'"
    "contents b' = contents b @ tag_groups tag"
proof -
  have "length (contents b) + length (tag_groups tag) \<le> BUF_LIMIT" using room tag_groups_le5 [of tag] by linarith
  then obtain b' where "evbuffer_add mal b (tag_groups tag) = Some (0, b')" "buf_ready b'" "contents b' = contents b @ tag_groups tag"
    using ebuf.add_law [OF env rdy] by blast
  then show ?thesis using that by (simp add: evtag_encode_tag_def encode_tag_bytes_eq)
qed

lemma evtag_encode_int_ok:
  assumes env: "malloc_ok mal" and rdy: "buf_ready b" and room: "length (contents b) + 5 \<le> BUF_LIMIT"
  obtains b' where "evtag_encode_int mal b number = Some b'" "buf_ready b'" "contents b' = contents b @ int_bytes number"
proof -
  have "length (contents b) + length (int_bytes number) \<le> BUF_LIMIT" using room int_bytes_32(2) [of number] by linarith
  then obtain b' where "evbuffer_add mal b (int_bytes number) = Some (0, b')" "buf_ready b'" "contents b' = contents b @ int_bytes number"
    using ebuf.add_law [OF env rdy] by blast
  then show ?thesis using that by (simp add: evtag_encode_int_def int_bytes_32)
qed

lemma evtag_marshal_ok:
  assumes env: "malloc_ok mal" and rdy: "buf_ready b" and room: "length (contents b) + length data + 10 \<le> BUF_LIMIT"
  obtains b' where "evtag_marshal mal b tag data = Some b'" "buf_ready b'" "contents b' = contents b @ wire_frame tag data"
proof -
  have "length (contents b) + 5 \<le> BUF_LIMIT" using room by simp
  then obtain b1 where b1: "evtag_encode_tag mal (Some b) tag = Some (int (length (tag_groups tag)), Some b1)" "buf_ready b1"
    "contents b1 = contents b @ tag_groups tag"
    by (rule evtag_encode_tag_ok [OF env rdy])
  let ?n = "of_nat (length data) :: u32"
  have "length (contents b1) + 5 \<le> BUF_LIMIT" using room b1(3) tag_groups_le5 [of tag] by simp
  then obtain b2 where b2: "evtag_encode_int mal b1 ?n = Some b2" "buf_ready b2" "contents b2 = contents b1 @ int_bytes ?n"
    by (rule evtag_encode_int_ok [OF env b1(2)])
  have "length (contents b2) + length data \<le> BUF_LIMIT"
    using room b1(3) b2(3) tag_groups_le5 [of tag] int_bytes_32(2) [of ?n] by simp
  then obtain b3 where "evbuffer_add mal b2 data = Some (0, b3)" "buf_ready b3" "contents b3 = contents b2 @ data"
    using ebuf.add_law [OF env b2(2)] by blast
  then show ?thesis using that b1 b2 by (simp add: evtag_marshal_def wire_frame_def)
qed

section \<open>The decoders on buffers\<close>

lemma decode_tag_internal_ok:
  assumes env: "malloc_ok mal" and rdy: "buf_ready b" and c: "contents b = tag_groups tag @ rest"
  obtains b' where "decode_tag_internal mal b d = Some (int (length (tag_groups tag)), Some tag, b')" "buf_ready b'"
    "contents b' = (if d then rest else contents b)"
proof -
  define g where "g = tag_groups tag"
  have g: "length g \<le> 5" "g \<noteq> []" by (simp_all add: g_def tag_groups_le5 tag_groups_ne)
  define n where "n = min (length (contents b)) 5"
  have len: "evbuffer_get_length b = length (contents b)" by (rule ebuf.size_law [OF rdy])
  have n: "0 < n" "n \<le> length (contents b)" "length g \<le> n"
    using g c by (auto simp: n_def g_def)
  obtain r b1 where p: "evbuffer_pullup mal b (int n) = Some (Some (g @ r), b1)" "buf_ready b1" "contents b1 = contents b"
    by (rule ebuf.pullup_prefix [OF env rdy n(1,2) c [folded g_def] n(3)])
  have arg: "(if length (contents b) < 5 then int (length (contents b)) else 5) = int n" by (auto simp: n_def)
  have loop: "decode_tag_loop (g @ r) (length (contents b)) 0 0 0 = Some (Some (length g, tag))"
    using decode_tag_loop_groups [of tag "length (contents b)" 0 0 "g @ r" r 0] g c by (simp add: g_def)
  obtain b2 where d: "evbuffer_drain b1 (length g) = Some (0, b2)" "buf_ready b2" "contents b2 = drop (length g) (contents b1)"
    using ebuf.drain_law [OF p(2)] by blast
  have "decode_tag_internal mal b d = Some (int (length g), Some tag, if d then b2 else b1)"
    using g(1) by (simp add: decode_tag_internal_def len arg p(1) loop d(1) INT_MAX_def)
  then show ?thesis
    using that [of "if d then b2 else b1"] p d c by (auto simp: g_def)
qed

lemma DECODE_INT_INTERNAL_ok:
  fixes number :: "'a::len word"
  assumes w: "LENGTH('a) = 8 * c" "c \<noteq> 0" "c \<le> 8"
    and env: "malloc_ok mal" and rdy: "buf_ready b" and cont: "contents b = pre @ int_bytes number @ rest"
  obtains b' where "DECODE_INT_INTERNAL (2 * c) mal b (length pre) = Some (int (length (int_bytes number)), Some number, b')"
    "buf_ready b'" "contents b' = contents b"
proof -
  obtain n where "ENCODE_INT_INTERNAL number = Some (int_bytes number)"
    and e: "length (int_bytes number) = n div 2 + 1" "0 < n" "n \<le> 2 * c"
    "unat (drop_bit 4 (int_bytes number ! 0 AND 0xf0)) + 1 = n"
    "\<forall>r. decode_int_loop (int_bytes number @ r) n 0 = Some number"
    by (rule int_bytes_ok [OF w, of number])
  define enc where "enc = int_bytes number"
  obtain h t where ht: "enc = h # t" using e(1) by (cases enc) (auto simp: enc_def)
  have lim: "length (contents b) \<le> 2147483623" using ebuf.limit_law [OF rdy] by (simp add: cfg_defs)
  have len: "evbuffer_get_length b = length (contents b)" by (rule ebuf.size_law [OF rdy])
  have len2: "to_int32 (szsub (evbuffer_get_length b) (length pre)) = int (length enc + length rest)"
    using lim cont by (simp add: len enc_def)
  have c1: "contents b = (pre @ [h]) @ t @ rest" using cont ht by (simp add: enc_def [symmetric])
  obtain r1 b1 where p1: "evbuffer_pullup mal b (int (length pre + 1)) = Some (Some ((pre @ [h]) @ r1), b1)"
    "buf_ready b1" "contents b1 = contents b"
    by (rule ebuf.pullup_prefix [OF env rdy _ _ c1, of "length pre + 1"]) (use c1 in auto)
  have c2: "contents b1 = (pre @ enc) @ rest" using cont p1(3) by (simp add: enc_def)
  obtain r2 b2 where p2: "evbuffer_pullup mal b1 (int (length pre + length enc)) = Some (Some ((pre @ enc) @ r2), b2)"
    "buf_ready b2" "contents b2 = contents b1"
    by (rule ebuf.pullup_prefix [OF env p1(2) _ _ c2, of "length pre + length enc"]) (use c2 ht in auto)
  have a1: "pullup_at mal b (length pre + 1) (length pre) = Some (Some (h # r1), b1)"
    unfolding pullup_at_def p1(1) by simp
  have a2: "pullup_at mal b1 (length pre + length enc) (length pre) = Some (Some (enc @ r2), b2)"
    unfolding pullup_at_def p2(1) by simp
  have nib: "unat (drop_bit 4 (h AND 0xf0)) + 1 = n" "n div 2 + 1 = length enc"
    using e(1,4) ht by (simp_all add: enc_def [symmetric])
  have guards: "\<not> int (length enc + length rest) \<le> 0"
    "\<not> (2 * c < n \<or> int (length enc + length rest) < int (length enc))"
    using ht e(3) by auto
  have nth: "nth_opt (h # r1) 0 = Some h" by simp
  have "DECODE_INT_INTERNAL (2 * c) mal b (length pre) = Some (int (length enc), Some number, b2)"
    by (simp only: DECODE_INT_INTERNAL_def Let_def len2 guards if_False a1 bind.bind_lunit prod.case option.case
        nth nib a2 e(5) [folded enc_def, rule_format])
  then show ?thesis using that p1 p2 by (simp add: enc_def)
qed

lemma decode_int_internal_ok:
  assumes "malloc_ok mal" "buf_ready b" "contents b = pre @ int_bytes number @ rest"
  obtains b' where "decode_int_internal mal b (length pre) = Some (int (length (int_bytes number)), Some number, b')"
    "buf_ready b'" "contents b' = contents b"
  using DECODE_INT_INTERNAL_ok [of 4, OF _ _ _ assms] by (auto simp: decode_int_internal_def)

lemma decode_int64_internal_ok:
  assumes "malloc_ok mal" "buf_ready b" "contents b = pre @ int_bytes number @ rest"
  obtains b' where "decode_int64_internal mal b (length pre) = Some (int (length (int_bytes number)), Some number, b')"
    "buf_ready b'" "contents b' = contents b"
  using DECODE_INT_INTERNAL_ok [of 8, OF _ _ _ assms] by (auto simp: decode_int64_internal_def)

lemma evtag_decode_int_ok:
  assumes env: "malloc_ok mal" and rdy: "buf_ready b" and c: "contents b = int_bytes number @ rest"
  obtains b' where "evtag_decode_int mal b = Some (0, Some number, b')" "buf_ready b'" "contents b' = rest"
proof -
  have c0: "contents b = [] @ int_bytes number @ rest" using c by simp
  obtain b1 where d: "decode_int_internal mal b (length ([] :: byte list)) = Some (int (length (int_bytes number)), Some number, b1)"
    "buf_ready b1" "contents b1 = contents b"
    by (rule decode_int_internal_ok [OF env rdy c0])
  obtain b2 where "evbuffer_drain b1 (length (int_bytes number)) = Some (0, b2)" "buf_ready b2"
    "contents b2 = drop (length (int_bytes number)) (contents b1)"
    using ebuf.drain_law [OF d(2)] by blast
  with d c that show ?thesis by (simp add: evtag_decode_int_def)
qed

lemma evtag_unmarshal_header_ok:
  assumes env: "malloc_ok mal" and rdy: "buf_ready b" and c: "contents b = wire_frame tag data @ rest"
  obtains b' where "evtag_unmarshal_header mal b = Some (int (length data), Some tag, b')" "buf_ready b'"
    "contents b' = data @ rest"
proof -
  let ?n = "of_nat (length data) :: u32"
  have c1: "contents b = tag_groups tag @ int_bytes ?n @ data @ rest" using c by (simp add: wire_frame_def)
  obtain b1 where b1: "decode_tag_internal mal b True = Some (int (length (tag_groups tag)), Some tag, b1)" "buf_ready b1"
    "contents b1 = (if True then int_bytes ?n @ data @ rest else contents b)"
    by (rule decode_tag_internal_ok [OF env rdy c1])
  then have c2: "contents b1 = int_bytes ?n @ data @ rest" by simp
  obtain b2 where b2: "evtag_decode_int mal b1 = Some (0, Some ?n, b2)" "buf_ready b2" "contents b2 = data @ rest"
    by (rule evtag_decode_int_ok [OF env b1(2) c2])
  have "length data \<le> 2147483623" using ebuf.limit_law [OF b2(2)] b2(3) by (simp add: cfg_defs)
  then have "unat ?n = length data" "to_int32 (length data) = int (length data)" by (simp_all add: unat_of_nat)
  moreover have "evbuffer_get_length b2 = length data + length rest" using ebuf.size_law [OF b2(2)] b2(3) by simp
  ultimately have "evtag_unmarshal_header mal b = Some (int (length data), Some tag, b2)"
    using b1(1) b2(1) by (simp add: evtag_unmarshal_header_def)
  with that b2 show ?thesis by blast
qed

lemma drain_int_ok:
  assumes rdy: "buf_ready b" and c: "contents b = data @ rest"
  obtains b' where "drain_int b (int (length data)) = Some b'" "buf_ready b'" "contents b' = rest"
proof -
  have "length data \<le> 2147483623" using ebuf.limit_law [OF rdy] c by (simp add: cfg_defs)
  then have n: "nat (int (length data) mod 4294967296) = length data" by simp
  obtain b' where "evbuffer_drain b (length data) = Some (0, b')" "buf_ready b'" "contents b' = drop (length data) (contents b)"
    using ebuf.drain_law [OF rdy] by blast
  with that c n show ?thesis by (simp add: drain_int_def)
qed

lemma evtag_consume_ok:
  assumes env: "malloc_ok mal" and rdy: "buf_ready b" and c: "contents b = wire_frame tag data @ rest"
  obtains b' where "evtag_consume mal b = Some (0, b')" "buf_ready b'" "contents b' = rest"
proof -
  obtain b1 where b1: "evtag_unmarshal_header mal b = Some (int (length data), Some tag, b1)" "buf_ready b1"
    "contents b1 = data @ rest"
    by (rule evtag_unmarshal_header_ok [OF assms])
  obtain b2 where "drain_int b1 (int (length data)) = Some b2" "buf_ready b2" "contents b2 = rest"
    by (rule drain_int_ok [OF b1(2,3)])
  with b1(1) that show ?thesis by (simp add: evtag_consume_def)
qed

lemma evtag_unmarshal_ok:
  assumes env: "malloc_ok mal" and rdy: "buf_ready b" "buf_ready dst" and c: "contents b = wire_frame tag data @ rest"
    and room: "length (contents dst) + length data \<le> BUF_LIMIT"
  obtains b' dst' where "evtag_unmarshal mal b dst = Some (int (length data), Some tag, b', dst')"
    "buf_ready b'" "buf_ready dst'" "contents b' = rest" "contents dst' = contents dst @ data"
proof -
  obtain b1 where b1: "evtag_unmarshal_header mal b = Some (int (length data), Some tag, b1)" "buf_ready b1"
    "contents b1 = data @ rest"
    by (rule evtag_unmarshal_header_ok [OF env rdy(1) c])
  have n: "nat (int (length data) mod 4294967296) = length data"
    using ebuf.limit_law [OF b1(2)] b1(3) by (simp add: cfg_defs)
  obtain dst1 where d: "evbuffer_add mal dst data = Some (0, dst1)" "buf_ready dst1" "contents dst1 = contents dst @ data"
    using ebuf.add_law [OF env rdy(2) room] by blast
  obtain p b2 where p: "evbuffer_pullup mal b1 (int (length data)) = Some (p, b2)" "buf_ready b2" "contents b2 = data @ rest"
    "(case p of None \<Rightarrow> (if int (length data) = 0 then Some [] else None) | Some m \<Rightarrow> mem_read m 0 (length data)) = Some data"
  proof (cases "data = []")
    case True
    have "evbuffer_pullup mal b1 0 = Some (None, b1)" by (simp add: evbuffer_pullup_def)
    with True b1 show ?thesis using that by auto
  next
    case False
    obtain r b2 where "evbuffer_pullup mal b1 (int (length data)) = Some (Some (data @ r), b2)" "buf_ready b2"
       "contents b2 = contents b1"
      by (rule ebuf.pullup_prefix [OF env b1(2) _ _ b1(3), of "length data"]) (use False b1(3) in auto)
    with that [of "Some (data @ r)" b2] b1(3) show ?thesis by (simp add: mem_read_def)
  qed
  obtain b3 where b3: "drain_int b2 (int (length data)) = Some b3" "buf_ready b3" "contents b3 = rest"
    by (rule drain_int_ok [OF p(2,3)])
  have "evtag_unmarshal mal b dst = Some (int (length data), Some tag, b3, dst1)"
    using b1(1) p(1,4) d(1) b3(1) n by (cases p) (simp_all add: evtag_unmarshal_def)
  with that b3 d show ?thesis by blast
qed

lemma evtag_marshal_int_eq: "evtag_marshal_int mal b tag i = evtag_marshal mal b tag (int_bytes i)"
  by (simp add: evtag_marshal_int_def evtag_marshal_def int_bytes_32)

lemma evtag_marshal_int64_eq: "evtag_marshal_int64 mal b tag i = evtag_marshal mal b tag (int_bytes i)"
  by (simp add: evtag_marshal_int64_def evtag_marshal_def int_bytes_64)

lemma evtag_marshal_timeval_eq:
  "evtag_marshal_timeval mal b tag sec usec = evtag_marshal mal b tag (int_bytes sec @ int_bytes usec)"
  by (simp add: evtag_marshal_timeval_def int_bytes_32)

text \<open>The common start of \<open>evtag_unmarshal_int\<close> and \<open>evtag_unmarshal_int64\<close>.\<close>

lemma unmarshal_int_prefix:
  assumes env: "malloc_ok mal" and rdy: "buf_ready b" and c: "contents b = wire_frame tag data @ rest"
  obtains r b1 b2 where "decode_tag_internal mal b True = Some (r, Some tag, b1)" "r \<noteq> -1"
    "evtag_decode_int mal b1 = Some (0, Some (of_nat (length data)), b2)" "buf_ready b2" "contents b2 = data @ rest"
    "unat (of_nat (length data) :: u32) = length data" "evbuffer_get_length b2 = length data + length rest"
proof -
  let ?n = "of_nat (length data) :: u32"
  have c1: "contents b = tag_groups tag @ int_bytes ?n @ data @ rest" using c by (simp add: wire_frame_def)
  obtain b1 where b1: "decode_tag_internal mal b True = Some (int (length (tag_groups tag)), Some tag, b1)" "buf_ready b1"
    "contents b1 = (if True then int_bytes ?n @ data @ rest else contents b)"
    by (rule decode_tag_internal_ok [OF env rdy c1])
  then have c2: "contents b1 = int_bytes ?n @ data @ rest" by simp
  obtain b2 where b2: "evtag_decode_int mal b1 = Some (0, Some ?n, b2)" "buf_ready b2" "contents b2 = data @ rest"
    by (rule evtag_decode_int_ok [OF env b1(2) c2])
  have "length data \<le> 2147483623" using ebuf.limit_law [OF b2(2)] b2(3) by (simp add: cfg_defs)
  then have "unat ?n = length data" by (simp add: unat_of_nat)
  with that [OF b1(1) _ b2] ebuf.size_law [OF b2(2)] b2(3) show ?thesis by simp
qed

lemma evtag_unmarshal_int_ok:
  assumes env: "malloc_ok mal" and rdy: "buf_ready b" and c: "contents b = wire_frame tag (int_bytes i) @ rest"
  obtains b' where "evtag_unmarshal_int mal b tag = Some (int (length (int_bytes i)), Some i, b')" "buf_ready b'"
    "contents b' = rest"
proof -
  obtain r b1 b2 where p: "decode_tag_internal mal b True = Some (r, Some tag, b1)" "r \<noteq> -1"
    "evtag_decode_int mal b1 = Some (0, Some (of_nat (length (int_bytes i))), b2)" "buf_ready b2" "contents b2 = int_bytes i @ rest"
    "unat (of_nat (length (int_bytes i)) :: u32) = length (int_bytes i)"
    "evbuffer_get_length b2 = length (int_bytes i) + length rest"
    by (rule unmarshal_int_prefix [OF assms])
  have c0: "contents b2 = [] @ int_bytes i @ rest" using p(5) by simp
  obtain b3 where d: "decode_int_internal mal b2 (length ([] :: byte list)) = Some (int (length (int_bytes i)), Some i, b3)"
    "buf_ready b3" "contents b3 = contents b2"
    by (rule decode_int_internal_ok [OF env p(4) c0])
  obtain b4 where "evbuffer_drain b3 (length (int_bytes i)) = Some (0, b4)" "buf_ready b4"
    "contents b4 = drop (length (int_bytes i)) (contents b3)"
    using ebuf.drain_law [OF d(2)] by blast
  with p d that show ?thesis by (simp add: evtag_unmarshal_int_def)
qed

lemma evtag_unmarshal_int64_ok:
  assumes env: "malloc_ok mal" and rdy: "buf_ready b" and c: "contents b = wire_frame tag (int_bytes i) @ rest"
  obtains b' where "evtag_unmarshal_int64 mal b tag = Some (int (length (int_bytes i)), Some i, b')" "buf_ready b'"
    "contents b' = rest"
proof -
  obtain r b1 b2 where p: "decode_tag_internal mal b True = Some (r, Some tag, b1)" "r \<noteq> -1"
    "evtag_decode_int mal b1 = Some (0, Some (of_nat (length (int_bytes i))), b2)" "buf_ready b2" "contents b2 = int_bytes i @ rest"
    "unat (of_nat (length (int_bytes i)) :: u32) = length (int_bytes i)"
    "evbuffer_get_length b2 = length (int_bytes i) + length rest"
    by (rule unmarshal_int_prefix [OF assms])
  have c0: "contents b2 = [] @ int_bytes i @ rest" using p(5) by simp
  obtain b3 where d: "decode_int64_internal mal b2 (length ([] :: byte list)) = Some (int (length (int_bytes i)), Some i, b3)"
    "buf_ready b3" "contents b3 = contents b2"
    by (rule decode_int64_internal_ok [OF env p(4) c0])
  obtain b4 where "evbuffer_drain b3 (length (int_bytes i)) = Some (0, b4)" "buf_ready b4"
    "contents b4 = drop (length (int_bytes i)) (contents b3)"
    using ebuf.drain_law [OF d(2)] by blast
  with p d that show ?thesis by (simp add: evtag_unmarshal_int64_def)
qed

lemma evtag_unmarshal_timeval_ok:
  assumes env: "malloc_ok mal" and rdy: "buf_ready b"
    and c: "contents b = wire_frame tag (int_bytes sec @ int_bytes usec) @ rest"
  obtains b' where "evtag_unmarshal_timeval mal b tag = Some (0, Some sec, Some usec, b')" "buf_ready b'"
    "contents b' = rest"
proof -
  let ?d = "int_bytes sec @ int_bytes usec"
  obtain b1 where b1: "evtag_unmarshal_header mal b = Some (int (length ?d), Some tag, b1)" "buf_ready b1"
    "contents b1 = ?d @ rest"
    by (rule evtag_unmarshal_header_ok [OF assms])
  have c1: "contents b1 = [] @ int_bytes sec @ int_bytes usec @ rest" using b1(3) by simp
  obtain b2 where b2: "decode_int_internal mal b1 (length ([] :: byte list)) = Some (int (length (int_bytes sec)), Some sec, b2)"
    "buf_ready b2" "contents b2 = contents b1"
    by (rule decode_int_internal_ok [OF env b1(2) c1])
  have c2: "contents b2 = int_bytes sec @ int_bytes usec @ rest" using b2(3) c1 by simp
  obtain b3 where b3: "decode_int_internal mal b2 (length (int_bytes sec)) = Some (int (length (int_bytes usec)), Some usec, b3)"
    "buf_ready b3" "contents b3 = contents b2"
    by (rule decode_int_internal_ok [OF env b2(2) c2])
  have c3: "contents b3 = ?d @ rest" using b3(3) c2 by simp
  obtain b4 where "drain_int b3 (int (length ?d)) = Some b4" "buf_ready b4" "contents b4 = rest"
    by (rule drain_int_ok [OF b3(2) c3])
  with b1 b2 b3 that show ?thesis by (simp add: evtag_unmarshal_timeval_def)
qed

lemma evtag_unmarshal_string_ok:
  assumes env: "malloc_ok mal" and rdy: "buf_ready b" and c: "contents b = wire_frame tag str @ rest"
  obtains b' where "evtag_unmarshal_string mal b tag = Some (0, Some (str @ [0]), b')" "buf_ready b'" "contents b' = rest"
proof -
  obtain b1 where b1: "evtag_unmarshal_header mal b = Some (int (length str), Some tag, b1)" "buf_ready b1"
    "contents b1 = str @ rest"
    by (rule evtag_unmarshal_header_ok [OF assms])
  have n: "nat (int (length str) mod 4294967296) = length str"
    "nat ((int (length str) + 1) mod 4294967296) = length str + 1"
    using ebuf.limit_law [OF b1(2)] b1(3) by (simp_all add: cfg_defs nat_add_distrib)
  obtain mem where mem: "mal (length str + 1) = Some mem" "length mem = length str + 1"
    using env unfolding malloc_ok_def malloc_spec_def by (metis not_None_eq)
  obtain b2 where b2: "evbuffer_remove b1 (length str) = Some (int (length str), str, b2)" "buf_ready b2" "contents b2 = rest"
    using ebuf.remove_law [OF b1(2), of "length str"] b1(3) by auto
  have w: "mem_write mem 0 str = Some (str @ drop (length str) mem)" using mem(2) by (simp add: mem_write_def)
  have u: "upd_opt (str @ drop (length str) mem) (length str) 0 = Some (str @ [0])"
  proof -
    have "length (drop (length str) mem) = Suc 0" using mem(2) by simp
    then obtain x where "drop (length str) mem = [x]" by (metis length_0_conv length_Suc_conv)
    then show ?thesis by (simp add: upd_opt_def list_update_append)
  qed
  have "evtag_unmarshal_string mal b tag = Some (0, Some (str @ [0]), b2)"
    using b1(1) mem(1) b2(1) by (simp add: evtag_unmarshal_string_def n w u del: One_nat_def add_Suc_right Suc_eq_plus1)
  with that b2 show ?thesis by blast
qed

section \<open>Properties\<close>

text \<open>Marshalling a list of messages, and unmarshalling as many, each into a fresh buffer.\<close>

fun marshal_all :: "malloc \<Rightarrow> evbuffer \<Rightarrow> (u32 \<times> byte list) list \<Rightarrow> evbuffer option" where
  "marshal_all mal b [] = Some b"
| "marshal_all mal b ((tag, data) # ms) = do { b1 \<leftarrow> evtag_marshal mal b tag data; marshal_all mal b1 ms }"

fun unmarshal_all :: "malloc \<Rightarrow> evbuffer \<Rightarrow> nat \<Rightarrow> ((u32 option \<times> byte list) list \<times> evbuffer) option" where
  "unmarshal_all mal b 0 = Some ([], b)"
| "unmarshal_all mal b (Suc n) = do {
     (len, tag, b1, dst) \<leftarrow> evtag_unmarshal mal b evbuffer_new;
     (ms, b2) \<leftarrow> unmarshal_all mal b1 n;
     Some ((tag, contents dst) # ms, b2)
   }"

definition frames :: "(u32 \<times> byte list) list \<Rightarrow> byte list" where
  "frames ms = concat (map (\<lambda>(tag, data). wire_frame tag data) ms)"

lemma marshal_all_ok:
  assumes "malloc_ok mal"
  shows "buf_ready b \<Longrightarrow> length (contents b) + sum_list (map (\<lambda>(t, d). length d + 10) ms) \<le> BUF_LIMIT \<Longrightarrow>
    \<exists>b'. marshal_all mal b ms = Some b' \<and> buf_ready b' \<and> contents b' = contents b @ frames ms"
proof (induction ms arbitrary: b)
  case Nil
  then show ?case by (simp add: frames_def)
next
  case (Cons m ms)
  obtain tag data where m: "m = (tag, data)" by fastforce
  have "length (contents b) + length data + 10 \<le> BUF_LIMIT" using Cons.prems(2) m by simp
  then obtain b1 where b1: "evtag_marshal mal b tag data = Some b1" "buf_ready b1" "contents b1 = contents b @ wire_frame tag data"
    by (rule evtag_marshal_ok [OF assms Cons.prems(1)])
  then have "length (contents b1) + sum_list (map (\<lambda>(t, d). length d + 10) ms) \<le> BUF_LIMIT"
    using Cons.prems(2) m wire_frame_len [of tag data] by simp
  from Cons.IH [OF b1(2) this] b1 m show ?case by (auto simp: frames_def)
qed

lemma evbuffer_new_ready: "buf_ready evbuffer_new"
  by (simp add: buf_ready_def)

lemma unmarshal_all_ok:
  assumes "malloc_ok mal"
  shows "buf_ready b \<Longrightarrow> contents b = frames ms @ rest \<Longrightarrow>
    \<exists>b'. unmarshal_all mal b (length ms) = Some (map (\<lambda>(t, d). (Some t, d)) ms, b') \<and> buf_ready b' \<and> contents b' = rest"
proof (induction ms arbitrary: b)
  case Nil
  then show ?case by (simp add: frames_def)
next
  case (Cons m ms)
  obtain tag data where m: "m = (tag, data)" by fastforce
  then have c: "contents b = wire_frame tag data @ frames ms @ rest" using Cons.prems(2) by (simp add: frames_def)
  have "length (contents evbuffer_new) + length data \<le> BUF_LIMIT"
    using ebuf.limit_law [OF Cons.prems(1)] c by (simp add: wire_frame_def)
  then obtain b1 dst where u: "evtag_unmarshal mal b evbuffer_new = Some (int (length data), Some tag, b1, dst)"
    "buf_ready b1" "buf_ready dst" "contents b1 = frames ms @ rest" "contents dst = contents evbuffer_new @ data"
    by (rule evtag_unmarshal_ok [OF assms Cons.prems(1) evbuffer_new_ready c])
  from Cons.IH [OF u(2,4)] u m show ?case by auto
qed

text \<open>
  C17. A stream of tagged messages survives the wire: marshalling any list of messages onto an empty
  buffer and unmarshalling as many gives back the same tags and payloads, in order, and uses up
  exactly the bytes written.
\<close>

theorem evtag_stream_roundtrip:
  assumes "malloc_ok mal" "buf_ready b" "contents b = []" "sum_list (map (\<lambda>(t, d). length d + 10) ms) \<le> BUF_LIMIT"
  shows "\<exists>b1 b2. marshal_all mal b ms = Some b1 \<and>
     unmarshal_all mal b1 (length ms) = Some (map (\<lambda>(t, d). (Some t, d)) ms, b2) \<and> contents b2 = []"
proof -
  obtain b1 where "marshal_all mal b ms = Some b1" "buf_ready b1" "contents b1 = frames ms @ []"
    using marshal_all_ok [OF assms(1,2), of ms] assms(3,4) by auto
  with unmarshal_all_ok [OF assms(1), of b1 ms "[]"] show ?thesis by auto
qed

lemma zalloc_ok: "malloc_ok zalloc"
  by (simp add: malloc_ok_def)

theorem evtag_stream_roundtrip_witness:
  "\<exists>b1 b2. marshal_all zalloc evbuffer_new [(1, [9, 8]), (300, [])] = Some b1 \<and>
     unmarshal_all zalloc b1 (length [(1 :: u32, [9, 8 :: byte]), (300, [])]) =
       Some (map (\<lambda>(t, d). (Some t, d)) [(1, [9, 8]), (300, [])], b2) \<and> contents b2 = []"
  by (rule evtag_stream_roundtrip [OF zalloc_ok evbuffer_new_ready]) (simp_all add: cfg_defs)

text \<open>
  C18. Integers survive marshalling at both widths: what \<open>evtag_unmarshal_int\<close> and
  \<open>evtag_unmarshal_int64\<close> read after \<open>evtag_marshal_int\<close> and \<open>evtag_marshal_int64\<close> is the number written,
  for every number.
\<close>

theorem evtag_int_roundtrip:
  assumes "malloc_ok mal" "buf_ready b" "contents b = []"
  shows "(\<exists>b1 b2 n. evtag_marshal_int mal b tag i = Some b1 \<and> evtag_unmarshal_int mal b1 tag = Some (n, Some i, b2) \<and>
       0 < n \<and> contents b2 = []) \<and>
     (\<exists>b1 b2 n. evtag_marshal_int64 mal b tag j = Some b1 \<and> evtag_unmarshal_int64 mal b1 tag = Some (n, Some j, b2) \<and>
       0 < n \<and> contents b2 = [])"
proof
  have "length (contents b) + length (int_bytes i) + 10 \<le> BUF_LIMIT" using assms(3) int_bytes_32(2) [of i] by (simp add: cfg_defs)
  then obtain b1 where b1: "evtag_marshal mal b tag (int_bytes i) = Some b1" "buf_ready b1"
      "contents b1 = contents b @ wire_frame tag (int_bytes i)"
    by (rule evtag_marshal_ok [OF assms(1,2)])
  then have "contents b1 = wire_frame tag (int_bytes i) @ []" using assms(3) by simp
  then obtain b2 where "evtag_unmarshal_int mal b1 tag = Some (int (length (int_bytes i)), Some i, b2)" "contents b2 = []"
    by (rule evtag_unmarshal_int_ok [OF assms(1) b1(2)])
  with b1 int_bytes_32(3) [of i] show "\<exists>b1 b2 n. evtag_marshal_int mal b tag i = Some b1 \<and>
      evtag_unmarshal_int mal b1 tag = Some (n, Some i, b2) \<and> 0 < n \<and> contents b2 = []"
    by (auto simp: evtag_marshal_int_eq)
next
  have "length (contents b) + length (int_bytes j) + 10 \<le> BUF_LIMIT" using assms(3) int_bytes_64(2) [of j] by (simp add: cfg_defs)
  then obtain b1 where b1: "evtag_marshal mal b tag (int_bytes j) = Some b1" "buf_ready b1"
      "contents b1 = contents b @ wire_frame tag (int_bytes j)"
    by (rule evtag_marshal_ok [OF assms(1,2)])
  then have "contents b1 = wire_frame tag (int_bytes j) @ []" using assms(3) by simp
  then obtain b2 where "evtag_unmarshal_int64 mal b1 tag = Some (int (length (int_bytes j)), Some j, b2)" "contents b2 = []"
    by (rule evtag_unmarshal_int64_ok [OF assms(1) b1(2)])
  with b1 int_bytes_64(3) [of j] show "\<exists>b1 b2 n. evtag_marshal_int64 mal b tag j = Some b1 \<and>
      evtag_unmarshal_int64 mal b1 tag = Some (n, Some j, b2) \<and> 0 < n \<and> contents b2 = []"
    by (auto simp: evtag_marshal_int64_eq)
qed

theorem evtag_int_roundtrip_witness:
  "(\<exists>b1 b2 n. evtag_marshal_int zalloc evbuffer_new 7 0xdeadbeef = Some b1 \<and>
     evtag_unmarshal_int zalloc b1 7 = Some (n, Some 0xdeadbeef, b2) \<and> 0 < n \<and> contents b2 = []) \<and>
   (\<exists>b1 b2 n. evtag_marshal_int64 zalloc evbuffer_new 7 0 = Some b1 \<and>
     evtag_unmarshal_int64 zalloc b1 7 = Some (n, Some 0, b2) \<and> 0 < n \<and> contents b2 = [])"
  using evtag_int_roundtrip [OF zalloc_ok evbuffer_new_ready evbuffer_new_inv(2)] by blast

text \<open>
  Times and strings survive marshalling: \<open>evtag_unmarshal_timeval\<close> reads back both fields, and
  \<open>evtag_unmarshal_string\<close> reads back the string with its terminating 0.
\<close>

theorem evtag_time_string_roundtrip:
  assumes "malloc_ok mal" "buf_ready b" "contents b = []" "length str + 10 \<le> BUF_LIMIT" "0 \<notin> set str"
  shows "(\<exists>b1 b2. evtag_marshal_timeval mal b tag sec usec = Some b1 \<and>
       evtag_unmarshal_timeval mal b1 tag = Some (0, Some sec, Some usec, b2) \<and> contents b2 = []) \<and>
     (\<exists>b1 b2. evtag_marshal_string mal b tag (str @ 0 # junk) = Some b1 \<and>
       evtag_unmarshal_string mal b1 tag = Some (0, Some (str @ [0]), b2) \<and> contents b2 = [])"
proof
  let ?d = "int_bytes sec @ int_bytes usec"
  have "length (contents b) + length ?d + 10 \<le> BUF_LIMIT"
    using assms(3) int_bytes_32(2) [of sec] int_bytes_32(2) [of usec] by (simp add: cfg_defs)
  then obtain b1 where b1: "evtag_marshal mal b tag ?d = Some b1" "buf_ready b1" "contents b1 = contents b @ wire_frame tag ?d"
    by (rule evtag_marshal_ok [OF assms(1,2)])
  then have "contents b1 = wire_frame tag ?d @ []" using assms(3) by simp
  then obtain b2 where "evtag_unmarshal_timeval mal b1 tag = Some (0, Some sec, Some usec, b2)" "contents b2 = []"
    by (rule evtag_unmarshal_timeval_ok [OF assms(1) b1(2)])
  with b1 show "\<exists>b1 b2. evtag_marshal_timeval mal b tag sec usec = Some b1 \<and>
       evtag_unmarshal_timeval mal b1 tag = Some (0, Some sec, Some usec, b2) \<and> contents b2 = []"
    by (auto simp: evtag_marshal_timeval_eq)
next
  have tw: "takeWhile (\<lambda>x. x \<noteq> 0) (str @ 0 # junk) = str"
    using assms(5) by (subst takeWhile_append2) auto
  have "length (contents b) + length str + 10 \<le> BUF_LIMIT" using assms(3,4) by simp
  then obtain b1 where b1: "evtag_marshal mal b tag str = Some b1" "buf_ready b1" "contents b1 = contents b @ wire_frame tag str"
    by (rule evtag_marshal_ok [OF assms(1,2)])
  then have "contents b1 = wire_frame tag str @ []" using assms(3) by simp
  then obtain b2 where "evtag_unmarshal_string mal b1 tag = Some (0, Some (str @ [0]), b2)" "contents b2 = []"
    by (rule evtag_unmarshal_string_ok [OF assms(1) b1(2)])
  with b1 tw show "\<exists>b1 b2. evtag_marshal_string mal b tag (str @ 0 # junk) = Some b1 \<and>
       evtag_unmarshal_string mal b1 tag = Some (0, Some (str @ [0]), b2) \<and> contents b2 = []"
    by (auto simp: evtag_marshal_string_def)
qed

theorem evtag_time_string_roundtrip_witness:
  "(\<exists>b1 b2. evtag_marshal_timeval zalloc evbuffer_new 7 1000 5 = Some b1 \<and>
     evtag_unmarshal_timeval zalloc b1 7 = Some (0, Some 1000, Some 5, b2) \<and> contents b2 = []) \<and>
   (\<exists>b1 b2. evtag_marshal_string zalloc evbuffer_new 7 ([104, 105] @ 0 # [1]) = Some b1 \<and>
     evtag_unmarshal_string zalloc b1 7 = Some (0, Some ([104, 105] @ [0]), b2) \<and> contents b2 = [])"
  using evtag_time_string_roundtrip [OF zalloc_ok evbuffer_new_ready evbuffer_new_inv(2), of "[104, 105]"]
  by (simp add: cfg_defs)

lemma decode_tag_loop_None:
  "i \<le> 5 \<Longrightarrow> i + min n (5 - i) \<le> length m \<Longrightarrow>
   decode_tag_loop m n i (7 * i) number = None \<longleftrightarrow> 6 \<le> n + i \<and> (\<forall>j. i \<le> j \<longrightarrow> j < 5 \<longrightarrow> m ! j AND 0x80 \<noteq> 0)"
proof (induction n arbitrary: i number)
  case 0
  then show ?case by simp
next
  case (Suc n)
  show ?case
  proof (cases "i = 5")
    case True
    then show ?thesis by (auto simp: nth_opt_def)
  next
    case False
    then have i: "i < 5" "i < length m" using Suc.prems by auto
    show ?thesis
    proof (cases "m ! i AND 0x80 = 0")
      case True
      then show ?thesis using i by auto
    next
      case hi: False
      have "Suc i + min n (5 - Suc i) \<le> length m" using Suc.prems i by linarith
      then have IH: "decode_tag_loop m n (Suc i) (7 * Suc i) num = None \<longleftrightarrow>
          6 \<le> n + Suc i \<and> (\<forall>j. Suc i \<le> j \<longrightarrow> j < 5 \<longrightarrow> m ! j AND 0x80 \<noteq> 0)" for num
        using Suc.IH [of "Suc i" num] i by auto
      have "(\<forall>j. i \<le> j \<longrightarrow> j < 5 \<longrightarrow> m ! j AND 0x80 \<noteq> 0) \<longleftrightarrow> (\<forall>j. Suc i \<le> j \<longrightarrow> j < 5 \<longrightarrow> m ! j AND 0x80 \<noteq> 0)"
        using hi by (metis Suc_leD le_neq_implies_less Suc_leI)
      with i hi IH show ?thesis by (simp add: add.commute)
    qed
  qed
qed

lemma group_in_int: "unat ((c :: byte) AND 0x7f) < 8 \<longleftrightarrow> c AND 0x78 = 0"
proof -
  have "unat (c AND 0x7f) < 8 \<longleftrightarrow> drop_bit 3 (c AND 0x7f) = 0"
    by (simp add: word_unat_eq_iff drop_bit_eq_div unat_div div_eq_0_iff)
  also have "\<dots> \<longleftrightarrow> c AND 0x78 = 0" unfolding bit_eq_iff by (simp add: bit_simps numeral_eq_Suc All_less_Suc)
  finally show ?thesis .
qed

lemma group_shift_in_int:
  assumes "i < 5"
  shows "unat ((c :: byte) AND 0x7f) * 2 ^ (7 * i) < 2 ^ 31 \<longleftrightarrow> (i = 4 \<longrightarrow> c AND 0x78 = 0)"
proof -
  have "unat (c AND 0x7f) \<le> unat (0x7f :: byte)" unfolding word_le_nat_alt [symmetric] by (rule word_and_le1)
  then have "unat (c AND 0x7f) \<le> 127" by simp
  moreover have "i = 0 \<or> i = 1 \<or> i = 2 \<or> i = 3 \<or> i = 4" using assms by linarith
  ultimately show ?thesis using group_in_int [of c] by (elim disjE) simp_all
qed

lemma tag_shifts_in_int_iff:
  "i \<le> 5 \<Longrightarrow> i + min n (5 - i) \<le> length m \<Longrightarrow>
   tag_shifts_in_int m n i (7 * i) \<longleftrightarrow>
     \<not> (6 \<le> n + i \<and> (\<forall>j. i \<le> j \<longrightarrow> j < 5 \<longrightarrow> m ! j AND 0x80 \<noteq> 0)) \<and>
     \<not> (i \<le> 4 \<and> 5 \<le> n + i \<and> (\<forall>j. i \<le> j \<longrightarrow> j < 4 \<longrightarrow> m ! j AND 0x80 \<noteq> 0) \<and> m ! 4 AND 0x78 \<noteq> 0)"
proof (induction n arbitrary: i)
  case 0
  then show ?case by simp
next
  case (Suc n)
  show ?case
  proof (cases "i = 5")
    case True
    then show ?thesis by (auto simp: nth_opt_def)
  next
    case False
    then have i: "i < 5" "i < length m" using Suc.prems by auto
    have IH: "tag_shifts_in_int m n (Suc i) (7 * Suc i) \<longleftrightarrow>
       \<not> (6 \<le> n + Suc i \<and> (\<forall>j. Suc i \<le> j \<longrightarrow> j < 5 \<longrightarrow> m ! j AND 0x80 \<noteq> 0)) \<and>
       \<not> (Suc i \<le> 4 \<and> 5 \<le> n + Suc i \<and> (\<forall>j. Suc i \<le> j \<longrightarrow> j < 4 \<longrightarrow> m ! j AND 0x80 \<noteq> 0) \<and> m ! 4 AND 0x78 \<noteq> 0)"
      using Suc.IH [of "Suc i"] Suc.prems i by auto
    have step: "(\<forall>j. i \<le> j \<longrightarrow> j < k \<longrightarrow> P j) \<longleftrightarrow> P i \<and> (\<forall>j. Suc i \<le> j \<longrightarrow> j < k \<longrightarrow> P j)" if "i < k" for k :: nat and P
      using that by (metis Suc_leD Suc_leI le_neq_implies_less order_refl)
    have run: "tag_shifts_in_int m (Suc n) i (7 * i) \<longleftrightarrow>
       (i = 4 \<longrightarrow> m ! i AND 0x78 = 0) \<and> (m ! i AND 0x80 = 0 \<or> tag_shifts_in_int m n (Suc i) (7 * Suc i))"
      using i group_shift_in_int [OF i(1), of "m ! i"] by (simp add: nth_opt_def add.commute)
    show ?thesis
    proof (cases "i = 4")
      case True
      then show ?thesis unfolding run IH step [OF i(1)] by auto
    next
      case False
      then have "i < 4" using i by simp
      then show ?thesis unfolding run IH by (auto simp: step)
    qed
  qed
qed

text \<open>
  C19. When decoding a tag is safe, on a well-formed buffer. \<open>decode_tag_internal\<close> has a defined result exactly when the
  buffer does not begin with five continuation bytes followed by at least one more byte: on such input the loop, which is
  bounded by the length of the buffer and not by the five bytes it pulled up, shifts by 35 or reads past the memory. That
  holds where the shift of a bit into the sign of an \<open>int\<close> is defined, as GCC documents it. By the C standard alone the
  call is also undefined when four continuation bytes are followed by a byte with a bit of \<open>0x78\<close>; on all other
  input the two readings give the same result.
\<close>

theorem decode_tag_internal_defined:
  assumes "malloc_ok mal" "buf_ready b"
  shows "(decode_tag_internal mal b d = None \<longleftrightarrow>
      6 \<le> length (contents b) \<and> (\<forall>j < 5. contents b ! j AND 0x80 \<noteq> 0)) \<and>
    decode_tag_internal_iso mal b d =
      (if 5 \<le> length (contents b) \<and> (\<forall>j < 4. contents b ! j AND 0x80 \<noteq> 0) \<and> contents b ! 4 AND 0x78 \<noteq> 0 then None
       else decode_tag_internal mal b d)"
proof (cases "contents b = []")
  case True
  have len: "evbuffer_get_length b = 0" using ebuf.size_law [OF assms(2)] True by simp
  have "evbuffer_pullup mal b 0 = Some (None, b)" by (simp add: evbuffer_pullup_def)
  with True len show ?thesis by (simp add: decode_tag_internal_def decode_tag_internal_iso_def)
next
  case False
  define n where "n = min (length (contents b)) 5"
  have len: "evbuffer_get_length b = length (contents b)" by (rule ebuf.size_law [OF assms(2)])
  have n: "0 < n" "n \<le> length (contents b)" using False by (auto simp: n_def)
  obtain m b1 where p: "evbuffer_pullup mal b (int n) = Some (Some m, b1)" "buf_ready b1" "n \<le> length m"
    "take n m = take n (contents b)"
    using ebuf.pullup_law [OF assms n] by blast
  have arg: "(if length (contents b) < 5 then int (length (contents b)) else 5) = int n" by (auto simp: n_def)
  have dr: "evbuffer_drain b1 k = None \<longleftrightarrow> False" for k using ebuf.drain_law [OF p(2), of k] by auto
  have same: "j < n \<Longrightarrow> m ! j = contents b ! j" for j using p(4) by (metis nth_take)
  have "decode_tag_internal mal b d = None \<longleftrightarrow> decode_tag_loop m (length (contents b)) 0 (7 * 0) 0 = None"
    by (auto simp: decode_tag_internal_def len arg p(1) dr split: option.splits bind_splits)
  also have "\<dots> \<longleftrightarrow> 6 \<le> length (contents b) \<and> (\<forall>j < 5. m ! j AND 0x80 \<noteq> 0)"
    using decode_tag_loop_None [of 0 "length (contents b)" m 0] p(3) by (auto simp: n_def)
  also have "\<dots> \<longleftrightarrow> 6 \<le> length (contents b) \<and> (\<forall>j < 5. contents b ! j AND 0x80 \<noteq> 0)"
    using same by (auto simp: n_def)
  finally have gcc: "decode_tag_internal mal b d = None \<longleftrightarrow> 6 \<le> length (contents b) \<and> (\<forall>j < 5. contents b ! j AND 0x80 \<noteq> 0)" .
  have "decode_tag_internal_iso mal b d =
      (if tag_shifts_in_int m (length (contents b)) 0 (7 * 0) then decode_tag_internal mal b d else None)"
    by (simp add: decode_tag_internal_iso_def len arg p(1))
  also have "tag_shifts_in_int m (length (contents b)) 0 (7 * 0) \<longleftrightarrow>
      \<not> (6 \<le> length (contents b) \<and> (\<forall>j < 5. contents b ! j AND 0x80 \<noteq> 0)) \<and>
      \<not> (5 \<le> length (contents b) \<and> (\<forall>j < 4. contents b ! j AND 0x80 \<noteq> 0) \<and> contents b ! 4 AND 0x78 \<noteq> 0)"
    using tag_shifts_in_int_iff [of 0 "length (contents b)" m] p(3) same by (auto simp: n_def)
  finally show ?thesis using gcc by auto
qed

definition six_high :: evbuffer where
  "six_high = evbuffer_new\<lparr>chains := [chain_of [0x81, 0x81, 0x81, 0x81, 0x81, 1]], total_len := 6\<rparr>"

definition high_tag :: evbuffer where
  "high_tag = evbuffer_new\<lparr>chains := [chain_of [0x80, 0x80, 0x80, 0x80, 8]], total_len := 5\<rparr>"

theorem decode_tag_internal_defined_witness:
  "decode_tag_internal zalloc six_high True = None \<and> decode_tag_internal zalloc high_tag True \<noteq> None \<and>
   decode_tag_internal_iso zalloc high_tag True = None"
proof -
  have ok: "buf_ready six_high" "contents six_high = [0x81, 0x81, 0x81, 0x81, 0x81, 1]"
    "buf_ready high_tag" "contents high_tag = [0x80, 0x80, 0x80, 0x80, 8]"
    by (simp_all add: buf_ready_def six_high_def high_tag_def chain_of_def evbuffer_new_def evbuffer_inv_def chains_inv_def
        tail_ok_def chain_ok_def CHAIN_PINNED_def contents_def chain_data_def cfg_defs)
  have "(j::nat) < 5 \<longleftrightarrow> j = 0 \<or> j = 1 \<or> j = 2 \<or> j = 3 \<or> j = 4" "(j::nat) < 4 \<longleftrightarrow> j = 0 \<or> j = 1 \<or> j = 2 \<or> j = 3" for j by auto
  then show ?thesis
    using decode_tag_internal_defined [OF zalloc_ok ok(1), of True]
      decode_tag_internal_defined [OF zalloc_ok ok(3), of True] by (auto simp: ok(2,4))
qed

end
