(* ===== verification/Event_Core.thy ===== *)
theory Event_Core
  imports Minheap
begin

text \<open>
  The core of the event loop: \<^verbatim>\<open>event.c\<close> (assigning, adding, deleting and activating events, the queues,
  timeouts) and \<^verbatim>\<open>evmap.c\<close> (which events wait for which descriptor or signal).

  Events are pointers into a store; their fields \<open>ev_timeout\<close> and \<open>min_heap_idx\<close> live in the timer heap
  of theory \<open>Minheap\<close>. The lists of events (\<open>TAILQ\<close>) are HOL lists of pointers. The model is of a base that
  one thread uses (so nobody has to be notified or waited for), without debug mode, and on which
  \<open>event_base_init_common_timeout\<close> was not called (so \<open>is_common_timeout\<close> is false for every timeout).
  The functions of the backend (\<open>struct eventop\<close>: epoll and the like), the memory allocator and the clock
  are parameters.
\<close>

section \<open>Data\<close>

type_synonym u16 = "16 word"

definition EV_TIMEOUT :: u16 where "EV_TIMEOUT = 0x01"
definition EV_READ :: u16 where "EV_READ = 0x02"
definition EV_WRITE :: u16 where "EV_WRITE = 0x04"
definition EV_SIGNAL :: u16 where "EV_SIGNAL = 0x08"
definition EV_PERSIST :: u16 where "EV_PERSIST = 0x10"
definition EV_ET :: u16 where "EV_ET = 0x20"

definition EVLIST_TIMEOUT :: u16 where "EVLIST_TIMEOUT = 0x01"
definition EVLIST_INSERTED :: u16 where "EVLIST_INSERTED = 0x02"
definition EVLIST_ACTIVE :: u16 where "EVLIST_ACTIVE = 0x08"
definition EVLIST_INTERNAL :: u16 where "EVLIST_INTERNAL = 0x10"
definition EVLIST_INIT :: u16 where "EVLIST_INIT = 0x80"
definition EVLIST_ALL :: u16 where "EVLIST_ALL = 0xf000 OR 0x9f"

datatype ev_closure = EV_CLOSURE_NONE | EV_CLOSURE_SIGNAL | EV_CLOSURE_PERSIST

text \<open>
  An event. \<open>ev_pncalls\<close> is the number of the run of \<open>event_signal_closure\<close> whose local variable it points
  to, \<open>None\<close> for NULL.
\<close>

record event =
  ev_fd :: int
  ev_base :: bool            \<comment> \<open>whether \<open>ev_base\<close> is this base or NULL\<close>
  ev_io_timeout :: timeval
  ev_ncalls :: nat
  ev_pncalls :: "nat option"
  ev_events :: u16
  ev_res :: u16
  ev_flags :: u16
  ev_pri :: nat
  ev_closure :: ev_closure
  ev_callback :: nat
  ev_arg :: nat

record evmap_io =
  io_events :: "event_ptr list"
  io_nread :: nat
  io_nwrite :: nat

text \<open>
  The base. \<open>closure_no\<close> counts the runs of \<open>event_signal_closure\<close>; \<open>closure_ncalls\<close> is the local variable
  \<open>ncalls\<close> of the one under way, if there is one. \<open>base_log\<close> records the user callbacks run.
\<close>

record event_base =
  evs :: "event_ptr \<Rightarrow> event"
  timeheap :: min_heap
  eventqueue :: "event_ptr list"
  activequeues :: "event_ptr list list"
  io :: "evmap_io option list"
  sigmap :: "event_ptr list option list"
  event_count :: int
  event_count_active :: int
  virtual_event_count :: int
  event_gotterm :: bool
  event_break :: bool
  event_continue :: bool
  event_running_priority :: int
  running_loop :: bool
  event_tv :: timeval
  tv_cache :: timeval
  deferred_cb_list :: "nat list"
  cb_queued :: "nat \<Rightarrow> bool"
  active_count :: int
  closure_no :: nat
  closure_ncalls :: "nat option"
  base_log :: "(event_ptr \<times> int \<times> u16 \<times> nat) list"

text \<open>
  What the backend and the allocator answer: \<open>be_add fd old events\<close> and \<open>be_del\<close> for descriptors,
  \<open>be_sigadd\<close> and \<open>be_sigdel\<close> for signals (-1 is failure), \<open>be_alloc n\<close> whether \<open>n\<close> bytes can be had.
\<close>

record backend =
  be_add :: "int \<Rightarrow> u16 \<Rightarrow> u16 \<Rightarrow> int"
  be_del :: "int \<Rightarrow> u16 \<Rightarrow> u16 \<Rightarrow> int"
  be_sigadd :: "int \<Rightarrow> int"
  be_sigdel :: "int \<Rightarrow> int"
  be_alloc :: "nat \<Rightarrow> bool"
  be_fdinfo_len :: nat
  be_sig_fdinfo_len :: nat

definition upd_event :: "event_base \<Rightarrow> event_ptr \<Rightarrow> (event \<Rightarrow> event) \<Rightarrow> event_base" where
  "upd_event base e f = base\<lparr>evs := (evs base)(e := f (evs base e))\<rparr>"

abbreviation flags_of :: "event_base \<Rightarrow> event_ptr \<Rightarrow> u16" where
  "flags_of base e \<equiv> ev_flags (evs base e)"

text \<open>\<open>evutil_timeradd\<close> and \<open>evutil_timersub\<close>, that is \<open>timeradd\<close> and \<open>timersub\<close> of the system.\<close>

definition evutil_timeradd :: "timeval \<Rightarrow> timeval \<Rightarrow> timeval" where
  "evutil_timeradd t u =
     (let s = tv_sec t + tv_sec u; us = tv_usec t + tv_usec u
      in if us \<ge> 1000000 then Timeval (s + 1) (us - 1000000) else Timeval s us)"

definition evutil_timersub :: "timeval \<Rightarrow> timeval \<Rightarrow> timeval" where
  "evutil_timersub t u =
     (let s = tv_sec t - tv_sec u; us = tv_usec t - tv_usec u
      in if us < 0 then Timeval (s - 1) (us + 1000000) else Timeval s us)"

section \<open>Maps from descriptors and signals to events\<close>

function grow_entries :: "nat \<Rightarrow> nat \<Rightarrow> nat" where
  "grow_entries nentries slot =
     (if 0 < nentries \<and> nentries \<le> slot then grow_entries (2 * nentries) slot else nentries)"
  by pat_completeness auto
termination
  by (relation "measure (\<lambda>(n, s). Suc s - n)") auto

declare grow_entries.simps [simp del]

text \<open>
  The array of entries grown so that it has \<open>slot\<close>; NULL pointers are \<open>None\<close>. The number of entries and the
  number of bytes are \<open>int\<close>s, and a size past their range is undefined.
\<close>

definition evmap_make_space :: "backend \<Rightarrow> 'a option list \<Rightarrow> nat \<Rightarrow> (int \<times> 'a option list) option" where
  "evmap_make_space be entries slot =
     (if length entries \<le> slot then
        let nentries = grow_entries (if length entries \<noteq> 0 then length entries else 32) slot in do {
          ev_assert (int nentries * 4 \<le> INT_MAX);
          Some (if be_alloc be (nentries * 4)
                then (0, entries @ replicate (nentries - length entries) None) else (-1, entries))
        }
      else Some (0, entries))"

definition evmap_io_init :: evmap_io where
  "evmap_io_init = \<lparr>io_events = [], io_nread = 0, io_nwrite = 0\<rparr>"

text \<open>\<open>GET_IO_SLOT_AND_CTOR\<close>; \<open>None\<close> when memory is refused.\<close>

definition io_slot_and_ctor :: "backend \<Rightarrow> evmap_io option list \<Rightarrow> nat \<Rightarrow> (evmap_io \<times> evmap_io option list) option" where
  "io_slot_and_ctor be entries fd =
     (case entries ! fd of
        Some ctx \<Rightarrow> Some (ctx, entries)
      | None \<Rightarrow> if be_alloc be (12 + be_fdinfo_len be)
                then Some (evmap_io_init, entries[fd := Some evmap_io_init]) else None)"

definition old_events :: "evmap_io \<Rightarrow> u16" where
  "old_events ctx = (if io_nread ctx \<noteq> 0 then EV_READ else 0) OR (if io_nwrite ctx \<noteq> 0 then EV_WRITE else 0)"

definition evmap_io_add :: "backend \<Rightarrow> event_base \<Rightarrow> int \<Rightarrow> event_ptr \<Rightarrow> (int \<times> event_base) option" where
  "evmap_io_add be base fd e = do {
     let ev = evs base e;
     ev_assert (fd = ev_fd ev);
     if fd < 0 then Some (0, base)
     else do {
       (r, entries) \<leftarrow> evmap_make_space be (io base) (nat fd);
       let base1 = base\<lparr>io := entries\<rparr>;
       if r = -1 then Some (-1, base1)
       else case io_slot_and_ctor be entries (nat fd) of
         None \<Rightarrow> Some (-1, base1)
       | Some (ctx, entries1) \<Rightarrow>
           let base2 = base\<lparr>io := entries1\<rparr>;
               rd = ev_events ev AND EV_READ \<noteq> 0;
               wr = ev_events ev AND EV_WRITE \<noteq> 0;
               nread = io_nread ctx + (if rd then 1 else 0);
               nwrite = io_nwrite ctx + (if wr then 1 else 0);
               res = (if rd \<and> nread = 1 then EV_READ else 0) OR (if wr \<and> nwrite = 1 then EV_WRITE else 0)
           in if nread > 0xffff \<or> nwrite > 0xffff then Some (-1, base2)
              else if res \<noteq> 0 \<and> be_add be (ev_fd ev) (old_events ctx) ((ev_events ev AND EV_ET) OR res) = -1
              then Some (-1, base2)
              else Some (if res \<noteq> 0 then 1 else 0,
                         base\<lparr>io := entries1[nat fd := Some \<lparr>io_events = io_events ctx @ [e], io_nread = nread, io_nwrite = nwrite\<rparr>]\<rparr>)
     }
   }"

definition evmap_io_del :: "backend \<Rightarrow> event_base \<Rightarrow> int \<Rightarrow> event_ptr \<Rightarrow> (int \<times> event_base) option" where
  "evmap_io_del be base fd e =
     (let ev = evs base e in
      if fd < 0 then Some (0, base)
      else do {
        ev_assert (fd = ev_fd ev);
        if nat fd \<ge> length (io base) then Some (-1, base)
        else do {
          ctx \<leftarrow> io base ! nat fd;
          let rd = ev_events ev AND EV_READ \<noteq> 0;
          let wr = ev_events ev AND EV_WRITE \<noteq> 0;
          ev_assert (rd \<longrightarrow> io_nread ctx > 0);
          ev_assert (wr \<longrightarrow> io_nwrite ctx > 0);
          let nread = io_nread ctx - (if rd then 1 else 0);
          let nwrite = io_nwrite ctx - (if wr then 1 else 0);
          let res = (if rd \<and> nread = 0 then EV_READ else 0) OR (if wr \<and> nwrite = 0 then EV_WRITE else 0);
          if res \<noteq> 0 \<and> be_del be (ev_fd ev) (old_events ctx) res = -1 then Some (-1, base)
          else do {
            ev_assert (e \<in> set (io_events ctx));
            Some (if res \<noteq> 0 then 1 else 0,
                  base\<lparr>io := (io base)[nat fd := Some \<lparr>io_events = remove1 e (io_events ctx), io_nread = nread, io_nwrite = nwrite\<rparr>]\<rparr>)
          }
        }
      })"

definition evmap_signal_add :: "backend \<Rightarrow> event_base \<Rightarrow> int \<Rightarrow> event_ptr \<Rightarrow> (int \<times> event_base) option" where
  "evmap_signal_add be base sig e = do {
     ev_assert (sig \<ge> 0);
     (r, entries) \<leftarrow> evmap_make_space be (sigmap base) (nat sig);
     let base1 = base\<lparr>sigmap := entries\<rparr>;
     if r = -1 then Some (-1, base1)
     else if entries ! nat sig = None \<and> \<not> be_alloc be (8 + be_sig_fdinfo_len be) then Some (-1, base1)
     else
       let evl = (case entries ! nat sig of None \<Rightarrow> [] | Some es \<Rightarrow> es) in
       if evl = [] \<and> be_sigadd be (ev_fd (evs base e)) = -1
       then Some (-1, base\<lparr>sigmap := entries[nat sig := Some evl]\<rparr>)
       else Some (1, base\<lparr>sigmap := entries[nat sig := Some (evl @ [e])]\<rparr>)
   }"

definition evmap_signal_del :: "backend \<Rightarrow> event_base \<Rightarrow> int \<Rightarrow> event_ptr \<Rightarrow> (int \<times> event_base) option" where
  "evmap_signal_del be base sig e =
     (if sig \<ge> int (length (sigmap base)) then Some (-1, base)
      else do {
        ev_assert (sig \<ge> 0);
        evl \<leftarrow> sigmap base ! nat sig;
        if length evl \<le> 1 \<and> be_sigdel be (ev_fd (evs base e)) = -1 then Some (-1, base)
        else do {
          ev_assert (e \<in> set evl);
          Some (1, base\<lparr>sigmap := (sigmap base)[nat sig := Some (remove1 e evl)]\<rparr>)
        }
      })"

section \<open>The queues\<close>

datatype evlist = QTimeout | QInserted | QActive

fun queue_flag :: "evlist \<Rightarrow> u16" where
  "queue_flag QTimeout = EVLIST_TIMEOUT"
| "queue_flag QInserted = EVLIST_INSERTED"
| "queue_flag QActive = EVLIST_ACTIVE"

definition on_queue :: "event_base \<Rightarrow> evlist \<Rightarrow> event_ptr \<Rightarrow> bool" where
  "on_queue base q e \<longleftrightarrow> flags_of base e AND queue_flag q \<noteq> 0"

definition internal :: "event_base \<Rightarrow> event_ptr \<Rightarrow> bool" where
  "internal base e \<longleftrightarrow> flags_of base e AND EVLIST_INTERNAL \<noteq> 0"

text \<open>An event that is not on the queue ends the program (\<open>event_errx\<close>).\<close>

definition event_queue_remove :: "event_base \<Rightarrow> event_ptr \<Rightarrow> evlist \<Rightarrow> event_base option" where
  "event_queue_remove base e q = do {
     ev_assert (on_queue base q e);
     let base1 = (if internal base e then base else base\<lparr>event_count := event_count base - 1\<rparr>);
     let base2 = upd_event base1 e (\<lambda>ev. ev\<lparr>ev_flags := ev_flags ev AND NOT (queue_flag q)\<rparr>);
     case q of
       QInserted \<Rightarrow> do {
         ev_assert (e \<in> set (eventqueue base2));
         Some (base2\<lparr>eventqueue := remove1 e (eventqueue base2)\<rparr>)
       }
     | QActive \<Rightarrow> do {
         let pri = ev_pri (evs base2 e);
         evl \<leftarrow> nth_opt (activequeues base2) pri;
         ev_assert (e \<in> set evl);
         Some (base2\<lparr>event_count_active := event_count_active base2 - 1,
                      activequeues := (activequeues base2)[pri := remove1 e evl]\<rparr>)
       }
     | QTimeout \<Rightarrow> do {
         (rc, h) \<leftarrow> min_heap_erase (timeheap base2) e;
         Some (base2\<lparr>timeheap := h\<rparr>)
       }
   }"

definition event_queue_insert :: "backend \<Rightarrow> event_base \<Rightarrow> event_ptr \<Rightarrow> evlist \<Rightarrow> event_base option" where
  "event_queue_insert be base e q =
     (if on_queue base q e then (if q = QActive then Some base else None)
      else do {
        let base1 = (if internal base e then base else base\<lparr>event_count := event_count base + 1\<rparr>);
        let base2 = upd_event base1 e (\<lambda>ev. ev\<lparr>ev_flags := ev_flags ev OR queue_flag q\<rparr>);
        case q of
          QInserted \<Rightarrow> Some (base2\<lparr>eventqueue := eventqueue base2 @ [e]\<rparr>)
        | QActive \<Rightarrow> do {
            let pri = ev_pri (evs base2 e);
            evl \<leftarrow> nth_opt (activequeues base2) pri;
            Some (base2\<lparr>event_count_active := event_count_active base2 + 1,
                         activequeues := (activequeues base2)[pri := evl @ [e]]\<rparr>)
          }
        | QTimeout \<Rightarrow> do {
            (rc, h) \<leftarrow> min_heap_push (be_alloc be) (timeheap base2) e;
            Some (base2\<lparr>timeheap := h\<rparr>)
          }
      })"

section \<open>Setting up events\<close>

text \<open>\<open>base\<close> is not NULL here. \<open>-1\<close> leaves the event partly set up, as in the code.\<close>

definition event_assign ::
    "event_base \<Rightarrow> event_ptr \<Rightarrow> int \<Rightarrow> u16 \<Rightarrow> nat \<Rightarrow> nat \<Rightarrow> int \<times> event_base" where
  "event_assign base e fd events callback arg =
     (let ev = (evs base e)\<lparr>ev_base := True, ev_callback := callback, ev_arg := arg, ev_fd := fd, ev_events := events,
                            ev_res := 0, ev_flags := EVLIST_INIT, ev_ncalls := 0, ev_pncalls := None\<rparr>
      in if events AND EV_SIGNAL \<noteq> 0 \<and> events AND (EV_READ OR EV_WRITE) \<noteq> 0
         then (-1, base\<lparr>evs := (evs base)(e := ev)\<rparr>)
         else
           let ev1 = (if events AND EV_SIGNAL \<noteq> 0 then ev\<lparr>ev_closure := EV_CLOSURE_SIGNAL\<rparr>
                      else if events AND EV_PERSIST \<noteq> 0
                      then ev\<lparr>ev_io_timeout := Timeval 0 0, ev_closure := EV_CLOSURE_PERSIST\<rparr>
                      else ev\<lparr>ev_closure := EV_CLOSURE_NONE\<rparr>);
               ev2 = ev1\<lparr>ev_pri := length (activequeues base) div 2\<rparr>
           in (0, base\<lparr>evs := (evs base)(e := ev2), timeheap := min_heap_elem_init (timeheap base) e\<rparr>))"

definition event_priority_set :: "event_base \<Rightarrow> event_ptr \<Rightarrow> int \<Rightarrow> int \<times> event_base" where
  "event_priority_set base e pri =
     (if on_queue base QActive e then (-1, base)
      else if pri < 0 \<or> pri \<ge> int (length (activequeues base)) then (-1, base)
      else (0, upd_event base e (\<lambda>ev. ev\<lparr>ev_pri := nat pri\<rparr>)))"

text \<open>
  \<open>event_pending\<close>: the flags, and what it stores behind \<open>tv\<close> when \<open>want_tv\<close> (the pointer is not \<open>NULL\<close>): the
  deadline moved by \<open>clock_diff\<close>, the field \<open>tv_clock_diff\<close> of the base, to the time of day.
\<close>

definition MICROSECONDS_MASK :: int where
  "MICROSECONDS_MASK = 0x000fffff"

definition event_pending :: "event_base \<Rightarrow> timeval \<Rightarrow> event_ptr \<Rightarrow> u16 \<Rightarrow> bool \<Rightarrow> u16 \<times> timeval option" where
  "event_pending base clock_diff e event want_tv =
     (let ev = evs base e;
          flags = (if on_queue base QInserted e then ev_events ev AND (EV_READ OR EV_WRITE OR EV_SIGNAL) else 0) OR
                  (if on_queue base QActive e then ev_res ev else 0) OR
                  (if on_queue base QTimeout e then EV_TIMEOUT else 0);
          event = event AND (EV_TIMEOUT OR EV_READ OR EV_WRITE OR EV_SIGNAL);
          tmp = ev_timeout (timeheap base) e
      in if \<not> ev_base ev then (0, None)
         else (flags AND event,
           if want_tv \<and> flags AND event AND EV_TIMEOUT \<noteq> 0
           then Some (evutil_timeradd clock_diff (Timeval (tv_sec tmp) (tv_usec tmp AND MICROSECONDS_MASK))) else None))"

section \<open>Adding, deleting, activating\<close>

text \<open>
  \<open>gettime\<close>: the cached time, or the clock, whose call is taken to succeed. The difference to the time of day that it keeps up to
  date is only reported by \<open>event_pending\<close>, which takes it as an argument.
\<close>

definition gettime :: "event_base \<Rightarrow> timeval \<Rightarrow> timeval" where
  "gettime base clock = (if tv_sec (tv_cache base) \<noteq> 0 then tv_cache base else clock)"

text \<open>
  "Abort loop": the write through \<open>ev_pncalls\<close>. It is undefined when the function whose variable that was
  has returned.
\<close>

definition abort_signal_loop :: "event_base \<Rightarrow> event_ptr \<Rightarrow> event_base option" where
  "abort_signal_loop base e =
     (let ev = evs base e in
      if ev_events ev AND EV_SIGNAL \<noteq> 0 \<and> ev_ncalls ev \<noteq> 0 then
        (case ev_pncalls ev of
           None \<Rightarrow> Some base
         | Some f \<Rightarrow> do {
             ev_assert (f = closure_no base \<and> closure_ncalls base \<noteq> None);
             Some (base\<lparr>closure_ncalls := Some 0\<rparr>)
           })
      else Some base)"

text \<open>The second half of \<open>event_add_internal\<close>: the timeout.\<close>

definition event_add_timeout ::
    "backend \<Rightarrow> timeval \<Rightarrow> event_base \<Rightarrow> event_ptr \<Rightarrow> timeval \<Rightarrow> bool \<Rightarrow> event_base option" where
  "event_add_timeout be clock base e tv tv_is_absolute = do {
     let base1 = (if ev_closure (evs base e) = EV_CLOSURE_PERSIST \<and> \<not> tv_is_absolute
                  then upd_event base e (\<lambda>ev. ev\<lparr>ev_io_timeout := tv\<rparr>) else base);
     base2 \<leftarrow> (if on_queue base1 QTimeout e then event_queue_remove base1 e QTimeout else Some base1);
     base3 \<leftarrow> (if on_queue base2 QActive e \<and> ev_res (evs base2 e) AND EV_TIMEOUT \<noteq> 0 then do {
                 b \<leftarrow> abort_signal_loop base2 e;
                 event_queue_remove b e QActive
               }
               else Some base2);
     let now = gettime base3 clock;
     let due = (if tv_is_absolute then tv else evutil_timeradd now tv);
     let base4 = base3\<lparr>timeheap := (timeheap base3)\<lparr>ev_timeout := (ev_timeout (timeheap base3))(e := due)\<rparr>\<rparr>;
     event_queue_insert be base4 e QTimeout
   }"

definition event_add_internal ::
    "backend \<Rightarrow> timeval \<Rightarrow> event_base \<Rightarrow> event_ptr \<Rightarrow> timeval option \<Rightarrow> bool \<Rightarrow> (int \<times> event_base) option" where
  "event_add_internal be clock base e tv tv_is_absolute = do {
     ev_assert (flags_of base e AND NOT EVLIST_ALL = 0);
     let (r, h) = (if tv \<noteq> None \<and> \<not> on_queue base QTimeout e
                   then min_heap_reserve (be_alloc be) (timeheap base) (szadd 1 (min_heap_size (timeheap base)))
                   else (0, timeheap base));
     if r = -1 then Some (-1, base)
     else do {
       let base1 = base\<lparr>timeheap := h\<rparr>;
       let events = ev_events (evs base1 e);
       (res, base2) \<leftarrow>
         (if events AND (EV_READ OR EV_WRITE OR EV_SIGNAL) \<noteq> 0 \<and> \<not> on_queue base1 QInserted e \<and> \<not> on_queue base1 QActive e
          then do {
            (res, b) \<leftarrow> (if events AND (EV_READ OR EV_WRITE) \<noteq> 0
                         then evmap_io_add be base1 (ev_fd (evs base1 e)) e
                         else evmap_signal_add be base1 (ev_fd (evs base1 e)) e);
            if res \<noteq> -1 then do { b1 \<leftarrow> event_queue_insert be b e QInserted; Some (0, b1) } else Some (-1, b)
          }
          else Some (0, base1));
       case tv of
         Some t \<Rightarrow>
           if res \<noteq> -1 then do { base3 \<leftarrow> event_add_timeout be clock base2 e t tv_is_absolute; Some (res, base3) }
           else Some (res, base2)
       | None \<Rightarrow> Some (res, base2)
     }
   }"

definition event_add ::
    "backend \<Rightarrow> timeval \<Rightarrow> event_base \<Rightarrow> event_ptr \<Rightarrow> timeval option \<Rightarrow> (int \<times> event_base) option" where
  "event_add be clock base e tv =
     (if \<not> ev_base (evs base e) then Some (-1, base) else event_add_internal be clock base e tv False)"

definition event_del_internal :: "backend \<Rightarrow> event_base \<Rightarrow> event_ptr \<Rightarrow> (int \<times> event_base) option" where
  "event_del_internal be base e =
     (if \<not> ev_base (evs base e) then Some (-1, base)
      else do {
        ev_assert (flags_of base e AND NOT EVLIST_ALL = 0);
        base1 \<leftarrow> abort_signal_loop base e;
        base2 \<leftarrow> (if on_queue base1 QTimeout e then event_queue_remove base1 e QTimeout else Some base1);
        base3 \<leftarrow> (if on_queue base2 QActive e then event_queue_remove base2 e QActive else Some base2);
        if on_queue base3 QInserted e then do {
          base4 \<leftarrow> event_queue_remove base3 e QInserted;
          (res, base5) \<leftarrow> (if ev_events (evs base4 e) AND (EV_READ OR EV_WRITE) \<noteq> 0
                           then evmap_io_del be base4 (ev_fd (evs base4 e)) e
                           else evmap_signal_del be base4 (ev_fd (evs base4 e)) e);
          Some (if res = 1 then 0 else res, base5)
        }
        else Some (0, base3)
      })"

definition event_del :: "backend \<Rightarrow> event_base \<Rightarrow> event_ptr \<Rightarrow> (int \<times> event_base) option" where
  "event_del be base e =
     (if \<not> ev_base (evs base e) then Some (-1, base) else event_del_internal be base e)"

definition event_active_nolock :: "backend \<Rightarrow> event_base \<Rightarrow> event_ptr \<Rightarrow> u16 \<Rightarrow> nat \<Rightarrow> event_base option" where
  "event_active_nolock be base e res ncalls =
     (if on_queue base QActive e then Some (upd_event base e (\<lambda>ev. ev\<lparr>ev_res := ev_res ev OR res\<rparr>))
      else
        let base1 = upd_event base e (\<lambda>ev. ev\<lparr>ev_res := res\<rparr>);
            base2 = (if int (ev_pri (evs base1 e)) < event_running_priority base1
                     then base1\<lparr>event_continue := True\<rparr> else base1);
            base3 = (if ev_events (evs base2 e) AND EV_SIGNAL \<noteq> 0
                     then upd_event base2 e (\<lambda>ev. ev\<lparr>ev_ncalls := ncalls, ev_pncalls := None\<rparr>) else base2)
        in event_queue_insert be base3 e QActive)"

definition event_active :: "backend \<Rightarrow> event_base \<Rightarrow> event_ptr \<Rightarrow> u16 \<Rightarrow> nat \<Rightarrow> event_base option" where
  "event_active be base e res ncalls =
     (if \<not> ev_base (evs base e) then Some base else event_active_nolock be base e res ncalls)"

text \<open>The events of a list that wait for one of \<open>events\<close> are activated, in order.\<close>

fun activate_list :: "backend \<Rightarrow> event_base \<Rightarrow> event_ptr list \<Rightarrow> u16 \<Rightarrow> event_base option" where
  "activate_list be base [] events = Some base"
| "activate_list be base (e # es) events = do {
     base1 \<leftarrow> (if ev_events (evs base e) AND events \<noteq> 0
               then event_active_nolock be base e (ev_events (evs base e) AND events) 1 else Some base);
     activate_list be base1 es events
   }"

definition evmap_io_active :: "backend \<Rightarrow> event_base \<Rightarrow> int \<Rightarrow> u16 \<Rightarrow> event_base option" where
  "evmap_io_active be base fd events = do {
     ev_assert (0 \<le> fd \<and> fd < int (length (io base)));
     ctx \<leftarrow> io base ! nat fd;
     activate_list be base (io_events ctx) events
   }"

fun activate_signals :: "backend \<Rightarrow> event_base \<Rightarrow> event_ptr list \<Rightarrow> nat \<Rightarrow> event_base option" where
  "activate_signals be base [] ncalls = Some base"
| "activate_signals be base (e # es) ncalls = do {
     base1 \<leftarrow> event_active_nolock be base e EV_SIGNAL ncalls;
     activate_signals be base1 es ncalls
   }"

definition evmap_signal_active :: "backend \<Rightarrow> event_base \<Rightarrow> int \<Rightarrow> nat \<Rightarrow> event_base option" where
  "evmap_signal_active be base sig ncalls = do {
     ev_assert (0 \<le> sig \<and> sig < int (length (sigmap base)));
     evl \<leftarrow> sigmap base ! nat sig;
     activate_signals be base evl ncalls
   }"

section \<open>Deferred callbacks\<close>

definition event_deferred_cb_schedule :: "event_base \<Rightarrow> nat \<Rightarrow> event_base" where
  "event_deferred_cb_schedule base cb =
     (if cb_queued base cb then base
      else base\<lparr>cb_queued := (cb_queued base)(cb := True), deferred_cb_list := deferred_cb_list base @ [cb],
                active_count := active_count base + 1\<rparr>)"

definition event_deferred_cb_cancel :: "event_base \<Rightarrow> nat \<Rightarrow> event_base option" where
  "event_deferred_cb_cancel base cb =
     (if cb_queued base cb then do {
        ev_assert (cb \<in> set (deferred_cb_list base));
        Some (base\<lparr>cb_queued := (cb_queued base)(cb := False), deferred_cb_list := remove1 cb (deferred_cb_list base),
                   active_count := active_count base - 1\<rparr>)
      }
      else Some base)"

section \<open>Timeouts\<close>

text \<open>How long the backend may wait: \<open>None\<close> is for ever.\<close>

definition timeout_next :: "timeval \<Rightarrow> event_base \<Rightarrow> timeval option option" where
  "timeout_next clock base = do {
     top \<leftarrow> min_heap_top (timeheap base);
     case top of
       None \<Rightarrow> Some None
     | Some e \<Rightarrow>
         let now = gettime base clock; due = ev_timeout (timeheap base) e in
         if \<not> evutil_timercmp_gt due now then Some (Some (Timeval 0 0))
         else do {
           let tv = evutil_timersub due now;
           ev_assert (tv_sec tv \<ge> 0);
           ev_assert (tv_usec tv \<ge> 0);
           Some (Some tv)
         }
   }"

text \<open>The timeouts of the events in the array, moved back by \<open>off\<close>.\<close>

fun shift_timeouts :: "event_ptr option list \<Rightarrow> timeval \<Rightarrow> (event_ptr \<Rightarrow> timeval) \<Rightarrow> (event_ptr \<Rightarrow> timeval) option" where
  "shift_timeouts [] off t = Some t"
| "shift_timeouts (p # ps) off t = do { e \<leftarrow> p; shift_timeouts ps off (t(e := evutil_timersub (t e) off)) }"

definition timeout_correct :: "bool \<Rightarrow> timeval \<Rightarrow> event_base \<Rightarrow> event_base option" where
  "timeout_correct use_monotonic clock base =
     (if use_monotonic then Some base
      else
        let tv = gettime base clock in
        if \<not> evutil_timercmp_gt (event_tv base) tv then Some (base\<lparr>event_tv := tv\<rparr>)
        else
          let off = evutil_timersub (event_tv base) tv; h = timeheap base in do {
            ev_assert (heap_n h \<le> length (heap_p h));
            t \<leftarrow> shift_timeouts (take (heap_n h) (heap_p h)) off (ev_timeout h);
            Some (base\<lparr>timeheap := h\<lparr>ev_timeout := t\<rparr>, event_tv := tv\<rparr>)
          })"

partial_function (option) timeout_process_loop :: "backend \<Rightarrow> timeval \<Rightarrow> event_base \<Rightarrow> event_base option" where
  "timeout_process_loop be now base = do {
     top \<leftarrow> min_heap_top (timeheap base);
     case top of
       None \<Rightarrow> Some base
     | Some e \<Rightarrow>
         if evutil_timercmp_gt (ev_timeout (timeheap base) e) now then Some base
         else do {
           (r, base1) \<leftarrow> event_del_internal be base e;
           base2 \<leftarrow> event_active_nolock be base1 e EV_TIMEOUT 1;
           timeout_process_loop be now base2
         }
   }"

definition timeout_process :: "backend \<Rightarrow> timeval \<Rightarrow> event_base \<Rightarrow> event_base option" where
  "timeout_process be clock base =
     (if min_heap_empty (timeheap base) then Some base
      else timeout_process_loop be (gettime base clock) base)"

definition event_haveevents :: "event_base \<Rightarrow> bool" where
  "event_haveevents base \<longleftrightarrow> virtual_event_count base > 0 \<or> event_count base > 0"

definition N_ACTIVE_CALLBACKS :: "event_base \<Rightarrow> int" where
  "N_ACTIVE_CALLBACKS base = event_count_active base + active_count base"

end
