(* ===== verification/Event_Inv.thy ===== *)
theory Event_Inv
  imports Event_Core
begin

text \<open>
  The invariant of an event base: flags, lists, the timer heap, the counters and the descriptor map say
  the same about every event. Every operation keeps it.
\<close>

section \<open>Flags\<close>

named_theorems flag_defs

lemmas [flag_defs] = EVLIST_TIMEOUT_def EVLIST_INSERTED_def EVLIST_ACTIVE_def EVLIST_INTERNAL_def EVLIST_INIT_def EVLIST_ALL_def

lemma and_or_0: "(f OR a) AND b = 0 \<longleftrightarrow> f AND b = 0 \<and> a AND b = 0" for f a b :: u16
  by (simp add: bit.conj_disj_distrib2 or_eq_0_iff)

lemma queue_flag_disj: "queue_flag q AND queue_flag q' = 0 \<longleftrightarrow> q \<noteq> q'"
  by (cases q; cases q'; simp add: flag_defs)

lemma queue_flag_nz [simp]: "queue_flag q \<noteq> 0"
  by (cases q) (simp_all add: flag_defs)

lemma queue_flag_clear: "NOT (queue_flag q) AND queue_flag q' = (if q = q' then 0 else queue_flag q')"
  by (cases q; cases q'; simp add: flag_defs)

lemma queue_flag_internal: "queue_flag q AND EVLIST_INTERNAL = 0" "NOT (queue_flag q) AND EVLIST_INTERNAL = EVLIST_INTERNAL"
  "queue_flag q AND NOT EVLIST_ALL = 0"
  by (cases q; simp add: flag_defs)+

lemma set_flag: "(f OR queue_flag q) AND queue_flag q' = 0 \<longleftrightarrow> f AND queue_flag q' = 0 \<and> q' \<noteq> q"
  using queue_flag_disj [of q q'] by (auto simp only: and_or_0)

lemma set_flag_internal: "(f OR queue_flag q) AND EVLIST_INTERNAL = f AND EVLIST_INTERNAL"
  by (simp only: bit.conj_disj_distrib2 queue_flag_internal or.right_neutral)

lemma set_flag_all: "f AND NOT EVLIST_ALL = 0 \<Longrightarrow> (f OR queue_flag q) AND NOT EVLIST_ALL = 0"
  by (simp only: bit.conj_disj_distrib2 queue_flag_internal or.right_neutral)

lemma clear_flag: "(f AND NOT (queue_flag q)) AND queue_flag q' = 0 \<longleftrightarrow> f AND queue_flag q' = 0 \<or> q' = q"
  by (simp only: and.assoc queue_flag_clear split: if_split) auto

lemma clear_flag_internal: "(f AND NOT (queue_flag q)) AND EVLIST_INTERNAL = f AND EVLIST_INTERNAL"
  by (simp only: and.assoc queue_flag_internal)

lemma clear_flag_all: "f AND NOT EVLIST_ALL = 0 \<Longrightarrow> (f AND NOT (queue_flag q)) AND NOT EVLIST_ALL = 0"
  by (metis and.assoc and.commute and_zero_eq)

lemma upd_event_simps [simp]:
  "evs (upd_event b e f) x = (if x = e then f (evs b e) else evs b x)"
  "timeheap (upd_event b e f) = timeheap b" "eventqueue (upd_event b e f) = eventqueue b"
  "activequeues (upd_event b e f) = activequeues b" "io (upd_event b e f) = io b" "sigmap (upd_event b e f) = sigmap b"
  "event_count (upd_event b e f) = event_count b" "event_count_active (upd_event b e f) = event_count_active b"
  "tv_cache (upd_event b e f) = tv_cache b" "closure_no (upd_event b e f) = closure_no b"
  "closure_ncalls (upd_event b e f) = closure_ncalls b" "event_continue (upd_event b e f) = event_continue b"
  by (simp_all add: upd_event_def)

section \<open>The invariant\<close>

definition queued :: "event_base \<Rightarrow> evlist \<Rightarrow> event_ptr set" where
  "queued base q = {e. on_queue base q e}"

definition counted :: "event_base \<Rightarrow> evlist \<Rightarrow> int" where
  "counted base q = int (card {e \<in> queued base q. \<not> internal base e})"

text \<open>The lists, the heap and the counters agree with the flags.\<close>

definition queues_inv :: "event_base \<Rightarrow> bool" where
  "queues_inv base \<longleftrightarrow>
     distinct (eventqueue base) \<and> set (eventqueue base) = queued base QInserted \<and>
     (\<forall>p < length (activequeues base). distinct (activequeues base ! p) \<and>
        set (activequeues base ! p) = {e \<in> queued base QActive. ev_pri (evs base e) = p}) \<and>
     (\<forall>e. ev_base (evs base e) \<longrightarrow> ev_pri (evs base e) < length (activequeues base)) \<and>
     (\<forall>q. \<forall>e \<in> queued base q. ev_base (evs base e)) \<and>
     (\<forall>e. flags_of base e AND NOT EVLIST_ALL = 0) \<and>
     min_heap_inv (timeheap base) \<and> heap_elems (timeheap base) = queued base QTimeout \<and>
     finite (queued base QActive) \<and> event_count_active base = int (card (queued base QActive)) \<and>
     event_count base = counted base QTimeout + counted base QInserted + counted base QActive"

definition is_io :: "event \<Rightarrow> bool" where
  "is_io ev \<longleftrightarrow> ev_events ev AND (EV_READ OR EV_WRITE) \<noteq> 0"

definition reads :: "event \<Rightarrow> bool" where
  "reads ev \<longleftrightarrow> ev_events ev AND EV_READ \<noteq> 0"

definition writes :: "event \<Rightarrow> bool" where
  "writes ev \<longleftrightarrow> ev_events ev AND EV_WRITE \<noteq> 0"

text \<open>Of a set of added events, those that wait for a descriptor and for a signal.\<close>

definition waiting :: "(event_ptr \<Rightarrow> event) \<Rightarrow> event_ptr set \<Rightarrow> nat \<Rightarrow> event_ptr set" where
  "waiting E I fd = {e \<in> I. is_io (E e) \<and> ev_fd (E e) = int fd}"

definition sig_waiting :: "(event_ptr \<Rightarrow> event) \<Rightarrow> event_ptr set \<Rightarrow> nat \<Rightarrow> event_ptr set" where
  "sig_waiting E I sig = {e \<in> I. \<not> is_io (E e) \<and> ev_fd (E e) = int sig}"

definition slot :: "'a option list \<Rightarrow> nat \<Rightarrow> 'a option" where
  "slot entries k = (if k < length entries then entries ! k else None)"

text \<open>
  The maps hold exactly the added events: the list of a descriptor has each of its events once, and
  \<open>nread\<close>, \<open>nwrite\<close> count the ones that read and the ones that write.
\<close>

definition ctx_ok :: "(event_ptr \<Rightarrow> event) \<Rightarrow> event_ptr set \<Rightarrow> evmap_io \<Rightarrow> bool" where
  "ctx_ok E W ctx \<longleftrightarrow> distinct (io_events ctx) \<and> set (io_events ctx) = W \<and>
     io_nread ctx = length (filter (\<lambda>e. reads (E e)) (io_events ctx)) \<and>
     io_nwrite ctx = length (filter (\<lambda>e. writes (E e)) (io_events ctx))"

definition io_rel :: "(event_ptr \<Rightarrow> event) \<Rightarrow> event_ptr set \<Rightarrow> evmap_io option list \<Rightarrow> bool" where
  "io_rel E I m \<longleftrightarrow> (\<forall>fd. case slot m fd of None \<Rightarrow> waiting E I fd = {} | Some ctx \<Rightarrow> ctx_ok E (waiting E I fd) ctx)"

definition sig_rel :: "(event_ptr \<Rightarrow> event) \<Rightarrow> event_ptr set \<Rightarrow> event_ptr list option list \<Rightarrow> bool" where
  "sig_rel E I m \<longleftrightarrow>
     (\<forall>sig. case slot m sig of None \<Rightarrow> sig_waiting E I sig = {} | Some evl \<Rightarrow> distinct evl \<and> set evl = sig_waiting E I sig) \<and>
     (\<forall>e \<in> I. \<not> is_io (E e) \<longrightarrow> 0 \<le> ev_fd (E e))"

definition maps_inv :: "event_base \<Rightarrow> bool" where
  "maps_inv base \<longleftrightarrow> io_rel (evs base) (queued base QInserted) (io base) \<and> sig_rel (evs base) (queued base QInserted) (sigmap base)"

definition base_inv :: "event_base \<Rightarrow> bool" where
  "base_inv base \<longleftrightarrow> queues_inv base \<and> maps_inv base"

text \<open>What moving an event between queues does not touch.\<close>

definition same_event :: "event \<Rightarrow> event \<Rightarrow> bool" where
  "same_event ev ev' \<longleftrightarrow> (\<exists>f. ev' = ev\<lparr>ev_flags := f\<rparr>)"

definition ctl where
  "ctl (b :: event_base) = (tv_cache b, virtual_event_count b, event_gotterm b, event_break b, event_running_priority b,
     running_loop b, event_tv b, deferred_cb_list b, cb_queued b, active_count b, closure_no b, base_log b)"

definition rest where
  "rest b = (ctl b, event_continue b)"

definition same_rest :: "event_base \<Rightarrow> event_base \<Rightarrow> bool" where
  "same_rest b b' \<longleftrightarrow> io b' = io b \<and> sigmap b' = sigmap b \<and> rest b' = rest b \<and>
     closure_ncalls b' = closure_ncalls b \<and> length (activequeues b') = length (activequeues b) \<and>
     (\<forall>e. same_event (evs b e) (evs b' e) \<and> internal b' e = internal b e)"

text \<open>The state after a queue was changed for one event.\<close>

definition requeued :: "event_base \<Rightarrow> evlist \<Rightarrow> event_ptr set \<Rightarrow> event_base \<Rightarrow> bool" where
  "requeued b q es b' \<longleftrightarrow> queues_inv b' \<and> same_rest b b' \<and> queued b' q = es \<and> (\<forall>q'. q' \<noteq> q \<longrightarrow> queued b' q' = queued b q') \<and>
     ev_timeout (timeheap b') = ev_timeout (timeheap b) \<and> heap_a (timeheap b') = heap_a (timeheap b) \<and>
     (q \<noteq> QActive \<longrightarrow> activequeues b' = activequeues b)"

definition dequeue :: "event_base \<Rightarrow> event_ptr \<Rightarrow> event_ptr list list" where
  "dequeue b e = (let p = ev_pri (evs b e) in (activequeues b)[p := remove1 e (activequeues b ! p)])"

text \<open>The heap has room for one more timer, so that adding it cannot fail.\<close>

definition has_room :: "event_base \<Rightarrow> bool" where
  "has_room b \<longleftrightarrow> card (queued b QTimeout) < heap_a (timeheap b)"

lemma queues_inv_finite: "queues_inv b \<Longrightarrow> finite (queued b q)"
  using heap_elems_finite [of "timeheap b"] by (cases q) (auto simp: queues_inv_def dest: sym)

lemma ctl_simps [simp]:
  "ctl (b\<lparr>evs := E\<rparr>) = ctl b" "ctl (b\<lparr>timeheap := h\<rparr>) = ctl b" "ctl (b\<lparr>eventqueue := l\<rparr>) = ctl b"
  "ctl (b\<lparr>activequeues := ls\<rparr>) = ctl b" "ctl (b\<lparr>event_count := n\<rparr>) = ctl b" "ctl (b\<lparr>event_count_active := n\<rparr>) = ctl b"
  "ctl (b\<lparr>io := m\<rparr>) = ctl b" "ctl (b\<lparr>sigmap := sm\<rparr>) = ctl b" "ctl (b\<lparr>closure_ncalls := c\<rparr>) = ctl b"
  "ctl (b\<lparr>event_continue := f'\<rparr>) = ctl b" "ctl (upd_event b e f) = ctl b"
  by (simp_all add: ctl_def upd_event_def)

lemma rest_simps [simp]:
  "rest (b\<lparr>evs := E\<rparr>) = rest b" "rest (b\<lparr>timeheap := h\<rparr>) = rest b" "rest (b\<lparr>eventqueue := l\<rparr>) = rest b"
  "rest (b\<lparr>activequeues := ls\<rparr>) = rest b" "rest (b\<lparr>event_count := n\<rparr>) = rest b" "rest (b\<lparr>event_count_active := n\<rparr>) = rest b"
  "rest (b\<lparr>io := m\<rparr>) = rest b" "rest (b\<lparr>sigmap := sm\<rparr>) = rest b" "rest (b\<lparr>closure_ncalls := c\<rparr>) = rest b"
  "rest (upd_event b e f) = rest b"
  by (simp_all add: rest_def)

lemma ctl_fields:
  assumes "ctl b' = ctl b"
  shows "tv_cache b' = tv_cache b" "event_gotterm b' = event_gotterm b" "event_break b' = event_break b"
    "event_running_priority b' = event_running_priority b" "closure_no b' = closure_no b" "base_log b' = base_log b"
    "deferred_cb_list b' = deferred_cb_list b" "cb_queued b' = cb_queued b" "active_count b' = active_count b"
    "virtual_event_count b' = virtual_event_count b"
  using assms by (simp_all add: ctl_def)

lemma rest_fields:
  assumes "rest b' = rest b"
  shows "tv_cache b' = tv_cache b" "event_gotterm b' = event_gotterm b" "event_break b' = event_break b" "event_continue b' = event_continue b"
    "event_running_priority b' = event_running_priority b" "closure_no b' = closure_no b" "base_log b' = base_log b"
    "deferred_cb_list b' = deferred_cb_list b" "cb_queued b' = cb_queued b" "active_count b' = active_count b" "ctl b' = ctl b"
  using assms ctl_fields [of b' b] by (simp_all add: rest_def)

section \<open>Changing a flag\<close>

definition clear :: "event_base \<Rightarrow> event_ptr \<Rightarrow> evlist \<Rightarrow> event_base" where
  "clear b e q = upd_event (if internal b e then b else b\<lparr>event_count := event_count b - 1\<rparr>) e
     (\<lambda>ev. ev\<lparr>ev_flags := ev_flags ev AND NOT (queue_flag q)\<rparr>)"

definition raise :: "event_base \<Rightarrow> event_ptr \<Rightarrow> evlist \<Rightarrow> event_base" where
  "raise b e q = upd_event (if internal b e then b else b\<lparr>event_count := event_count b + 1\<rparr>) e
     (\<lambda>ev. ev\<lparr>ev_flags := ev_flags ev OR queue_flag q\<rparr>)"

lemma clear_queued: "queued (clear b e q) q' = (if q' = q then queued b q - {e} else queued b q')"
  by (auto simp: clear_def queued_def on_queue_def clear_flag)

lemma raise_queued: "queued (raise b e q) q' = (if q' = q then insert e (queued b q) else queued b q')"
  by (auto simp: raise_def queued_def on_queue_def set_flag)

lemma clear_internal [simp]: "internal (clear b e q) x = internal b x"
  by (simp add: clear_def internal_def clear_flag_internal)

lemma raise_internal [simp]: "internal (raise b e q) x = internal b x"
  by (simp add: raise_def internal_def set_flag_internal)

lemma clear_simps [simp]:
  "timeheap (clear b e q) = timeheap b" "eventqueue (clear b e q) = eventqueue b" "activequeues (clear b e q) = activequeues b"
  "io (clear b e q) = io b" "sigmap (clear b e q) = sigmap b" "tv_cache (clear b e q) = tv_cache b" "closure_no (clear b e q) = closure_no b"
  "closure_ncalls (clear b e q) = closure_ncalls b" "event_count_active (clear b e q) = event_count_active b"
  "rest (clear b e q) = rest b" "event_count (clear b e q) = event_count b - (if internal b e then 0 else 1)"
  by (simp_all add: clear_def)

lemma raise_simps [simp]:
  "timeheap (raise b e q) = timeheap b" "eventqueue (raise b e q) = eventqueue b" "activequeues (raise b e q) = activequeues b"
  "io (raise b e q) = io b" "sigmap (raise b e q) = sigmap b" "tv_cache (raise b e q) = tv_cache b" "closure_no (raise b e q) = closure_no b"
  "closure_ncalls (raise b e q) = closure_ncalls b" "event_count_active (raise b e q) = event_count_active b"
  "rest (raise b e q) = rest b" "event_count (raise b e q) = event_count b + (if internal b e then 0 else 1)"
  by (simp_all add: raise_def)

lemma clear_event: "same_event (evs b x) (evs (clear b e q) x)"
  "flags_of b x AND NOT EVLIST_ALL = 0 \<Longrightarrow> flags_of (clear b e q) x AND NOT EVLIST_ALL = 0"
  by (auto simp: clear_def same_event_def clear_flag_all intro: exI [of _ "ev_flags (evs b x)"])

lemma raise_event: "same_event (evs b x) (evs (raise b e q) x)"
  "flags_of b x AND NOT EVLIST_ALL = 0 \<Longrightarrow> flags_of (raise b e q) x AND NOT EVLIST_ALL = 0"
  by (auto simp: raise_def same_event_def set_flag_all intro: exI [of _ "ev_flags (evs b x)"])

lemma same_event_fields:
  "same_event ev ev' \<Longrightarrow> ev_base ev' = ev_base ev \<and> ev_pri ev' = ev_pri ev \<and> ev_fd ev' = ev_fd ev \<and> ev_events ev' = ev_events ev \<and>
     ev_res ev' = ev_res ev \<and> ev_ncalls ev' = ev_ncalls ev \<and> ev_pncalls ev' = ev_pncalls ev \<and> ev_closure ev' = ev_closure ev \<and>
     ev_io_timeout ev' = ev_io_timeout ev"
  by (auto simp: same_event_def)

lemma counted_remove:
  assumes "finite (queued b q)" "e \<in> queued b q" "queued b' q = queued b q - {e}" "\<And>x. internal b' x = internal b x"
  shows "counted b' q = counted b q - (if internal b e then 0 else 1)"
proof -
  let ?S = "{x \<in> queued b q. \<not> internal b x}"
  have "{x \<in> queued b' q. \<not> internal b' x} = ?S - {e}" using assms(3,4) by auto
  moreover have "finite ?S" using assms(1) by simp
  ultimately show ?thesis using assms(2) card.remove [of ?S e] by (cases "internal b e") (simp_all add: counted_def)
qed

lemma counted_insert:
  assumes "finite (queued b q)" "e \<notin> queued b q" "queued b' q = insert e (queued b q)" "\<And>x. internal b' x = internal b x"
  shows "counted b' q = counted b q + (if internal b e then 0 else 1)"
proof -
  let ?S = "{x \<in> queued b q. \<not> internal b x}"
  have "{x \<in> queued b' q. \<not> internal b' x} = (if internal b e then ?S else insert e ?S)" using assms(3,4) by auto
  then show ?thesis using assms(1,2) by (auto simp: counted_def)
qed

lemma counted_same: "queued b' q = queued b q \<Longrightarrow> (\<And>x. internal b' x = internal b x) \<Longrightarrow> counted b' q = counted b q"
  by (simp add: counted_def)

section \<open>The two queue operations\<close>

lemma queues_inv_remove:
  assumes inv: "queues_inv b" and e: "e \<in> queued b q" and p: "p = ev_pri (evs b e)"
    and b': "evs b' = evs (clear b e q)" "event_count b' = event_count (clear b e q)"
      "eventqueue b' = (if q = QInserted then remove1 e (eventqueue b) else eventqueue b)"
      "activequeues b' = (if q = QActive then (activequeues b)[p := remove1 e (activequeues b ! p)] else activequeues b)"
      "event_count_active b' = event_count_active b - (if q = QActive then 1 else 0)"
      "min_heap_inv (timeheap b')" "heap_elems (timeheap b') = (if q = QTimeout then heap_elems (timeheap b) - {e} else heap_elems (timeheap b))"
  shows "queues_inv b'" "queued b' q' = (if q' = q then queued b q - {e} else queued b q')"
proof -
  have qd: "queued b' q' = (if q' = q then queued b q - {e} else queued b q')" for q'
    using clear_queued [of b e q q'] by (simp add: queued_def on_queue_def b'(1))
  show "queued b' q' = (if q' = q then queued b q - {e} else queued b q')" by (rule qd)
  have int: "internal b' x = internal b x" for x using clear_internal [of b e q x] by (simp add: internal_def b'(1))
  have ev: "same_event (evs b x) (evs b' x)" for x using clear_event(1) by (simp add: b'(1))
  note fields = same_event_fields [OF ev]
  have fin: "finite (queued b q')" for q' by (rule queues_inv_finite [OF inv])
  have cnt: "counted b' q' = counted b q' - (if q' = q \<and> \<not> internal b e then 1 else 0)" for q'
    using counted_remove [OF fin e qd [of q, simplified] int] counted_same [of b' q' b, OF _ int] qd [of q'] by (cases "q' = q") auto
  have total: "event_count b' = counted b' QTimeout + counted b' QInserted + counted b' QActive"
    unfolding cnt b'(2) clear_simps using inv by (cases q) (simp_all add: queues_inv_def)
  have pl: "p < length (activequeues b)" using inv e p by (auto simp: queues_inv_def)
  have act: "\<forall>k < length (activequeues b'). distinct (activequeues b' ! k) \<and>
        set (activequeues b' ! k) = {x \<in> queued b' QActive. ev_pri (evs b' x) = k}"
  proof (intro allI impI)
    fix k assume "k < length (activequeues b')"
    then have k: "k < length (activequeues b)" using b'(4) by (simp split: if_splits)
    then have d: "distinct (activequeues b ! k)" "set (activequeues b ! k) = {x \<in> queued b QActive. ev_pri (evs b x) = k}"
      using inv by (auto simp: queues_inv_def)
    then show "distinct (activequeues b' ! k) \<and> set (activequeues b' ! k) = {x \<in> queued b' QActive. ev_pri (evs b' x) = k}"
      using b'(4) qd [of QActive] fields p k by (cases "k = p") (auto simp: nth_list_update)
  qed
  have "event_count_active b' = int (card (queued b' QActive))"
    using inv b'(5) qd [of QActive] card.remove [OF fin, of e QActive] e by (cases "q = QActive") (auto simp: queues_inv_def)
  moreover have "length (activequeues b') = length (activequeues b)" using b'(4) by simp
  moreover have "\<forall>x. flags_of b' x AND NOT EVLIST_ALL = 0" using inv clear_event(2) by (simp add: queues_inv_def b'(1))
  ultimately show "queues_inv b'"
    using inv act total fields qd b'(3,6,7) fin unfolding queues_inv_def by auto
qed

lemma event_queue_remove_ok:
  assumes inv: "queues_inv b" and e: "e \<in> queued b q"
  obtains b' where "event_queue_remove b e q = Some b'" "requeued b q (queued b q - {e}) b'" "q = QActive \<Longrightarrow> activequeues b' = dequeue b e"
proof -
  have on: "on_queue b q e" using e by (simp add: queued_def)
  have eq: "event_queue_remove b e q = (let base2 = clear b e q in
     case q of
       QInserted \<Rightarrow> do { ev_assert (e \<in> set (eventqueue base2)); Some (base2\<lparr>eventqueue := remove1 e (eventqueue base2)\<rparr>) }
     | QActive \<Rightarrow> do { let pri = ev_pri (evs base2 e); evl \<leftarrow> nth_opt (activequeues base2) pri; ev_assert (e \<in> set evl);
         Some (base2\<lparr>event_count_active := event_count_active base2 - 1, activequeues := (activequeues base2)[pri := remove1 e evl]\<rparr>) }
     | QTimeout \<Rightarrow> do { (rc, h) \<leftarrow> min_heap_erase (timeheap base2) e; Some (base2\<lparr>timeheap := h\<rparr>) })"
    using on unfolding event_queue_remove_def clear_def by (simp add: Let_def)
  let ?p = "ev_pri (evs b e)"
  have pri: "ev_pri (evs (clear b e q) e) = ?p" using same_event_fields [OF clear_event(1)] by blast
  have fin_case: thesis
    if "event_queue_remove b e q = Some b'" "queues_inv b'" "queued b' q = queued b q - {e}" "\<forall>q'. q' \<noteq> q \<longrightarrow> queued b' q' = queued b q'"
      "evs b' = evs (clear b e q)" "io b' = io b" "sigmap b' = sigmap b" "rest b' = rest b"
      "closure_ncalls b' = closure_ncalls b" "length (activequeues b') = length (activequeues b)" "ev_timeout (timeheap b') = ev_timeout (timeheap b)"
      "heap_a (timeheap b') = heap_a (timeheap b)" "activequeues b' = (if q = QActive then dequeue b e else activequeues b)" for b'
  proof (rule \<open>\<And>b'. event_queue_remove b e q = Some b' \<Longrightarrow> requeued b q (queued b q - {e}) b' \<Longrightarrow> (q = QActive \<Longrightarrow> activequeues b' = dequeue b e) \<Longrightarrow> thesis\<close> [OF that(1)])
    have "internal b' x = internal b x" for x using clear_internal [of b e q x] by (simp add: internal_def that(5))
    then show "requeued b q (queued b q - {e}) b'" using that clear_event(1) by (simp add: requeued_def same_rest_def)
    show "q = QActive \<Longrightarrow> activequeues b' = dequeue b e" using that by simp
  qed
  show thesis
  proof (cases q)
    case QInserted
    let ?b = "(clear b e q)\<lparr>eventqueue := remove1 e (eventqueue b)\<rparr>"
    have mem: "e \<in> set (eventqueue b)" using inv e QInserted by (simp add: queues_inv_def)
    note r = queues_inv_remove [OF inv e refl, of ?b]
    show thesis by (rule fin_case [of ?b]) (use QInserted eq mem r inv in \<open>simp_all add: queues_inv_def [of b]\<close>)
  next
    case QActive
    let ?b = "(clear b e q)\<lparr>event_count_active := event_count_active b - 1, activequeues := (activequeues b)[?p := remove1 e (activequeues b ! ?p)]\<rparr>"
    have mem: "?p < length (activequeues b)" "e \<in> set (activequeues b ! ?p)" using inv e QActive by (auto simp: queues_inv_def)
    note r = queues_inv_remove [OF inv e refl, of ?b]
    show thesis by (rule fin_case [of ?b]) (use QActive eq mem r pri inv in \<open>simp_all add: queues_inv_def [of b] Let_def dequeue_def\<close>)
  next
    case QTimeout
    have h: "min_heap_inv (timeheap b)" "e \<in> heap_elems (timeheap b)" using inv e QTimeout by (auto simp: queues_inv_def)
    obtain h' where h': "min_heap_erase (timeheap b) e = Some (0, h')" "min_heap_inv h'" "heap_elems h' = heap_elems (timeheap b) - {e}"
      "ev_timeout h' = ev_timeout (timeheap b)" using mh.erase_elem [OF h] by blast
    let ?b = "(clear b e q)\<lparr>timeheap := h'\<rparr>"
    note r = queues_inv_remove [OF inv e refl, of ?b]
    show thesis by (rule fin_case [of ?b]) (use QTimeout eq h' r inv min_heap_erase_a [OF h'(1)] in simp_all)
  qed
qed

lemma queues_inv_insert:
  assumes inv: "queues_inv b" and e: "e \<notin> queued b q" "ev_base (evs b e)" and p: "p = ev_pri (evs b e)"
    and b': "evs b' = evs (raise b e q)" "event_count b' = event_count (raise b e q)"
      "eventqueue b' = (if q = QInserted then eventqueue b @ [e] else eventqueue b)"
      "activequeues b' = (if q = QActive then (activequeues b)[p := activequeues b ! p @ [e]] else activequeues b)"
      "event_count_active b' = event_count_active b + (if q = QActive then 1 else 0)"
      "min_heap_inv (timeheap b')" "heap_elems (timeheap b') = (if q = QTimeout then insert e (heap_elems (timeheap b)) else heap_elems (timeheap b))"
  shows "queues_inv b'" "queued b' q' = (if q' = q then insert e (queued b q) else queued b q')"
proof -
  have qd: "queued b' q' = (if q' = q then insert e (queued b q) else queued b q')" for q'
    using raise_queued [of b e q q'] by (simp add: queued_def on_queue_def b'(1))
  show "queued b' q' = (if q' = q then insert e (queued b q) else queued b q')" by (rule qd)
  have int: "internal b' x = internal b x" for x using raise_internal [of b e q x] by (simp add: internal_def b'(1))
  have ev: "same_event (evs b x) (evs b' x)" for x using raise_event(1) by (simp add: b'(1))
  note fields = same_event_fields [OF ev]
  have fin: "finite (queued b q')" for q' by (rule queues_inv_finite [OF inv])
  have cnt: "counted b' q' = counted b q' + (if q' = q \<and> \<not> internal b e then 1 else 0)" for q'
    using counted_insert [OF fin e(1) qd [of q, simplified] int] counted_same [of b' q' b, OF _ int] qd [of q'] by (cases "q' = q") auto
  have total: "event_count b' = counted b' QTimeout + counted b' QInserted + counted b' QActive"
    unfolding cnt b'(2) raise_simps using inv by (cases q) (simp_all add: queues_inv_def)
  have pl: "p < length (activequeues b)" using inv e p by (auto simp: queues_inv_def)
  have act: "\<forall>k < length (activequeues b'). distinct (activequeues b' ! k) \<and>
        set (activequeues b' ! k) = {x \<in> queued b' QActive. ev_pri (evs b' x) = k}"
  proof (intro allI impI)
    fix k assume "k < length (activequeues b')"
    then have k: "k < length (activequeues b)" using b'(4) by (simp split: if_splits)
    then have d: "distinct (activequeues b ! k)" "set (activequeues b ! k) = {x \<in> queued b QActive. ev_pri (evs b x) = k}"
      using inv by (auto simp: queues_inv_def)
    then show "distinct (activequeues b' ! k) \<and> set (activequeues b' ! k) = {x \<in> queued b' QActive. ev_pri (evs b' x) = k}"
      using b'(4) qd [of QActive] fields p k e by (cases "k = p") (auto simp: nth_list_update)
  qed
  have "event_count_active b' = int (card (queued b' QActive))"
    using inv b'(5) qd [of QActive] fin e by (cases "q = QActive") (auto simp: queues_inv_def)
  moreover have "length (activequeues b') = length (activequeues b)" using b'(4) by simp
  moreover have "\<forall>x. flags_of b' x AND NOT EVLIST_ALL = 0" using inv raise_event(2) by (simp add: queues_inv_def b'(1))
  moreover have "distinct (eventqueue b')" "set (eventqueue b') = queued b' QInserted"
    using inv b'(3) qd [of QInserted] e by (auto simp: queues_inv_def)
  moreover have "\<forall>q'. \<forall>x \<in> queued b' q'. ev_base (evs b' x)" using inv qd fields e by (auto simp: queues_inv_def split: if_splits)
  moreover have "heap_elems (timeheap b') = queued b' QTimeout" using inv b'(7) qd [of QTimeout] by (auto simp: queues_inv_def)
  ultimately show "queues_inv b'"
    using inv act total fields b'(6) fin [of QActive] qd [of QActive] unfolding queues_inv_def by auto
qed

lemma event_queue_insert_ok:
  assumes inv: "queues_inv b" and e: "e \<notin> queued b q" "ev_base (evs b e)" and room: "q = QTimeout \<Longrightarrow> has_room b"
  obtains b' where "event_queue_insert be b e q = Some b'" "requeued b q (insert e (queued b q)) b'"
proof -
  have on: "\<not> on_queue b q e" using e by (simp add: queued_def)
  have eq: "event_queue_insert be b e q = (let base2 = raise b e q in
        case q of
          QInserted \<Rightarrow> Some (base2\<lparr>eventqueue := eventqueue base2 @ [e]\<rparr>)
        | QActive \<Rightarrow> do { let pri = ev_pri (evs base2 e); evl \<leftarrow> nth_opt (activequeues base2) pri;
            Some (base2\<lparr>event_count_active := event_count_active base2 + 1, activequeues := (activequeues base2)[pri := evl @ [e]]\<rparr>) }
        | QTimeout \<Rightarrow> do { (rc, h) \<leftarrow> min_heap_push (be_alloc be) (timeheap base2) e; Some (base2\<lparr>timeheap := h\<rparr>) })"
    using on unfolding event_queue_insert_def raise_def by (simp add: Let_def)
  let ?p = "ev_pri (evs b e)"
  have pri: "ev_pri (evs (raise b e q) e) = ?p" using same_event_fields [OF raise_event(1)] by blast
  have fin_case: thesis
    if "event_queue_insert be b e q = Some b'" "queues_inv b'" "queued b' q = insert e (queued b q)" "\<forall>q'. q' \<noteq> q \<longrightarrow> queued b' q' = queued b q'"
      "evs b' = evs (raise b e q)" "io b' = io b" "sigmap b' = sigmap b" "rest b' = rest b"
      "closure_ncalls b' = closure_ncalls b" "length (activequeues b') = length (activequeues b)" "ev_timeout (timeheap b') = ev_timeout (timeheap b)"
      "heap_a (timeheap b') = heap_a (timeheap b)" "q \<noteq> QActive \<longrightarrow> activequeues b' = activequeues b" for b'
  proof (rule \<open>\<And>b'. event_queue_insert be b e q = Some b' \<Longrightarrow> requeued b q (insert e (queued b q)) b' \<Longrightarrow> thesis\<close> [OF that(1)])
    have "internal b' x = internal b x" for x using raise_internal [of b e q x] by (simp add: internal_def that(5))
    then show "requeued b q (insert e (queued b q)) b'" using that raise_event(1) by (simp add: requeued_def same_rest_def)
  qed
  show thesis
  proof (cases q)
    case QInserted
    let ?b = "(raise b e q)\<lparr>eventqueue := eventqueue b @ [e]\<rparr>"
    note r = queues_inv_insert [OF inv e refl, of ?b]
    show thesis by (rule fin_case [of ?b]) (use QInserted eq r inv in \<open>simp_all add: queues_inv_def [of b]\<close>)
  next
    case QActive
    let ?b = "(raise b e q)\<lparr>event_count_active := event_count_active b + 1, activequeues := (activequeues b)[?p := activequeues b ! ?p @ [e]]\<rparr>"
    have mem: "?p < length (activequeues b)" using inv e QActive by (auto simp: queues_inv_def)
    note r = queues_inv_insert [OF inv e refl, of ?b]
    show thesis by (rule fin_case [of ?b]) (use QActive eq mem r pri inv in \<open>simp_all add: queues_inv_def [of b] Let_def\<close>)
  next
    case QTimeout
    have h: "min_heap_inv (timeheap b)" "e \<notin> heap_elems (timeheap b)" "heap_n (timeheap b) < heap_a (timeheap b)"
      using inv e QTimeout room card_heap_elems [of "timeheap b"] by (auto simp: queues_inv_def has_room_def)
    obtain h' where h': "min_heap_push (be_alloc be) (timeheap b) e = Some (0, h')" "min_heap_inv h'"
      "heap_elems h' = insert e (heap_elems (timeheap b))" "ev_timeout h' = ev_timeout (timeheap b)" "heap_a h' = heap_a (timeheap b)"
      by (rule min_heap_push_room [OF h])
    let ?b = "(raise b e q)\<lparr>timeheap := h'\<rparr>"
    note r = queues_inv_insert [OF inv e refl, of ?b]
    show thesis by (rule fin_case [of ?b]) (use QTimeout eq h' r inv in simp_all)
  qed
qed

end
