(* ===== verification/Event_Maps.thy ===== *)
theory Event_Maps
  imports Event_Inv
begin

text \<open>
  The maps of \<^verbatim>\<open>evmap.c\<close> keep their relation to the set of added events: adding an event puts it
  into the list of its descriptor or signal and tells the backend what is new, deleting takes it out.
\<close>

section \<open>Slots\<close>

lemma slot_update: "k < length m \<Longrightarrow> slot (m[k := x]) j = (if j = k then x else slot m j)"
  by (simp add: slot_def nth_list_update)

lemma slot_grow [simp]: "slot (m @ replicate n None) j = slot m j"
  by (simp add: slot_def nth_append)

lemma io_rel_grow [simp]: "io_rel E I (m @ replicate n None) = io_rel E I m"
  by (simp add: io_rel_def)

lemma sig_rel_grow [simp]: "sig_rel E I (m @ replicate n None) = sig_rel E I m"
  by (simp add: sig_rel_def)

lemma grow_entries_bounds: "0 < n \<Longrightarrow> k < grow_entries n k \<and> (n \<le> k \<longrightarrow> grow_entries n k \<le> 2 * k) \<and> n \<le> grow_entries n k"
proof (induction n k rule: grow_entries.induct)
  case (1 n k)
  show ?case
  proof (cases "n \<le> k")
    case True
    with 1 have "k < grow_entries (2 * n) k \<and> (2 * n \<le> k \<longrightarrow> grow_entries (2 * n) k \<le> 2 * k) \<and> 2 * n \<le> grow_entries (2 * n) k"
      by simp
    moreover have "grow_entries (2 * n) k = 2 * n" if "k < 2 * n" using that by (simp add: grow_entries.simps)
    ultimately show ?thesis using True 1(2) by (subst (1 2 3) grow_entries.simps) force
  qed (simp add: grow_entries.simps)
qed

lemma evmap_make_space_ok:
  assumes k: "k < 268435456"
  obtains "evmap_make_space be m k = Some (-1, m)" "\<exists>n. \<not> be_alloc be n"
  | n where "evmap_make_space be m k = Some (0, m @ replicate n None)" "k < length m + n"
proof (cases "length m \<le> k")
  case True
  let ?n = "grow_entries (if length m \<noteq> 0 then length m else 32) k"
  have n: "k < ?n" "?n \<le> 536870911" "length m \<le> ?n"
    using grow_entries_bounds [of "if length m \<noteq> 0 then length m else 32" k] k True
    by (auto simp: grow_entries.simps [of 32 k] split: if_splits)
  then have "int ?n * 4 \<le> INT_MAX" by (simp add: INT_MAX_def)
  with True have "evmap_make_space be m k =
    Some (if be_alloc be (?n * 4) then (0, m @ replicate (?n - length m) None) else (-1, m))"
    by (simp only: evmap_make_space_def Let_def if_True bind_ev_assert)
  then show thesis using n that(1) that(2) [of "?n - length m"] by (cases "be_alloc be (?n * 4)") auto
next
  case False
  then show thesis using that(2) [of 0] by (simp add: evmap_make_space_def)
qed

section \<open>Descriptors\<close>

lemma io_rel_iff:
  "io_rel E I m \<longleftrightarrow> (\<forall>fd. (slot m fd = None \<longrightarrow> waiting E I fd = {}) \<and> (\<forall>ctx. slot m fd = Some ctx \<longrightarrow> ctx_ok E (waiting E I fd) ctx))"
  by (simp add: io_rel_def split: option.split)

lemma io_rel_same: "io_rel E I m \<Longrightarrow> (\<And>f. waiting E I' f = waiting E I f) \<Longrightarrow> io_rel E I' m"
  by (simp add: io_rel_iff)

lemma io_rel_update:
  assumes "io_rel E I m" "fd < length m" "ctx_ok E (waiting E I' fd) ctx" "\<And>f. f \<noteq> fd \<Longrightarrow> waiting E I' f = waiting E I f"
  shows "io_rel E I' (m[fd := Some ctx])"
  using assms unfolding io_rel_iff by (simp add: slot_update)

lemma waiting_insert:
  "waiting E (insert e I) fd = (if is_io (E e) \<and> ev_fd (E e) = int fd then insert e (waiting E I fd) else waiting E I fd)"
  by (auto simp: waiting_def)

lemma waiting_remove: "waiting E (I - {e}) fd = waiting E I fd - {e}"
  by (auto simp: waiting_def)

lemma ctx_ok_append:
  assumes "ctx_ok E W ctx" "e \<notin> W"
  shows "ctx_ok E (insert e W) \<lparr>io_events = io_events ctx @ [e], io_nread = io_nread ctx + (if reads (E e) then 1 else 0),
    io_nwrite = io_nwrite ctx + (if writes (E e) then 1 else 0)\<rparr>"
  using assms by (auto simp: ctx_ok_def)

lemma ctx_ok_remove:
  assumes ctx: "ctx_ok E W ctx" and e: "e \<in> W"
  shows "ctx_ok E (W - {e}) \<lparr>io_events = remove1 e (io_events ctx), io_nread = io_nread ctx - (if reads (E e) then 1 else 0),
    io_nwrite = io_nwrite ctx - (if writes (E e) then 1 else 0)\<rparr>"
    "reads (E e) \<Longrightarrow> 0 < io_nread ctx" "writes (E e) \<Longrightarrow> 0 < io_nwrite ctx"
proof -
  have len: "length (filter P (remove1 e xs)) = length (filter P xs) - (if P e then 1 else 0)" if "e \<in> set xs" for P and xs :: "event_ptr list"
  proof -
    have "filter P (remove1 e xs) = (if P e then remove1 e (filter P xs) else filter P xs)" by (induction xs) auto
    with that show ?thesis by (simp add: length_remove1)
  qed
  show "ctx_ok E (W - {e}) \<lparr>io_events = remove1 e (io_events ctx), io_nread = io_nread ctx - (if reads (E e) then 1 else 0),
    io_nwrite = io_nwrite ctx - (if writes (E e) then 1 else 0)\<rparr>"
    using ctx e len by (simp add: ctx_ok_def)
  show "0 < io_nread ctx" if "reads (E e)" using ctx e that by (auto simp: ctx_ok_def filter_empty_conv)
  show "0 < io_nwrite ctx" if "writes (E e)" using ctx e that by (auto simp: ctx_ok_def filter_empty_conv)
qed

lemma io_rel_slot:
  assumes "io_rel E I m"
  shows "slot m fd = Some ctx \<Longrightarrow> ctx_ok E (waiting E I fd) ctx" "slot m fd = None \<Longrightarrow> waiting E I fd = {}"
  using assms unfolding io_rel_def by (auto dest: spec [of _ fd])

lemma io_slot_ok:
  assumes rel: "io_rel E I m" and fd: "fd < length m"
  obtains "io_slot_and_ctor be m fd = None" "\<exists>n. \<not> be_alloc be n"
  | ctx m' where "io_slot_and_ctor be m fd = Some (ctx, m')" "io_rel E I m'" "ctx_ok E (waiting E I fd) ctx" "length m' = length m"
proof (cases "m ! fd")
  case None
  then have "waiting E I fd = {}" using io_rel_slot(2) [OF rel, of fd] fd by (simp add: slot_def)
  then have ok: "ctx_ok E (waiting E I fd) evmap_io_init" by (simp add: ctx_ok_def evmap_io_init_def)
  have "io_rel E I (m[fd := Some evmap_io_init])" by (rule io_rel_update [OF rel fd ok refl])
  then show thesis using None ok that(1) that(2) [of evmap_io_init "m[fd := Some evmap_io_init]"]
    by (cases "be_alloc be (12 + be_fdinfo_len be)") (auto simp: io_slot_and_ctor_def)
next
  case (Some ctx)
  then show thesis using io_rel_slot(1) [OF rel, of fd ctx] fd rel that(2) [of ctx m] by (simp add: io_slot_and_ctor_def slot_def)
qed

text \<open>
  \<open>-1\<close> comes from the allocator, from the backend or from more than 65535 events on one descriptor; the
  map is then as it was but for its size.
\<close>

definition map_refuses :: "backend \<Rightarrow> (event_ptr \<Rightarrow> event) \<Rightarrow> event_ptr set \<Rightarrow> event_ptr \<Rightarrow> bool" where
  "map_refuses be E I e \<longleftrightarrow> (\<exists>n. \<not> be_alloc be n) \<or>
     (if is_io (E e) then (\<exists>fd old new. be_add be fd old new = -1) \<or> 65535 \<le> card {x \<in> I. is_io (E x) \<and> ev_fd (E x) = ev_fd (E e)}
      else \<exists>sig. be_sigadd be sig = -1)"

lemma ctx_ok_full:
  assumes "ctx_ok E W ctx" "0xffff < io_nread ctx + (if r then 1 else 0) \<or> 0xffff < io_nwrite ctx + (if w then 1 else 0)"
  shows "65535 \<le> card W"
proof -
  have "card W = length (io_events ctx)" using assms(1) distinct_card by (auto simp: ctx_ok_def)
  moreover have "io_nread ctx \<le> length (io_events ctx)" "io_nwrite ctx \<le> length (io_events ctx)" using assms(1) by (simp_all add: ctx_ok_def)
  ultimately show ?thesis using assms(2) by (auto split: if_splits)
qed

lemma evmap_io_add_ok:
  assumes rel: "io_rel (evs b) I (io b)" and e: "e \<notin> I" "is_io (evs b e)" and fd: "ev_fd (evs b e) < 268435456"
  obtains m where "evmap_io_add be b (ev_fd (evs b e)) e = Some (-1, b\<lparr>io := m\<rparr>)" "io_rel (evs b) I m" "map_refuses be (evs b) I e"
  | r m where "evmap_io_add be b (ev_fd (evs b e)) e = Some (r, b\<lparr>io := m\<rparr>)" "r \<noteq> -1" "io_rel (evs b) (insert e I) m"
proof (cases "ev_fd (evs b e) < 0")
  case True
  then have "io_rel (evs b) (insert e I) (io b)" by (intro io_rel_same [OF rel]) (simp add: waiting_insert)
  then show thesis using True that(2) [of 0 "io b"] by (simp add: evmap_io_add_def)
next
  case False
  define fd where "fd = nat (ev_fd (evs b e))"
  have fd': "ev_fd (evs b e) = int fd" "fd < 268435456" using False assms(4) by (simp_all add: fd_def)
  show thesis
  proof (rule evmap_make_space_ok [OF fd'(2), of be "io b"])
    assume "evmap_make_space be (io b) fd = Some (-1, io b)" "\<exists>n. \<not> be_alloc be n"
    then show thesis using rel fd'(1) that(1) [of "io b"] by (simp add: evmap_io_add_def Let_def map_refuses_def)
  next
    fix n assume sp: "evmap_make_space be (io b) fd = Some (0, io b @ replicate n None)" and len: "fd < length (io b) + n"
    let ?m = "io b @ replicate n None"
    have rel1: "io_rel (evs b) I ?m" using rel by simp
    show thesis
    proof (rule io_slot_ok [OF rel1, of fd be])
      show "fd < length ?m" using len by simp
    next
      assume "io_slot_and_ctor be ?m fd = None" "\<exists>n. \<not> be_alloc be n"
      then show thesis using rel1 fd'(1) sp that(1) [of ?m] by (simp add: evmap_io_add_def Let_def map_refuses_def)
    next
      fix ctx m' assume ctx: "io_slot_and_ctor be ?m fd = Some (ctx, m')" "io_rel (evs b) I m'" "ctx_ok (evs b) (waiting (evs b) I fd) ctx"
        "length m' = length ?m"
      let ?ctx = "\<lparr>io_events = io_events ctx @ [e], io_nread = io_nread ctx + (if reads (evs b e) then 1 else 0),
        io_nwrite = io_nwrite ctx + (if writes (evs b e) then 1 else 0)\<rparr>"
      have w: "waiting (evs b) (insert e I) fd = insert e (waiting (evs b) I fd)" "e \<notin> waiting (evs b) I fd"
        using e fd' by (auto simp: waiting_insert waiting_def)
      have ok: "io_rel (evs b) (insert e I) (m'[fd := Some ?ctx])"
      proof (rule io_rel_update [OF ctx(2)])
        show "fd < length m'" using ctx(4) len by simp
        show "ctx_ok (evs b) (waiting (evs b) (insert e I) fd) ?ctx" unfolding w(1) by (rule ctx_ok_append [OF ctx(3) w(2)])
        show "waiting (evs b) (insert e I) f = waiting (evs b) I f" if "f \<noteq> fd" for f using that fd' by (simp add: waiting_insert)
      qed
      let ?add = "evmap_io_add be b (ev_fd (evs b e)) e"
      have full: "65535 \<le> card {x \<in> I. is_io (evs b x) \<and> ev_fd (evs b x) = ev_fd (evs b e)}"
        if "0xffff < io_nread ctx + (if reads (evs b e) then 1 else 0) \<or> 0xffff < io_nwrite ctx + (if writes (evs b e) then 1 else 0)"
        using ctx_ok_full [OF ctx(3) that] fd'(1) by (simp add: waiting_def)
      have "?add = Some (-1, b\<lparr>io := m'\<rparr>) \<and> map_refuses be (evs b) I e \<or> (\<exists>r. r \<noteq> -1 \<and> ?add = Some (r, b\<lparr>io := m'[fd := Some ?ctx]\<rparr>))"
        using fd'(1) sp ctx(1) e(2) full unfolding reads_def writes_def map_refuses_def by (auto simp: evmap_io_add_def Let_def)
      then show thesis using that(1) [of m'] that(2) [of _ "m'[fd := Some ?ctx]"] ctx(2) ok by blast
    qed
  qed
qed

text \<open>
  Deleting runs when the event is no longer counted as added. The backend refusing is the only failure
  (then the event stays in the list).
\<close>

lemma evmap_io_del_ok:
  assumes rel: "io_rel (evs b) I (io b)" and e: "e \<in> I" "is_io (evs b e)"
  obtains "evmap_io_del be b (ev_fd (evs b e)) e = Some (-1, b)" "\<exists>fd old res. be_del be fd old res = -1"
  | r m where "evmap_io_del be b (ev_fd (evs b e)) e = Some (r, b\<lparr>io := m\<rparr>)" "r \<in> {0, 1}" "io_rel (evs b) (I - {e}) m"
proof (cases "ev_fd (evs b e) < 0")
  case True
  have "io_rel (evs b) (I - {e}) (io b)" using True by (intro io_rel_same [OF rel]) (auto simp: waiting_def)
  then show thesis using True that(2) [of 0 "io b"] by (simp add: evmap_io_del_def)
next
  case False
  define fd where "fd = nat (ev_fd (evs b e))"
  have fd: "ev_fd (evs b e) = int fd" using False by (simp add: fd_def)
  have w: "e \<in> waiting (evs b) I fd" using e fd by (simp add: waiting_def)
  then obtain ctx where slot: "slot (io b) fd = Some ctx" using io_rel_slot(2) [OF rel, of fd] by (cases "slot (io b) fd") auto
  then have len: "fd < length (io b)" "io b ! fd = Some ctx" by (auto simp: slot_def split: if_splits)
  note ctx = io_rel_slot(1) [OF rel slot]
  note rem = ctx_ok_remove [OF ctx w]
  let ?ctx = "\<lparr>io_events = remove1 e (io_events ctx), io_nread = io_nread ctx - (if reads (evs b e) then 1 else 0),
    io_nwrite = io_nwrite ctx - (if writes (evs b e) then 1 else 0)\<rparr>"
  have ok: "io_rel (evs b) (I - {e}) ((io b)[fd := Some ?ctx])"
  proof (rule io_rel_update [OF rel len(1)])
    show "ctx_ok (evs b) (waiting (evs b) (I - {e}) fd) ?ctx" unfolding waiting_remove by (rule rem(1))
    show "waiting (evs b) (I - {e}) f = waiting (evs b) I f" if "f \<noteq> fd" for f using that fd by (auto simp: waiting_def)
  qed
  have mem: "e \<in> set (io_events ctx)" using ctx w by (simp add: ctx_ok_def)
  let ?res = "(if reads (evs b e) \<and> io_nread ?ctx = 0 then EV_READ else 0) OR (if writes (evs b e) \<and> io_nwrite ?ctx = 0 then EV_WRITE else 0)"
  have "evmap_io_del be b (ev_fd (evs b e)) e =
    (if ?res \<noteq> 0 \<and> be_del be (int fd) (old_events ctx) ?res = -1 then Some (-1, b)
     else Some (if ?res \<noteq> 0 then 1 else 0, b\<lparr>io := (io b)[fd := Some ?ctx]\<rparr>))"
    using fd len mem rem(2,3) unfolding reads_def writes_def by (simp add: evmap_io_del_def Let_def)
  then show thesis using that(1) that(2) [of "if ?res \<noteq> 0 then 1 else 0", OF _ _ ok]
    by (cases "?res \<noteq> 0 \<and> be_del be (int fd) (old_events ctx) ?res = -1") (simp_all only: if_True if_False simp_thms, auto)
qed

section \<open>Signals\<close>

lemma sig_rel_iff:
  "sig_rel E I m \<longleftrightarrow> (\<forall>sig. (slot m sig = None \<longrightarrow> sig_waiting E I sig = {}) \<and>
     (\<forall>evl. slot m sig = Some evl \<longrightarrow> distinct evl \<and> set evl = sig_waiting E I sig)) \<and> (\<forall>e \<in> I. \<not> is_io (E e) \<longrightarrow> 0 \<le> ev_fd (E e))"
  by (simp add: sig_rel_def split: option.split)

lemma sig_rel_slot:
  assumes "sig_rel E I m"
  shows "slot m sig = Some evl \<Longrightarrow> distinct evl \<and> set evl = sig_waiting E I sig" "slot m sig = None \<Longrightarrow> sig_waiting E I sig = {}"
  using assms unfolding sig_rel_iff by (auto dest: spec [of _ sig])

lemma sig_rel_update:
  assumes "sig_rel E I m" "sig < length m" "distinct evl" "set evl = sig_waiting E I' sig"
    "\<And>f. f \<noteq> sig \<Longrightarrow> sig_waiting E I' f = sig_waiting E I f" "\<And>e. e \<in> I' - I \<Longrightarrow> \<not> is_io (E e) \<Longrightarrow> 0 \<le> ev_fd (E e)"
  shows "sig_rel E I' (m[sig := Some evl])"
proof -
  have "\<forall>e \<in> I'. \<not> is_io (E e) \<longrightarrow> 0 \<le> ev_fd (E e)" using assms(1,6) unfolding sig_rel_iff by blast
  with assms show ?thesis unfolding sig_rel_iff by (simp add: slot_update)
qed

lemma sig_waiting_insert:
  "sig_waiting E (insert e I) sig =
     (if \<not> is_io (E e) \<and> ev_fd (E e) = int sig then insert e (sig_waiting E I sig) else sig_waiting E I sig)"
  by (auto simp: sig_waiting_def)

lemma evmap_signal_add_ok:
  assumes rel: "sig_rel (evs b) I (sigmap b)" and e: "e \<notin> I" "\<not> is_io (evs b e)" and sig: "0 \<le> ev_fd (evs b e)" "ev_fd (evs b e) < 268435456"
  obtains m where "evmap_signal_add be b (ev_fd (evs b e)) e = Some (-1, b\<lparr>sigmap := m\<rparr>)" "sig_rel (evs b) I m" "map_refuses be (evs b) I e"
  | r m where "evmap_signal_add be b (ev_fd (evs b e)) e = Some (r, b\<lparr>sigmap := m\<rparr>)" "r \<noteq> -1" "sig_rel (evs b) (insert e I) m"
proof -
  define sig where "sig = nat (ev_fd (evs b e))"
  have sig': "ev_fd (evs b e) = int sig" "sig < 268435456" using assms(4,5) by (simp_all add: sig_def)
  show thesis
  proof (rule evmap_make_space_ok [OF sig'(2), of be "sigmap b"])
    assume "evmap_make_space be (sigmap b) sig = Some (-1, sigmap b)" "\<exists>n. \<not> be_alloc be n"
    then show thesis using rel sig'(1) that(1) [of "sigmap b"] by (simp add: evmap_signal_add_def Let_def map_refuses_def)
  next
    fix n assume sp: "evmap_make_space be (sigmap b) sig = Some (0, sigmap b @ replicate n None)" and len: "sig < length (sigmap b) + n"
    let ?m = "sigmap b @ replicate n None"
    have rel1: "sig_rel (evs b) I ?m" using rel by simp
    define evl where "evl = (case ?m ! sig of None \<Rightarrow> [] | Some es \<Rightarrow> es)"
    have evl: "distinct evl" "set evl = sig_waiting (evs b) I sig"
      using sig_rel_slot [OF rel1, of sig] len by (cases "?m ! sig"; simp add: evl_def slot_def)+
    have w: "sig_waiting (evs b) (insert e I) sig = insert e (sig_waiting (evs b) I sig)" "e \<notin> sig_waiting (evs b) I sig"
      using e sig' by (auto simp: sig_waiting_insert sig_waiting_def)
    have same: "sig_rel (evs b) I (?m[sig := Some evl])"
      by (rule sig_rel_update [OF rel1]) (use len evl in simp_all)
    have ins: "sig_rel (evs b) (insert e I) (?m[sig := Some (evl @ [e])])"
      by (rule sig_rel_update [OF rel1]) (use len evl w sig' in \<open>auto simp: sig_waiting_insert\<close>)
    let ?add = "evmap_signal_add be b (ev_fd (evs b e)) e"
    have "?add = Some (-1, b\<lparr>sigmap := ?m\<rparr>) \<and> map_refuses be (evs b) I e \<or>
        ?add = Some (-1, b\<lparr>sigmap := ?m[sig := Some evl]\<rparr>) \<and> map_refuses be (evs b) I e \<or> ?add = Some (1, b\<lparr>sigmap := ?m[sig := Some (evl @ [e])]\<rparr>)"
      using sig'(1) sp evl_def e(2) unfolding map_refuses_def by (auto simp: evmap_signal_add_def Let_def)
    then show thesis using that(1) [of ?m] that(1) [of "?m[sig := Some evl]"] that(2) [of 1 "?m[sig := Some (evl @ [e])]"] rel1 same ins
      by force
  qed
qed

lemma evmap_signal_del_ok:
  assumes rel: "sig_rel (evs b) I (sigmap b)" and e: "e \<in> I" "\<not> is_io (evs b e)"
  obtains "evmap_signal_del be b (ev_fd (evs b e)) e = Some (-1, b)" "\<exists>fd. be_sigdel be fd = -1"
  | m where "evmap_signal_del be b (ev_fd (evs b e)) e = Some (1, b\<lparr>sigmap := m\<rparr>)" "sig_rel (evs b) (I - {e}) m"
proof -
  define sig where "sig = nat (ev_fd (evs b e))"
  have sig: "ev_fd (evs b e) = int sig" using rel e by (simp add: sig_def sig_rel_def)
  have w: "e \<in> sig_waiting (evs b) I sig" using e sig by (simp add: sig_waiting_def)
  then obtain evl where slot: "slot (sigmap b) sig = Some evl" using sig_rel_slot(2) [OF rel, of sig] by (cases "slot (sigmap b) sig") auto
  then have len: "sig < length (sigmap b)" "sigmap b ! sig = Some evl" by (auto simp: slot_def split: if_splits)
  have evl: "distinct evl" "set evl = sig_waiting (evs b) I sig" using sig_rel_slot(1) [OF rel slot] by auto
  have ok: "sig_rel (evs b) (I - {e}) ((sigmap b)[sig := Some (remove1 e evl)])"
    by (rule sig_rel_update [OF rel len(1)]) (use evl sig in \<open>auto simp: sig_waiting_def\<close>)
  have "evmap_signal_del be b (ev_fd (evs b e)) e =
    (if length evl \<le> 1 \<and> be_sigdel be (int sig) = -1 then Some (-1, b) else Some (1, b\<lparr>sigmap := (sigmap b)[sig := Some (remove1 e evl)]\<rparr>))"
    using sig len evl w by (simp add: evmap_signal_del_def)
  then show thesis using that(1) that(2) [OF _ ok] by (cases "length evl \<le> 1 \<and> be_sigdel be (int sig) = -1") auto
qed

section \<open>Both maps\<close>

text \<open>The maps depend on the descriptor and the kind of the events only.\<close>

definition same_kind :: "(event_ptr \<Rightarrow> event) \<Rightarrow> (event_ptr \<Rightarrow> event) \<Rightarrow> bool" where
  "same_kind E E' \<longleftrightarrow> (\<forall>e. ev_fd (E' e) = ev_fd (E e) \<and> ev_events (E' e) = ev_events (E e))"

lemma rel_same_kind:
  assumes "same_kind E E'"
  shows "io_rel E' I m = io_rel E I m" "sig_rel E' I sm = sig_rel E I sm"
proof -
  have k: "is_io (E' e) = is_io (E e)" "reads (E' e) = reads (E e)" "writes (E' e) = writes (E e)" "ev_fd (E' e) = ev_fd (E e)" for e
    using assms by (simp_all add: same_kind_def is_io_def reads_def writes_def)
  show "io_rel E' I m = io_rel E I m" unfolding io_rel_iff ctx_ok_def waiting_def k ..
  show "sig_rel E' I sm = sig_rel E I sm" unfolding sig_rel_iff sig_waiting_def k ..
qed

lemma io_rel_signal: "\<not> is_io (E e) \<Longrightarrow> io_rel E (insert e I) m = io_rel E I m" "\<not> is_io (E e) \<Longrightarrow> io_rel E (I - {e}) m = io_rel E I m"
proof -
  have "waiting E (insert e I) f = waiting E I f" "waiting E (I - {e}) f = waiting E I f" if "\<not> is_io (E e)" for f
    using that by (auto simp: waiting_def)
  then show "\<not> is_io (E e) \<Longrightarrow> io_rel E (insert e I) m = io_rel E I m" "\<not> is_io (E e) \<Longrightarrow> io_rel E (I - {e}) m = io_rel E I m"
    unfolding io_rel_iff by simp_all
qed

lemma sig_rel_io: "is_io (E e) \<Longrightarrow> sig_rel E (insert e I) m = sig_rel E I m" "is_io (E e) \<Longrightarrow> sig_rel E (I - {e}) m = sig_rel E I m"
proof -
  have "sig_waiting E (insert e I) f = sig_waiting E I f" "sig_waiting E (I - {e}) f = sig_waiting E I f" if "is_io (E e)" for f
    using that by (auto simp: sig_waiting_def)
  then show "is_io (E e) \<Longrightarrow> sig_rel E (insert e I) m = sig_rel E I m" "is_io (E e) \<Longrightarrow> sig_rel E (I - {e}) m = sig_rel E I m"
    unfolding sig_rel_iff by auto
qed

end
