(* ===== verification/Event_Ops.thy ===== *)
theory Event_Ops
  imports Event_Maps
begin

text \<open>
  Adding, deleting and activating events: each operation keeps the invariant of the base, and its effect
  on the three queues is exactly the one its contract names.
\<close>

section \<open>Frames\<close>

text \<open>What the user set up, which no operation of the loop changes.\<close>

definition config :: "event \<Rightarrow> int \<times> bool \<times> u16 \<times> nat \<times> ev_closure \<times> nat \<times> nat" where
  "config ev = (ev_fd ev, ev_base ev, ev_events ev, ev_pri ev, ev_closure ev, ev_callback ev, ev_arg ev)"

definition kept :: "event_base \<Rightarrow> event_base \<Rightarrow> bool" where
  "kept b b' \<longleftrightarrow> rest b' = rest b \<and> length (activequeues b') = length (activequeues b) \<and>
     (closure_ncalls b' = None \<longleftrightarrow> closure_ncalls b = None) \<and>
     (\<forall>e. same_event (evs b e) (evs b' e) \<and> internal b' e = internal b e) \<and> heap_a (timeheap b') = heap_a (timeheap b) \<and>
     ev_timeout (timeheap b') = ev_timeout (timeheap b)"

lemma same_event_refl [simp]: "same_event ev ev"
  by (auto simp: same_event_def intro: exI [of _ "ev_flags ev"])

lemma same_event_trans: "same_event a b \<Longrightarrow> same_event b c \<Longrightarrow> same_event a c"
  by (auto simp: same_event_def)

lemma same_event_config: "same_event a b \<Longrightarrow> config b = config a"
  by (auto simp: same_event_def config_def)

lemma kept_refl [simp]: "kept b b"
  by (simp add: kept_def)

lemma kept_trans: "kept a b \<Longrightarrow> kept b c \<Longrightarrow> kept a c"
  unfolding kept_def by (metis same_event_trans)

lemma kept_requeued: "requeued b q es b' \<Longrightarrow> kept b b'"
  by (simp add: requeued_def same_rest_def kept_def)

lemma kept_same_kind: "kept b b' \<Longrightarrow> same_kind (evs b) (evs b')"
  unfolding kept_def same_kind_def by (metis same_event_fields)

text \<open>Fields that the queues do not depend on.\<close>

lemma queued_upd [simp]:
  "queued (b\<lparr>closure_ncalls := c\<rparr>) = queued b" "queued (b\<lparr>io := m\<rparr>) = queued b" "queued (b\<lparr>sigmap := sm\<rparr>) = queued b"
  "queued (b\<lparr>timeheap := h\<rparr>) = queued b" "queued (b\<lparr>event_continue := c'\<rparr>) = queued b"
  by (simp_all add: fun_eq_iff queued_def on_queue_def)

lemma internal_upd [simp]:
  "internal (b\<lparr>closure_ncalls := c\<rparr>) = internal b" "internal (b\<lparr>io := m\<rparr>) = internal b" "internal (b\<lparr>sigmap := sm\<rparr>) = internal b"
  "internal (b\<lparr>timeheap := h\<rparr>) = internal b" "internal (b\<lparr>event_continue := c'\<rparr>) = internal b"
  by (simp_all add: fun_eq_iff internal_def)

lemma queues_inv_upd [simp]:
  "queues_inv (b\<lparr>closure_ncalls := c\<rparr>) = queues_inv b" "queues_inv (b\<lparr>io := m\<rparr>) = queues_inv b" "queues_inv (b\<lparr>sigmap := sm\<rparr>) = queues_inv b"
  "queues_inv (b\<lparr>event_continue := c'\<rparr>) = queues_inv b"
  by (simp_all add: queues_inv_def counted_def)

lemma queues_inv_heap:
  "queues_inv b \<Longrightarrow> min_heap_inv h \<Longrightarrow> heap_elems h = heap_elems (timeheap b) \<Longrightarrow> queues_inv (b\<lparr>timeheap := h\<rparr>)"
  by (simp add: queues_inv_def counted_def)

text \<open>Changing what an event carries but neither its flags nor what the user set up.\<close>

lemma upd_data:
  assumes f: "\<And>ev. config (f ev) = config ev" "\<And>ev. ev_flags (f ev) = ev_flags ev"
  shows "queued (upd_event b e f) = queued b" "internal (upd_event b e f) = internal b"
    "queues_inv (upd_event b e f) = queues_inv b" "maps_inv (upd_event b e f) = maps_inv b"
proof -
  show q: "queued (upd_event b e f) = queued b" using f by (auto simp: fun_eq_iff queued_def on_queue_def)
  show i: "internal (upd_event b e f) = internal b" using f by (auto simp: fun_eq_iff internal_def)
  have c: "ev_base (evs (upd_event b e f) x) = ev_base (evs b x)" "ev_pri (evs (upd_event b e f) x) = ev_pri (evs b x)"
    "flags_of (upd_event b e f) x = flags_of b x" for x
    using f by (auto simp: config_def)
  show "queues_inv (upd_event b e f) = queues_inv b" unfolding queues_inv_def counted_def q i c by simp
  have "same_kind (evs b) (evs (upd_event b e f))" using f by (auto simp: same_kind_def config_def)
  from rel_same_kind [OF this] show "maps_inv (upd_event b e f) = maps_inv b" by (simp add: maps_inv_def q)
qed

section \<open>Deleting\<close>

text \<open>The pointer \<open>ev_pncalls\<close> may be written through.\<close>

definition signal_safe :: "event_base \<Rightarrow> event_ptr \<Rightarrow> bool" where
  "signal_safe b e \<longleftrightarrow> ev_events (evs b e) AND EV_SIGNAL \<noteq> 0 \<and> ev_ncalls (evs b e) \<noteq> 0 \<longrightarrow>
     (\<forall>f. ev_pncalls (evs b e) = Some f \<longrightarrow> f = closure_no b \<and> closure_ncalls b \<noteq> None)"

lemma signal_safe_kept: "kept b b' \<Longrightarrow> signal_safe b e \<Longrightarrow> signal_safe b' e"
proof -
  assume k: "kept b b'" and s: "signal_safe b e"
  have "same_event (evs b e) (evs b' e)" using k by (simp add: kept_def)
  note f = same_event_fields [OF this]
  have "closure_no b' = closure_no b" using k by (intro rest_fields(6)) (simp add: kept_def)
  with k s f show "signal_safe b' e" by (simp add: signal_safe_def kept_def)
qed

lemma abort_signal_loop_ok:
  assumes "signal_safe b e"
  obtains c where "abort_signal_loop b e = Some (b\<lparr>closure_ncalls := c\<rparr>)" "c = None \<longleftrightarrow> closure_ncalls b = None"
proof (cases "ev_events (evs b e) AND EV_SIGNAL \<noteq> 0 \<and> ev_ncalls (evs b e) \<noteq> 0 \<and> ev_pncalls (evs b e) \<noteq> None")
  case True
  then obtain f where f: "ev_pncalls (evs b e) = Some f" by auto
  with assms True have "f = closure_no b \<and> closure_ncalls b \<noteq> None" by (simp add: signal_safe_def)
  then show thesis using True f by (intro that [of "Some 0"]) (simp_all add: abort_signal_loop_def)
next
  case False
  then have "abort_signal_loop b e = Some b" by (auto simp: abort_signal_loop_def Let_def)
  then show thesis by (intro that [of "closure_ncalls b"]) simp_all
qed

text \<open>What deleting does to the queues.\<close>

definition deleted :: "event_base \<Rightarrow> event_ptr \<Rightarrow> event_base \<Rightarrow> bool" where
  "deleted b e b' \<longleftrightarrow> activequeues b' = dequeue b e \<and> queues_inv b' \<and> kept b b' \<and> (\<forall>q. queued b' q = queued b q - {e})"

lemma length_dequeue [simp]: "length (dequeue b e) = length (activequeues b)"
  by (simp add: dequeue_def Let_def)

lemma dequeue_absent:
  assumes "queues_inv b" "e \<notin> queued b QActive"
  shows "dequeue b e = activequeues b"
proof (cases "ev_pri (evs b e) < length (activequeues b)")
  case True
  then have "e \<notin> set (activequeues b ! ev_pri (evs b e))" using assms by (simp add: queues_inv_def)
  then show ?thesis by (simp add: dequeue_def Let_def remove1_idem)
qed (simp add: dequeue_def Let_def list_update_beyond)

lemma maybe_remove_ok:
  assumes "queues_inv b"
  obtains b' where "(if on_queue b q e then event_queue_remove b e q else Some b) = Some b'" "requeued b q (queued b q - {e}) b'"
    "q = QActive \<Longrightarrow> activequeues b' = dequeue b e"
proof (cases "on_queue b q e")
  case True
  then have "e \<in> queued b q" by (simp add: queued_def)
  from event_queue_remove_ok [OF assms this] show thesis using True that by metis
next
  case False
  then have "requeued b q (queued b q - {e}) b" using assms by (auto simp: requeued_def same_rest_def queued_def)
  moreover have "q = QActive \<Longrightarrow> activequeues b = dequeue b e" using dequeue_absent [OF assms, of e] False by (simp add: queued_def)
  ultimately show thesis using False that by simp
qed

lemma requeued_maps:
  assumes "requeued b q es b'" "maps_inv b" "q \<noteq> QInserted"
  shows "maps_inv b'"
  using assms rel_same_kind [OF kept_same_kind [OF kept_requeued [OF assms(1)]]] by (auto simp: maps_inv_def requeued_def same_rest_def)

text \<open>The run of \<open>event_del_internal\<close> up to the call into \<^verbatim>\<open>evmap.c\<close>.\<close>

lemma event_del_internal_run:
  assumes inv: "base_inv b" and e: "ev_base (evs b e)" and safe: "signal_safe b e"
  obtains b' where "e \<notin> queued b QInserted" "event_del_internal be b e = Some (0, b')" "deleted b e b'" "base_inv b'"
      "abort_signal_loop b e = Some (b\<lparr>closure_ncalls := closure_ncalls b'\<rparr>)"
  | b' where "e \<in> queued b QInserted" "deleted b e b'" "abort_signal_loop b e = Some (b\<lparr>closure_ncalls := closure_ncalls b'\<rparr>)"
      "event_del_internal be b e = do {
         (res, base5) \<leftarrow> (if is_io (evs b' e) then evmap_io_del be b' (ev_fd (evs b' e)) e else evmap_signal_del be b' (ev_fd (evs b' e)) e);
         Some (if res = 1 then 0 else res, base5) }"
      "io_rel (evs b') (queued b QInserted) (io b')" "sig_rel (evs b') (queued b QInserted) (sigmap b')"
proof -
  have qi: "queues_inv b" and mi: "maps_inv b" using inv by (simp_all add: base_inv_def)
  obtain c where c: "abort_signal_loop b e = Some (b\<lparr>closure_ncalls := c\<rparr>)" "c = None \<longleftrightarrow> closure_ncalls b = None"
    by (rule abort_signal_loop_ok [OF safe])
  let ?b1 = "b\<lparr>closure_ncalls := c\<rparr>"
  have b1: "queues_inv ?b1" "maps_inv ?b1" "kept b ?b1" using qi mi c(2) by (simp_all add: maps_inv_def kept_def)
  obtain b2 where b2: "(if on_queue ?b1 QTimeout e then event_queue_remove ?b1 e QTimeout else Some ?b1) = Some b2"
      "requeued ?b1 QTimeout (queued ?b1 QTimeout - {e}) b2" by (rule maybe_remove_ok [OF b1(1)])
  have q2: "queues_inv b2" using b2(2) by (simp add: requeued_def)
  obtain b3 where b3: "(if on_queue b2 QActive e then event_queue_remove b2 e QActive else Some b2) = Some b3"
      "requeued b2 QActive (queued b2 QActive - {e}) b3" "activequeues b3 = dequeue b2 e"
    using maybe_remove_ok [OF q2, of QActive e] by metis
  have q3: "queues_inv b3" using b3(2) by (simp add: requeued_def)
  have m3: "maps_inv b3" by (rule requeued_maps [OF b3(2) requeued_maps [OF b2(2) b1(2)]]) simp_all
  have k3: "kept b b3" using kept_trans [OF b1(3) kept_trans [OF kept_requeued [OF b2(2)] kept_requeued [OF b3(2)]]] .
  have qd3: "queued b3 q = (if q = QInserted then queued b q else queued b q - {e})" for q
    using b2(2) b3(2) by (cases q) (simp_all add: requeued_def)
  have flags: "flags_of b e AND NOT EVLIST_ALL = 0" using qi by (simp add: queues_inv_def)
  have run: "event_del_internal be b e = (if on_queue b3 QInserted e then do {
          base4 \<leftarrow> event_queue_remove b3 e QInserted;
          (res, base5) \<leftarrow> (if is_io (evs base4 e) then evmap_io_del be base4 (ev_fd (evs base4 e)) e
                           else evmap_signal_del be base4 (ev_fd (evs base4 e)) e);
          Some (if res = 1 then 0 else res, base5) } else Some (0, b3))"
    unfolding event_del_internal_def is_io_def using e flags c(1) b2(1) b3(1)
    by (simp only: bind_ev_assert if_False if_True option.simps bind.bind_lunit not_True_eq_False)
  have "same_event (evs b e) (evs b2 e)" using kept_trans [OF b1(3) kept_requeued [OF b2(2)]] by (simp add: kept_def)
  then have aq3: "activequeues b3 = dequeue b e"
    using b3(3) b2(2) same_event_fields by (simp add: dequeue_def requeued_def)
  have c3: "closure_ncalls b3 = c" using b2(2) b3(2) by (simp add: requeued_def same_rest_def)
  have on: "on_queue b3 QInserted e \<longleftrightarrow> e \<in> queued b QInserted" using qd3 [of QInserted] by (simp add: queued_def set_eq_iff)
  show thesis
  proof (cases "e \<in> queued b QInserted")
    case False
    then have "deleted b e b3" using q3 k3 qd3 aq3 by (simp add: deleted_def)
    then show thesis using that(1) [of b3] run False on q3 m3 c(1) c3 by (simp add: base_inv_def)
  next
    case True
    then have e3: "e \<in> queued b3 QInserted" using qd3 by simp
    obtain b4 where b4: "event_queue_remove b3 e QInserted = Some b4" "requeued b3 QInserted (queued b3 QInserted - {e}) b4"
      by (rule event_queue_remove_ok [OF q3 e3])
    have del: "deleted b e b4"
    proof -
      have "queued b4 q = queued b q - {e}" for q using b4(2) qd3 [of q] qd3 [of QInserted] by (cases q) (simp_all add: requeued_def)
      then show ?thesis using b4(2) aq3 kept_trans [OF k3 kept_requeued [OF b4(2)]] by (simp add: deleted_def requeued_def)
    qed
    have "io_rel (evs b4) (queued b QInserted) (io b4)" "sig_rel (evs b4) (queued b QInserted) (sigmap b4)"
      using m3 b4(2) qd3 [of QInserted] rel_same_kind [OF kept_same_kind [OF kept_requeued [OF b4(2)]]] by (simp_all add: maps_inv_def requeued_def same_rest_def)
    moreover have "abort_signal_loop b e = Some (b\<lparr>closure_ncalls := closure_ncalls b4\<rparr>)"
      using c(1) c3 b4(2) by (simp add: requeued_def same_rest_def)
    ultimately show thesis using that(2) [of b4, OF True del] run True on b4(1) by simp
  qed
qed

lemma event_del_internal_ok:
  assumes inv: "base_inv b" and e: "ev_base (evs b e)" and safe: "signal_safe b e"
  obtains b' where "event_del_internal be b e = Some (-1, b')" "deleted b e b'" "(\<exists>fd old ev. be_del be fd old ev = -1) \<or> (\<exists>fd. be_sigdel be fd = -1)"
  | b' where "event_del_internal be b e = Some (0, b')" "deleted b e b'" "base_inv b'" "abort_signal_loop b e = Some (b\<lparr>closure_ncalls := closure_ncalls b'\<rparr>)"
proof (rule event_del_internal_run [OF inv e safe, of be])
  fix b4
  assume e3: "e \<in> queued b QInserted" and del: "deleted b e b4"
    and run: "event_del_internal be b e = do {
         (res, base5) \<leftarrow> (if is_io (evs b4 e) then evmap_io_del be b4 (ev_fd (evs b4 e)) e else evmap_signal_del be b4 (ev_fd (evs b4 e)) e);
         Some (if res = 1 then 0 else res, base5) }"
    and ab: "abort_signal_loop b e = Some (b\<lparr>closure_ncalls := closure_ncalls b4\<rparr>)"
    and m4: "io_rel (evs b4) (queued b QInserted) (io b4)" "sig_rel (evs b4) (queued b QInserted) (sigmap b4)"
  have q4: "queued b4 QInserted = queued b QInserted - {e}" using del by (simp add: deleted_def)
  show thesis
  proof (cases "is_io (evs b4 e)")
    case io: True
    show thesis
    proof (rule evmap_io_del_ok [OF m4(1) e3 io, of be])
      assume "evmap_io_del be b4 (ev_fd (evs b4 e)) e = Some (-1, b4)" "\<exists>fd old ev. be_del be fd old ev = -1"
      then show thesis using that(1) [of b4] run io del by simp
    next
      fix r m assume m: "evmap_io_del be b4 (ev_fd (evs b4 e)) e = Some (r, b4\<lparr>io := m\<rparr>)" "r \<in> {0, 1}" "io_rel (evs b4) (queued b QInserted - {e}) m"
      have "deleted b e (b4\<lparr>io := m\<rparr>)" using del by (simp add: deleted_def kept_def)
      moreover have "base_inv (b4\<lparr>io := m\<rparr>)"
        using del m(3) m4(2) q4 sig_rel_io(2) [of "evs b4" e, OF io] by (simp add: base_inv_def deleted_def maps_inv_def)
      ultimately show thesis using that(2) [of "b4\<lparr>io := m\<rparr>"] run io m(1,2) ab by auto
    qed
  next
    case sig: False
    show thesis
    proof (rule evmap_signal_del_ok [OF m4(2) e3 sig, of be])
      assume "evmap_signal_del be b4 (ev_fd (evs b4 e)) e = Some (-1, b4)" "\<exists>fd. be_sigdel be fd = -1"
      then show thesis using that(1) [of b4] run sig del by simp
    next
      fix m assume m: "evmap_signal_del be b4 (ev_fd (evs b4 e)) e = Some (1, b4\<lparr>sigmap := m\<rparr>)" "sig_rel (evs b4) (queued b QInserted - {e}) m"
      have "deleted b e (b4\<lparr>sigmap := m\<rparr>)" using del by (simp add: deleted_def kept_def)
      moreover have "base_inv (b4\<lparr>sigmap := m\<rparr>)"
        using del m(2) m4(1) q4 io_rel_signal(2) [of "evs b4" e, OF sig] by (simp add: base_inv_def deleted_def maps_inv_def)
      ultimately show thesis using that(2) [of "b4\<lparr>sigmap := m\<rparr>"] run sig m(1) ab by auto
    qed
  qed
qed (rule that(2))

section \<open>Activating\<close>

text \<open>After an operation that concerns \<open>e\<close>: the other events are as they were, and nobody's set-up changed.\<close>

definition touched :: "event_base \<Rightarrow> event_ptr \<Rightarrow> event_base \<Rightarrow> bool" where
  "touched b e b' \<longleftrightarrow> ctl b' = ctl b \<and> length (activequeues b') = length (activequeues b) \<and> (\<forall>x. config (evs b' x) = config (evs b x) \<and> internal b' x = internal b x) \<and>
     (\<forall>x. x \<noteq> e \<longrightarrow> same_event (evs b x) (evs b' x) \<and> ev_timeout (timeheap b') x = ev_timeout (timeheap b) x)"

lemma kept_touched: "kept b b' \<Longrightarrow> touched b e b'"
  using rest_fields(11) [of b' b] by (simp add: kept_def touched_def same_event_config)

lemma touched_trans: "touched a e b \<Longrightarrow> touched b e c \<Longrightarrow> touched a e c"
  unfolding touched_def by (simp, blast intro: same_event_trans)

lemma upd_data_touched:
  assumes "\<And>ev. config (f ev) = config ev" "\<And>ev. ev_flags (f ev) = ev_flags ev"
  shows "touched b e (upd_event b e f)"
  using assms upd_data(2) [of f b e] by (simp add: touched_def)

text \<open>\<open>event_active_nolock\<close> before the event is put on its queue.\<close>

definition activation :: "event_base \<Rightarrow> event_ptr \<Rightarrow> u16 \<Rightarrow> nat \<Rightarrow> event_base" where
  "activation b e res ncalls = (let b1 = upd_event b e (\<lambda>ev. if ev_events ev AND EV_SIGNAL \<noteq> 0
       then ev\<lparr>ev_res := res, ev_ncalls := ncalls, ev_pncalls := None\<rparr> else ev\<lparr>ev_res := res\<rparr>)
     in if int (ev_pri (evs b e)) < event_running_priority b then b1\<lparr>event_continue := True\<rparr> else b1)"

lemma event_active_nolock_eq:
  "event_active_nolock be b e res ncalls =
     (if on_queue b QActive e then Some (upd_event b e (\<lambda>ev. ev\<lparr>ev_res := ev_res ev OR res\<rparr>))
      else event_queue_insert be (activation b e res ncalls) e QActive)"
proof -
  have swap: "b\<lparr>event_continue := c, evs := E\<rparr> = b\<lparr>evs := E, event_continue := c\<rparr>" for c E by simp
  show ?thesis unfolding event_active_nolock_def activation_def Let_def by (simp add: upd_event_def fun_upd_def swap cong: if_cong)
qed

lemma activation_ok:
  shows "queued (activation b e res ncalls) = queued b" "queues_inv (activation b e res ncalls) = queues_inv b"
    "maps_inv (activation b e res ncalls) = maps_inv b" "touched b e (activation b e res ncalls)"
    "ev_res (evs (activation b e res ncalls) e) = res" "timeheap (activation b e res ncalls) = timeheap b"
    "closure_ncalls (activation b e res ncalls) = closure_ncalls b"
    "event_running_priority b \<le> 0 \<Longrightarrow> event_continue (activation b e res ncalls) = event_continue b"
    "ev_pncalls (evs (activation b e res ncalls) e) = (if ev_events (evs b e) AND EV_SIGNAL \<noteq> 0 then None else ev_pncalls (evs b e))"
proof -
  let ?f = "\<lambda>ev. if ev_events ev AND EV_SIGNAL \<noteq> 0 then ev\<lparr>ev_res := res, ev_ncalls := ncalls, ev_pncalls := None\<rparr> else ev\<lparr>ev_res := res\<rparr>"
  have f: "config (?f ev) = config ev" "ev_flags (?f ev) = ev_flags ev" for ev by (simp_all add: config_def)
  note u = upd_data [of ?f b e, OF f] and t = upd_data_touched [of ?f b e, OF f]
  show "queued (activation b e res ncalls) = queued b" "queues_inv (activation b e res ncalls) = queues_inv b"
    "maps_inv (activation b e res ncalls) = maps_inv b" "touched b e (activation b e res ncalls)"
    using u t by (simp_all add: activation_def Let_def maps_inv_def touched_def)
  show "ev_res (evs (activation b e res ncalls) e) = res" "timeheap (activation b e res ncalls) = timeheap b"
    "closure_ncalls (activation b e res ncalls) = closure_ncalls b"
    "event_running_priority b \<le> 0 \<Longrightarrow> event_continue (activation b e res ncalls) = event_continue b"
    "ev_pncalls (evs (activation b e res ncalls) e) = (if ev_events (evs b e) AND EV_SIGNAL \<noteq> 0 then None else ev_pncalls (evs b e))"
    by (auto simp: activation_def Let_def upd_event_def)
qed

text \<open>The event is active afterwards, and no other queue changed.\<close>

definition activated :: "event_base \<Rightarrow> event_ptr \<Rightarrow> u16 \<Rightarrow> event_base \<Rightarrow> bool" where
  "activated b e res b' \<longleftrightarrow> touched b e b' \<and> queued b' QActive = insert e (queued b QActive) \<and>
     queued b' QInserted = queued b QInserted \<and> queued b' QTimeout = queued b QTimeout \<and>
     ev_res (evs b' e) = (if e \<in> queued b QActive then ev_res (evs b e) OR res else res) \<and>
     ev_timeout (timeheap b') = ev_timeout (timeheap b) \<and> heap_a (timeheap b') = heap_a (timeheap b) \<and>
     closure_ncalls b' = closure_ncalls b \<and> (event_running_priority b \<le> 0 \<longrightarrow> event_continue b' = event_continue b)"

lemma event_active_nolock_ok:
  assumes base: "base_inv b" and e: "ev_base (evs b e)"
  obtains b' where "event_active_nolock be b e res ncalls = Some b'" "base_inv b'" "activated b e res b'"
proof (cases "on_queue b QActive e")
  case True
  let ?f = "\<lambda>ev. ev\<lparr>ev_res := ev_res ev OR res\<rparr>"
  have f: "config (?f ev) = config ev" "ev_flags (?f ev) = ev_flags ev" for ev by (simp_all add: config_def)
  note u = upd_data [of ?f b e, OF f] and t = upd_data_touched [of ?f b e, OF f]
  have "e \<in> queued b QActive" using True by (simp add: queued_def)
  then have "activated b e res (upd_event b e ?f)" using u t by (auto simp: activated_def)
  then show thesis using True u base that [of "upd_event b e ?f"] by (simp add: event_active_nolock_eq base_inv_def)
next
  case False
  have inv: "queues_inv b" "maps_inv b" using base by (simp_all add: base_inv_def)
  let ?b = "activation b e res ncalls"
  have q: "queues_inv ?b" "e \<notin> queued ?b QActive" "ev_base (evs ?b e)"
    using inv False e activation_ok(1,2,4) [of b e res ncalls] by (simp_all add: queued_def touched_def config_def set_eq_iff fun_eq_iff)
  obtain b' where b': "event_queue_insert be ?b e QActive = Some b'" "requeued ?b QActive (insert e (queued ?b QActive)) b'"
    by (rule event_queue_insert_ok [OF q]) simp
  have "same_event (evs ?b e) (evs b' e)" using b'(2) by (simp add: requeued_def same_rest_def)
  then have "ev_res (evs b' e) = res" using same_event_fields activation_ok(5) by metis
  moreover have "touched b e b'" by (rule touched_trans [OF activation_ok(4) kept_touched [OF kept_requeued [OF b'(2)]]])
  moreover have "e \<notin> queued b QActive" using False by (simp add: queued_def)
  moreover have "event_running_priority b \<le> 0 \<longrightarrow> event_continue b' = event_continue b"
    using b'(2) rest_fields(4) [of b' ?b] activation_ok(8) by (simp add: requeued_def same_rest_def)
  ultimately have "activated b e res b'"
    using b'(2) activation_ok(1,6,7) [of b e res ncalls] by (simp add: activated_def requeued_def same_rest_def)
  moreover have "maps_inv b'" using requeued_maps [OF b'(2)] activation_ok(3) inv(2) by simp
  ultimately show thesis using b' False that [of b'] by (simp add: event_active_nolock_eq requeued_def base_inv_def)
qed

section \<open>Adding\<close>

text \<open>The event is active because its timeout expired.\<close>

definition expired_active :: "event_base \<Rightarrow> event_ptr \<Rightarrow> bool" where
  "expired_active b e \<longleftrightarrow> e \<in> queued b QActive \<and> ev_res (evs b e) AND EV_TIMEOUT \<noteq> 0"

definition timer_set :: "event_base \<Rightarrow> event_ptr \<Rightarrow> timeval \<Rightarrow> event_base \<Rightarrow> bool" where
  "timer_set b e due b' \<longleftrightarrow> touched b e b' \<and> queued b' QTimeout = insert e (queued b QTimeout) \<and> queued b' QInserted = queued b QInserted \<and>
     queued b' QActive = (if expired_active b e then queued b QActive - {e} else queued b QActive) \<and>
     ev_timeout (timeheap b') = (ev_timeout (timeheap b))(e := due) \<and> ev_res (evs b' e) = ev_res (evs b e)"

definition due_time :: "timeval \<Rightarrow> event_base \<Rightarrow> timeval \<Rightarrow> bool \<Rightarrow> timeval" where
  "due_time clock b tv absolute = (if absolute then tv else evutil_timeradd (gettime b clock) tv)"

lemma has_room_removed:
  assumes inv: "queues_inv b" and room: "e \<in> queued b QTimeout \<or> has_room b" and r: "requeued b QTimeout (queued b QTimeout - {e}) b'"
  shows "has_room b'"
proof -
  have fin: "finite (queued b QTimeout)" by (rule queues_inv_finite [OF inv])
  have n: "card (queued b QTimeout) = heap_n (timeheap b)" "heap_n (timeheap b) \<le> heap_a (timeheap b)"
    using inv card_heap_elems [of "timeheap b"] by (simp_all add: queues_inv_def min_heap_inv_def)
  have eq: "has_room b' \<longleftrightarrow> card (queued b QTimeout - {e}) < heap_a (timeheap b)" using r by (simp add: has_room_def requeued_def)
  show ?thesis
  proof (cases "e \<in> queued b QTimeout")
    case True
    then have "card (queued b QTimeout - {e}) < card (queued b QTimeout)" using fin by (meson card_Diff1_less)
    then show ?thesis unfolding eq using n by linarith
  next
    case False
    then show ?thesis unfolding eq using room by (simp add: has_room_def)
  qed
qed

lemma event_add_timeout_ok:
  assumes inv: "queues_inv b" "maps_inv b" and e: "ev_base (evs b e)" and safe: "signal_safe b e" and room: "e \<in> queued b QTimeout \<or> has_room b"
  obtains b' where "event_add_timeout be clock b e tv absolute = Some b'" "queues_inv b'" "maps_inv b'" "timer_set b e (due_time clock b tv absolute) b'"
proof -
  let ?f = "\<lambda>ev. ev\<lparr>ev_io_timeout := tv\<rparr>"
  have f: "config (?f ev) = config ev" "ev_flags (?f ev) = ev_flags ev" for ev by (simp_all add: config_def)
  note u = upd_data [of ?f b e, OF f] and t = upd_data_touched [of ?f b e, OF f]
  define b1 where "b1 = (if ev_closure (evs b e) = EV_CLOSURE_PERSIST \<and> \<not> absolute then upd_event b e ?f else b)"
  have b1: "queues_inv b1" "maps_inv b1" "queued b1 = queued b" "touched b e b1" "timeheap b1 = timeheap b" "tv_cache b1 = tv_cache b"
      "ev_res (evs b1 e) = ev_res (evs b e)" "signal_safe b1 e"
    using inv u t safe by (auto simp: b1_def signal_safe_def kept_touched)
  obtain b2 where b2: "(if on_queue b1 QTimeout e then event_queue_remove b1 e QTimeout else Some b1) = Some b2"
      "requeued b1 QTimeout (queued b1 QTimeout - {e}) b2" by (rule maybe_remove_ok [OF b1(1)])
  have k2: "kept b1 b2" by (rule kept_requeued [OF b2(2)])
  have q2: "queues_inv b2" "maps_inv b2" "has_room b2" "signal_safe b2 e" "tv_cache b2 = tv_cache b" "ev_res (evs b2 e) = ev_res (evs b e)"
    "queued b2 QActive = queued b QActive" "queued b2 QInserted = queued b QInserted" "queued b2 QTimeout = queued b QTimeout - {e}"
  proof -
    show "queues_inv b2" using b2(2) by (simp add: requeued_def)
    show "maps_inv b2" by (rule requeued_maps [OF b2(2) b1(2)]) simp
    show "has_room b2" by (rule has_room_removed [OF b1(1) _ b2(2)]) (use room b1(3,5) in \<open>simp add: has_room_def\<close>)
    show "signal_safe b2 e" by (rule signal_safe_kept [OF k2 b1(8)])
    show "tv_cache b2 = tv_cache b" using k2 b1(6) rest_fields(1) [of b2 b1] by (simp add: kept_def)
    have "same_event (evs b1 e) (evs b2 e)" using k2 by (simp add: kept_def)
    then show "ev_res (evs b2 e) = ev_res (evs b e)" using same_event_fields b1(7) by metis
  qed (use b2(2) b1(3) in \<open>simp_all add: requeued_def\<close>)
  obtain b3 where b3: "(if on_queue b2 QActive e \<and> ev_res (evs b2 e) AND EV_TIMEOUT \<noteq> 0
      then abort_signal_loop b2 e \<bind> (\<lambda>b. event_queue_remove b e QActive) else Some b2) = Some b3"
    "queues_inv b3" "maps_inv b3" "kept b2 b3" "queued b3 QActive = (if expired_active b e then queued b QActive - {e} else queued b QActive)"
    "queued b3 QInserted = queued b QInserted" "queued b3 QTimeout = queued b QTimeout - {e}"
  proof (cases "expired_active b e")
    case True
    then have on: "e \<in> queued b2 QActive" "ev_res (evs b2 e) AND EV_TIMEOUT \<noteq> 0" using q2 by (simp_all add: expired_active_def)
    obtain c where c: "abort_signal_loop b2 e = Some (b2\<lparr>closure_ncalls := c\<rparr>)" "c = None \<longleftrightarrow> closure_ncalls b2 = None"
      by (rule abort_signal_loop_ok [OF q2(4)])
    have qc: "queues_inv (b2\<lparr>closure_ncalls := c\<rparr>)" "e \<in> queued (b2\<lparr>closure_ncalls := c\<rparr>) QActive" "maps_inv (b2\<lparr>closure_ncalls := c\<rparr>)"
      "kept b2 (b2\<lparr>closure_ncalls := c\<rparr>)" using q2 on c(2) by (simp_all add: maps_inv_def kept_def)
    obtain b3 where b3: "event_queue_remove (b2\<lparr>closure_ncalls := c\<rparr>) e QActive = Some b3"
      "requeued (b2\<lparr>closure_ncalls := c\<rparr>) QActive (queued (b2\<lparr>closure_ncalls := c\<rparr>) QActive - {e}) b3" by (rule event_queue_remove_ok [OF qc(1,2)])
    have "maps_inv b3" "kept b2 b3" using requeued_maps [OF b3(2) qc(3)] kept_trans [OF qc(4) kept_requeued [OF b3(2)]] by simp_all
    then show thesis using that [of b3] on c(1) b3 True q2 by (simp add: queued_def requeued_def)
  next
    case False
    then have "\<not> (on_queue b2 QActive e \<and> ev_res (evs b2 e) AND EV_TIMEOUT \<noteq> 0)" using q2 by (auto simp: expired_active_def queued_def set_eq_iff)
    then show thesis by (intro that [of b2]) (use q2 False in \<open>auto simp only: if_False kept_refl\<close>)
  qed
  define b4 where "b4 = b3\<lparr>timeheap := (timeheap b3)\<lparr>ev_timeout := (ev_timeout (timeheap b3))(e := due_time clock b tv absolute)\<rparr>\<rparr>"
  have tv: "gettime b3 clock = gettime b clock" using b3(4) rest_fields(1) [of b3 b2] q2(5) by (simp add: gettime_def kept_def)
  have out: "e \<notin> heap_elems (timeheap b3)" using b3(2,7) by (simp add: queues_inv_def)
  have h: "min_heap_inv (timeheap b3)" using b3(2) by (simp add: queues_inv_def)
  have q4: "queues_inv b4" unfolding b4_def by (rule queues_inv_heap [OF b3(2) min_heap_set_timeout [OF h out]]) (simp add: heap_elems_def)
  have qd4: "queued b4 = queued b3" by (simp add: b4_def)
  have t3: "touched b e b3" by (rule touched_trans [OF b1(4) kept_touched [OF kept_trans [OF k2 b3(4)]]])
  have t4: "touched b e b4" using t3 by (auto simp: b4_def touched_def)
  have base4: "ev_base (evs b4 e)" using t4 e by (simp add: touched_def config_def)
  have room4: "has_room b4" using q2(3,9) b3(4,7) by (simp add: has_room_def b4_def kept_def)
  have out4: "e \<notin> queued b4 QTimeout" unfolding qd4 b3(7) by simp
  obtain b5 where b5: "event_queue_insert be b4 e QTimeout = Some b5" "requeued b4 QTimeout (insert e (queued b4 QTimeout)) b5"
    by (rule event_queue_insert_ok [OF q4 out4 base4 room4])
  have m4: "maps_inv b4" using b3(3) by (simp add: b4_def maps_inv_def)
  have m5: "maps_inv b5" by (rule requeued_maps [OF b5(2) m4]) simp
  have "touched b e b5" by (rule touched_trans [OF t4 kept_touched [OF kept_requeued [OF b5(2)]]])
  moreover have "ev_res (evs b5 e) = ev_res (evs b e)"
  proof -
    have "same_event (evs b2 e) (evs b5 e)"
      using b3(4) kept_requeued [OF b5(2)] same_event_trans [of "evs b2 e" "evs b3 e"] by (simp add: kept_def b4_def)
    then show ?thesis using same_event_fields q2(6) by metis
  qed
  moreover have "ev_timeout (timeheap b3) = ev_timeout (timeheap b)" using b3(4) k2 b1(5) by (simp add: kept_def)
  ultimately have set: "timer_set b e (due_time clock b tv absolute) b5"
    using b5(2) qd4 b3(5-7) by (auto simp: timer_set_def requeued_def b4_def)
  have "event_add_timeout be clock b e tv absolute = Some b5"
    unfolding event_add_timeout_def Let_def b1_def [symmetric] b2(1) bind.bind_lunit b3(1) tv
    using b5(1) unfolding b4_def due_time_def by simp
  then show thesis using that [of b5] set m5 b5(2) by (simp add: requeued_def)
qed

text \<open>
  What the caller of \<open>event_add\<close> has to guarantee: descriptors and signals in the range the maps can hold,
  and fewer than half a billion timers.
\<close>

definition waits :: "event \<Rightarrow> bool" where
  "waits ev \<longleftrightarrow> ev_events ev AND (EV_READ OR EV_WRITE OR EV_SIGNAL) \<noteq> 0"

definition registrable :: "event_base \<Rightarrow> event_ptr \<Rightarrow> bool" where
  "registrable b e \<longleftrightarrow> ev_base (evs b e) \<and> signal_safe b e \<and> ev_fd (evs b e) < 268435456 \<and>
     (waits (evs b e) \<and> \<not> is_io (evs b e) \<longrightarrow> 0 \<le> ev_fd (evs b e))"

definition addable :: "event_base \<Rightarrow> event_ptr \<Rightarrow> bool" where
  "addable b e \<longleftrightarrow> registrable b e \<and> heap_a (timeheap b) < 536870912"

text \<open>The event was registered with the backend, unless it is already registered or already active.\<close>

definition registered :: "event_base \<Rightarrow> event_ptr \<Rightarrow> event_base \<Rightarrow> bool" where
  "registered b e b' \<longleftrightarrow> touched b e b' \<and> queued b' QTimeout = queued b QTimeout \<and> queued b' QActive = queued b QActive \<and>
     queued b' QInserted = (if waits (evs b e) \<and> e \<notin> queued b QActive then insert e (queued b QInserted) else queued b QInserted) \<and>
     rest b' = rest b \<and> signal_safe b' e \<and> heap_a (timeheap b') = heap_a (timeheap b) \<and> ev_timeout (timeheap b') = ev_timeout (timeheap b) \<and>
     ev_res (evs b' e) = ev_res (evs b e)"

text \<open>The first half of \<open>event_add_internal\<close>.\<close>

definition event_register :: "backend \<Rightarrow> event_base \<Rightarrow> event_ptr \<Rightarrow> (int \<times> event_base) option" where
  "event_register be base1 e =
     (if waits (evs base1 e) \<and> \<not> on_queue base1 QInserted e \<and> \<not> on_queue base1 QActive e
      then do {
        (res, b) \<leftarrow> (if is_io (evs base1 e) then evmap_io_add be base1 (ev_fd (evs base1 e)) e
                     else evmap_signal_add be base1 (ev_fd (evs base1 e)) e);
        if res \<noteq> -1 then do { b1 \<leftarrow> event_queue_insert be b e QInserted; Some (0, b1) } else Some (-1, b)
      }
      else Some (0, base1))"

lemma event_register_ok:
  assumes inv: "queues_inv b" "maps_inv b" and add: "registrable b e"
  obtains b' where "event_register be b e = Some (-1, b')" "queues_inv b'" "maps_inv b'" "kept b b'" "queued b' = queued b" "evs b' = evs b"
      "waits (evs b e)" "map_refuses be (evs b) (queued b QInserted) e"
  | b' where "event_register be b e = Some (0, b')" "queues_inv b'" "maps_inv b'" "registered b e b'"
proof (cases "waits (evs b e) \<and> \<not> on_queue b QInserted e \<and> \<not> on_queue b QActive e")
  case False
  then have "registered b e b" using add by (auto simp: registered_def kept_touched registrable_def queued_def)
  then show thesis using False that(2) [of b] inv by (auto simp: event_register_def)
next
  case True
  let ?I = "queued b QInserted"
  note succ = that(2)
  have out: "e \<notin> ?I" "e \<notin> queued b QActive" using True by (simp_all add: queued_def)
  have a: "ev_base (evs b e)" "ev_fd (evs b e) < 268435456" "\<not> is_io (evs b e) \<Longrightarrow> 0 \<le> ev_fd (evs b e)" "signal_safe b e"
    using add True by (simp_all add: registrable_def)
  have m: "io_rel (evs b) ?I (io b)" "sig_rel (evs b) ?I (sigmap b)" using inv(2) by (simp_all add: maps_inv_def)
  have ins: thesis
    if run: "event_register be b e = do { b1 \<leftarrow> event_queue_insert be b1 e QInserted; Some (0, b1) }"
      and b1: "queues_inv b1" "queued b1 = queued b" "evs b1 = evs b" "kept b b1"
      and m1: "io_rel (evs b) (insert e ?I) (io b1)" "sig_rel (evs b) (insert e ?I) (sigmap b1)" for b1
  proof -
    have out1: "e \<notin> queued b1 QInserted" "ev_base (evs b1 e)" using out b1 a by simp_all
    obtain b2 where b2: "event_queue_insert be b1 e QInserted = Some b2" "requeued b1 QInserted (insert e (queued b1 QInserted)) b2"
      by (rule event_queue_insert_ok [OF b1(1) out1]) simp
    have k: "kept b b2" by (rule kept_trans [OF b1(4) kept_requeued [OF b2(2)]])
    have "maps_inv b2" using m1 rel_same_kind [OF kept_same_kind [OF k]] b2(2) b1(2) by (simp add: maps_inv_def requeued_def same_rest_def)
    moreover have "registered b e b2"
    proof -
      have "same_event (evs b e) (evs b2 e)" using k by (simp add: kept_def)
      then have "ev_res (evs b2 e) = ev_res (evs b e)" using same_event_fields by blast
      then show ?thesis using k b2(2) b1(2) True out signal_safe_kept [OF k a(4)] kept_touched [OF k]
        by (simp add: registered_def requeued_def kept_def)
    qed
    ultimately show thesis using succ [of b2] run b2 by (simp add: requeued_def)
  qed
  show thesis
  proof (cases "is_io (evs b e)")
    case io: True
    show thesis
    proof (rule evmap_io_add_ok [OF m(1) out(1) io a(2), of be])
      fix m' assume "evmap_io_add be b (ev_fd (evs b e)) e = Some (-1, b\<lparr>io := m'\<rparr>)" "io_rel (evs b) ?I m'" "map_refuses be (evs b) ?I e"
      then show thesis using that(1) [of "b\<lparr>io := m'\<rparr>"] True io inv m by (simp add: event_register_def maps_inv_def kept_def)
    next
      fix rc m' assume r: "evmap_io_add be b (ev_fd (evs b e)) e = Some (rc, b\<lparr>io := m'\<rparr>)" "rc \<noteq> -1" "io_rel (evs b) (insert e ?I) m'"
      show thesis
        by (rule ins [of "b\<lparr>io := m'\<rparr>"]) (use r True io inv m sig_rel_io(1) [of "evs b" e, OF io] in \<open>simp_all add: event_register_def kept_def\<close>)
    qed
  next
    case sig: False
    show thesis
    proof (rule evmap_signal_add_ok [OF m(2) out(1) sig a(3) [OF sig] a(2), of be])
      fix m' assume "evmap_signal_add be b (ev_fd (evs b e)) e = Some (-1, b\<lparr>sigmap := m'\<rparr>)" "sig_rel (evs b) ?I m'" "map_refuses be (evs b) ?I e"
      then show thesis using that(1) [of "b\<lparr>sigmap := m'\<rparr>"] True sig inv m by (simp add: event_register_def maps_inv_def kept_def)
    next
      fix rc m' assume r: "evmap_signal_add be b (ev_fd (evs b e)) e = Some (rc, b\<lparr>sigmap := m'\<rparr>)" "rc \<noteq> -1" "sig_rel (evs b) (insert e ?I) m'"
      show thesis
        by (rule ins [of "b\<lparr>sigmap := m'\<rparr>"]) (use r True sig inv m io_rel_signal(1) [of "evs b" e, OF sig] in \<open>simp_all add: event_register_def kept_def\<close>)
    qed
  qed
qed

text \<open>What a call of \<open>event_add\<close> that succeeds does.\<close>

definition added_event :: "timeval \<Rightarrow> event_base \<Rightarrow> event_ptr \<Rightarrow> timeval option \<Rightarrow> bool \<Rightarrow> event_base \<Rightarrow> bool" where
  "added_event clock b e tv absolute b' \<longleftrightarrow> touched b e b' \<and>
     queued b' QInserted = (if waits (evs b e) \<and> e \<notin> queued b QActive then insert e (queued b QInserted) else queued b QInserted) \<and>
     queued b' QTimeout = (if tv = None then queued b QTimeout else insert e (queued b QTimeout)) \<and>
     queued b' QActive = (if tv \<noteq> None \<and> expired_active b e then queued b QActive - {e} else queued b QActive) \<and>
     ev_timeout (timeheap b') = (case tv of None \<Rightarrow> ev_timeout (timeheap b)
       | Some t \<Rightarrow> (ev_timeout (timeheap b))(e := due_time clock b t absolute)) \<and> ev_res (evs b' e) = ev_res (evs b e)"

lemma event_add_internal_eq:
  "event_add_internal be clock base e tv absolute = do {
     ev_assert (flags_of base e AND NOT EVLIST_ALL = 0);
     let (r, h) = (if tv \<noteq> None \<and> \<not> on_queue base QTimeout e
                   then min_heap_reserve (be_alloc be) (timeheap base) (szadd 1 (min_heap_size (timeheap base)))
                   else (0, timeheap base));
     if r = -1 then Some (-1, base)
     else do {
       (res, base2) \<leftarrow> event_register be (base\<lparr>timeheap := h\<rparr>) e;
       case tv of
         Some t \<Rightarrow>
           if res \<noteq> -1 then do { base3 \<leftarrow> event_add_timeout be clock base2 e t absolute; Some (res, base3) }
           else Some (res, base2)
       | None \<Rightarrow> Some (res, base2)
     }
   }"
  unfolding event_add_internal_def event_register_def waits_def is_io_def Let_def ..

text \<open>The state in which the heap has room for the timer.\<close>

lemma reserve_ok:
  assumes inv: "queues_inv b" "maps_inv b" and add: "addable b e"
  obtains "(if tv \<noteq> None \<and> \<not> on_queue b QTimeout e
      then min_heap_reserve (be_alloc be) (timeheap b) (szadd 1 (min_heap_size (timeheap b))) else (0, timeheap b)) = (-1, timeheap b)"
    "\<exists>n. \<not> be_alloc be n"
  | h where "(if tv \<noteq> None \<and> \<not> on_queue b QTimeout e
      then min_heap_reserve (be_alloc be) (timeheap b) (szadd 1 (min_heap_size (timeheap b))) else (0, timeheap b)) = (0, h)"
    "queues_inv (b\<lparr>timeheap := h\<rparr>)" "maps_inv (b\<lparr>timeheap := h\<rparr>)" "ev_timeout h = ev_timeout (timeheap b)"
    "tv \<noteq> None \<Longrightarrow> e \<in> queued b QTimeout \<or> has_room (b\<lparr>timeheap := h\<rparr>)"
proof (cases "tv \<noteq> None \<and> \<not> on_queue b QTimeout e")
  case False
  then show thesis using inv that(2) [of "timeheap b"] by (auto simp: queued_def)
next
  case True
  have h: "min_heap_inv (timeheap b)" "heap_elems (timeheap b) = queued b QTimeout" using inv by (simp_all add: queues_inv_def)
  have small: "heap_a (timeheap b) < 536870912" using add by (simp add: addable_def)
  have sz: "szadd 1 (min_heap_size (timeheap b)) = Suc (heap_n (timeheap b))"
    using h(1) small by (simp add: min_heap_inv_def min_heap_size_def)
  show thesis
  proof (rule min_heap_reserve_inv [OF h(1) small, of "be_alloc be"])
    assume "min_heap_reserve (be_alloc be) (timeheap b) (Suc (heap_n (timeheap b))) = (-1, timeheap b)" "\<exists>k. \<not> be_alloc be k"
    then show thesis using True sz that(1) by simp
  next
    fix s1 assume s1: "min_heap_reserve (be_alloc be) (timeheap b) (Suc (heap_n (timeheap b))) = (0, s1)" "min_heap_inv s1"
      "heap_elems s1 = heap_elems (timeheap b)" "ev_timeout s1 = ev_timeout (timeheap b)" "heap_n s1 < heap_a s1"
    have "has_room (b\<lparr>timeheap := s1\<rparr>)" using card_heap_elems [OF s1(2)] s1(3,5) h(2) by (simp add: has_room_def)
    then show thesis using True sz s1 inv that(2) [of s1] queues_inv_heap [OF inv(1) s1(2,3)] by (simp add: maps_inv_def)
  qed
qed

text \<open>Why it may fail: no memory, or for an event that waits for a descriptor or a signal the backend or the map refuses it.\<close>

definition add_refused :: "backend \<Rightarrow> event_base \<Rightarrow> event_ptr \<Rightarrow> bool" where
  "add_refused be b e \<longleftrightarrow> (\<exists>n. \<not> be_alloc be n) \<or> waits (evs b e) \<and> map_refuses be (evs b) (queued b QInserted) e"

lemma event_add_internal_ok:
  assumes inv: "base_inv b" and add: "addable b e"
  obtains b' where "event_add_internal be clock b e tv absolute = Some (-1, b')" "base_inv b'" "queued b' = queued b" "evs b' = evs b"
      "ev_timeout (timeheap b') = ev_timeout (timeheap b)" "rest b' = rest b" "add_refused be b e"
  | b' where "event_add_internal be clock b e tv absolute = Some (0, b')" "base_inv b'" "added_event clock b e tv absolute b'"
proof -
  have qi: "queues_inv b" and mi: "maps_inv b" using inv by (simp_all add: base_inv_def)
  have flags: "flags_of b e AND NOT EVLIST_ALL = 0" using qi by (simp add: queues_inv_def)
  note fail = that(1) and succ = that(2)
  show thesis
  proof (rule reserve_ok [OF qi mi add, of tv be])
    assume "(if tv \<noteq> None \<and> \<not> on_queue b QTimeout e
      then min_heap_reserve (be_alloc be) (timeheap b) (szadd 1 (min_heap_size (timeheap b))) else (0, timeheap b)) = (-1, timeheap b)"
      "\<exists>n. \<not> be_alloc be n"
    then show thesis using fail [of b] inv flags by (simp add: event_add_internal_eq add_refused_def)
  next
    fix h assume h: "(if tv \<noteq> None \<and> \<not> on_queue b QTimeout e
      then min_heap_reserve (be_alloc be) (timeheap b) (szadd 1 (min_heap_size (timeheap b))) else (0, timeheap b)) = (0, h)"
      "queues_inv (b\<lparr>timeheap := h\<rparr>)" "maps_inv (b\<lparr>timeheap := h\<rparr>)" "ev_timeout h = ev_timeout (timeheap b)"
      "tv \<noteq> None \<Longrightarrow> e \<in> queued b QTimeout \<or> has_room (b\<lparr>timeheap := h\<rparr>)"
    let ?b = "b\<lparr>timeheap := h\<rparr>"
    have run: "event_add_internal be clock b e tv absolute = do {
       (res, base2) \<leftarrow> event_register be ?b e;
       case tv of Some t \<Rightarrow> if res \<noteq> -1 then do { base3 \<leftarrow> event_add_timeout be clock base2 e t absolute; Some (res, base3) } else Some (res, base2)
       | None \<Rightarrow> Some (res, base2) }"
      using flags h(1) by (simp add: event_add_internal_eq)
    have reg: "registrable ?b e" using add by (simp add: addable_def registrable_def signal_safe_def)
    have t: "touched b e ?b" using h(4) by (simp add: touched_def)
    show thesis
    proof (rule event_register_ok [OF h(2,3) reg, of be])
      fix b' assume b': "event_register be ?b e = Some (-1, b')" "queues_inv b'" "maps_inv b'" "kept ?b b'" "queued b' = queued ?b" "evs b' = evs ?b"
        "waits (evs ?b e)" "map_refuses be (evs ?b) (queued ?b QInserted) e"
      then have "event_add_internal be clock b e tv absolute = Some (-1, b')" using run by (simp split: option.split)
      then show thesis using fail [of b'] b' h(4) by (simp add: base_inv_def kept_def add_refused_def)
    next
      fix b' assume b': "event_register be ?b e = Some (0, b')" "queues_inv b'" "maps_inv b'" "registered ?b e b'"
      show thesis
      proof (cases tv)
        case None
        then have "event_add_internal be clock b e tv absolute = Some (0, b')" using run b'(1) by simp
        moreover have "added_event clock b e tv absolute b'" using b'(4) None touched_trans [OF t] h(4) by (simp add: added_event_def registered_def)
        ultimately show thesis using succ [of b'] b' by (simp add: base_inv_def)
      next
        case (Some x)
        have e': "ev_base (evs b' e)" "signal_safe b' e" "e \<in> queued b' QTimeout \<or> has_room b'"
          using b'(4) reg h(5) Some by (auto simp: registered_def touched_def config_def registrable_def has_room_def)
        obtain b2 where b2: "event_add_timeout be clock b' e x absolute = Some b2" "queues_inv b2" "maps_inv b2"
            "timer_set b' e (due_time clock b' x absolute) b2"
          by (rule event_add_timeout_ok [OF b'(2,3) e'])
        have res: "event_add_internal be clock b e tv absolute = Some (0, b2)" using run b'(1) b2(1) Some by simp
        have "due_time clock b' x absolute = due_time clock b x absolute" "expired_active b' e = expired_active b e"
          using b'(4) rest_fields(1) [of b' b] by (auto simp: registered_def due_time_def gettime_def expired_active_def)
        moreover have "touched ?b e b'" "touched b' e b2" using b'(4) b2(4) by (simp_all add: registered_def timer_set_def)
        then have "touched b e b2" using touched_trans [OF t touched_trans] by blast
        ultimately have "added_event clock b e tv absolute b2"
          using b2(4) b'(4) Some h(4) by (simp add: added_event_def timer_set_def registered_def)
        then show thesis using succ [of b2] res b2 by (simp add: base_inv_def)
      qed
    qed
  qed
qed

section \<open>Timeouts\<close>

definition be_del_ok :: "backend \<Rightarrow> bool" where
  "be_del_ok be \<longleftrightarrow> (\<forall>fd old ev. be_del be fd old ev \<noteq> -1) \<and> (\<forall>fd. be_sigdel be fd \<noteq> -1)"

lemma event_del_be_ok:
  assumes "base_inv b" "ev_base (evs b e)" "signal_safe b e" "be_del_ok be"
  obtains b' where "event_del_internal be b e = Some (0, b')" "deleted b e b'" "base_inv b'" "abort_signal_loop b e = Some (b\<lparr>closure_ncalls := closure_ncalls b'\<rparr>)"
proof (rule event_del_internal_ok [OF assms(1-3), of be])
  fix b' assume "(\<exists>fd old ev. be_del be fd old ev = -1) \<or> (\<exists>fd. be_sigdel be fd = -1)"
  then show thesis using assms(4) by (auto simp: be_del_ok_def)
qed (rule that)

text \<open>The timers due at \<open>now\<close>, and the base in which exactly those have been taken out and activated.\<close>

definition due_timers :: "event_base \<Rightarrow> timeval \<Rightarrow> event_ptr set" where
  "due_timers b now = {e \<in> queued b QTimeout. ev_timeout (timeheap b) e \<le> now}"

definition timed_out :: "event_base \<Rightarrow> event_ptr set \<Rightarrow> event_base \<Rightarrow> bool" where
  "timed_out b D b' \<longleftrightarrow> queued b' QTimeout = queued b QTimeout - D \<and> queued b' QInserted = queued b QInserted - D \<and>
     queued b' QActive = queued b QActive \<union> D \<and> (\<forall>e. config (evs b' e) = config (evs b e) \<and> internal b' e = internal b e) \<and> ctl b' = ctl b \<and>
     (closure_ncalls b' = None \<longleftrightarrow> closure_ncalls b = None) \<and> (event_running_priority b \<le> 0 \<longrightarrow> event_continue b' = event_continue b) \<and>
     length (activequeues b') = length (activequeues b) \<and> (\<forall>e \<in> D. ev_res (evs b' e) = EV_TIMEOUT) \<and> (\<forall>e. e \<notin> D \<longrightarrow> same_event (evs b e) (evs b' e))"

text \<open>One round of the loop.\<close>

lemma expire_one:
  assumes inv: "base_inv b" and e: "e \<in> queued b QTimeout" and safe: "\<forall>x \<in> queued b QTimeout. signal_safe b x" and be: "be_del_ok be"
  obtains b1 b2 where "event_del_internal be b e = Some (0, b1)" "event_active_nolock be b1 e EV_TIMEOUT 1 = Some b2" "base_inv b2"
    "timed_out b {e} b2" "\<forall>x \<in> queued b2 QTimeout. signal_safe b2 x" "ev_timeout (timeheap b2) = ev_timeout (timeheap b)"
proof -
  have base: "ev_base (evs b e)" "signal_safe b e" using inv e safe by (auto simp: base_inv_def queues_inv_def)
  obtain b1 where b1: "event_del_internal be b e = Some (0, b1)" "deleted b e b1" "base_inv b1"
    by (rule event_del_be_ok [OF inv base be])
  have k: "kept b b1" and q1: "\<And>q. queued b1 q = queued b q - {e}" using b1(2) by (simp_all add: deleted_def)
  have s1: "same_event (evs b x) (evs b1 x)" for x using k by (simp add: kept_def)
  have base1: "ev_base (evs b1 e)" using same_event_fields [OF s1 [of e]] base by simp
  obtain b2 where b2: "event_active_nolock be b1 e EV_TIMEOUT 1 = Some b2" "base_inv b2" "activated b1 e EV_TIMEOUT b2"
    by (rule event_active_nolock_ok [OF b1(3) base1])
  have "touched b1 e b2" using b2(3) by (simp add: activated_def)
  then have s2: "x \<noteq> e \<Longrightarrow> same_event (evs b x) (evs b2 x)" "config (evs b2 x) = config (evs b x)" for x
    using same_event_trans [OF s1] same_event_config [OF s1] by (simp_all add: touched_def)
  have ctl: "ctl b2 = ctl b" "closure_ncalls b2 = None \<longleftrightarrow> closure_ncalls b = None" "event_running_priority b \<le> 0 \<longrightarrow> event_continue b2 = event_continue b"
    "length (activequeues b2) = length (activequeues b)" "internal b2 x = internal b x" for x
    using b2(3) k rest_fields(4,5,11) [of b1 b] by (simp_all add: activated_def touched_def kept_def)
  then have out: "timed_out b {e} b2" using b2(3) q1 s2 e by (auto simp: timed_out_def activated_def)
  have "closure_no b2 = closure_no b" "closure_ncalls b2 = None \<longleftrightarrow> closure_ncalls b = None" using ctl ctl_fields(5) [OF ctl(1)] by simp_all
  then have "signal_safe b2 x" if x: "x \<in> queued b2 QTimeout" for x
  proof -
    have "x \<noteq> e" "signal_safe b x" using out x safe by (auto simp: timed_out_def)
    with same_event_fields [OF s2(1) [OF this(1)]] \<open>closure_no b2 = closure_no b\<close> \<open>closure_ncalls b2 = None \<longleftrightarrow> closure_ncalls b = None\<close>
    show ?thesis by (simp add: signal_safe_def)
  qed
  moreover have "ev_timeout (timeheap b2) = ev_timeout (timeheap b)" using b2(3) k by (simp add: activated_def kept_def)
  ultimately show thesis using that [of b1 b2] b1(1) b2 out by blast
qed

lemma timed_out_none: "timed_out b {} b"
  by (simp add: timed_out_def)

lemma timed_out_more:
  assumes "timed_out b {e} b1" "timed_out b1 D b2" "e \<notin> D" "D \<subseteq> queued b1 QTimeout"
  shows "timed_out b (insert e D) b2"
proof -
  have "ev_res (evs b2 e) = EV_TIMEOUT"
  proof -
    have "same_event (evs b1 e) (evs b2 e)" "ev_res (evs b1 e) = EV_TIMEOUT" using assms(1-3) by (simp_all add: timed_out_def)
    then show ?thesis using same_event_fields by metis
  qed
  moreover have "same_event (evs b x) (evs b2 x)" if "x \<notin> insert e D" for x
    using assms(1,2) that same_event_trans [of "evs b x" "evs b1 x"] by (simp add: timed_out_def)
  moreover have "event_running_priority b1 = event_running_priority b" using assms(1) ctl_fields(4) [of b1 b] by (simp add: timed_out_def)
  ultimately show ?thesis using assms(1,2) unfolding timed_out_def by auto
qed

lemma gt_iff: "evutil_timercmp_gt s t \<longleftrightarrow> t < s"
  by (auto simp: evutil_timercmp_gt_def less_timeval_def)

lemma timeout_process_loop_ok:
  assumes "base_inv b" "\<forall>x \<in> queued b QTimeout. signal_safe b x" and be: "be_del_ok be"
  shows "\<exists>b'. timeout_process_loop be now b = Some b' \<and> base_inv b' \<and> timed_out b (due_timers b now) b' \<and> ev_timeout (timeheap b') = ev_timeout (timeheap b)"
  using assms(1,2)
proof (induction "card (queued b QTimeout)" arbitrary: b rule: less_induct)
  case less
  have inv: "queues_inv b" using less.prems by (simp add: base_inv_def)
  have h: "min_heap_inv (timeheap b)" "heap_elems (timeheap b) = queued b QTimeout" using inv by (simp_all add: queues_inv_def)
  have stop: ?case if "timeout_process_loop be now b = Some b" "due_timers b now = {}"
    using that less.prems timed_out_none by simp
  show ?case
  proof (rule min_heap_top_least [OF h(1)])
    assume "heap_elems (timeheap b) = {}" "min_heap_top (timeheap b) = Some None"
    then show ?thesis using h(2) by (intro stop) (simp_all add: timeout_process_loop.simps [of be now b] due_timers_def)
  next
    fix e assume top: "min_heap_top (timeheap b) = Some (Some e)" "e \<in> heap_elems (timeheap b)"
      "\<forall>x \<in> heap_elems (timeheap b). ev_timeout (timeheap b) e \<le> ev_timeout (timeheap b) x"
    show ?thesis
    proof (cases "now < ev_timeout (timeheap b) e")
      case True
      have "due_timers b now = {}" using True top(3) h(2) by (auto simp: due_timers_def)
      then show ?thesis using top True by (intro stop) (simp_all add: timeout_process_loop.simps [of be now b] gt_iff)
    next
      case False
      have e: "e \<in> queued b QTimeout" using top h by simp
      obtain b1 b2 where r: "event_del_internal be b e = Some (0, b1)" "event_active_nolock be b1 e EV_TIMEOUT 1 = Some b2" "base_inv b2"
          "timed_out b {e} b2" "\<forall>x \<in> queued b2 QTimeout. signal_safe b2 x" "ev_timeout (timeheap b2) = ev_timeout (timeheap b)"
        by (rule expire_one [OF less.prems(1) e less.prems(2) be])
      have q2: "queued b2 QTimeout = queued b QTimeout - {e}" using r(4) by (simp add: timed_out_def)
      have "card (queued b2 QTimeout) < card (queued b QTimeout)" unfolding q2 using e queues_inv_finite [OF inv] by (meson card_Diff1_less)
      from less.hyps [OF this r(3,5)] obtain b' where b': "timeout_process_loop be now b2 = Some b'" "base_inv b'" "timed_out b2 (due_timers b2 now) b'"
          "ev_timeout (timeheap b') = ev_timeout (timeheap b2)" by blast
      have due: "due_timers b now = insert e (due_timers b2 now)" "e \<notin> due_timers b2 now" "due_timers b2 now \<subseteq> queued b2 QTimeout"
        unfolding due_timers_def q2 r(6) using e False by auto
      have "timeout_process_loop be now b = Some b'"
        using top False r(1,2) b'(1) by (subst timeout_process_loop.simps) (simp add: gt_iff)
      moreover have "timed_out b (due_timers b now) b'" unfolding due(1) by (rule timed_out_more [OF r(4) b'(3) due(2,3)])
      ultimately show ?thesis using b'(2,4) r(6) by auto
    qed
  qed
qed

section \<open>What the backend reports\<close>

text \<open>
  The events of \<open>D\<close> became active, each with the result \<open>f\<close> assigns to it, or with that added to the
  result it had.
\<close>

definition woken :: "event_base \<Rightarrow> event_ptr set \<Rightarrow> (event_ptr \<Rightarrow> u16) \<Rightarrow> event_base \<Rightarrow> bool" where
  "woken b D f b' \<longleftrightarrow> queued b' QTimeout = queued b QTimeout \<and> queued b' QInserted = queued b QInserted \<and> queued b' QActive = queued b QActive \<union> D \<and>
     (\<forall>e. config (evs b' e) = config (evs b e)) \<and> ev_timeout (timeheap b') = ev_timeout (timeheap b) \<and> ctl b' = ctl b \<and>
     (\<forall>e \<in> D. ev_res (evs b' e) = (if e \<in> queued b QActive then ev_res (evs b e) OR f e else f e)) \<and>
     (\<forall>e. e \<notin> D \<longrightarrow> same_event (evs b e) (evs b' e))"

lemma woken_none: "woken b {} f b"
  by (simp add: woken_def)

lemma woken_one:
  assumes "activated b e (f e) b'"
  shows "woken b {e} f b'"
  using assms by (auto simp: activated_def touched_def woken_def)

lemma woken_more:
  assumes w: "woken b {e} f b1" "woken b1 D f b2" and e: "e \<notin> D"
  shows "woken b (insert e D) f b2"
proof -
  have se: "x \<noteq> e \<Longrightarrow> same_event (evs b x) (evs b1 x)" "x \<notin> D \<Longrightarrow> same_event (evs b1 x) (evs b2 x)" for x
    using w by (simp_all add: woken_def)
  have "ev_res (evs b2 x) = (if x \<in> queued b QActive then ev_res (evs b x) OR f x else f x)" if "x \<in> insert e D" for x
  proof (cases "x = e")
    case True
    then show ?thesis using w(1) same_event_fields [OF se(2) [of e, OF e]] by (simp add: woken_def)
  next
    case False
    then have "x \<in> D" "x \<in> queued b1 QActive \<longleftrightarrow> x \<in> queued b QActive" using that w(1) by (auto simp: woken_def)
    then show ?thesis using w(2) same_event_fields [OF se(1) [OF False]] by (simp add: woken_def)
  qed
  moreover have "same_event (evs b x) (evs b2 x)" if "x \<notin> insert e D" for x
    using se [of x] that same_event_trans by blast
  ultimately show ?thesis using w unfolding woken_def by auto
qed

lemma activate_list_ok:
  assumes "base_inv b" "distinct es" "\<forall>e \<in> set es. ev_base (evs b e)"
  shows "\<exists>b'. activate_list be b es events = Some b' \<and> base_inv b' \<and>
    woken b {e \<in> set es. ev_events (evs b e) AND events \<noteq> 0} (\<lambda>e. ev_events (evs b e) AND events) b'"
  using assms
proof (induction es arbitrary: b)
  case Nil
  then show ?case using woken_none by simp
next
  case (Cons e es)
  let ?f = "\<lambda>e. ev_events (evs b e) AND events"
  show ?case
  proof (cases "?f e = 0")
    case True
    moreover from True have "{x \<in> set (e # es). ev_events (evs b x) AND events \<noteq> 0} = {x \<in> set es. ev_events (evs b x) AND events \<noteq> 0}" by auto
    ultimately show ?thesis using Cons.IH [of b] Cons.prems by simp
  next
    case False
    have base: "ev_base (evs b e)" using Cons.prems by simp
    obtain b1 where b1: "event_active_nolock be b e (?f e) 1 = Some b1" "base_inv b1" "activated b e (?f e) b1"
      by (rule event_active_nolock_ok [OF Cons.prems(1) base])
    have w1: "woken b {e} ?f b1" by (rule woken_one [where f = ?f, OF b1(3)])
    then have c: "ev_events (evs b1 x) = ev_events (evs b x)" "ev_base (evs b1 x) = ev_base (evs b x)" for x by (simp_all add: woken_def config_def)
    from Cons.IH [OF b1(2)] Cons.prems obtain b2 where b2: "activate_list be b1 es events = Some b2" "base_inv b2"
        "woken b1 {x \<in> set es. ?f x \<noteq> 0} ?f b2" unfolding c by auto
    have "e \<notin> {x \<in> set es. ?f x \<noteq> 0}" using Cons.prems by simp
    from woken_more [OF w1 b2(3) this] have "woken b (insert e {x \<in> set es. ?f x \<noteq> 0}) ?f b2" .
    moreover have "insert e {x \<in> set es. ?f x \<noteq> 0} = {x \<in> set (e # es). ?f x \<noteq> 0}" using False by auto
    ultimately show ?thesis using b1(1) b2(1,2) False by simp
  qed
qed

lemma evmap_io_active_run:
  assumes "base_inv b" "slot (io b) fd = Some ctx"
  shows "\<exists>b'. evmap_io_active be b (int fd) events = Some b' \<and> base_inv b' \<and>
    woken b {e \<in> queued b QInserted. is_io (evs b e) \<and> ev_fd (evs b e) = int fd \<and> ev_events (evs b e) AND events \<noteq> 0}
      (\<lambda>e. ev_events (evs b e) AND events) b'"
proof -
  have ctx: "ctx_ok (evs b) (waiting (evs b) (queued b QInserted) fd) ctx"
    using assms by (intro io_rel_slot(1)) (simp_all add: base_inv_def maps_inv_def)
  have sl: "fd < length (io b)" "io b ! fd = Some ctx" using assms(2) by (simp_all add: slot_def split: if_splits)
  have es: "distinct (io_events ctx)" "\<forall>e \<in> set (io_events ctx). ev_base (evs b e)"
    using ctx assms(1) by (auto simp: ctx_ok_def waiting_def base_inv_def queues_inv_def)
  have set: "{e \<in> set (io_events ctx). ev_events (evs b e) AND events \<noteq> 0} =
      {e \<in> queued b QInserted. is_io (evs b e) \<and> ev_fd (evs b e) = int fd \<and> ev_events (evs b e) AND events \<noteq> 0}"
    using ctx by (auto simp: ctx_ok_def waiting_def)
  have "evmap_io_active be b (int fd) events = activate_list be b (io_events ctx) events" using sl by (simp add: evmap_io_active_def)
  then show ?thesis using activate_list_ok [OF assms(1) es, of be events] unfolding set by simp
qed

lemma timeout_process_run:
  assumes "base_inv b" "\<forall>x \<in> queued b QTimeout. signal_safe b x" and be: "be_del_ok be"
  shows "\<exists>b'. timeout_process be clock b = Some b' \<and> base_inv b' \<and> timed_out b (due_timers b (gettime b clock)) b' \<and>
    ev_timeout (timeheap b') = ev_timeout (timeheap b)"
proof (cases "min_heap_empty (timeheap b)")
  case True
  then have "queued b QTimeout = {}" using assms(1) by (auto simp: base_inv_def queues_inv_def min_heap_empty_def heap_elems_def)
  then have "due_timers b (gettime b clock) = {}" by (simp add: due_timers_def)
  then show ?thesis using True assms(1) timed_out_none by (simp add: timeout_process_def)
next
  case False
  then show ?thesis using timeout_process_loop_ok [OF assms] by (simp add: timeout_process_def)
qed

end
