(* ===== verification/Event_Props.thy ===== *)
theory Event_Props
  imports Event_Ops
begin

text \<open>
  The contracts of the event base: what adding, deleting and activating an event, a report of the backend
  and the passing of time do, that all of them keep the invariant, and where the code falls short.
\<close>

section \<open>A base to try them on\<close>

text \<open>
  Events 1 and 2 have timeouts (at 1 and 2 seconds), event 1 also waits for descriptor 0 to be readable,
  event 3 is set up but not added, event 4 waits for signal 5.
\<close>

definition demo_event :: "event_ptr \<Rightarrow> event" where
  "demo_event e = \<lparr>ev_fd = (if e = 4 then 5 else 0), ev_base = (e \<noteq> 0), ev_io_timeout = Timeval 0 0, ev_ncalls = 0, ev_pncalls = None,
     ev_events = (if e = 1 \<or> e = 3 then EV_READ else if e = 4 then EV_SIGNAL else 0), ev_res = 0,
     ev_flags = (if e = 1 then 0x83 else if e = 2 then 0x81 else 0x80), ev_pri = 0, ev_closure = EV_CLOSURE_NONE, ev_callback = e, ev_arg = 0\<rparr>"

definition demo_base :: event_base where
  "demo_base = \<lparr>evs = demo_event, timeheap = two_timers, eventqueue = [1], activequeues = [[]],
     io = [Some \<lparr>io_events = [1], io_nread = 1, io_nwrite = 0\<rparr>], sigmap = [], event_count = 3, event_count_active = 0, virtual_event_count = 0,
     event_gotterm = False, event_break = False, event_continue = False, event_running_priority = -1, running_loop = False,
     event_tv = Timeval 0 0, tv_cache = Timeval 0 0, deferred_cb_list = [], cb_queued = (\<lambda>_. False), active_count = 0,
     closure_no = 0, closure_ncalls = None, base_log = []\<rparr>"

definition demo_backend :: backend where
  "demo_backend = \<lparr>be_add = (\<lambda>_ _ _. 0), be_del = (\<lambda>_ _ _. 0), be_sigadd = (\<lambda>_. 0), be_sigdel = (\<lambda>_. 0), be_alloc = (\<lambda>_. True),
     be_fdinfo_len = 0, be_sig_fdinfo_len = 0\<rparr>"

lemma demo_queued: "queued demo_base QTimeout = {1, 2}" "queued demo_base QInserted = {1}" "queued demo_base QActive = {}"
  by (auto simp: queued_def on_queue_def demo_base_def demo_event_def flag_defs)

lemma demo_internal: "internal demo_base e = False"
  by (simp add: internal_def demo_base_def demo_event_def flag_defs)

lemma demo_kind: "reads (demo_event e) = (e = 1 \<or> e = 3)" "writes (demo_event e) = False" "is_io (demo_event e) = (e = 1 \<or> e = 3)"
  by (auto simp: reads_def writes_def is_io_def demo_event_def EV_READ_def EV_WRITE_def EV_SIGNAL_def)

lemma demo_inv: "base_inv demo_base"
proof -
  have q: "queued demo_base q = (case q of QTimeout \<Rightarrow> {1, 2} | QInserted \<Rightarrow> {1} | QActive \<Rightarrow> {})" for q
    using demo_queued by (cases q) simp_all
  have two: "{e :: event_ptr. e = Suc 0 \<or> e = 2} = {1, 2}" by auto
  have c: "counted demo_base QTimeout = 2" "counted demo_base QInserted = 1" "counted demo_base QActive = 0"
    by (simp_all add: counted_def demo_queued demo_internal two)
  have "\<forall>q. \<forall>e \<in> queued demo_base q. ev_base (demo_event e)" by (auto simp: q demo_event_def split: evlist.splits)
  then have "queues_inv demo_base"
    unfolding queues_inv_def c using demo_queued two_timers_inv two_timers_elems
    by (simp add: demo_base_def) (simp add: demo_event_def flag_defs)
  moreover have "maps_inv demo_base"
    unfolding maps_inv_def demo_queued io_rel_iff sig_rel_iff
    by (auto simp: demo_base_def slot_def ctx_ok_def waiting_def sig_waiting_def demo_kind split: if_splits) (simp_all add: demo_event_def)
  ultimately show ?thesis by (simp add: base_inv_def)
qed

lemma is_io_iff: "is_io ev \<longleftrightarrow> reads ev \<or> writes ev"
  by (auto simp: is_io_def reads_def writes_def bit.conj_disj_distrib or_eq_0_iff)

lemma distinct_singleton: "distinct xs \<and> set xs = {x} \<Longrightarrow> xs = [x]"
  by (cases xs rule: remdups_adj.cases) auto

lemma demo_addable: "addable demo_base 3" "addable demo_base 1"
  by (simp_all add: addable_def registrable_def signal_safe_def waits_def demo_base_def demo_event_def two_timers_def
      is_io_def EV_READ_def EV_WRITE_def EV_SIGNAL_def)

lemma demo_del_ok: "be_del_ok demo_backend"
  by (simp add: be_del_ok_def demo_backend_def)

lemma demo_safe: "signal_safe demo_base e"
  by (simp add: signal_safe_def demo_base_def demo_event_def)

section \<open>Contracts\<close>

text \<open>
  C20. Adding an event of a base, whose descriptor the maps can hold and whose \<open>ev_pncalls\<close> is not dangling, never runs
  into undefined behaviour and keeps the invariant of the base (the lists, the heap, the counters and the maps agree with the flags).
  Either it returns -1 and no event is on another queue, differs in a field or has another timeout than before; the allocator has
  then refused, or, for an event that waits for a descriptor or signal, the backend or the map. Or it returns 0, the event waits
  for its descriptor or signal (unless it was active already), and with a timeout it is in the timer heap, due the given time from
  now. Without a timeout the timer of the event, if it has one, stays as it was.
\<close>

theorem event_add_effect:
  assumes "base_inv b" "addable b e"
  shows "\<exists>r b'. event_add be clock b e tv = Some (r, b') \<and> base_inv b' \<and>
    (r = -1 \<and> add_refused be b e \<and> queued b' = queued b \<and> evs b' = evs b \<and> ev_timeout (timeheap b') = ev_timeout (timeheap b) \<or>
     r = 0 \<and> added_event clock b e tv False b')"
proof -
  have "ev_base (evs b e)" using assms(2) by (simp add: addable_def registrable_def)
  then have eq: "event_add be clock b e tv = event_add_internal be clock b e tv False" by (simp add: event_add_def)
  show ?thesis unfolding eq by (rule event_add_internal_ok [OF assms, of be clock tv False]) blast+
qed

lemma demo_not_refused: "\<not> add_refused demo_backend demo_base e"
proof -
  have "{x \<in> queued demo_base QInserted. P x} \<subseteq> {1}" for P by (auto simp: demo_queued)
  then have "card {x \<in> queued demo_base QInserted. P x} \<le> 1" for P using card_mono [of "{1 :: event_ptr}"] by fastforce
  then have "card {x \<in> queued demo_base QInserted. P x} < 65535" for P by (rule le_less_trans) simp
  then show ?thesis by (simp add: add_refused_def map_refuses_def demo_backend_def not_le)
qed

theorem event_add_effect_witness:
  "\<exists>b'. event_add demo_backend (Timeval 7 0) demo_base 3 (Some (Timeval 1 5)) = Some (0, b') \<and> base_inv b' \<and>
    added_event (Timeval 7 0) demo_base 3 (Some (Timeval 1 5)) False b'"
  using event_add_effect [OF demo_inv demo_addable(1), of demo_backend "Timeval 7 0" "Some (Timeval 1 5)"] demo_not_refused by auto

text \<open>
  An event with a scheduled timeout keeps it when it is added again without one. The documentation of \<open>event_add\<close> says that
  the old timeout is cleared.
\<close>

theorem event_add_null_keeps_timer:
  assumes "base_inv b" "addable b e" "e \<in> queued b QTimeout"
  shows "\<exists>r b'. event_add be clock b e None = Some (r, b') \<and> e \<in> queued b' QTimeout \<and>
    ev_timeout (timeheap b') e = ev_timeout (timeheap b) e"
proof -
  have "ev_base (evs b e)" using assms(2) by (simp add: addable_def registrable_def)
  then have eq: "event_add be clock b e None = event_add_internal be clock b e None False" by (simp add: event_add_def)
  show ?thesis unfolding eq
    by (rule event_add_internal_ok [OF assms(1,2), of be clock None False]) (use assms(3) in \<open>auto simp: added_event_def\<close>)
qed

text \<open>
  C21. Deleting an event of a base, where the backend accepts to stop watching and \<open>ev_pncalls\<close> of a signal event does not point
  to a local variable that is gone, returns 0, takes the event off all three queues and out of the maps and leaves every other
  event alone.
\<close>

theorem event_del_effect:
  assumes "base_inv b" "ev_base (evs b e)" "signal_safe b e" "be_del_ok be"
  shows "\<exists>b'. event_del be b e = Some (0, b') \<and> base_inv b' \<and> deleted b e b'"
proof -
  have eq: "event_del be b e = event_del_internal be b e" using assms(2) by (simp add: event_del_def)
  show ?thesis unfolding eq by (rule event_del_be_ok [OF assms]) blast
qed

theorem event_del_effect_witness:
  "\<exists>b'. event_del demo_backend demo_base 1 = Some (0, b') \<and> base_inv b' \<and> deleted demo_base 1 b'"
  by (rule event_del_effect [OF demo_inv _ demo_safe demo_del_ok]) (simp add: demo_base_def demo_event_def)

text \<open>
  Activating an event puts it on the active queue of its priority, once, with the given result (added
  to the result it has when it is active already), and keeps the invariant.
\<close>

theorem event_active_effect:
  assumes "base_inv b" "ev_base (evs b e)"
  shows "\<exists>b'. event_active be b e res ncalls = Some b' \<and> base_inv b' \<and> activated b e res b'"
proof -
  have eq: "event_active be b e res ncalls = event_active_nolock be b e res ncalls" using assms(2) by (simp add: event_active_def)
  show ?thesis unfolding eq by (rule event_active_nolock_ok [OF assms]) blast
qed

theorem event_active_effect_witness:
  "\<exists>b'. event_active demo_backend demo_base 2 EV_TIMEOUT 1 = Some b' \<and> base_inv b' \<and> activated demo_base 2 EV_TIMEOUT b'"
  by (rule event_active_effect [OF demo_inv]) (simp add: demo_base_def demo_event_def)

text \<open>
  C22. \<open>timeout_process\<close> ends; it takes exactly the timers that are due out of the heap and off the
  descriptors and makes them active with the result \<open>EV_TIMEOUT\<close>, so that every timer left is due later.
\<close>

theorem timeout_process_fires:
  assumes "base_inv b" "\<forall>e \<in> queued b QTimeout. signal_safe b e" "be_del_ok be"
  shows "\<exists>b'. timeout_process be clock b = Some b' \<and> base_inv b' \<and> timed_out b (due_timers b (gettime b clock)) b' \<and>
    due_timers b' (gettime b clock) = {}"
proof -
  have "\<exists>b'. timeout_process be clock b = Some b' \<and> base_inv b' \<and> timed_out b (due_timers b (gettime b clock)) b' \<and>
      ev_timeout (timeheap b') = ev_timeout (timeheap b)" by (rule timeout_process_run [OF assms])
  then obtain b' where b': "timeout_process be clock b = Some b'" "base_inv b'" "timed_out b (due_timers b (gettime b clock)) b'"
    "ev_timeout (timeheap b') = ev_timeout (timeheap b)" by blast
  then have "due_timers b' (gettime b clock) = {}" by (auto simp: due_timers_def timed_out_def)
  with b' show ?thesis by blast
qed

theorem timeout_process_fires_witness:
  "\<exists>b'. timeout_process demo_backend (Timeval 1 5) demo_base = Some b' \<and> base_inv b' \<and>
    timed_out demo_base (due_timers demo_base (gettime demo_base (Timeval 1 5))) b' \<and> due_timers b' (gettime demo_base (Timeval 1 5)) = {}"
  by (rule timeout_process_fires [OF demo_inv _ demo_del_ok]) (simp add: demo_safe)

text \<open>
  When the backend reports a descriptor, exactly the added events that wait for one of the reported
  conditions on that descriptor become active, each with the conditions it waits for.
\<close>

theorem evmap_io_active_wakes:
  assumes "base_inv b" "slot (io b) fd = Some ctx"
  shows "\<exists>b'. evmap_io_active be b (int fd) events = Some b' \<and> base_inv b' \<and>
    woken b {e \<in> queued b QInserted. is_io (evs b e) \<and> ev_fd (evs b e) = int fd \<and> ev_events (evs b e) AND events \<noteq> 0}
      (\<lambda>e. ev_events (evs b e) AND events) b'"
  using evmap_io_active_run [OF assms] by blast

theorem evmap_io_active_wakes_witness:
  "\<exists>b'. evmap_io_active demo_backend demo_base (int 0) EV_READ = Some b' \<and> base_inv b' \<and>
    woken demo_base {e \<in> queued demo_base QInserted. is_io (evs demo_base e) \<and> ev_fd (evs demo_base e) = int 0 \<and> ev_events (evs demo_base e) AND EV_READ \<noteq> 0}
      (\<lambda>e. ev_events (evs demo_base e) AND EV_READ) b'"
  by (rule evmap_io_active_wakes [OF demo_inv]) (simp add: demo_base_def slot_def)

lemma timeout_next_spec:
  assumes "base_inv b" "queued b QTimeout \<noteq> {}"
    and "\<forall>t \<in> insert (gettime b clock) (ev_timeout (timeheap b) ` queued b QTimeout). 0 \<le> tv_usec t \<and> tv_usec t < 1000000"
  shows "\<exists>w e. timeout_next clock b = Some (Some w) \<and> 0 \<le> tv_sec w \<and> 0 \<le> tv_usec w \<and> tv_usec w < 1000000 \<and> e \<in> queued b QTimeout \<and>
    (\<forall>x \<in> queued b QTimeout. ev_timeout (timeheap b) e \<le> ev_timeout (timeheap b) x) \<and>
    (if ev_timeout (timeheap b) e \<le> gettime b clock then w = Timeval 0 0 else evutil_timeradd (gettime b clock) w = ev_timeout (timeheap b) e)"
proof -
  have h: "min_heap_inv (timeheap b)" "heap_elems (timeheap b) = queued b QTimeout" using assms(1) by (simp_all add: base_inv_def queues_inv_def)
  obtain e where e: "min_heap_top (timeheap b) = Some (Some e)" "e \<in> queued b QTimeout"
      "\<forall>x \<in> queued b QTimeout. ev_timeout (timeheap b) e \<le> ev_timeout (timeheap b) x"
    by (rule min_heap_top_least [OF h(1)]) (use h(2) assms(2) in auto)
  define now where "now = gettime b clock"
  define due where "due = ev_timeout (timeheap b) e"
  have r: "0 \<le> tv_usec now" "tv_usec now < 1000000" "0 \<le> tv_usec due" "tv_usec due < 1000000"
    using assms(3) e(2) by (auto simp: now_def due_def)
  show ?thesis
  proof (cases "now < due")
    case False
    then have "timeout_next clock b = Some (Some (Timeval 0 0))" using e(1) by (simp add: timeout_next_def gt_iff Let_def now_def due_def)
    then show ?thesis using e(2,3) False by (intro exI [of _ "Timeval 0 0"] exI [of _ e]) (simp add: now_def due_def not_less)
  next
    case True
    have w: "0 \<le> tv_sec (evutil_timersub due now)" "0 \<le> tv_usec (evutil_timersub due now)" "tv_usec (evutil_timersub due now) < 1000000"
      using True r by (auto simp: evutil_timersub_def Let_def less_timeval_def split: if_splits)
    have "evutil_timeradd now (evutil_timersub due now) = due"
      using r by (cases now; cases due) (auto simp: evutil_timersub_def evutil_timeradd_def Let_def)
    moreover have "timeout_next clock b = Some (Some (evutil_timersub due now))"
      using e(1) True w by (simp add: timeout_next_def gt_iff Let_def now_def due_def)
    ultimately show ?thesis using e(2,3) True w by (intro exI [of _ "evutil_timersub due now"] exI [of _ e]) (auto simp: now_def due_def)
  qed
qed

text \<open>
  C23. The time the backend may sleep: for ever when there is no timer; otherwise until the first timer
  is due and not longer, with both fields in range (so the assertions of \<open>timeout_next\<close> hold).
\<close>

theorem timeout_next_bounds:
  assumes "base_inv b" "queued b QTimeout \<noteq> {}"
    and "\<forall>t \<in> insert (gettime b clock) (ev_timeout (timeheap b) ` queued b QTimeout). 0 \<le> tv_usec t \<and> tv_usec t < 1000000"
  shows "\<exists>w e. timeout_next clock b = Some (Some w) \<and> 0 \<le> tv_sec w \<and> 0 \<le> tv_usec w \<and> tv_usec w < 1000000 \<and> e \<in> queued b QTimeout \<and>
    (\<forall>x \<in> queued b QTimeout. ev_timeout (timeheap b) e \<le> ev_timeout (timeheap b) x) \<and>
    (if ev_timeout (timeheap b) e \<le> gettime b clock then w = Timeval 0 0 else evutil_timeradd (gettime b clock) w = ev_timeout (timeheap b) e)"
  by (rule timeout_next_spec [OF assms])

theorem timeout_next_bounds_witness:
  "\<exists>w e. timeout_next (Timeval 0 999999) demo_base = Some (Some w) \<and> 0 \<le> tv_sec w \<and> 0 \<le> tv_usec w \<and> tv_usec w < 1000000 \<and> e \<in> queued demo_base QTimeout \<and>
    (\<forall>x \<in> queued demo_base QTimeout. ev_timeout (timeheap demo_base) e \<le> ev_timeout (timeheap demo_base) x) \<and>
    (if ev_timeout (timeheap demo_base) e \<le> gettime demo_base (Timeval 0 999999) then w = Timeval 0 0
     else evutil_timeradd (gettime demo_base (Timeval 0 999999)) w = ev_timeout (timeheap demo_base) e)"
  by (rule timeout_next_bounds [OF demo_inv]) (simp_all add: demo_queued, simp add: demo_base_def gettime_def two_timers_def)

section \<open>Where the code falls short\<close>

text \<open>
  C24. When the backend refuses to stop watching a descriptor, \<open>event_del\<close> returns -1 but has already
  taken the event off all queues, and \<open>evmap_io_del\<close> returns before it unlinks the event: the list of the descriptor still holds the
  deleted event (whose memory the caller is free to release).
\<close>

theorem event_del_refused_leaves_dangling:
  assumes "base_inv b" "e \<in> queued b QInserted" "signal_safe b e" "is_io (evs b e)" "ev_fd (evs b e) = int fd"
    and alone: "waiting (evs b) (queued b QInserted) fd = {e}" and refuse: "\<forall>old ev. be_del be (int fd) old ev = -1"
  shows "\<exists>b' ctx. event_del be b e = Some (-1, b') \<and> (\<forall>q. e \<notin> queued b' q) \<and> slot (io b') fd = Some ctx \<and> e \<in> set (io_events ctx)"
proof -
  have base: "ev_base (evs b e)" using assms(1,2) by (auto simp: base_inv_def queues_inv_def)
  then have eq: "event_del be b e = event_del_internal be b e" by (simp add: event_del_def)
  have "\<exists>b' ctx. event_del_internal be b e = Some (-1, b') \<and> (\<forall>q. e \<notin> queued b' q) \<and> slot (io b') fd = Some ctx \<and> e \<in> set (io_events ctx)"
    (is ?goal)
  proof (rule event_del_internal_run [OF assms(1) base assms(3), of be])
    fix b4 assume run: "event_del_internal be b e = do {
         (res, base5) \<leftarrow> (if is_io (evs b4 e) then evmap_io_del be b4 (ev_fd (evs b4 e)) e else evmap_signal_del be b4 (ev_fd (evs b4 e)) e);
         Some (if res = 1 then 0 else res, base5) }"
      and d: "deleted b e b4" and m: "io_rel (evs b4) (queued b QInserted) (io b4)"
    have k: "same_kind (evs b) (evs b4)" using d kept_same_kind by (simp add: deleted_def)
    then have ev: "is_io (evs b4 e)" "ev_fd (evs b4 e) = int fd" "waiting (evs b4) (queued b QInserted) fd = {e}"
      using assms(4,5) alone by (auto simp: same_kind_def is_io_def waiting_def)
    obtain ctx where ctx: "slot (io b4) fd = Some ctx" "ctx_ok (evs b4) {e} ctx"
      using io_rel_slot [OF m, of fd] ev(3) by (cases "slot (io b4) fd") auto
    have sl: "fd < length (io b4)" "io b4 ! fd = Some ctx" using ctx(1) by (simp_all add: slot_def split: if_splits)
    have l: "io_events ctx = [e]" using ctx(2) by (intro distinct_singleton) (simp add: ctx_ok_def)
    have n: "io_nread ctx = (if reads (evs b4 e) then 1 else 0)" "io_nwrite ctx = (if writes (evs b4 e) then 1 else 0)"
      using ctx(2) l by (simp_all add: ctx_ok_def)
    have "evmap_io_del be b4 (int fd) e = Some (-1, b4)"
      using refuse ev(2) sl n is_io_iff [of "evs b4 e"] ev(1) unfolding reads_def writes_def by (auto simp: evmap_io_del_def Let_def EV_READ_def EV_WRITE_def)
    then have "event_del_internal be b e = Some (-1, b4)" using run ev by simp
    then show ?goal using d ctx(1) l by (auto simp: deleted_def)
  qed (use assms(2) in simp)
  then show ?thesis by (simp add: eq)
qed

theorem event_del_refused_leaves_dangling_witness:
  "\<exists>b' ctx. event_del (demo_backend\<lparr>be_del := \<lambda>_ _ _. -1\<rparr>) demo_base 1 = Some (-1, b') \<and> (\<forall>q. 1 \<notin> queued b' q) \<and> slot (io b') 0 = Some ctx \<and>
     1 \<in> set (io_events ctx)"
  by (rule event_del_refused_leaves_dangling [OF demo_inv _ demo_safe])
    (simp_all add: demo_queued, simp_all add: waiting_def demo_base_def demo_kind, auto simp: demo_event_def)

end
