(* ===== verification/Event_Spec.thy ===== *)
theory Event_Spec
  imports Event_Props
begin

text \<open>
  What an event base does, without queues, flags, heaps and maps: a set of waiting events, a map of timers
  and a map of active events with their results. The operations of \<^verbatim>\<open>event.c\<close> refine it. The
  specification follows the code where the code and its documentation differ: \<open>event_add\<close> without a timeout
  leaves a timer of the event as it is, where \<^verbatim>\<open>include/event2/event.h\<close> says that it clears it.
\<close>

section \<open>Simulations\<close>

locale simulation =
  fixes step :: "'c \<Rightarrow> 'l \<Rightarrow> 'c \<Rightarrow> bool"
    and spec :: "'a \<Rightarrow> 'l \<Rightarrow> 'a"
    and abstract :: "'c \<Rightarrow> 'a"
    and invar :: "'c \<Rightarrow> bool"
  assumes sim: "invar c \<Longrightarrow> step c l c' \<Longrightarrow> invar c' \<and> abstract c' = spec (abstract c) l"

text \<open>Runs of a labelled step relation.\<close>

inductive steps :: "('c \<Rightarrow> 'l \<Rightarrow> 'c \<Rightarrow> bool) \<Rightarrow> 'c \<Rightarrow> 'l list \<Rightarrow> 'c \<Rightarrow> bool" for step where
  none: "steps step c [] c"
| more: "step c l c1 \<Longrightarrow> steps step c1 ls c' \<Longrightarrow> steps step c (l # ls) c'"

inductive_simps steps_simps [simp]: "steps step c [] c'" "steps step c (l # ls) c'"

context simulation
begin

lemma sim_steps: "steps step c ls c' \<Longrightarrow> invar c \<Longrightarrow> invar c' \<and> abstract c' = foldl spec (abstract c) ls"
  by (induction rule: steps.induct) (auto dest: sim)

end

section \<open>The specification\<close>

record spec_base =
  sp_waiting :: "event_ptr set"
  sp_timers :: "event_ptr \<Rightarrow> timeval option"
  sp_active :: "event_ptr \<Rightarrow> u16 option"
  sp_fd :: "event_ptr \<Rightarrow> int"
  sp_events :: "event_ptr \<Rightarrow> u16"
  sp_cache :: timeval

text \<open>The operations, with the time at which they run and whether adding succeeded.\<close>

datatype base_op =
    Add timeval event_ptr "timeval option" bool
  | Del event_ptr
  | Activate event_ptr u16
  | Tick timeval
  | Report nat u16

definition sp_now :: "spec_base \<Rightarrow> timeval \<Rightarrow> timeval" where
  "sp_now s clock = (if tv_sec (sp_cache s) \<noteq> 0 then sp_cache s else clock)"

definition wake :: "(event_ptr \<Rightarrow> u16 option) \<Rightarrow> event_ptr set \<Rightarrow> (event_ptr \<Rightarrow> u16) \<Rightarrow> event_ptr \<Rightarrow> u16 option" where
  "wake act D f e = (if e \<in> D then Some (case act e of None \<Rightarrow> f e | Some r \<Rightarrow> r OR f e) else act e)"

fun spec_do :: "spec_base \<Rightarrow> base_op \<Rightarrow> spec_base" where
  "spec_do s (Add clock e tv ok) =
     (if \<not> ok then s
      else s\<lparr>sp_waiting := (if sp_events s e AND (EV_READ OR EV_WRITE OR EV_SIGNAL) \<noteq> 0 \<and> sp_active s e = None
                            then insert e (sp_waiting s) else sp_waiting s),
             sp_timers := (case tv of None \<Rightarrow> sp_timers s | Some t \<Rightarrow> (sp_timers s)(e \<mapsto> evutil_timeradd (sp_now s clock) t)),
             sp_active := (if tv \<noteq> None \<and> (\<exists>r. sp_active s e = Some r \<and> r AND EV_TIMEOUT \<noteq> 0) then (sp_active s)(e := None) else sp_active s)\<rparr>)"
| "spec_do s (Del e) = s\<lparr>sp_waiting := sp_waiting s - {e}, sp_timers := (sp_timers s)(e := None), sp_active := (sp_active s)(e := None)\<rparr>"
| "spec_do s (Activate e res) = s\<lparr>sp_active := wake (sp_active s) {e} (\<lambda>_. res)\<rparr>"
| "spec_do s (Tick clock) =
     (let D = {e. \<exists>t. sp_timers s e = Some t \<and> t \<le> sp_now s clock}
      in s\<lparr>sp_waiting := sp_waiting s - D, sp_timers := sp_timers s |` (- D),
           sp_active := (\<lambda>e. if e \<in> D then Some EV_TIMEOUT else sp_active s e)\<rparr>)"
| "spec_do s (Report fd events) =
     s\<lparr>sp_active := wake (sp_active s) {e \<in> sp_waiting s. sp_events s e AND (EV_READ OR EV_WRITE) \<noteq> 0 \<and> sp_fd s e = int fd \<and> sp_events s e AND events \<noteq> 0}
         (\<lambda>e. sp_events s e AND events)\<rparr>"

section \<open>The code\<close>

definition spec_of :: "event_base \<Rightarrow> spec_base" where
  "spec_of b = \<lparr>sp_waiting = queued b QInserted, sp_timers = (\<lambda>e. if e \<in> queued b QTimeout then Some (ev_timeout (timeheap b) e) else None),
     sp_active = (\<lambda>e. if e \<in> queued b QActive then Some (ev_res (evs b e)) else None),
     sp_fd = (\<lambda>e. ev_fd (evs b e)), sp_events = (\<lambda>e. ev_events (evs b e)), sp_cache = tv_cache b\<rparr>"

text \<open>The calls, each under what its caller has to guarantee; deletions are the ones the backend accepts.\<close>

inductive base_step :: "backend \<Rightarrow> event_base \<Rightarrow> base_op \<Rightarrow> event_base \<Rightarrow> bool" for be where
  add: "addable b e \<Longrightarrow> event_add be clock b e tv = Some (r, b') \<Longrightarrow> base_step be b (Add clock e tv (r = 0)) b'"
| del: "ev_base (evs b e) \<Longrightarrow> signal_safe b e \<Longrightarrow> event_del be b e = Some (0, b') \<Longrightarrow> base_step be b (Del e) b'"
| activate: "ev_base (evs b e) \<Longrightarrow> event_active be b e res ncalls = Some b' \<Longrightarrow> base_step be b (Activate e res) b'"
| tick: "be_del_ok be \<Longrightarrow> \<forall>e \<in> queued b QTimeout. signal_safe b e \<Longrightarrow> timeout_process be clock b = Some b' \<Longrightarrow> base_step be b (Tick clock) b'"
| report: "slot (io b) fd = Some ctx \<Longrightarrow> evmap_io_active be b (int fd) events = Some b' \<Longrightarrow> base_step be b (Report fd events) b'"

lemma same_config:
  assumes "\<forall>x. config (evs b' x) = config (evs b x)"
  shows "(\<lambda>x. ev_fd (evs b' x)) = (\<lambda>x. ev_fd (evs b x))" "(\<lambda>x. ev_events (evs b' x)) = (\<lambda>x. ev_events (evs b x))"
  using assms by (simp_all add: config_def)

lemma spec_of_added:
  assumes "added_event clock b e tv False b'"
  shows "spec_of b' = spec_do (spec_of b) (Add clock e tv True)"
proof -
  have t: "touched b e b'" and res: "ev_res (evs b' e) = ev_res (evs b e)" using assms by (simp_all add: added_event_def)
  have "ev_res (evs b' x) = ev_res (evs b x)" for x
    using t res same_event_fields by (cases "x = e") (auto simp: touched_def)
  moreover have "\<forall>x. config (evs b' x) = config (evs b x)" "tv_cache b' = tv_cache b" using t ctl_fields(1) [of b' b] by (simp_all add: touched_def)
  note same_config [OF this(1)] this(2)
  ultimately show ?thesis
    using assms by (auto simp: spec_of_def added_event_def waits_def sp_now_def due_time_def gettime_def expired_active_def fun_eq_iff split: option.split)
qed

lemma spec_of_deleted:
  assumes "deleted b e b'"
  shows "spec_of b' = spec_do (spec_of b) (Del e)"
proof -
  have k: "kept b b'" "\<forall>q. queued b' q = queued b q - {e}" using assms by (simp_all add: deleted_def)
  have s: "same_event (evs b x) (evs b' x)" for x using k by (simp add: kept_def)
  have "ev_res (evs b' x) = ev_res (evs b x)" "ev_fd (evs b' x) = ev_fd (evs b x)" "ev_events (evs b' x) = ev_events (evs b x)" for x
    using same_event_fields [OF s [of x]] by simp_all
  moreover have "tv_cache b' = tv_cache b" "ev_timeout (timeheap b') = ev_timeout (timeheap b)" using k rest_fields(1) [of b' b] by (simp_all add: kept_def)
  ultimately show ?thesis using k(2) by (auto simp: spec_of_def fun_eq_iff)
qed

lemma woken_activated: "activated b e res b' \<Longrightarrow> woken b {e} (\<lambda>_. res) b'"
  by (rule woken_one)

lemma spec_of_woken:
  assumes "woken b D f b'"
  shows "spec_of b' = (spec_of b)\<lparr>sp_active := wake (sp_active (spec_of b)) D f\<rparr>"
proof -
  have s: "e \<notin> D \<Longrightarrow> same_event (evs b e) (evs b' e)" for e using assms by (simp add: woken_def)
  have r: "ev_res (evs b' e) = (if e \<in> D then if e \<in> queued b QActive then ev_res (evs b e) OR f e else f e else ev_res (evs b e))" for e
    using assms same_event_fields [OF s [of e]] by (simp add: woken_def)
  have "\<forall>x. config (evs b' x) = config (evs b x)" using assms by (simp add: woken_def)
  moreover have "tv_cache b' = tv_cache b" using assms ctl_fields(1) [of b' b] by (simp add: woken_def)
  ultimately show ?thesis using assms same_config [of b' b] by (auto simp: spec_of_def woken_def wake_def fun_eq_iff r)
qed

lemma spec_of_timed_out:
  assumes t: "timed_out b (due_timers b (gettime b clock)) b'" and tv: "ev_timeout (timeheap b') = ev_timeout (timeheap b)"
  shows "spec_of b' = spec_do (spec_of b) (Tick clock)"
proof -
  let ?D = "due_timers b (gettime b clock)"
  have s: "e \<notin> ?D \<Longrightarrow> same_event (evs b e) (evs b' e)" for e using t by (simp add: timed_out_def)
  have r: "ev_res (evs b' e) = (if e \<in> ?D then EV_TIMEOUT else ev_res (evs b e))" for e
    using t same_event_fields [OF s [of e]] by (simp add: timed_out_def)
  have D: "{e. \<exists>t. sp_timers (spec_of b) e = Some t \<and> t \<le> sp_now (spec_of b) clock} = ?D"
    by (auto simp: due_timers_def spec_of_def sp_now_def gettime_def)
  have "\<forall>x. config (evs b' x) = config (evs b x)" using t by (simp add: timed_out_def)
  moreover have "tv_cache b' = tv_cache b" using t ctl_fields(1) [of b' b] by (simp add: timed_out_def)
  ultimately show ?thesis using t tv same_config [of b' b] unfolding spec_do.simps Let_def D
    by (auto simp: spec_of_def timed_out_def fun_eq_iff restrict_map_def r)
qed

lemma base_step_refines:
  assumes inv: "base_inv b" and step: "base_step be b l b'"
  shows "base_inv b' \<and> spec_of b' = spec_do (spec_of b) l"
  using step
proof cases
  case (add e clock tv r)
  show ?thesis
  proof (rule event_add_internal_ok [OF inv add(2), of be clock tv False])
    fix b1 assume "event_add_internal be clock b e tv False = Some (-1, b1)" "base_inv b1" "queued b1 = queued b" "evs b1 = evs b"
      "ev_timeout (timeheap b1) = ev_timeout (timeheap b)" "rest b1 = rest b"
    moreover have "event_add be clock b e tv = event_add_internal be clock b e tv False"
      using add(2) by (simp add: event_add_def addable_def registrable_def)
    ultimately show ?thesis using add(1,3) rest_fields(1) [of b1 b] by (simp add: spec_of_def cong: if_cong)
  next
    fix b1 assume "event_add_internal be clock b e tv False = Some (0, b1)" "base_inv b1" "added_event clock b e tv False b1"
    moreover have "event_add be clock b e tv = event_add_internal be clock b e tv False"
      using add(2) by (simp add: event_add_def addable_def registrable_def)
    ultimately show ?thesis using add(1,3) spec_of_added by simp
  qed
next
  case (del e)
  show ?thesis
  proof (rule event_del_internal_ok [OF inv del(2,3), of be])
    fix b1 assume "event_del_internal be b e = Some (0, b1)" "deleted b e b1" "base_inv b1"
    then show ?thesis using del spec_of_deleted by (simp add: event_del_def)
  qed (use del in \<open>simp add: event_del_def\<close>)
next
  case (activate e res ncalls)
  obtain b1 where b1: "event_active_nolock be b e res ncalls = Some b1" "base_inv b1" "activated b e res b1"
    by (rule event_active_nolock_ok [OF inv activate(2)])
  with activate show ?thesis using spec_of_woken [OF woken_activated [OF b1(3)]] by (simp add: event_active_def)
next
  case (tick clock)
  show ?thesis using timeout_process_run [OF inv tick(3,2), of clock] tick(4) spec_of_timed_out tick(1) by auto
next
  case (report fd ctx events)
  show ?thesis using evmap_io_active_run [OF inv report(2), of be events] report(3) spec_of_woken report(1) by (auto simp: is_io_def spec_of_def)
qed

interpretation base: simulation "base_step be" spec_do spec_of base_inv for be
  by unfold_locales (rule base_step_refines)

text \<open>
  C26. Every sequence of additions, deletions that the backend accepts, activations, reports of the backend and
  passings of time keeps the invariant of the base and has on the waiting, timed and active events exactly the effect
  the specification gives it. The specification is that of the code: an addition without a timeout keeps the timer the event has.
\<close>

theorem event_base_refines_spec:
  assumes "steps (base_step be) b ops b'" "base_inv b"
  shows "base_inv b' \<and> spec_of b' = foldl spec_do (spec_of b) ops"
  using assms by (rule base.sim_steps)

theorem event_base_refines_spec_witness:
  "\<exists>b'. steps (base_step demo_backend) demo_base [Del 1, Activate 2 EV_READ] b' \<and> base_inv b' \<and>
     spec_of b' = foldl spec_do (spec_of demo_base) [Del 1, Activate 2 EV_READ]"
proof -
  have base: "ev_base (evs demo_base 1)" "ev_base (evs demo_base 2)" by (simp_all add: demo_base_def demo_event_def)
  obtain b1 where b1: "event_del_internal demo_backend demo_base 1 = Some (0, b1)" "deleted demo_base 1 b1" "base_inv b1"
    by (rule event_del_be_ok [OF demo_inv base(1) demo_safe demo_del_ok])
  have del: "base_step demo_backend demo_base (Del 1) b1"
    by (intro base_step.del [OF base(1) demo_safe]) (use b1(1) base(1) in \<open>simp add: event_del_def\<close>)
  have "same_event (evs demo_base 2) (evs b1 2)" using b1(2) by (simp add: deleted_def kept_def)
  then have base1: "ev_base (evs b1 2)" using same_event_fields base(2) by metis
  obtain b2 where b2: "event_active_nolock demo_backend b1 2 EV_READ 1 = Some b2"
    by (rule event_active_nolock_ok [OF b1(3) base1])
  then have "base_step demo_backend b1 (Activate 2 EV_READ) b2"
    by (intro base_step.activate [OF base1]) (simp add: event_active_def base1)
  with del have run: "steps (base_step demo_backend) demo_base [Del 1, Activate 2 EV_READ] b2" by auto
  from event_base_refines_spec [OF this demo_inv] run show ?thesis by blast
qed

end
