(* ===== verification/Event_Loop.thy ===== *)
theory Event_Loop
  imports Event_Props
begin

text \<open>
  The loop of \<^verbatim>\<open>event.c\<close>: running the callbacks of the active events by priority, signals and persistent events,
  deferred callbacks, \<open>event_base_loop\<close>.

  The user's callbacks are a parameter: \<open>ucb c fd res arg base\<close> is the base after callback \<open>c\<close> ran (\<open>None\<close> when it
  does not return or is undefined); they do not call \<open>event_base_priority_init\<close>. Deferred callbacks are a
  parameter \<open>dcb\<close> of the same kind. \<open>base_log\<close> records each run.
\<close>

type_synonym user_callbacks = "nat \<Rightarrow> int \<Rightarrow> u16 \<Rightarrow> nat \<Rightarrow> event_base \<Rightarrow> event_base option"
type_synonym deferred_callbacks = "nat \<Rightarrow> event_base \<Rightarrow> event_base option"

section \<open>Setting up the base\<close>

definition EVENT_MAX_PRIORITIES :: int where "EVENT_MAX_PRIORITIES = 256"

text \<open>Each queue head has two pointers.\<close>

definition event_base_priority_init :: "backend \<Rightarrow> event_base \<Rightarrow> int \<Rightarrow> int \<times> event_base" where
  "event_base_priority_init be base npriorities =
     (if N_ACTIVE_CALLBACKS base \<noteq> 0 \<or> npriorities < 1 \<or> npriorities \<ge> EVENT_MAX_PRIORITIES then (-1, base)
      else if npriorities = int (length (activequeues base)) then (0, base)
      else if \<not> be_alloc be (nat npriorities * 8) then (-1, base\<lparr>activequeues := []\<rparr>)
      else (0, base\<lparr>activequeues := replicate (nat npriorities) []\<rparr>))"

definition event_base_set :: "event_base \<Rightarrow> event_ptr \<Rightarrow> int \<times> event_base" where
  "event_base_set base e =
     (if flags_of base e \<noteq> EVLIST_INIT then (-1, base)
      else (0, upd_event base e (\<lambda>ev. ev\<lparr>ev_base := True, ev_pri := length (activequeues base) div 2\<rparr>)))"

definition clear_time_cache :: "event_base \<Rightarrow> event_base" where
  "clear_time_cache base = base\<lparr>tv_cache := Timeval 0 (tv_usec (tv_cache base))\<rparr>"

text \<open>\<open>no_cache\<close> is \<open>EVENT_BASE_FLAG_NO_CACHE_TIME\<close>.\<close>

definition update_time_cache :: "bool \<Rightarrow> timeval \<Rightarrow> event_base \<Rightarrow> event_base" where
  "update_time_cache no_cache clock base =
     (let base1 = clear_time_cache base in if no_cache then base1 else base1\<lparr>tv_cache := gettime base1 clock\<rparr>)"

definition event_base_loopbreak :: "event_base \<Rightarrow> int \<times> event_base" where
  "event_base_loopbreak base = (0, base\<lparr>event_break := True\<rparr>)"

definition event_loopexit_cb :: "event_base \<Rightarrow> event_base" where
  "event_loopexit_cb base = base\<lparr>event_gotterm := True\<rparr>"

definition event_base_got_break :: "event_base \<Rightarrow> bool" where
  "event_base_got_break base = event_break base"

definition event_base_got_exit :: "event_base \<Rightarrow> bool" where
  "event_base_got_exit base = event_gotterm base"

definition event_base_add_virtual :: "event_base \<Rightarrow> event_base" where
  "event_base_add_virtual base = base\<lparr>virtual_event_count := virtual_event_count base + 1\<rparr>"

definition event_base_del_virtual :: "event_base \<Rightarrow> event_base option" where
  "event_base_del_virtual base = do {
     ev_assert (virtual_event_count base > 0);
     Some (base\<lparr>virtual_event_count := virtual_event_count base - 1\<rparr>)
   }"

section \<open>Running callbacks\<close>

definition run_callback :: "user_callbacks \<Rightarrow> event_base \<Rightarrow> event_ptr \<Rightarrow> event_base option" where
  "run_callback ucb base e =
     (let ev = evs base e
      in ucb (ev_callback ev) (ev_fd ev) (ev_res ev) (ev_arg ev)
           (base\<lparr>base_log := base_log base @ [(e, ev_fd ev, ev_res ev, ev_arg ev)]\<rparr>))"

text \<open>The loop of \<open>event_signal_closure\<close>; its variable \<open>ncalls\<close> is \<open>closure_ncalls\<close>.\<close>

partial_function (option) signal_loop :: "user_callbacks \<Rightarrow> event_ptr \<Rightarrow> event_base \<Rightarrow> event_base option" where
  "signal_loop ucb e base =
     (case closure_ncalls base of
        None \<Rightarrow> None
      | Some ncalls \<Rightarrow>
          if ncalls = 0 then Some base
          else do {
            let base1 = upd_event (base\<lparr>closure_ncalls := Some (ncalls - 1)\<rparr>) e (\<lambda>ev. ev\<lparr>ev_ncalls := ncalls - 1\<rparr>);
            let base2 = (if ncalls - 1 = 0 then upd_event base1 e (\<lambda>ev. ev\<lparr>ev_pncalls := None\<rparr>) else base1);
            base3 \<leftarrow> run_callback ucb base2 e;
            if event_break base3
            then Some (if closure_ncalls base3 \<noteq> Some 0 then upd_event base3 e (\<lambda>ev. ev\<lparr>ev_pncalls := None\<rparr>) else base3)
            else signal_loop ucb e base3
          })"

text \<open>A new local variable; it is gone when the function returns.\<close>

definition event_signal_closure :: "user_callbacks \<Rightarrow> event_base \<Rightarrow> event_ptr \<Rightarrow> event_base option" where
  "event_signal_closure ucb base e = do {
     let ncalls = ev_ncalls (evs base e);
     let base1 = base\<lparr>closure_no := Suc (closure_no base), closure_ncalls := Some ncalls\<rparr>;
     let base2 = (if ncalls \<noteq> 0 then upd_event base1 e (\<lambda>ev. ev\<lparr>ev_pncalls := Some (closure_no base1)\<rparr>) else base1);
     base3 \<leftarrow> signal_loop ucb e base2;
     Some (base3\<lparr>closure_ncalls := None\<rparr>)
   }"

text \<open>When the next run of a persistent event with a timeout is due.\<close>

definition persist_run_at :: "event_base \<Rightarrow> timeval \<Rightarrow> event_ptr \<Rightarrow> timeval" where
  "persist_run_at base clock e =
     (let now = gettime base clock; delay = ev_io_timeout (evs base e);
          relative_to = (if ev_res (evs base e) AND EV_TIMEOUT \<noteq> 0 then ev_timeout (timeheap base) e else now);
          run_at = evutil_timeradd relative_to delay
      in if evutil_timercmp_gt now run_at then evutil_timeradd now delay else run_at)"

definition event_persist_closure :: "backend \<Rightarrow> timeval \<Rightarrow> user_callbacks \<Rightarrow> event_base \<Rightarrow> event_ptr \<Rightarrow> event_base option" where
  "event_persist_closure be clock ucb base e = do {
     base1 \<leftarrow> (if tv_sec (ev_io_timeout (evs base e)) \<noteq> 0 \<or> tv_usec (ev_io_timeout (evs base e)) \<noteq> 0
               then do { (r, b) \<leftarrow> event_add_internal be clock base e (Some (persist_run_at base clock e)) True; Some b }
               else Some base);
     run_callback ucb base1 e
   }"

definition run_closure :: "backend \<Rightarrow> timeval \<Rightarrow> user_callbacks \<Rightarrow> event_base \<Rightarrow> event_ptr \<Rightarrow> event_base option" where
  "run_closure be clock ucb base e =
     (case ev_closure (evs base e) of
        EV_CLOSURE_SIGNAL \<Rightarrow> event_signal_closure ucb base e
      | EV_CLOSURE_PERSIST \<Rightarrow> event_persist_closure be clock ucb base e
      | EV_CLOSURE_NONE \<Rightarrow> run_callback ucb base e)"

partial_function (option) event_process_active_single_queue ::
    "backend \<Rightarrow> timeval \<Rightarrow> user_callbacks \<Rightarrow> nat \<Rightarrow> int \<Rightarrow> event_base \<Rightarrow> (int \<times> event_base) option" where
  "event_process_active_single_queue be clock ucb pri count base = do {
     activeq \<leftarrow> nth_opt (activequeues base) pri;
     case activeq of
       [] \<Rightarrow> Some (count, base)
     | e # _ \<Rightarrow> do {
         base1 \<leftarrow> (if ev_events (evs base e) AND EV_PERSIST \<noteq> 0 then event_queue_remove base e QActive
                   else map_option snd (event_del_internal be base e));
         let count1 = (if internal base1 e then count else count + 1);
         base2 \<leftarrow> run_closure be clock ucb base1 e;
         if event_break base2 then Some (-1, base2)
         else if event_continue base2 then Some (count1, base2)
         else event_process_active_single_queue be clock ucb pri count1 base2
       }
   }"

definition MAX_DEFERRED :: nat where "MAX_DEFERRED = 16"

text \<open>\<open>k\<close> more callbacks may run.\<close>

fun deferred_loop :: "deferred_callbacks \<Rightarrow> nat \<Rightarrow> int \<Rightarrow> event_base \<Rightarrow> (int \<times> event_base) option" where
  "deferred_loop dcb k count base =
     (case deferred_cb_list base of
        [] \<Rightarrow> Some (count, base)
      | cb # cbs \<Rightarrow> do {
          base1 \<leftarrow> dcb cb (base\<lparr>cb_queued := (cb_queued base)(cb := False), deferred_cb_list := cbs, active_count := active_count base - 1\<rparr>);
          if event_break base1 then Some (-1, base1)
          else case k of
            0 \<Rightarrow> Some (count + 1, base1)
          | Suc k1 \<Rightarrow> deferred_loop dcb k1 (count + 1) base1
        })"

declare deferred_loop.simps [simp del]

definition event_process_deferred_callbacks :: "deferred_callbacks \<Rightarrow> event_base \<Rightarrow> (int \<times> event_base) option" where
  "event_process_deferred_callbacks dcb base = deferred_loop dcb (MAX_DEFERRED - 1) 0 base"

text \<open>The loop of \<open>event_process_active\<close> over the queues; \<open>c\<close> is what the last one returned.\<close>

partial_function (option) process_queues ::
    "backend \<Rightarrow> timeval \<Rightarrow> user_callbacks \<Rightarrow> nat \<Rightarrow> int \<Rightarrow> event_base \<Rightarrow> (int \<times> event_base) option" where
  "process_queues be clock ucb i c base =
     (if i < length (activequeues base) then
        if activequeues base ! i \<noteq> [] then do {
          (c1, base1) \<leftarrow> event_process_active_single_queue be clock ucb i 0 (base\<lparr>event_running_priority := int i\<rparr>);
          if c1 < 0 then Some (-1, base1)
          else if c1 > 0 then Some (c1, base1)
          else process_queues be clock ucb (Suc i) c1 base1
        }
        else process_queues be clock ucb (Suc i) c base
      else Some (c, base))"

definition event_process_active :: "backend \<Rightarrow> timeval \<Rightarrow> user_callbacks \<Rightarrow> deferred_callbacks \<Rightarrow> event_base \<Rightarrow> (int \<times> event_base) option" where
  "event_process_active be clock ucb dcb base = do {
     (c, base1) \<leftarrow> process_queues be clock ucb 0 0 base;
     if c < 0 then Some (-1, base1\<lparr>event_running_priority := -1\<rparr>)
     else do {
       (n, base2) \<leftarrow> event_process_deferred_callbacks dcb base1;
       Some (c, base2\<lparr>event_running_priority := -1\<rparr>)
     }
   }"

section \<open>The loop\<close>

text \<open>
  What surrounds the loop: the backend's \<open>dispatch\<close> with the time it may wait (\<open>None\<close>: for ever), the
  clock (the \<open>k\<close>-th reading in round \<open>i\<close>), the configuration.
\<close>

record loop_env =
  le_backend :: backend
  le_ucb :: user_callbacks
  le_dcb :: deferred_callbacks
  le_dispatch :: "nat \<Rightarrow> event_base \<Rightarrow> timeval option \<Rightarrow> (int \<times> event_base) option"
  le_clock :: "nat \<Rightarrow> nat \<Rightarrow> timeval"
  le_monotonic :: bool
  le_no_cache :: bool

text \<open>How one round ends: with a value to return, or with the next round.\<close>

datatype round_result = Return int event_base | Continue event_base

definition loop_round :: "loop_env \<Rightarrow> bool \<Rightarrow> bool \<Rightarrow> nat \<Rightarrow> event_base \<Rightarrow> round_result option" where
  "loop_round env once nonblock i base =
     (let base1 = base\<lparr>event_continue := False\<rparr> in
      if event_gotterm base1 \<or> event_break base1 then Some (Return 0 base1)
      else do {
        base2 \<leftarrow> timeout_correct (le_monotonic env) (le_clock env i 0) base1;
        tv \<leftarrow> (if N_ACTIVE_CALLBACKS base2 = 0 \<and> \<not> nonblock then timeout_next (le_clock env i 1) base2 else Some (Some (Timeval 0 0)));
        if \<not> event_haveevents base2 \<and> N_ACTIVE_CALLBACKS base2 = 0 then Some (Return 1 base2)
        else do {
          let base3 = clear_time_cache (base2\<lparr>event_tv := gettime base2 (le_clock env i 2)\<rparr>);
          (res, base4) \<leftarrow> le_dispatch env i base3 tv;
          if res = -1 then Some (Return (-1) base4)
          else do {
            let base5 = update_time_cache (le_no_cache env) (le_clock env i 3) base4;
            base6 \<leftarrow> timeout_process (le_backend env) (le_clock env i 4) base5;
            if N_ACTIVE_CALLBACKS base6 \<noteq> 0 then do {
              (n, base7) \<leftarrow> event_process_active (le_backend env) (le_clock env i 5) (le_ucb env) (le_dcb env) base6;
              if once \<and> N_ACTIVE_CALLBACKS base7 = 0 \<and> n \<noteq> 0 then Some (Return 0 base7) else Some (Continue base7)
            }
            else if nonblock then Some (Return 0 base6) else Some (Continue base6)
          }
        }
      })"

partial_function (option) loop_rounds :: "loop_env \<Rightarrow> bool \<Rightarrow> bool \<Rightarrow> nat \<Rightarrow> event_base \<Rightarrow> (int \<times> event_base) option" where
  "loop_rounds env once nonblock i base = do {
     r \<leftarrow> loop_round env once nonblock i base;
     case r of
       Return v b \<Rightarrow> Some (v, b)
     | Continue b \<Rightarrow> loop_rounds env once nonblock (Suc i) b
   }"

text \<open>\<open>evsig_set_base\<close> (which base the signal handler writes to) is not part of the model.\<close>

definition loop_start :: "event_base \<Rightarrow> event_base" where
  "loop_start base = (clear_time_cache (base\<lparr>running_loop := True\<rparr>))\<lparr>event_gotterm := False, event_break := False\<rparr>"

definition event_base_loop :: "loop_env \<Rightarrow> bool \<Rightarrow> bool \<Rightarrow> event_base \<Rightarrow> (int \<times> event_base) option" where
  "event_base_loop env once nonblock base =
     (if running_loop base then Some (-1, base)
      else do {
        (v, base1) \<leftarrow> loop_rounds env once nonblock 0 (loop_start base);
        Some (v, (clear_time_cache base1)\<lparr>running_loop := False\<rparr>)
      })"

end
