(* ===== verification/Event_Run.thy ===== *)
theory Event_Run
  imports Event_Loop
begin

text \<open>
  Running callbacks: order, number and termination, and the dangling pointer a signal callback can leave
  behind.
\<close>

section \<open>Fields the invariant does not depend on\<close>

lemma base_inv_upd [simp]:
  "base_inv (b\<lparr>base_log := l\<rparr>) = base_inv b" "base_inv (b\<lparr>closure_no := n\<rparr>) = base_inv b" "base_inv (b\<lparr>closure_ncalls := c\<rparr>) = base_inv b"
  "base_inv (b\<lparr>event_running_priority := p\<rparr>) = base_inv b" "base_inv (b\<lparr>tv_cache := t\<rparr>) = base_inv b" "base_inv (b\<lparr>event_tv := t\<rparr>) = base_inv b"
  "base_inv (b\<lparr>event_continue := f\<rparr>) = base_inv b"
  by (simp_all add: base_inv_def queues_inv_def maps_inv_def counted_def queued_def on_queue_def internal_def)

lemma queued_upd_more [simp]:
  "queued (b\<lparr>base_log := l\<rparr>) = queued b" "queued (b\<lparr>closure_no := n\<rparr>) = queued b" "queued (b\<lparr>event_running_priority := p\<rparr>) = queued b"
  "queued (b\<lparr>tv_cache := t\<rparr>) = queued b" "queued (b\<lparr>event_tv := t\<rparr>) = queued b"
  by (simp_all add: fun_eq_iff queued_def on_queue_def)

lemma internal_upd_more [simp]:
  "internal (b\<lparr>base_log := l\<rparr>) = internal b" "internal (b\<lparr>closure_no := n\<rparr>) = internal b" "internal (b\<lparr>event_running_priority := p\<rparr>) = internal b"
  by (simp_all add: fun_eq_iff internal_def)

lemma base_inv_upd_data:
  assumes "\<And>ev. config (f ev) = config ev" "\<And>ev. ev_flags (f ev) = ev_flags ev"
  shows "base_inv (upd_event b e f) = base_inv b"
  using upd_data(3,4) [of f b e, OF assms] by (simp add: base_inv_def)

section \<open>Signals\<close>

text \<open>A signal callback that deletes its own event.\<close>

definition delete_self :: "backend \<Rightarrow> event_ptr \<Rightarrow> user_callbacks" where
  "delete_self be e c fd res arg base = map_option snd (event_del be base e)"

text \<open>
  C28. A signal arrived twice or more before its event was processed, and the callback deletes the event on
  its first run. The remaining runs are dropped as intended, but \<open>ev_pncalls\<close> still points to the local variable of
  \<open>event_signal_closure\<close>, which has returned: deleting (or freeing) the event once more writes through it.
\<close>

theorem signal_event_del_twice_undefined:
  assumes "base_inv b" "ev_base (evs b e)" "ev_events (evs b e) AND EV_SIGNAL \<noteq> 0" "ev_ncalls (evs b e) = Suc (Suc n)"
    and be: "be_del_ok be" and "\<not> event_break b"
  shows "\<exists>b'. event_signal_closure (delete_self be e) b e = Some b' \<and> (\<forall>q. e \<notin> queued b' q) \<and> event_del be b' e = None"
proof -
  let ?F = "Suc (closure_no b)"
  let ?f = "\<lambda>ev. ev\<lparr>ev_pncalls := Some ?F\<rparr>" and ?g = "\<lambda>ev. ev\<lparr>ev_ncalls := Suc n\<rparr>"
  define b1 where "b1 = upd_event (b\<lparr>closure_no := ?F, closure_ncalls := Some (Suc (Suc n))\<rparr>) e ?f"
  define b2 where "b2 = upd_event (b1\<lparr>closure_ncalls := Some (Suc n)\<rparr>) e ?g"
  define b3 where "b3 = b2\<lparr>base_log := base_log b2 @ [(e, ev_fd (evs b2 e), ev_res (evs b2 e), ev_arg (evs b2 e))]\<rparr>"
  have fg: "config (?f ev) = config ev" "ev_flags (?f ev) = ev_flags ev" "config (?g ev) = config ev" "ev_flags (?g ev) = ev_flags ev" for ev
    by (simp_all add: config_def)
  have "base_inv b1" unfolding b1_def base_inv_upd_data [of ?f, OF fg(1,2)] using assms(1) by simp
  then have "base_inv b2" unfolding b2_def base_inv_upd_data [of ?g, OF fg(3,4)] by simp
  then have inv3: "base_inv b3" by (simp add: b3_def)
  have ev3: "ev_base (evs b3 e)" "ev_ncalls (evs b3 e) = Suc n" "ev_pncalls (evs b3 e) = Some ?F" "ev_events (evs b3 e) AND EV_SIGNAL \<noteq> 0"
    "closure_no b3 = ?F" "closure_ncalls b3 = Some (Suc n)" "event_break b3 = event_break b"
    using assms(2,3) by (simp_all add: b3_def b2_def b1_def upd_event_def)
  have base2: "ev_base (evs b2 e)" using ev3(1) by (simp add: b3_def)
  have safe: "signal_safe b3 e" using ev3 by (simp add: signal_safe_def)
  obtain b4 where b4: "event_del_internal be b3 e = Some (0, b4)" "deleted b3 e b4" "base_inv b4"
      "abort_signal_loop b3 e = Some (b3\<lparr>closure_ncalls := closure_ncalls b4\<rparr>)"
    by (rule event_del_be_ok [OF inv3 ev3(1) safe be])
  have "abort_signal_loop b3 e = Some (b3\<lparr>closure_ncalls := Some 0\<rparr>)" using ev3 by (simp add: abort_signal_loop_def)
  then have "b3\<lparr>closure_ncalls := closure_ncalls b4\<rparr> = b3\<lparr>closure_ncalls := Some 0\<rparr>" using b4(4) by simp
  from arg_cong [OF this, of closure_ncalls] have c4: "closure_ncalls b4 = Some 0" by simp
  have k: "kept b3 b4" using b4(2) by (simp add: deleted_def)
  have "same_event (evs b3 e) (evs b4 e)" using k by (simp add: kept_def)
  note ev4 = same_event_fields [OF this]
  have brk: "\<not> event_break b4" using rest_fields(3) [of b4 b3] k ev3(7) assms(6) by (simp add: kept_def)
  have run: "run_callback (delete_self be e) b2 e = Some b4"
    using b4(1) ev3(1) base2 by (simp add: run_callback_def delete_self_def Let_def b3_def [symmetric] event_del_def)
  have loop4: "signal_loop (delete_self be e) e b4 = Some b4" using c4 by (simp add: signal_loop.simps)
  have loop1: "signal_loop (delete_self be e) e b1 = Some b4"
  proof -
    have "closure_ncalls b1 = Some (Suc (Suc n))" by (simp add: b1_def upd_event_def)
    then show ?thesis using run brk loop4 by (subst signal_loop.simps) (simp add: b2_def [symmetric])
  qed
  have "event_signal_closure (delete_self be e) b e = Some (b4\<lparr>closure_ncalls := None\<rparr>)"
    using loop1 assms(4) by (simp add: event_signal_closure_def b1_def)
  moreover have "e \<notin> queued (b4\<lparr>closure_ncalls := None\<rparr>) q" for q using b4(2) by (simp add: deleted_def)
  moreover have "event_del be (b4\<lparr>closure_ncalls := None\<rparr>) e = None"
  proof -
    have "flags_of b4 e AND NOT EVLIST_ALL = 0" using b4(3) by (simp add: base_inv_def queues_inv_def)
    then show ?thesis using ev4 ev3 by (simp add: event_del_def event_del_internal_def abort_signal_loop_def Let_def)
  qed
  ultimately show ?thesis by blast
qed

definition demo_signal :: event_base where
  "demo_signal = upd_event demo_base 4 (\<lambda>ev. ev\<lparr>ev_ncalls := 2\<rparr>)"

theorem signal_event_del_twice_undefined_witness:
  "\<exists>b'. event_signal_closure (delete_self demo_backend 4) demo_signal 4 = Some b' \<and> (\<forall>q. 4 \<notin> queued b' q) \<and> event_del demo_backend b' 4 = None"
proof (rule signal_event_del_twice_undefined [OF _ _ _ _ demo_del_ok])
  show "base_inv demo_signal" unfolding demo_signal_def by (subst base_inv_upd_data) (simp_all add: config_def demo_inv)
  show "ev_ncalls (evs demo_signal 4) = Suc (Suc 0)" by (simp add: demo_signal_def)
qed (simp_all add: demo_signal_def upd_event_def, simp_all add: demo_base_def demo_event_def EV_SIGNAL_def EV_READ_def)

section \<open>The order of callbacks\<close>

text \<open>
  A callback that leaves the active events alone and does not end the round: it returns, keeps the
  invariant, and may add, delete and change anything that is not active.
\<close>

definition lets_be :: "event_base \<Rightarrow> event_base \<Rightarrow> bool" where
  "lets_be b b' \<longleftrightarrow> activequeues b' = activequeues b \<and> (\<forall>e \<in> queued b QActive. same_event (evs b e) (evs b' e) \<and> internal b' e = internal b e) \<and>
     base_log b' = base_log b \<and> event_break b' = event_break b \<and> event_continue b' = event_continue b \<and>
     closure_no b' = closure_no b \<and> closure_ncalls b' = closure_ncalls b \<and> deferred_cb_list b' = deferred_cb_list b"

definition tame :: "user_callbacks \<Rightarrow> bool" where
  "tame ucb \<longleftrightarrow> (\<forall>c fd res arg b. base_inv b \<longrightarrow> (\<exists>b'. ucb c fd res arg b = Some b' \<and> base_inv b' \<and> lets_be b b'))"

text \<open>An event whose closure only calls its callback, and which may be taken off its queues.\<close>

definition plain :: "event_base \<Rightarrow> event_ptr \<Rightarrow> bool" where
  "plain b e \<longleftrightarrow> signal_safe b e \<and> (ev_closure (evs b e) = EV_CLOSURE_NONE \<or>
     ev_closure (evs b e) = EV_CLOSURE_PERSIST \<and> ev_io_timeout (evs b e) = Timeval 0 0)"

definition log_entry :: "event_base \<Rightarrow> event_ptr \<Rightarrow> event_ptr \<times> int \<times> u16 \<times> nat" where
  "log_entry b e = (e, ev_fd (evs b e), ev_res (evs b e), ev_arg (evs b e))"

lemma plain_same:
  assumes "plain b e" "same_event (evs b e) (evs b' e)" "closure_no b' = closure_no b" "closure_ncalls b' = None \<longleftrightarrow> closure_ncalls b = None"
  shows "plain b' e" "log_entry b' e = log_entry b e"
  using same_event_fields [OF assms(2)] same_event_config [OF assms(2)] assms(1,3,4)
  by (simp_all add: plain_def signal_safe_def log_entry_def config_def)

lemma active_queue:
  assumes "queues_inv b" "p < length (activequeues b)"
  shows "distinct (activequeues b ! p)" "set (activequeues b ! p) = {x \<in> queued b QActive. ev_pri (evs b x) = p}"
  using assms by (simp_all add: queues_inv_def)

lemma queued_active:
  assumes "queues_inv b"
  shows "queued b QActive = set (concat (activequeues b))"
proof -
  have "e \<in> set (activequeues b ! ev_pri (evs b e)) \<and> ev_pri (evs b e) < length (activequeues b)" if "e \<in> queued b QActive" for e
    using active_queue(2) [OF assms, of "ev_pri (evs b e)"] that assms by (auto simp: queues_inv_def)
  then have "queued b QActive \<subseteq> set (concat (activequeues b))" using nth_mem by fastforce
  moreover have "set (concat (activequeues b)) \<subseteq> queued b QActive"
    using active_queue(2) [OF assms] by (fastforce simp: in_set_conv_nth [of _ "activequeues b"])
  ultimately show ?thesis by blast
qed

text \<open>Taking the first active event off, and running its callback.\<close>

lemma take_off:
  assumes inv: "base_inv b" and p: "p < length (activequeues b)" "activequeues b ! p = e # es" and safe: "signal_safe b e" and be: "be_del_ok be"
  obtains b' where "(if ev_events (evs b e) AND EV_PERSIST \<noteq> 0 then event_queue_remove b e QActive
      else map_option snd (event_del_internal be b e)) = Some b'" "base_inv b'" "kept b b'" "activequeues b' = (activequeues b)[p := es]"
    "queued b' QActive = queued b QActive - {e}"
proof -
  have qi: "queues_inv b" using inv by (simp add: base_inv_def)
  then have e: "e \<in> queued b QActive" "ev_pri (evs b e) = p" using active_queue [OF qi p(1)] p(2) by auto
  have base: "ev_base (evs b e)" using qi e by (auto simp: queues_inv_def)
  have dq: "dequeue b e = (activequeues b)[p := es]" using e(2) p(2) by (simp add: dequeue_def)
  show thesis
  proof (cases "ev_events (evs b e) AND EV_PERSIST \<noteq> 0")
    case True
    obtain b' where b': "event_queue_remove b e QActive = Some b'" "requeued b QActive (queued b QActive - {e}) b'" "activequeues b' = dequeue b e"
      using event_queue_remove_ok [OF qi e(1)] by metis
    have "maps_inv b'" by (rule requeued_maps [OF b'(2)]) (use inv in \<open>simp_all add: base_inv_def\<close>)
    then show thesis using that [of b'] True b' dq kept_requeued [OF b'(2)] by (simp add: base_inv_def requeued_def)
  next
    case False
    obtain b' where b': "event_del_internal be b e = Some (0, b')" "deleted b e b'" "base_inv b'"
      by (rule event_del_be_ok [OF inv base safe be])
    then show thesis using that [of b'] False dq by (simp add: deleted_def)
  qed
qed

lemma run_plain:
  assumes inv: "base_inv b" and ucb: "tame ucb" and e: "plain b e"
  obtains b' where "run_closure be clock ucb b e = Some b'" "base_inv b'" "lets_be (b\<lparr>base_log := base_log b @ [log_entry b e]\<rparr>) b'"
proof -
  let ?b = "b\<lparr>base_log := base_log b @ [log_entry b e]\<rparr>"
  have "run_closure be clock ucb b e = run_callback ucb b e"
    using e by (auto simp: plain_def run_closure_def event_persist_closure_def)
  then have eq: "run_closure be clock ucb b e = ucb (ev_callback (evs b e)) (ev_fd (evs b e)) (ev_res (evs b e)) (ev_arg (evs b e)) ?b"
    by (simp add: run_callback_def log_entry_def Let_def)
  have "base_inv ?b" using inv by simp
  then obtain b' where "ucb (ev_callback (evs b e)) (ev_fd (evs b e)) (ev_res (evs b e)) (ev_arg (evs b e)) ?b = Some b'" "base_inv b'" "lets_be ?b b'"
    using ucb unfolding tame_def by blast
  then show thesis using that eq by simp
qed

text \<open>Between two points of a round: the events of \<open>A\<close> are as they were.\<close>

definition undisturbed :: "event_ptr set \<Rightarrow> event_base \<Rightarrow> event_base \<Rightarrow> bool" where
  "undisturbed A b b' \<longleftrightarrow> (\<forall>e \<in> A. same_event (evs b e) (evs b' e) \<and> internal b' e = internal b e) \<and>
     event_break b' = event_break b \<and> event_continue b' = event_continue b \<and>
     closure_no b' = closure_no b \<and> (closure_ncalls b' = None \<longleftrightarrow> closure_ncalls b = None) \<and> deferred_cb_list b' = deferred_cb_list b"

lemma undisturbed_trans: "undisturbed A b b' \<Longrightarrow> undisturbed A' b' b'' \<Longrightarrow> A' \<subseteq> A \<Longrightarrow> undisturbed A' b b''"
  unfolding undisturbed_def by (auto intro: same_event_trans)

lemma undisturbed_kept: "kept b b' \<Longrightarrow> undisturbed A b b'"
  using rest_fields(3,4,6,8) [of b' b] by (simp add: kept_def undisturbed_def)

lemma undisturbed_plain: "undisturbed A b b' \<Longrightarrow> e \<in> A \<Longrightarrow> plain b e \<Longrightarrow> plain b' e \<and> log_entry b' e = log_entry b e \<and> internal b' e = internal b e"
  using plain_same [of b e b'] by (simp add: undisturbed_def)

lemma single_queue_step:
  assumes inv: "base_inv b" and p: "p < length (activequeues b)" "activequeues b ! p = e # es" and pl: "plain b e"
    and ucb: "tame ucb" and be: "be_del_ok be" and go: "\<not> event_break b" "\<not> event_continue b"
  obtains b' where "event_process_active_single_queue be clock ucb p c b =
      event_process_active_single_queue be clock ucb p (c + (if internal b e then 0 else 1)) b'"
    "base_inv b'" "activequeues b' = (activequeues b)[p := es]" "undisturbed (queued b QActive - {e}) b b'"
    "base_log b' = base_log b @ [log_entry b e]" "queued b' QActive = queued b QActive - {e}"
proof -
  have safe: "signal_safe b e" using pl by (simp add: plain_def)
  obtain b1 where b1: "(if ev_events (evs b e) AND EV_PERSIST \<noteq> 0 then event_queue_remove b e QActive
      else map_option snd (event_del_internal be b e)) = Some b1" "base_inv b1" "kept b b1" "activequeues b1 = (activequeues b)[p := es]"
    "queued b1 QActive = queued b QActive - {e}" by (rule take_off [OF inv p safe be])
  have "same_event (evs b e) (evs b1 e)" "internal b1 e = internal b e" using b1(3) by (simp_all add: kept_def)
  then have e1: "plain b1 e" "log_entry b1 e = log_entry b e"
    using plain_same [of b e b1] pl b1(3) rest_fields(6) [of b1 b] by (simp_all add: kept_def)
  obtain b2 where b2: "run_closure be clock ucb b1 e = Some b2" "base_inv b2" "lets_be (b1\<lparr>base_log := base_log b1 @ [log_entry b1 e]\<rparr>) b2"
    by (rule run_plain [OF b1(2) ucb e1(1)])
  have u1: "undisturbed (queued b1 QActive) b1 b2" using b2(3) by (simp add: lets_be_def undisturbed_def)
  have u: "undisturbed (queued b QActive - {e}) b b2" by (rule undisturbed_trans [OF undisturbed_kept [OF b1(3), of UNIV]]) (use u1 b1(5) in simp_all)
  have "\<not> event_break b2" "\<not> event_continue b2" using u go by (simp_all add: undisturbed_def)
  then have run: "event_process_active_single_queue be clock ucb p c b =
      event_process_active_single_queue be clock ucb p (c + (if internal b e then 0 else 1)) b2"
    using p b1(1) b2(1) \<open>internal b1 e = internal b e\<close> by (subst event_process_active_single_queue.simps) simp
  have "queued b2 QActive = queued b1 QActive"
    using queued_active [of b1] queued_active [of b2] b1(2) b2(2,3) by (simp add: base_inv_def lets_be_def)
  moreover have "base_log b1 = base_log b" using b1(3) rest_fields(7) [of b1 b] by (simp add: kept_def)
  ultimately show thesis using that [of b2] run b2 u b1(4,5) e1(2) by (simp add: lets_be_def)
qed

text \<open>A whole queue, in order.\<close>

lemma single_queue_run:
  assumes "base_inv b" "p < length (activequeues b)" "\<forall>e \<in> set (activequeues b ! p). plain b e"
    and ucb: "tame ucb" and be: "be_del_ok be" and "\<not> event_break b" "\<not> event_continue b"
  shows "\<exists>b'. event_process_active_single_queue be clock ucb p c b =
      Some (c + int (length (filter (\<lambda>e. \<not> internal b e) (activequeues b ! p))), b') \<and> base_inv b' \<and> activequeues b' = (activequeues b)[p := []] \<and>
    base_log b' = base_log b @ map (log_entry b) (activequeues b ! p) \<and> undisturbed (queued b QActive - set (activequeues b ! p)) b b'"
  using assms(1-3,6,7)
proof (induction "activequeues b ! p" arbitrary: b c)
  case Nil
  have "(activequeues b)[p := []] = activequeues b" using Nil.hyps by (metis list_update_id)
  moreover have "event_process_active_single_queue be clock ucb p c b = Some (c, b)"
    using Nil.prems(2) Nil.hyps [symmetric] by (subst event_process_active_single_queue.simps) simp
  ultimately show ?case using Nil.prems Nil.hyps [symmetric] undisturbed_kept [of b b] by simp
next
  case (Cons e es)
  have p: "activequeues b ! p = e # es" using Cons.hyps(2) by simp
  have pl: "plain b e" using Cons.prems(3) p by simp
  have qi: "queues_inv b" using Cons.prems(1) by (simp add: base_inv_def)
  have es: "e \<notin> set es" "set es \<subseteq> queued b QActive" using active_queue [OF qi Cons.prems(2)] p by auto
  obtain b1 where b1: "event_process_active_single_queue be clock ucb p c b =
      event_process_active_single_queue be clock ucb p (c + (if internal b e then 0 else 1)) b1"
    "base_inv b1" "activequeues b1 = (activequeues b)[p := es]" "undisturbed (queued b QActive - {e}) b b1"
    "base_log b1 = base_log b @ [log_entry b e]" "queued b1 QActive = queued b QActive - {e}"
    by (rule single_queue_step [OF Cons.prems(1,2) p pl ucb be Cons.prems(4,5)])
  have p1: "es = activequeues b1 ! p" "p < length (activequeues b1)" using b1(3) Cons.prems(2) by simp_all
  have same: "plain b1 x" "log_entry b1 x = log_entry b x" "internal b1 x = internal b x" if "x \<in> set es" for x
    using undisturbed_plain [OF b1(4), of x] that es Cons.prems(3) p by auto
  have go: "\<not> event_break b1" "\<not> event_continue b1" using b1(4) Cons.prems(4,5) by (simp_all add: undisturbed_def)
  have plain1: "\<forall>e \<in> set (activequeues b1 ! p). plain b1 e" using same(1) p1(1) by simp
  from Cons.hyps(1) [OF p1(1) b1(2) p1(2) plain1 go, of "c + (if internal b e then 0 else 1)"] obtain b' where
    b': "event_process_active_single_queue be clock ucb p (c + (if internal b e then 0 else 1)) b1 =
      Some (c + (if internal b e then 0 else 1) + int (length (filter (\<lambda>e. \<not> internal b1 e) es)), b')" "base_inv b'"
      "activequeues b' = (activequeues b1)[p := []]" "base_log b' = base_log b1 @ map (log_entry b1) es"
      "undisturbed (queued b1 QActive - set es) b1 b'" unfolding p1(1) [symmetric] by blast
  have "filter (\<lambda>e. \<not> internal b1 e) es = filter (\<lambda>e. \<not> internal b e) es" by (rule filter_cong) (simp_all add: same(3))
  moreover have "map (log_entry b1) es = map (log_entry b) es" using same(2) by simp
  moreover have "undisturbed (queued b QActive - set (e # es)) b b'"
    by (rule undisturbed_trans [OF b1(4)]) (use b'(5) b1(6) in \<open>auto simp: Diff_insert2 [symmetric]\<close>)
  ultimately show ?case using b1(1,3,5) b'(1-4) p by (intro exI [of _ b']) simp
qed

text \<open>Looking for the first queue that is not empty.\<close>

lemma process_queues_skip:
  "k \<le> p \<Longrightarrow> p \<le> length (activequeues b) \<Longrightarrow> \<forall>j. k \<le> j \<and> j < p \<longrightarrow> activequeues b ! j = [] \<Longrightarrow>
   process_queues be clock ucb k c b = process_queues be clock ucb p c b"
proof (induction "p - k" arbitrary: k)
  case (Suc n)
  then have "k < p" "activequeues b ! k = []" by simp_all
  then have "process_queues be clock ucb k c b = process_queues be clock ucb (Suc k) c b"
    using Suc.prems by (subst process_queues.simps) simp
  also have "\<dots> = process_queues be clock ucb p c b" using Suc.hyps(2) \<open>k < p\<close> Suc.prems by (intro Suc.hyps(1)) simp_all
  finally show ?case .
qed simp

lemma event_process_active_run:
  assumes inv: "base_inv b" and p: "p < length (activequeues b)" "activequeues b ! p \<noteq> []" "\<forall>k < p. activequeues b ! k = []"
    and pl: "\<forall>e \<in> set (activequeues b ! p). plain b e \<and> \<not> internal b e" and ucb: "tame ucb" and be: "be_del_ok be"
    and go: "\<not> event_break b" "\<not> event_continue b" and def: "deferred_cb_list b = []"
  shows "\<exists>b'. event_process_active be clock ucb dcb b = Some (int (length (activequeues b ! p)), b') \<and> base_inv b' \<and>
    activequeues b' = (activequeues b)[p := []] \<and> base_log b' = base_log b @ map (log_entry b) (activequeues b ! p) \<and>
    undisturbed (queued b QActive - set (activequeues b ! p)) b b'"
proof -
  let ?b = "b\<lparr>event_running_priority := int p\<rparr>"
  have pl': "\<forall>e \<in> set (activequeues ?b ! p). plain ?b e" using pl by (simp add: plain_def signal_safe_def)
  obtain b1 where b1: "event_process_active_single_queue be clock ucb p 0 ?b =
      Some (0 + int (length (filter (\<lambda>e. \<not> internal ?b e) (activequeues ?b ! p))), b1)" "base_inv b1" "activequeues b1 = (activequeues ?b)[p := []]"
    "base_log b1 = base_log ?b @ map (log_entry ?b) (activequeues ?b ! p)" "undisturbed (queued ?b QActive - set (activequeues ?b ! p)) ?b b1"
    using single_queue_run [of ?b p ucb be clock 0] inv p(1) pl' ucb be go by auto
  have "filter (\<lambda>e. \<not> internal b e) (activequeues b ! p) = activequeues b ! p" using pl by (simp add: filter_id_conv)
  then have c: "event_process_active_single_queue be clock ucb p 0 ?b = Some (int (length (activequeues b ! p)), b1)" using b1(1) by simp
  have "process_queues be clock ucb 0 0 b = process_queues be clock ucb p 0 b"
    by (rule process_queues_skip) (use p in simp_all)
  also have "\<dots> = Some (int (length (activequeues b ! p)), b1)" using p(1,2) c by (subst process_queues.simps) simp
  finally have q: "process_queues be clock ucb 0 0 b = Some (int (length (activequeues b ! p)), b1)" .
  have u: "undisturbed (queued b QActive - set (activequeues b ! p)) b b1" using b1(5) by (simp add: undisturbed_def)
  then have "event_process_deferred_callbacks dcb b1 = Some (0, b1)"
    using def by (simp add: undisturbed_def event_process_deferred_callbacks_def deferred_loop.simps)
  then have "event_process_active be clock ucb dcb b = Some (int (length (activequeues b ! p)), b1\<lparr>event_running_priority := -1\<rparr>)"
    using q by (simp add: event_process_active_def)
  moreover have "map (log_entry ?b) xs = map (log_entry b) xs" for xs by (simp add: log_entry_def)
  ultimately show ?thesis using b1 u by (intro exI [of _ "b1\<lparr>event_running_priority := -1\<rparr>"]) (simp add: undisturbed_def)
qed


definition demo_active :: event_base where
  "demo_active = the (event_active demo_backend demo_base 2 EV_TIMEOUT 1)"

definition idle :: user_callbacks where
  "idle c fd res arg b = Some b"

lemma idle_tame: "tame idle"
  by (simp add: tame_def idle_def lets_be_def)


end
