(* ===== verification/Event_Live.thy ===== *)
theory Event_Live
  imports Event_Run "HOL-Library.Multiset"
begin

text \<open>
  The loop as a whole, for a base on which only timers are pending: if the clock advances, the loop ends,
  and it has called every timer exactly once.
\<close>

section \<open>Running a queue when the callbacks leave the base alone\<close>

text \<open>The callbacks of \<open>es\<close> ran, in this order, and their events are no longer pending.\<close>

definition ran :: "event_base \<Rightarrow> event_ptr list \<Rightarrow> event_base \<Rightarrow> bool" where
  "ran b es b' \<longleftrightarrow> base_inv b' \<and> (\<forall>q. queued b' q = queued b q - set es) \<and> base_log b' = base_log b @ map (log_entry b) es \<and>
     kept b (b'\<lparr>base_log := base_log b\<rparr>)"

lemma kept_entry: "kept b b' \<Longrightarrow> log_entry b' e = log_entry b e"
  using same_event_fields [of "evs b e" "evs b' e"] same_event_config [of "evs b e" "evs b' e"] by (simp add: kept_def log_entry_def config_def)

lemma rest_log: "rest (b\<lparr>base_log := l\<rparr>) = rest (c\<lparr>base_log := l\<rparr>) \<longleftrightarrow> rest (b\<lparr>base_log := m\<rparr>) = rest (c\<lparr>base_log := m\<rparr>)"
  by (simp add: rest_def ctl_def)

lemma kept_log:
  "kept (b\<lparr>base_log := l\<rparr>) (c\<lparr>base_log := l\<rparr>) \<Longrightarrow> kept (b\<lparr>base_log := m\<rparr>) (c\<lparr>base_log := m\<rparr>)"
  using rest_log [where b = c and l = l and c = b and m = m] by (simp add: kept_def)

lemma ran_none: "base_inv b \<Longrightarrow> ran b [] b"
  by (simp add: ran_def)

lemma ran_trans:
  assumes a: "ran b es b1" and b: "ran b1 fs b2"
  shows "ran b (es @ fs) b2"
proof -
  have k1: "kept b (b1\<lparr>base_log := base_log b\<rparr>)" using a by (simp add: ran_def)
  have "kept (b1\<lparr>base_log := base_log b1\<rparr>) (b2\<lparr>base_log := base_log b1\<rparr>)" using b by (simp add: ran_def)
  from kept_log [OF this, of "base_log b"] have k: "kept b (b2\<lparr>base_log := base_log b\<rparr>)" by (rule kept_trans [OF k1])
  have "log_entry b1 e = log_entry b e" for e using kept_entry [OF k1, of e] by (simp add: log_entry_def)
  then have "map (log_entry b1) fs = map (log_entry b) fs" by simp
  with a b k show ?thesis by (auto simp: ran_def)
qed

lemma idle_step:
  assumes inv: "base_inv b" and p: "p < length (activequeues b)" "activequeues b ! p = e # es"
    and pl: "plain b e" "ev_events (evs b e) AND EV_PERSIST = 0" and be: "be_del_ok be"
    and go: "\<not> event_break b" "\<not> event_continue b"
  obtains b' where "event_process_active_single_queue be clock idle p c b =
      event_process_active_single_queue be clock idle p (c + (if internal b e then 0 else 1)) b'"
    "ran b [e] b'" "activequeues b' = (activequeues b)[p := es]"
proof -
  have qi: "queues_inv b" using inv by (simp add: base_inv_def)
  have e: "e \<in> queued b QActive" "ev_pri (evs b e) = p" using active_queue [OF qi p(1)] p(2) by auto
  have base: "ev_base (evs b e)" using qi e by (auto simp: queues_inv_def)
  have safe: "signal_safe b e" using pl by (simp add: plain_def)
  obtain b1 where b1: "event_del_internal be b e = Some (0, b1)" "deleted b e b1" "base_inv b1"
    by (rule event_del_be_ok [OF inv base safe be])
  let ?b2 = "b1\<lparr>base_log := base_log b @ [log_entry b e]\<rparr>"
  have k: "kept b b1" using b1(2) by (simp add: deleted_def)
  have r: "rest b1 = rest b" using k by (simp add: kept_def)
  have same: "same_event (evs b e) (evs b1 e)" "internal b1 e = internal b e" using k by (simp_all add: kept_def)
  have "run_closure be clock idle b1 e = run_callback idle b1 e"
    using pl(1) same_event_fields [OF same(1)] by (auto simp: plain_def run_closure_def event_persist_closure_def)
  then have run: "run_closure be clock idle b1 e = Some ?b2"
    using kept_entry [OF k, of e] rest_fields(7) [OF r] by (simp add: run_callback_def idle_def Let_def log_entry_def)
  have "\<not> event_break ?b2" "\<not> event_continue ?b2" using go rest_fields(3,4) [OF r] by simp_all
  then have "event_process_active_single_queue be clock idle p c b =
      event_process_active_single_queue be clock idle p (c + (if internal b e then 0 else 1)) ?b2"
    using p b1(1) run pl(2) same(2) by (subst event_process_active_single_queue.simps) simp
  moreover have "ran b [e] ?b2"
  proof -
    have "b1\<lparr>base_log := base_log b\<rparr> = b1" using rest_fields(7) [OF r] by simp
    then show ?thesis using b1(2,3) k by (simp add: ran_def deleted_def)
  qed
  moreover have "activequeues ?b2 = (activequeues b)[p := es]" using b1(2) e(2) p(2) by (simp add: deleted_def dequeue_def)
  ultimately show thesis by (rule that)
qed

lemma idle_queue:
  assumes "base_inv b" "p < length (activequeues b)" "\<forall>e \<in> set (activequeues b ! p). plain b e \<and> ev_events (evs b e) AND EV_PERSIST = 0 \<and> \<not> internal b e"
    and be: "be_del_ok be" and "\<not> event_break b" "\<not> event_continue b"
  shows "\<exists>b'. event_process_active_single_queue be clock idle p c b = Some (c + int (length (activequeues b ! p)), b') \<and> ran b (activequeues b ! p) b'"
  using assms(1-3,5,6)
proof (induction "activequeues b ! p" arbitrary: b c)
  case Nil
  then have "event_process_active_single_queue be clock idle p c b = Some (c, b)"
    by (subst event_process_active_single_queue.simps) simp
  then show ?case using Nil ran_none by simp
next
  case (Cons e es)
  have p: "activequeues b ! p = e # es" using Cons.hyps(2) by simp
  have pl: "plain b e" "ev_events (evs b e) AND EV_PERSIST = 0" "\<not> internal b e" using Cons.prems(3) p by simp_all
  obtain b1 where b1: "event_process_active_single_queue be clock idle p c b =
      event_process_active_single_queue be clock idle p (c + (if internal b e then 0 else 1)) b1" "ran b [e] b1" "activequeues b1 = (activequeues b)[p := es]"
    by (rule idle_step [OF Cons.prems(1,2) p pl(1,2) be Cons.prems(4,5)])
  have k: "kept b (b1\<lparr>base_log := base_log b\<rparr>)" using b1(2) by (simp add: ran_def)
  have s: "same_event (evs b x) (evs b1 x)" "internal b1 x = internal b x" for x using k by (simp_all add: kept_def)
  have go: "\<not> event_break b1" "\<not> event_continue b1" "closure_no b1 = closure_no b" "closure_ncalls b1 = None \<longleftrightarrow> closure_ncalls b = None"
    using rest_fields(3,4,6) [of "b1\<lparr>base_log := base_log b\<rparr>" b] k Cons.prems(4,5) by (simp_all add: kept_def)
  have pl1: "\<forall>x \<in> set (activequeues b1 ! p). plain b1 x \<and> ev_events (evs b1 x) AND EV_PERSIST = 0 \<and> \<not> internal b1 x"
  proof
    fix x assume "x \<in> set (activequeues b1 ! p)"
    then have "x \<in> set (activequeues b ! p)" using b1(3) p Cons.prems(2) by simp
    then show "plain b1 x \<and> ev_events (evs b1 x) AND EV_PERSIST = 0 \<and> \<not> internal b1 x"
      using Cons.prems(3) plain_same(1) [OF _ s(1) go(3,4)] same_event_fields [OF s(1) [of x]] s(2) [of x] by auto
  qed
  have "es = activequeues b1 ! p" "base_inv b1" "p < length (activequeues b1)" using b1(2,3) Cons.prems(2) by (simp_all add: ran_def)
  from Cons.hyps(1) [OF this pl1 go(1,2), of "c + 1"] obtain b' where
    b': "event_process_active_single_queue be clock idle p (c + 1) b1 = Some (c + 1 + int (length es), b')" "ran b1 es b'"
    using \<open>es = activequeues b1 ! p\<close> by auto
  show ?case using b1(1) b' pl(3) p ran_trans [OF b1(2) b'(2)] by (intro exI [of _ b']) simp
qed

section \<open>A round\<close>

definition tv_ok :: "timeval \<Rightarrow> bool" where
  "tv_ok t \<longleftrightarrow> 0 \<le> tv_usec t \<and> tv_usec t < 1000000"

definition timer_event :: "event \<Rightarrow> bool" where
  "timer_event ev \<longleftrightarrow> ev_closure ev = EV_CLOSURE_NONE \<and> ev_events ev AND EV_SIGNAL = 0 \<and> ev_events ev AND EV_PERSIST = 0"

lemma timer_event_plain: "timer_event (evs b e) \<Longrightarrow> plain b e \<and> signal_safe b e \<and> ev_events (evs b e) AND EV_PERSIST = 0"
  by (simp add: timer_event_def plain_def signal_safe_def)

text \<open>Only timers are pending, and those that expired and were not called yet.\<close>

definition timers_only :: "event_base \<Rightarrow> bool" where
  "timers_only b \<longleftrightarrow> base_inv b \<and> queued b QInserted = {} \<and> queued b QTimeout \<inter> queued b QActive = {} \<and>
     (\<forall>e \<in> queued b QTimeout \<union> queued b QActive. timer_event (evs b e) \<and> \<not> internal b e) \<and>
     (\<forall>e \<in> queued b QTimeout. tv_ok (ev_timeout (timeheap b) e)) \<and> tv_ok (tv_cache b) \<and> \<not> event_gotterm b \<and> \<not> event_break b \<and>
     deferred_cb_list b = [] \<and> active_count b = 0 \<and> virtual_event_count b = 0 \<and> event_running_priority b = -1"

definition pending :: "event_base \<Rightarrow> event_ptr set" where
  "pending b = queued b QTimeout \<union> queued b QActive"

text \<open>The calls that are still to come.\<close>

definition call :: "event_base \<Rightarrow> event_ptr \<Rightarrow> event_ptr \<times> int \<times> u16 \<times> nat" where
  "call b e = (if e \<in> queued b QActive then log_entry b e else (e, ev_fd (evs b e), EV_TIMEOUT, ev_arg (evs b e)))"

definition calls :: "event_base \<Rightarrow> (event_ptr \<times> int \<times> u16 \<times> nat) multiset" where
  "calls b = image_mset (call b) (mset_set (pending b))"

lemma pending_finite: "base_inv b \<Longrightarrow> finite (pending b)"
  by (simp add: pending_def base_inv_def queues_inv_finite)

lemma timers_only_ran:
  assumes t: "timers_only b" and r: "ran b es b'" and es: "distinct es" "set es \<subseteq> queued b QActive"
  shows "timers_only b'" "pending b' = pending b - set es" "mset (base_log b') + calls b' = mset (base_log b) + calls b"
proof -
  have k: "kept b (b'\<lparr>base_log := base_log b\<rparr>)" and q: "queued b' q = queued b q - set es" and inv: "base_inv b'" for q
    using r by (simp_all add: ran_def)
  have s: "same_event (evs b x) (evs b' x)" "internal b' x = internal b x" for x using k by (simp_all add: kept_def)
  have rest: "rest (b'\<lparr>base_log := base_log b\<rparr>) = rest b" "ev_timeout (timeheap b') = ev_timeout (timeheap b)"
    "closure_ncalls b' = None \<longleftrightarrow> closure_ncalls b = None" using k by (simp_all add: kept_def)
  have c: "tv_cache b' = tv_cache b" "event_gotterm b' = event_gotterm b" "event_break b' = event_break b"
    "event_running_priority b' = event_running_priority b" "closure_no b' = closure_no b"
    "deferred_cb_list b' = deferred_cb_list b" "active_count b' = active_count b" "virtual_event_count b' = virtual_event_count b"
    using rest_fields(11) [OF rest(1)] by (simp_all add: ctl_def)
  have ev: "ev_events (evs b' x) = ev_events (evs b x)" "ev_fd (evs b' x) = ev_fd (evs b x)" "ev_arg (evs b' x) = ev_arg (evs b x)" for x
    using same_event_config [OF s(1) [of x]] by (simp_all add: config_def)
  have pl: "timer_event (evs b' x) = timer_event (evs b x)" for x
    using same_event_config [OF s(1) [of x]] by (simp add: config_def timer_event_def)
  show to: "timers_only b'"
    using t inv q c rest(2) pl s(2) by (auto simp: timers_only_def)
  show p: "pending b' = pending b - set es" using q by (auto simp: pending_def)
  have le: "log_entry b' x = log_entry b x" for x using kept_entry [OF k, of x] by (simp add: log_entry_def)
  have fin: "finite (pending b)" using t pending_finite by (simp add: timers_only_def)
  have same: "call b' x = call b x" if "x \<in> pending b'" for x using that q ev le by (auto simp: call_def pending_def)
  then have "calls b' = image_mset (call b) (mset_set (pending b - set es))"
    unfolding calls_def p by (intro image_mset_cong) (simp add: p fin)
  moreover have "mset_set (pending b) = mset es + mset_set (pending b - set es)"
  proof -
    have "set es \<subseteq> pending b" using es by (auto simp: pending_def)
    then have "pending b = set es \<union> (pending b - set es)" by blast
    then have "mset_set (pending b) = mset_set (set es) + mset_set (pending b - set es)"
      using mset_set_Union [of "set es" "pending b - set es"] fin by simp
    then show ?thesis using mset_set_set [OF es(1)] by simp
  qed
  moreover have "map (call b) es = map (log_entry b) es" using es(2) by (auto simp: call_def)
  then have "image_mset (call b) (mset es) = mset (map (log_entry b) es)" by (metis mset_map)
  ultimately have "calls b = mset (map (log_entry b) es) + calls b'" by (simp only: calls_def [of b] image_mset_union)
  then show "mset (base_log b') + calls b' = mset (base_log b) + calls b" using r by (simp add: ran_def)
qed

lemma timers_only_tick:
  assumes t: "timers_only b" and r: "timed_out b D b'" and D: "D \<subseteq> queued b QTimeout" and inv: "base_inv b'"
    and tv: "ev_timeout (timeheap b') = ev_timeout (timeheap b)"
  shows "timers_only b'" "pending b' = pending b" "base_log b' = base_log b" "calls b' = calls b" "event_continue b' = event_continue b"
proof -
  have q: "queued b' QTimeout = queued b QTimeout - D" "queued b' QInserted = {}" "queued b' QActive = queued b QActive \<union> D"
    and ctl: "ctl b' = ctl b" and cl: "closure_ncalls b' = None \<longleftrightarrow> closure_ncalls b = None" and int: "internal b' x = internal b x"
    and cfg: "config (evs b' x) = config (evs b x)" for x
    using r t by (simp_all add: timed_out_def timers_only_def)
  note c = ctl_fields [OF ctl]
  show "base_log b' = base_log b" by (rule c(6))
  have s: "same_event (evs b x) (evs b' x)" if "x \<notin> D" for x using r that by (simp add: timed_out_def)
  have ev: "ev_events (evs b' x) = ev_events (evs b x)" "ev_fd (evs b' x) = ev_fd (evs b x)" "ev_arg (evs b' x) = ev_arg (evs b x)"
    "ev_closure (evs b' x) = ev_closure (evs b x)" for x using cfg [of x] by (simp_all add: config_def)
  show p: "pending b' = pending b" using q D by (auto simp: pending_def)
  have pl: "timer_event (evs b' x) = timer_event (evs b x)" for x by (simp add: timer_event_def ev)
  show "timers_only b'" using t inv q c tv int pl D by (auto simp: timers_only_def)
  have "call b' x = call b x" if "x \<in> pending b" for x
  proof (cases "x \<in> D")
    case True
    then have "x \<notin> queued b QActive" "ev_res (evs b' x) = EV_TIMEOUT" using D t r by (auto simp: timers_only_def timed_out_def)
    with True q ev show ?thesis by (simp add: call_def log_entry_def)
  next
    case False
    then show ?thesis using q ev same_event_fields [OF s [OF False]] by (simp add: call_def log_entry_def)
  qed
  moreover have "finite (pending b)" using t pending_finite by (simp add: timers_only_def)
  ultimately show "calls b' = calls b" unfolding calls_def p by (intro image_mset_cong) simp
  show "event_continue b' = event_continue b" using r t by (simp add: timed_out_def timers_only_def)
qed

lemma ran_priority:
  assumes "ran (b\<lparr>event_running_priority := p\<rparr>) es b1" "event_running_priority b = -1"
  shows "ran b es (b1\<lparr>event_running_priority := -1\<rparr>)"
proof -
  have "rest (b1\<lparr>base_log := base_log b\<rparr>) = rest (b\<lparr>event_running_priority := p\<rparr>)" using assms(1) by (simp add: ran_def kept_def)
  then have "rest (b1\<lparr>event_running_priority := -1, base_log := base_log b\<rparr>) = rest b" using assms(2) by (simp add: rest_def ctl_def)
  moreover have "map (log_entry (b\<lparr>event_running_priority := p\<rparr>)) es = map (log_entry b) es" by (simp add: log_entry_def)
  ultimately show ?thesis using assms(1) by (simp add: ran_def kept_def)
qed

text \<open>What is active is called, one priority at a time.\<close>

lemma process_timers:
  assumes t: "timers_only b" and act: "queued b QActive \<noteq> {}" and be: "be_del_ok be" and go: "\<not> event_continue b"
  obtains n b' where "event_process_active be clock idle dcb b = Some (n, b')" "timers_only b'" "pending b' \<subset> pending b"
    "mset (base_log b') + calls b' = mset (base_log b) + calls b" "ev_timeout (timeheap b') = ev_timeout (timeheap b)"
    "queued b' QTimeout \<subseteq> queued b QTimeout"
proof -
  have inv: "base_inv b" "queues_inv b" using t by (simp_all add: timers_only_def base_inv_def)
  have "\<exists>p. p < length (activequeues b) \<and> activequeues b ! p \<noteq> []"
    using act queued_active [OF inv(2)] by (auto simp: in_set_conv_nth [of _ "activequeues b"])
  then obtain p where p: "p < length (activequeues b)" "activequeues b ! p \<noteq> []" "\<forall>k < p. activequeues b ! k = []"
    using exists_least_iff [of "\<lambda>p. p < length (activequeues b) \<and> activequeues b ! p \<noteq> []"] by (meson less_trans)
  let ?q = "activequeues b ! p" and ?b = "b\<lparr>event_running_priority := int p\<rparr>"
  have q: "distinct ?q" "set ?q \<subseteq> queued b QActive" using active_queue [OF inv(2) p(1)] by auto
  have pl: "\<forall>e \<in> set (activequeues ?b ! p). plain ?b e \<and> ev_events (evs ?b e) AND EV_PERSIST = 0 \<and> \<not> internal ?b e"
  proof
    fix e assume "e \<in> set (activequeues ?b ! p)"
    then have "timer_event (evs ?b e)" "\<not> internal ?b e" using q(2) t by (auto simp: timers_only_def)
    then show "plain ?b e \<and> ev_events (evs ?b e) AND EV_PERSIST = 0 \<and> \<not> internal ?b e" using timer_event_plain by blast
  qed
  obtain b1 where b1: "event_process_active_single_queue be clock idle p 0 ?b = Some (int (length ?q), b1)" "ran ?b ?q b1"
    using idle_queue [OF _ _ pl be, of clock 0] inv p go t by (auto simp: timers_only_def)
  let ?b' = "b1\<lparr>event_running_priority := -1\<rparr>"
  have r: "ran b ?q ?b'" using b1(2) t by (intro ran_priority) (simp_all add: timers_only_def)
  note to = timers_only_ran [OF t r q]
  have "process_queues be clock idle 0 0 b = process_queues be clock idle p 0 b" by (rule process_queues_skip) (use p in simp_all)
  also have "\<dots> = Some (int (length ?q), b1)" using p(1,2) b1(1) by (subst process_queues.simps) simp
  finally have run: "process_queues be clock idle 0 0 b = Some (int (length ?q), b1)" .
  have "deferred_cb_list b1 = []" using to(1) by (simp add: timers_only_def)
  then have "event_process_active be clock idle dcb b = Some (int (length ?q), ?b')"
    using run by (simp add: event_process_active_def event_process_deferred_callbacks_def deferred_loop.simps)
  moreover have "pending ?b' \<subset> pending b"
  proof -
    have "hd ?q \<in> set ?q" "set ?q \<subseteq> pending b" using p(2) q(2) by (auto simp: pending_def)
    then have "hd ?q \<in> pending b - (pending b - set ?q)" by blast
    then show ?thesis unfolding to(2) by blast
  qed
  moreover have "ev_timeout (timeheap ?b') = ev_timeout (timeheap b)" "queued ?b' QTimeout \<subseteq> queued b QTimeout"
    using r by (auto simp: ran_def kept_def)
  ultimately show thesis using that to(1,3) by blast
qed

lemma timeout_next_defined:
  assumes "base_inv b" "\<forall>u \<in> insert (gettime b clock) (ev_timeout (timeheap b) ` queued b QTimeout). 0 \<le> tv_usec u \<and> tv_usec u < 1000000"
  shows "\<exists>tv. timeout_next clock b = Some tv"
proof (cases "queued b QTimeout = {}")
  case True
  have h: "min_heap_inv (timeheap b)" "heap_elems (timeheap b) = {}" using assms(1) True by (simp_all add: base_inv_def queues_inv_def)
  show ?thesis by (rule min_heap_top_least [OF h(1)]) (use h(2) in \<open>simp_all add: timeout_next_def\<close>)
next
  case False
  then show ?thesis using timeout_next_spec [OF assms(1) False assms(2)] by blast
qed

text \<open>A clock whose times are well formed, a backend that reports nothing and callbacks that leave the base alone.\<close>

definition timer_env :: "loop_env \<Rightarrow> bool" where
  "timer_env env \<longleftrightarrow> le_ucb env = idle \<and> be_del_ok (le_backend env) \<and> (\<forall>i b tv. le_dispatch env i b tv = Some (0, b)) \<and>
     le_monotonic env \<and> \<not> le_no_cache env \<and> (\<forall>i k. tv_ok (le_clock env i k))"

text \<open>The clock of the loop reaches every deadline of the base and does not fall behind it again.\<close>

definition clock_reaches :: "loop_env \<Rightarrow> event_base \<Rightarrow> bool" where
  "clock_reaches env b \<longleftrightarrow> (\<exists>n. \<forall>e \<in> queued b QTimeout. \<forall>i \<ge> n. \<forall>k. ev_timeout (timeheap b) e \<le> le_clock env i k)"

lemma pending_upd [simp]:
  "pending (b\<lparr>tv_cache := t\<rparr>) = pending b" "pending (b\<lparr>event_tv := t\<rparr>) = pending b" "pending (b\<lparr>event_continue := f\<rparr>) = pending b"
  by (simp_all add: pending_def)

lemma calls_upd [simp]:
  "calls (b\<lparr>tv_cache := t\<rparr>) = calls b" "calls (b\<lparr>event_tv := t\<rparr>) = calls b" "calls (b\<lparr>event_continue := f\<rparr>) = calls b"
proof -
  have "call (b\<lparr>tv_cache := t\<rparr>) = call b" "call (b\<lparr>event_tv := t\<rparr>) = call b" "call (b\<lparr>event_continue := f\<rparr>) = call b"
    by (simp_all add: fun_eq_iff call_def log_entry_def)
  then show "calls (b\<lparr>tv_cache := t\<rparr>) = calls b" "calls (b\<lparr>event_tv := t\<rparr>) = calls b" "calls (b\<lparr>event_continue := f\<rparr>) = calls b"
    by (simp_all add: calls_def)
qed

lemma timers_only_upd [simp]:
  "timers_only (b\<lparr>event_tv := t\<rparr>) = timers_only b" "timers_only (b\<lparr>event_continue := f\<rparr>) = timers_only b"
  by (simp_all add: timers_only_def internal_def)

lemma timers_only_cache: "timers_only b \<Longrightarrow> tv_ok t \<Longrightarrow> timers_only (b\<lparr>tv_cache := t\<rparr>)"
  by (simp add: timers_only_def internal_def)

lemma timers_only_counts:
  assumes "timers_only b"
  shows "N_ACTIVE_CALLBACKS b = 0 \<longleftrightarrow> queued b QActive = {}" "queued b QActive = {} \<Longrightarrow> event_haveevents b \<longleftrightarrow> pending b \<noteq> {}"
proof -
  have inv: "queues_inv b" using assms by (simp add: timers_only_def base_inv_def)
  have fin: "finite (queued b q)" for q by (rule queues_inv_finite [OF inv])
  have "event_count_active b = int (card (queued b QActive))" using inv by (simp add: queues_inv_def)
  then show "N_ACTIVE_CALLBACKS b = 0 \<longleftrightarrow> queued b QActive = {}" using assms fin by (simp add: N_ACTIVE_CALLBACKS_def timers_only_def)
  assume act: "queued b QActive = {}"
  have "{e \<in> queued b QTimeout. \<not> internal b e} = queued b QTimeout" using assms by (auto simp: timers_only_def)
  then have "event_count b = int (card (queued b QTimeout))" using inv assms act by (simp add: queues_inv_def counted_def timers_only_def)
  then show "event_haveevents b \<longleftrightarrow> pending b \<noteq> {}" using assms act fin by (auto simp: event_haveevents_def timers_only_def pending_def card_gt_0_iff)
qed

text \<open>
  A round in which something is pending goes on; nothing is lost, and once the clock is past all
  deadlines at least one event is called.
\<close>

lemma timer_round:
  assumes env: "timer_env env" and t: "timers_only b" and pend: "pending b \<noteq> {}"
  obtains b' where "loop_round env False False i b = Some (Continue b')" "timers_only b'" "pending b' \<subseteq> pending b"
    "mset (base_log b') + calls b' = mset (base_log b) + calls b" "ev_timeout (timeheap b') = ev_timeout (timeheap b)"
    "(\<forall>e \<in> queued b QTimeout. \<forall>k. ev_timeout (timeheap b) e \<le> le_clock env i k) \<longrightarrow> pending b' \<noteq> pending b"
    "queued b' QTimeout \<subseteq> queued b QTimeout"
proof -
  have be: "be_del_ok (le_backend env)" and ok: "tv_ok (le_clock env i k)" for k using env by (simp_all add: timer_env_def)
  define b1 where "b1 = b\<lparr>event_continue := False\<rparr>"
  have b1: "timers_only b1" "pending b1 = pending b" "calls b1 = calls b" "base_log b1 = base_log b" "timeheap b1 = timeheap b" "queued b1 = queued b"
    using t by (simp_all add: b1_def)
  have "base_inv b1" "\<forall>u \<in> insert (gettime b1 (le_clock env i 1)) (ev_timeout (timeheap b1) ` queued b1 QTimeout). 0 \<le> tv_usec u \<and> tv_usec u < 1000000"
    using b1(1) ok [of 1] by (auto simp: timers_only_def tv_ok_def gettime_def)
  then have "\<exists>tv. timeout_next (le_clock env i 1) b1 = Some tv" by (rule timeout_next_defined)
  then obtain tv where tv: "(if N_ACTIVE_CALLBACKS b1 = 0 \<and> \<not> False then timeout_next (le_clock env i 1) b1 else Some (Some (Timeval 0 0))) = Some tv"
    by (cases "N_ACTIVE_CALLBACKS b1 = 0") auto
  have have_ev: "\<not> (\<not> event_haveevents b1 \<and> N_ACTIVE_CALLBACKS b1 = 0)" using timers_only_counts [OF b1(1)] pend b1(2) by auto
  define b3 where "b3 = clear_time_cache (b1\<lparr>event_tv := gettime b1 (le_clock env i 2)\<rparr>)"
  define b5 where "b5 = update_time_cache (le_no_cache env) (le_clock env i 3) b3"
  have now: "gettime b5 (le_clock env i 4) \<in> {le_clock env i 3, le_clock env i 4}" "tv_cache b5 = le_clock env i 3"
    using env by (auto simp: b5_def b3_def update_time_cache_def clear_time_cache_def gettime_def timer_env_def Let_def)
  have "b5 = b1\<lparr>event_tv := gettime b1 (le_clock env i 2), tv_cache := le_clock env i 3\<rparr>"
    using env by (simp add: b5_def b3_def update_time_cache_def clear_time_cache_def gettime_def timer_env_def Let_def)
  then have b5: "timers_only b5" "pending b5 = pending b" "calls b5 = calls b" "base_log b5 = base_log b" "timeheap b5 = timeheap b"
      "queued b5 = queued b" "event_continue b5 = False"
    using b1 ok timers_only_cache [of "b1\<lparr>event_tv := gettime b1 (le_clock env i 2)\<rparr>"] by (simp_all add: b1_def)
  let ?D = "due_timers b5 (gettime b5 (le_clock env i 4))"
  have safe: "\<forall>e \<in> queued b5 QTimeout. signal_safe b5 e" "base_inv b5" using b5(1) timer_event_plain by (auto simp: timers_only_def)
  obtain b6 where b6: "timeout_process (le_backend env) (le_clock env i 4) b5 = Some b6" "base_inv b6" "timed_out b5 ?D b6"
      "ev_timeout (timeheap b6) = ev_timeout (timeheap b5)" using timeout_process_run [OF safe(2,1) be] by blast
  have D: "?D \<subseteq> queued b5 QTimeout" by (auto simp: due_timers_def)
  note to6 = timers_only_tick [OF b5(1) b6(3) D b6(2,4)]
  have run: "loop_round env False False i b =
      (if N_ACTIVE_CALLBACKS b6 \<noteq> 0 then do {
         (n, base7) \<leftarrow> event_process_active (le_backend env) (le_clock env i 5) (le_ucb env) (le_dcb env) b6;
         Some (Continue base7) } else Some (Continue b6))"
  proof -
    have "\<not> (event_gotterm b1 \<or> event_break b1)" using b1(1) by (simp add: timers_only_def)
    moreover have "timeout_correct (le_monotonic env) (le_clock env i 0) b1 = Some b1" using env by (simp add: timeout_correct_def timer_env_def)
    moreover have "le_dispatch env i b3 tv = Some (0, b3)" using env by (simp add: timer_env_def)
    ultimately show ?thesis using tv have_ev b6(1)
      unfolding loop_round_def b1_def [symmetric] Let_def by (cases "event_haveevents b1") (simp_all add: b3_def [symmetric] b5_def [symmetric])
  qed
  have due: "queued b6 QActive \<noteq> {}" if "\<forall>e \<in> queued b QTimeout. \<forall>k. ev_timeout (timeheap b) e \<le> le_clock env i k"
  proof -
    have "?D = queued b QTimeout" using that now(1) b5(5,6) by (auto simp: due_timers_def)
    then show ?thesis using b6(3) pend b5(6) by (auto simp: timed_out_def pending_def)
  qed
  show thesis
  proof (cases "queued b6 QActive = {}")
    case True
    then have "loop_round env False False i b = Some (Continue b6)" using run timers_only_counts(1) [OF to6(1)] by simp
    moreover have "queued b6 QTimeout \<subseteq> queued b QTimeout" using b6(3) b5(6) by (auto simp: timed_out_def)
    ultimately show thesis using that [of b6] to6 b5 b6(4) due True by auto
  next
    case False
    obtain n b7 where b7: "event_process_active (le_backend env) (le_clock env i 5) idle (le_dcb env) b6 = Some (n, b7)" "timers_only b7"
        "pending b7 \<subset> pending b6" "mset (base_log b7) + calls b7 = mset (base_log b6) + calls b6" "ev_timeout (timeheap b7) = ev_timeout (timeheap b6)"
        "queued b7 QTimeout \<subseteq> queued b6 QTimeout"
      using process_timers [OF to6(1) False be, of "le_clock env i 5" "le_dcb env"] to6(5) b5(7) by metis
    then have "loop_round env False False i b = Some (Continue b7)"
      using run timers_only_counts(1) [OF to6(1)] False env by (simp add: timer_env_def)
    moreover have "queued b7 QTimeout \<subseteq> queued b QTimeout" using b7(6) b6(3) b5(6) by (auto simp: timed_out_def)
    ultimately show thesis using that [of b7] to6 b5 b6(4) b7(2-5) by auto
  qed
qed

section \<open>The whole loop\<close>

lemma timer_rounds:
  assumes env: "timer_env env" and late: "\<forall>e \<in> T. \<forall>i \<ge> n. \<forall>k. ev_timeout (timeheap b) e \<le> le_clock env i k"
    and "timers_only b" "queued b QTimeout \<subseteq> T"
  shows "\<exists>b'. loop_rounds env False False i b = Some (1, b') \<and> timers_only b' \<and> pending b' = {} \<and>
    mset (base_log b') = mset (base_log b) + calls b"
  using assms(2-)
proof (induction "(n - i) + card (pending b)" arbitrary: i b rule: less_induct)
  case less
  have fin: "finite (pending b)" using less.prems(2) pending_finite by (simp add: timers_only_def)
  show ?case
  proof (cases "pending b = {}")
    case True
    let ?b = "b\<lparr>event_continue := False\<rparr>"
    have t: "timers_only ?b" "pending ?b = {}" using less.prems(2) True by simp_all
    then have "queued ?b QActive = {}" by (simp add: pending_def)
    then have cnt: "N_ACTIVE_CALLBACKS ?b = 0" "\<not> event_haveevents ?b" using timers_only_counts [OF t(1)] t(2) by simp_all
    have "queued ?b QTimeout = {}" "min_heap_inv (timeheap ?b)" "heap_elems (timeheap ?b) = {}"
      using t by (simp_all add: pending_def timers_only_def base_inv_def queues_inv_def)
    note h = this
    have tn: "timeout_next (le_clock env i 1) ?b = Some None"
      by (rule min_heap_top_least [OF h(2)]) (use h(3) in \<open>simp_all add: timeout_next_def\<close>)
    have "loop_round env False False i b = Some (Return 1 ?b)"
      using env cnt tn t(1) by (simp add: loop_round_def timeout_correct_def timer_env_def timers_only_def Let_def)
    then have "loop_rounds env False False i b = Some (1, ?b)" by (subst loop_rounds.simps) simp
    moreover have "calls b = {#}" using True by (simp add: calls_def)
    ultimately show ?thesis using t by simp
  next
    case False
    obtain b' where b': "loop_round env False False i b = Some (Continue b')" "timers_only b'" "pending b' \<subseteq> pending b"
      "mset (base_log b') + calls b' = mset (base_log b) + calls b" "ev_timeout (timeheap b') = ev_timeout (timeheap b)"
      "(\<forall>e \<in> queued b QTimeout. \<forall>k. ev_timeout (timeheap b) e \<le> le_clock env i k) \<longrightarrow> pending b' \<noteq> pending b"
      "queued b' QTimeout \<subseteq> queued b QTimeout"
      by (rule timer_round [OF env less.prems(2) False])
    have dec: "(n - Suc i) + card (pending b') < (n - i) + card (pending b)"
    proof (cases "i < n")
      case True
      moreover have "card (pending b') \<le> card (pending b)" by (rule card_mono [OF fin b'(3)])
      ultimately show ?thesis by simp
    next
      case False
      then have "pending b' \<noteq> pending b" using b'(6) less.prems(1,3) by (meson not_less subsetD)
      then have "card (pending b') < card (pending b)" using b'(3) by (intro psubset_card_mono [OF fin]) auto
      then show ?thesis using False by simp
    qed
    have "\<forall>e \<in> T. \<forall>i \<ge> n. \<forall>k. ev_timeout (timeheap b') e \<le> le_clock env i k" using less.prems(1) b'(5) by simp
    from less.hyps [OF dec this b'(2)] b'(7) less.prems(3) obtain b2 where
      b2: "loop_rounds env False False (Suc i) b' = Some (1, b2)" "timers_only b2" "pending b2 = {}" "mset (base_log b2) = mset (base_log b') + calls b'"
      by auto
    have "loop_rounds env False False i b = Some (1, b2)" using b'(1) b2(1) by (subst loop_rounds.simps) simp
    then show ?thesis using b2 b'(4) by auto
  qed
qed

lemma start_ok:
  assumes "timers_only b"
  shows "timers_only (loop_start b)" "queued (loop_start b) = queued b" "calls (loop_start b) = calls b"
    "base_log (loop_start b) = base_log b" "timeheap (loop_start b) = timeheap b"
proof -
  let ?b = "loop_start b"
  show q: "queued ?b = queued b" by (simp add: fun_eq_iff queued_def on_queue_def loop_start_def clear_time_cache_def)
  have i: "internal ?b = internal b" by (simp add: fun_eq_iff internal_def loop_start_def clear_time_cache_def)
  have f: "evs ?b = evs b" "timeheap ?b = timeheap b" "eventqueue ?b = eventqueue b" "activequeues ?b = activequeues b" "io ?b = io b" "sigmap ?b = sigmap b"
    "event_count ?b = event_count b" "event_count_active ?b = event_count_active b" by (simp_all add: loop_start_def clear_time_cache_def)
  have "base_inv ?b = base_inv b" unfolding base_inv_def queues_inv_def maps_inv_def counted_def q i f ..
  then show "timers_only ?b" using assms unfolding timers_only_def q i f by (simp add: loop_start_def clear_time_cache_def tv_ok_def)
  have "call ?b = call b" by (simp add: fun_eq_iff call_def q log_entry_def f)
  then show "calls ?b = calls b" by (simp add: calls_def pending_def q)
  show "base_log ?b = base_log b" "timeheap ?b = timeheap b" by (simp_all add: loop_start_def clear_time_cache_def)
qed

text \<open>
  C25. A base at rest (no loop running, nothing active or deferred, no exit requested) on which only one-shot timers are pending
  (no descriptors, no signals, no \<open>EV_PERSIST\<close>), with callbacks that leave the base alone, a backend that reports nothing
  and a monotonic clock that reaches the deadlines of the timers:
  \<open>event_base_loop\<close> ends, returns 1 because no events are left, and has called every timer exactly once, with the
  result \<open>EV_TIMEOUT\<close>.
\<close>

theorem event_base_loop_calls_every_timer:
  assumes "timer_env env" "timers_only b" "queued b QActive = {}" "\<not> running_loop b" "clock_reaches env b"
  shows "\<exists>b'. event_base_loop env False False b = Some (1, b') \<and> base_inv b' \<and> queued b' QTimeout = {} \<and> queued b' QActive = {} \<and>
    mset (base_log b') = mset (base_log b) + image_mset (\<lambda>e. (e, ev_fd (evs b e), EV_TIMEOUT, ev_arg (evs b e))) (mset_set (queued b QTimeout))"
proof -
  let ?b = "loop_start b"
  note st = start_ok [OF assms(2)]
  let ?T = "queued b QTimeout"
  obtain n where late: "\<forall>e \<in> ?T. \<forall>i \<ge> n. \<forall>k. ev_timeout (timeheap ?b) e \<le> le_clock env i k"
    using assms(5) unfolding st(5) clock_reaches_def by blast
  from timer_rounds [OF assms(1) late st(1), of 0] obtain b1 where
    b1: "loop_rounds env False False 0 ?b = Some (1, b1)" "timers_only b1" "pending b1 = {}" "mset (base_log b1) = mset (base_log ?b) + calls ?b"
    using st(2) by auto
  have "call b = (\<lambda>e. (e, ev_fd (evs b e), EV_TIMEOUT, ev_arg (evs b e)))" using assms(3) by (simp add: fun_eq_iff call_def)
  then have calls: "calls b = image_mset (\<lambda>e. (e, ev_fd (evs b e), EV_TIMEOUT, ev_arg (evs b e))) (mset_set ?T)"
    using assms(3) by (simp add: calls_def pending_def)
  let ?b' = "(clear_time_cache b1)\<lparr>running_loop := False\<rparr>"
  have q: "queued ?b' = queued b1" by (simp add: fun_eq_iff queued_def on_queue_def clear_time_cache_def)
  have i: "internal ?b' = internal b1" by (simp add: fun_eq_iff internal_def clear_time_cache_def)
  have "base_inv ?b' = base_inv b1"
    unfolding base_inv_def queues_inv_def maps_inv_def counted_def q i by (simp add: clear_time_cache_def)
  moreover have "event_base_loop env False False b = Some (1, ?b')" using assms(4) b1(1) by (simp add: event_base_loop_def)
  moreover have "base_log ?b' = base_log b1" by (simp add: clear_time_cache_def)
  ultimately show ?thesis
    using b1(2-4) q st(3,4) calls by (intro exI [of _ ?b']) (simp add: pending_def timers_only_def)
qed

definition demo_timers :: event_base where
  "demo_timers = demo_base\<lparr>evs := \<lambda>e. (demo_event e)\<lparr>ev_events := 0, ev_flags := (if e = 1 \<or> e = 2 then 0x81 else 0x80)\<rparr>,
     eventqueue := [], io := [], event_count := 2\<rparr>"

definition demo_env :: loop_env where
  "demo_env = \<lparr>le_backend = demo_backend, le_ucb = idle, le_dcb = (\<lambda>_. Some), le_dispatch = (\<lambda>_ b _. Some (0, b)), le_clock = (\<lambda>i _. Timeval (min (int i) 2147483647) 0),
     le_monotonic = True, le_no_cache = False\<rparr>"

lemma demo_env_ok: "timer_env demo_env"
  by (simp add: timer_env_def demo_env_def demo_del_ok tv_ok_def)

lemma demo_timers_queued: "queued demo_timers QTimeout = {1, 2}" "queued demo_timers QInserted = {}" "queued demo_timers QActive = {}"
  by (auto simp: queued_def on_queue_def demo_timers_def flag_defs)

lemma demo_timers_ok: "timers_only demo_timers"
proof -
  have int: "internal demo_timers e = False" for e by (simp add: internal_def demo_timers_def flag_defs)
  have q: "queued demo_timers q = (case q of QTimeout \<Rightarrow> {1, 2} | QInserted \<Rightarrow> {} | QActive \<Rightarrow> {})" for q
    using demo_timers_queued by (cases q) simp_all
  have two: "{e :: event_ptr. e = Suc 0 \<or> e = 2} = {1, 2}" by auto
  have c: "counted demo_timers QTimeout = 2" "counted demo_timers QInserted = 0" "counted demo_timers QActive = 0"
    by (simp_all add: counted_def demo_timers_queued int two)
  have "ev_base (evs demo_timers e)" if "e = 1 \<or> e = 2" for e using that by (auto simp: demo_timers_def demo_event_def)
  then have "\<forall>q. \<forall>e \<in> queued demo_timers q. ev_base (evs demo_timers e)" by (auto simp: q split: evlist.splits)
  then have "queues_inv demo_timers"
    unfolding queues_inv_def c using demo_timers_queued two_timers_inv two_timers_elems
    by (simp add: demo_timers_def demo_base_def) (simp add: demo_event_def flag_defs)
  moreover have "maps_inv demo_timers"
    unfolding maps_inv_def demo_timers_queued io_rel_iff sig_rel_iff by (simp add: demo_timers_def demo_base_def slot_def waiting_def sig_waiting_def)
  ultimately have "base_inv demo_timers" by (simp add: base_inv_def)
  then show ?thesis
    by (simp add: timers_only_def demo_timers_queued int)
      (simp add: demo_timers_def demo_base_def demo_event_def two_timers_def timer_event_def tv_ok_def)
qed

lemma demo_clock: "clock_reaches demo_env demo_timers"
proof -
  have "ev_timeout (timeheap demo_timers) e \<le> le_clock demo_env i k" if "e \<in> {1, 2}" "3 \<le> i" for e i k
    using that by (auto simp: demo_timers_def demo_base_def demo_env_def two_timers_def less_eq_timeval_def less_timeval_def)
  then show ?thesis unfolding clock_reaches_def demo_timers_queued by blast
qed

theorem event_base_loop_calls_every_timer_witness:
  "\<exists>b'. event_base_loop demo_env False False demo_timers = Some (1, b') \<and> base_inv b' \<and> queued b' QTimeout = {} \<and> queued b' QActive = {} \<and>
    mset (base_log b') = mset (base_log demo_timers) +
      image_mset (\<lambda>e. (e, ev_fd (evs demo_timers e), EV_TIMEOUT, ev_arg (evs demo_timers e))) (mset_set (queued demo_timers QTimeout))"
  by (rule event_base_loop_calls_every_timer [OF demo_env_ok demo_timers_ok _ _ demo_clock]) (simp_all add: demo_timers_queued, simp add: demo_timers_def demo_base_def)

end
