(* ===== verification/Dns_Names.thy ===== *)
theory Dns_Names
  imports Prelude
begin

text \<open>
  Names in DNS messages, \<^verbatim>\<open>evdns.c\<close>: \<open>dnsname_to_labels\<close> (with the table used for compression), \<open>name_parse\<close> (with
  compression pointers) and the query \<open>evdns_request_data_build\<close> makes. C strings are byte lists without
  their final zero byte.
\<close>

section \<open>Parsing\<close>

abbreviation dot :: byte where "dot \<equiv> 46"

text \<open>
  \<open>packet\<close> is the memory that holds the message, \<open>len\<close> the length of the message in it. The result is the
  return value, the new \<open>*idx\<close> and the name written (no name when the result is -1).
\<close>

type_synonym name_result = "int \<times> nat \<times> byte list"

function name_parse_loop ::
    "byte list \<Rightarrow> nat \<Rightarrow> nat \<Rightarrow> nat \<Rightarrow> nat \<Rightarrow> nat option \<Rightarrow> nat \<Rightarrow> byte list \<Rightarrow> name_result option" where
  "name_parse_loop packet len idx name_out_len j name_end ptr_count cp =
     (if j \<ge> len then Some (-1, idx, [])
      else do {
        label_len \<leftarrow> nth_opt packet j;
        if label_len = 0 then
          Some (if length cp \<ge> name_out_len then (-1, idx, [])
                else (0, case name_end of None \<Rightarrow> j + 1 | Some e \<Rightarrow> e, cp))
        else if label_len AND 0xc0 \<noteq> 0 then
          if j + 1 \<ge> len then Some (-1, idx, [])
          else do {
            ptr_low \<leftarrow> nth_opt packet (j + 1);
            let name_end1 = (case name_end of None \<Rightarrow> Some (j + 2) | Some e \<Rightarrow> Some e);
            let j1 = unat (label_len AND 0x3f) * 256 + unat ptr_low;
            if j1 \<ge> len then Some (-1, idx, [])
            else if ptr_count + 1 > len then Some (-1, idx, [])
            else name_parse_loop packet len idx name_out_len j1 name_end1 (ptr_count + 1) cp
          }
        else if unat label_len > 63 then Some (-1, idx, [])
        else if cp \<noteq> [] \<and> length cp + 1 \<ge> name_out_len then Some (-1, idx, [])
        else do {
          let cp1 = (if cp \<noteq> [] then cp @ [dot] else cp);
          if length cp1 + unat label_len \<ge> name_out_len then Some (-1, idx, [])
          else do {
            label \<leftarrow> mem_read packet (j + 1) (unat label_len);
            name_parse_loop packet len idx name_out_len (j + 1 + unat label_len) name_end ptr_count (cp1 @ label)
          }
        }
      })"
  by pat_completeness auto
termination
  by (relation "measures [\<lambda>(packet, len, idx, n, j, e, p, cp). Suc len - p, \<lambda>(packet, len, idx, n, j, e, p, cp). len - j]") auto

declare name_parse_loop.simps [simp del]

definition name_parse :: "byte list \<Rightarrow> nat \<Rightarrow> nat \<Rightarrow> nat \<Rightarrow> name_result option" where
  "name_parse packet len idx name_out_len = name_parse_loop packet len idx name_out_len idx None 0 []"

section \<open>Building\<close>

definition MAX_LABELS :: nat where "MAX_LABELS = 128"

type_synonym dnslabel_table = "(byte list \<times> nat) list"

definition dnslabel_table_get_pos :: "dnslabel_table \<Rightarrow> byte list \<Rightarrow> int" where
  "dnslabel_table_get_pos table label = (case map_of table label of None \<Rightarrow> -1 | Some pos \<Rightarrow> int pos)"

text \<open>
  \<open>alloc pos\<close>: whether \<open>mm_strdup\<close> gets memory for the entry of position \<open>pos\<close>. No two entries of a message have the same
  position, so any sequence of successes and failures is covered.
\<close>

definition dnslabel_table_add :: "(nat \<Rightarrow> bool) \<Rightarrow> dnslabel_table \<Rightarrow> byte list \<Rightarrow> nat \<Rightarrow> int \<times> dnslabel_table" where
  "dnslabel_table_add alloc table label pos =
     (if length table = MAX_LABELS then (-1, table)
      else if \<not> alloc pos then (-1, table)
      else (0, table @ [(label, pos)]))"

text \<open>A 16-bit and a 32-bit value in network byte order.\<close>

definition be16 :: "16 word \<Rightarrow> byte list" where
  "be16 x = [ucast (drop_bit 8 x), ucast x]"

definition be32 :: "32 word \<Rightarrow> byte list" where
  "be32 x = [ucast (drop_bit 24 x), ucast (drop_bit 16 x), ucast (drop_bit 8 x), ucast x]"

text \<open>\<open>APPEND16\<close>: \<open>Inl buf\<close> is the jump to \<open>overflow\<close>.\<close>

type_synonym append_result = "byte list + byte list \<times> nat"

definition APPEND16 :: "byte list \<Rightarrow> nat \<Rightarrow> nat \<Rightarrow> 16 word \<Rightarrow> append_result option" where
  "APPEND16 buf buf_len j x =
     (if j + 2 > buf_len then Some (Inl buf)
      else do { buf1 \<leftarrow> mem_write buf j (be16 x); Some (Inr (buf1, j + 2)) })"

text \<open>
  The result is the return value (the next index, or -1 and -2), the buffer and the table. \<open>table\<close> is \<open>None\<close> for the
  NULL pointer.
\<close>

type_synonym labels_result = "int \<times> byte list \<times> dnslabel_table option"

definition labels_end :: "byte list \<Rightarrow> nat \<Rightarrow> dnslabel_table option \<Rightarrow> labels_result option" where
  "labels_end buf j table = do {
     last \<leftarrow> (if j = 0 then Some 1 else nth_opt buf (j - 1));
     if last \<noteq> 0 then do { buf1 \<leftarrow> mem_write buf j [0]; Some (int (j + 1), buf1, table) }
     else Some (int j, buf, table)
   }"

lemma drop_shorter: "drop k xs = y # ys \<Longrightarrow> length ys < length xs"
  by (metis Suc_le_lessD diff_le_self length_Cons length_drop)

function labels_loop ::
    "(nat \<Rightarrow> bool) \<Rightarrow> byte list \<Rightarrow> nat \<Rightarrow> nat \<Rightarrow> byte list \<Rightarrow> dnslabel_table option \<Rightarrow> labels_result option" where
  "labels_loop alloc buf buf_len j name table =
     (let ref = (case table of None \<Rightarrow> -1 | Some t \<Rightarrow> dnslabel_table_get_pos t name) in
      if ref \<ge> 0 then do {
        r \<leftarrow> APPEND16 buf buf_len j (of_int ref OR 0xc000);
        Some (case r of Inl _ \<Rightarrow> (-2, buf, table) | Inr (buf1, j1) \<Rightarrow> (int j1, buf1, table))
      }
      else
        let label = takeWhile (\<lambda>c. c \<noteq> dot) name; label_len = length label; rest = drop label_len name in
        if label_len > 63 then Some (-1, buf, table)
        else if j + label_len + 1 > buf_len then Some (-2, buf, table)
        else do {
          let table1 = map_option (\<lambda>t. snd (dnslabel_table_add alloc t name j)) table;
          buf1 \<leftarrow> mem_write buf j (of_nat label_len # label);
          (case rest of
             [] \<Rightarrow> labels_end buf1 (j + 1 + label_len) table1
           | _ # name1 \<Rightarrow> labels_loop alloc buf1 buf_len (j + 1 + label_len) name1 table1)
        })"
  by pat_completeness auto
termination
  by (relation "measure (\<lambda>(alloc, buf, buf_len, j, name, table). length name)") (auto dest: drop_shorter [OF sym])

declare labels_loop.simps [simp del]

definition dnsname_to_labels ::
    "(nat \<Rightarrow> bool) \<Rightarrow> byte list \<Rightarrow> nat \<Rightarrow> nat \<Rightarrow> byte list \<Rightarrow> dnslabel_table option \<Rightarrow> labels_result option" where
  "dnsname_to_labels alloc buf buf_len j name table =
     (if length name > 255 then Some (-2, buf, table) else labels_loop alloc buf buf_len j name table)"

definition evdns_request_len :: "nat \<Rightarrow> nat" where
  "evdns_request_len name_len = 96 + name_len + 2 + 4"

text \<open>Several \<open>APPEND16\<close> in a row.\<close>

fun APPEND16s :: "byte list \<Rightarrow> nat \<Rightarrow> nat \<Rightarrow> 16 word list \<Rightarrow> append_result option" where
  "APPEND16s buf buf_len j [] = Some (Inr (buf, j))"
| "APPEND16s buf buf_len j (x # xs) = do {
     r \<leftarrow> APPEND16 buf buf_len j x;
     (case r of Inl buf1 \<Rightarrow> Some (Inl buf1) | Inr (buf1, j1) \<Rightarrow> APPEND16s buf1 buf_len j1 xs)
   }"

definition evdns_request_data_build ::
    "byte list \<Rightarrow> 16 word \<Rightarrow> 16 word \<Rightarrow> 16 word \<Rightarrow> byte list \<Rightarrow> nat \<Rightarrow> (int \<times> byte list) option" where
  "evdns_request_data_build name trans_id type cls buf buf_len = do {
     r \<leftarrow> APPEND16s buf buf_len 0 [trans_id, 0x0100, 1, 0, 0, 0];
     (case r of
        Inl buf1 \<Rightarrow> Some (-1, buf1)
      | Inr (buf1, j) \<Rightarrow> do {
          (j1, buf2, t) \<leftarrow> dnsname_to_labels (\<lambda>_. True) buf1 buf_len j name None;
          if j1 < 0 then Some (j1, buf2)
          else do {
            r2 \<leftarrow> APPEND16s buf2 buf_len (nat j1) [type, cls];
            Some (case r2 of Inl buf3 \<Rightarrow> (-1, buf3) | Inr (buf3, j2) \<Rightarrow> (int j2, buf3))
          }
        })
   }"


section \<open>What the bytes of a name mean\<close>

text \<open>
  \<open>encodes m len p ls k e\<close>: the name with the labels \<open>ls\<close> stands at \<open>p\<close> within the first \<open>len\<close> bytes of \<open>m\<close>, \<open>k\<close> compression
  pointers have to be followed to read it, and the next field starts at \<open>e\<close>.
\<close>

inductive encodes :: "byte list \<Rightarrow> nat \<Rightarrow> nat \<Rightarrow> byte list list \<Rightarrow> nat \<Rightarrow> nat \<Rightarrow> bool" for m len where
  root: "p < len \<Longrightarrow> m ! p = 0 \<Longrightarrow> encodes m len p [] 0 (p + 1)"
| label: "p + length l < len \<Longrightarrow> l \<noteq> [] \<Longrightarrow> length l \<le> 63 \<Longrightarrow> m ! p = of_nat (length l) \<Longrightarrow>
    take (length l) (drop (p + 1) m) = l \<Longrightarrow> encodes m len (p + 1 + length l) ls k e \<Longrightarrow> encodes m len p (l # ls) k e"
| pointer: "p + 1 < len \<Longrightarrow> m ! p AND 0xc0 \<noteq> 0 \<Longrightarrow> unat (m ! p AND 0x3f) * 256 + unat (m ! (p + 1)) = q \<Longrightarrow>
    encodes m len q ls k e \<Longrightarrow> encodes m len p ls (k + 1) (p + 2)"

lemma encodes_pos: "encodes m len p ls k e \<Longrightarrow> p < len"
  by (induction rule: encodes.induct) auto

lemma encodes_end: "encodes m len p ls k e \<Longrightarrow> e \<le> len"
  by (induction rule: encodes.induct) auto

lemma take_eq_nth: "take n xs = take n ys \<Longrightarrow> i < n \<Longrightarrow> xs ! i = ys ! i"
  by (metis nth_take)

lemma encodes_mono:
  assumes "encodes m len p ls k e" and eq: "take len m' = take len m" and le: "len \<le> len'"
  shows "encodes m' len' p ls k e"
  using assms(1)
proof induction
  case (root p)
  then show ?case using take_eq_nth [OF eq, of p] le by (intro encodes.root) auto
next
  case (label p l ls k e)
  have "take (length l) (drop (p + 1) m') = take (length l) (drop (p + 1) (take len m'))"
    using label.hyps(1) by (simp add: drop_take)
  also have "\<dots> = l" using label.hyps(1,5) by (simp add: eq drop_take)
  finally show ?case using label le take_eq_nth [OF eq, of p] by (auto intro!: encodes.label)
next
  case (pointer p q ls k e)
  then show ?case using le take_eq_nth [OF eq, of p] take_eq_nth [OF eq, of "p + 1"] by (intro encodes.pointer) auto
qed

text \<open>The name \<open>name_parse\<close> puts together from labels: \<open>cp\<close> is what it has already.\<close>

fun joined :: "byte list \<Rightarrow> byte list list \<Rightarrow> byte list" where
  "joined cp [] = cp"
| "joined cp (l # ls) = joined ((if cp = [] then [] else cp @ [dot]) @ l) ls"

lemma joined_length: "length cp \<le> length (joined cp ls)"
proof (induction ls arbitrary: cp)
  case (Cons l ls)
  show ?case using Cons [of "(if cp = [] then [] else cp @ [dot]) @ l"] by (auto split: if_splits)
qed simp

lemma small_label: "n \<le> 63 \<Longrightarrow> (of_nat n :: byte) AND 0xc0 = 0" "n \<le> 63 \<Longrightarrow> unat (of_nat n :: byte) = n"
proof -
  assume n: "n \<le> 63"
  then show "unat (of_nat n :: byte) = n" by (simp add: unat_of_nat)
  have "(of_nat n :: byte) = take_bit 6 (of_nat n)"
    using n by (simp add: of_nat_take_bit [symmetric] take_bit_nat_eq_self)
  moreover have "take_bit 6 (of_nat n :: byte) AND 0xc0 = 0" by (simp add: take_bit_eq_mask and.assoc mask_eq_exp_minus_1)
  ultimately show "(of_nat n :: byte) AND 0xc0 = 0" by metis
qed

lemma name_parse_loop_encodes:
  assumes "encodes m len p ls k e" "len \<le> length m" "ptr_count + k \<le> len" "length (joined cp ls) < name_out_len"
  shows "name_parse_loop m len idx name_out_len p name_end ptr_count cp =
    Some (0, case name_end of None \<Rightarrow> e | Some e' \<Rightarrow> e', joined cp ls)"
  using assms
proof (induction arbitrary: ptr_count cp name_end rule: encodes.induct)
  case (root p)
  then show ?case by (simp add: name_parse_loop.simps)
next
  case (label p l ls k e)
  let ?cp = "if cp = [] then [] else cp @ [dot]"
  have "length (?cp @ l) < name_out_len" using label.prems(3) joined_length [of "?cp @ l" ls] by simp
  moreover have "(of_nat (length l) :: byte) \<noteq> 0" using label.hyps(2,3) small_label(2) [of "length l"] by auto
  moreover have "mem_read m (p + 1) (length l) = Some l" using label.hyps(1,5) label.prems(1) by (simp add: mem_read_in)
  ultimately show ?case
    using label by (subst name_parse_loop.simps) (cases "cp = []"; auto simp: small_label)
next
  case (pointer p q ls k e)
  have "q < len" by (rule encodes_pos [OF pointer.hyps(4)])
  moreover have "m ! p \<noteq> 0" using pointer.hyps(2) by auto
  ultimately show ?case
    using pointer by (subst name_parse_loop.simps) (auto split: option.splits)
qed


section \<open>What \<open>dnsname_to_labels\<close> writes\<close>

function split_dots :: "byte list \<Rightarrow> byte list list" where
  "split_dots name =
     (let label = takeWhile (\<lambda>c. c \<noteq> dot) name in
      case drop (length label) name of [] \<Rightarrow> [label] | _ # name1 \<Rightarrow> label # split_dots name1)"
  by pat_completeness auto
termination
  by (relation "measure length") (auto dest: drop_shorter)

declare split_dots.simps [simp del]

definition labels_of :: "byte list \<Rightarrow> byte list list" where
  "labels_of name = (if name = [] then [] else split_dots name)"

text \<open>Names a message can carry: C strings without empty labels; the empty name is the root.\<close>

definition plain_name :: "byte list \<Rightarrow> bool" where
  "plain_name name \<longleftrightarrow> 0 \<notin> set name \<and> [] \<notin> set (labels_of name)"

lemma split_first:
  obtains "takeWhile (\<lambda>c. c \<noteq> dot) name = name" "split_dots name = [name]"
  | l name1 where "takeWhile (\<lambda>c. c \<noteq> dot) name = l" "name = l @ dot # name1" "split_dots name = l # split_dots name1"
proof (cases "drop (length (takeWhile (\<lambda>c. c \<noteq> dot) name)) name")
  case Nil
  then have "takeWhile (\<lambda>c. c \<noteq> dot) name = name"
    by (metis append.right_neutral append_take_drop_id takeWhile_eq_take)
  with Nil show ?thesis by (intro that(1)) (simp_all only: split_dots.simps [of name] Let_def list.case)
next
  case (Cons c name1)
  let ?l = "takeWhile (\<lambda>c. c \<noteq> dot) name"
  have "name = ?l @ c # name1" using Cons by (metis append_take_drop_id takeWhile_eq_take)
  moreover have "c = dot"
    using Cons hd_dropWhile [of "\<lambda>c. c \<noteq> dot" name] by (simp add: dropWhile_eq_drop)
  ultimately show ?thesis using Cons by (intro that(2)) (simp_all add: split_dots.simps [of name])
qed

lemma split_dots_ne [simp]: "split_dots name \<noteq> []"
  by (rule split_first [of name]) simp_all

lemma joined_split:
  "[] \<notin> set (split_dots name) \<Longrightarrow> joined cp (split_dots name) = (if cp = [] then name else cp @ dot # name)"
proof (induction name arbitrary: cp rule: split_dots.induct)
  case (1 name)
  show ?case
  proof (rule split_first [of name])
    fix l name1
    assume s: "takeWhile (\<lambda>c. c \<noteq> dot) name = l" "name = l @ dot # name1" "split_dots name = l # split_dots name1"
    have "l \<noteq> []" "[] \<notin> set (split_dots name1)" using 1 s(3) by auto
    moreover have "drop (length (takeWhile (\<lambda>c. c \<noteq> dot) name)) name = dot # name1" using s(1,2) by simp
    ultimately show ?thesis using 1(1) [OF refl] s by simp
  qed simp
qed

lemma joined_labels: "plain_name name \<Longrightarrow> joined [] (labels_of name) = name"
  by (auto simp: plain_name_def labels_of_def joined_split)

lemma labels_cases [consumes 1]:
  assumes "plain_name name"
  obtains (root) "name = []"
  | (last) "name \<noteq> []" "takeWhile (\<lambda>c. c \<noteq> dot) name = name" "labels_of name = [name]" "last name \<noteq> 0"
  | (more) l name1 where "takeWhile (\<lambda>c. c \<noteq> dot) name = l" "l \<noteq> []" "name = l @ dot # name1" "name1 \<noteq> []"
      "plain_name name1" "labels_of name = l # labels_of name1"
proof (cases "name = []")
  case False
  then have ne: "[] \<notin> set (split_dots name)" "0 \<notin> set name" using assms by (simp_all add: plain_name_def labels_of_def)
  show ?thesis
  proof (rule split_first [of name])
    assume *: "takeWhile (\<lambda>c. c \<noteq> dot) name = name" "split_dots name = [name]"
    have "last name \<noteq> 0" using ne(2) last_in_set [OF False] by metis
    then show ?thesis using that(2) False * by (simp add: labels_of_def)
  next
    fix l name1
    assume s: "takeWhile (\<lambda>c. c \<noteq> dot) name = l" "name = l @ dot # name1" "split_dots name = l # split_dots name1"
    have "name1 \<noteq> []" using ne(1) s(3) by (auto simp: split_dots.simps [of "[]"])
    then show ?thesis using s ne by (intro that(3) [of l name1]) (auto simp: plain_name_def labels_of_def)
  qed
qed (rule that(1))


text \<open>
  The entries of the table that may be asked for while \<open>name\<close> is written stand in the message already: those of names that are
  not longer (the entries of the name under way are longer than what is left of it).
\<close>

definition stands :: "byte list \<Rightarrow> nat \<Rightarrow> byte list \<times> nat \<Rightarrow> bool" where
  "stands buf j = (\<lambda>(n, p). \<exists>k e. encodes buf j p (labels_of n) k e \<and> k \<le> j)"

lemma stands_mono: "stands buf j x \<Longrightarrow> take j buf' = take j buf \<Longrightarrow> j \<le> j' \<Longrightarrow> stands buf' j' x"
  by (auto simp: stands_def intro: encodes_mono order_trans)

lemma low_bits: "unat (x AND 0x3f) = unat x mod 64" for x :: byte
proof -
  have "x AND 0x3f = take_bit 6 x" by (simp add: take_bit_eq_mask mask_eq_exp_minus_1)
  then show ?thesis by (simp only: unsigned_take_bit_eq) (simp add: take_bit_eq_mod)
qed

lemma pointer_bytes:
  assumes "pos < 16384"
  obtains hi lo where "be16 (of_nat pos OR 0xc000) = [hi, lo]" "hi AND 0xc0 \<noteq> 0" "unat (hi AND 0x3f) * 256 + unat lo = pos"
proof -
  let ?w = "of_nat pos OR 0xc000 :: 16 word"
  let ?hi = "ucast (drop_bit 8 ?w) :: byte" and ?lo = "ucast ?w :: byte"
  have tb: "(of_nat pos :: 16 word) = take_bit 14 (of_nat pos)"
    using assms by (simp add: of_nat_take_bit [symmetric] take_bit_nat_eq_self)
  have "(of_nat pos :: 16 word) AND 0xc000 = 0"
    by (subst tb) (simp add: take_bit_eq_mask and.assoc mask_eq_exp_minus_1)
  then have w: "unat ?w = pos + 49152"
    using assms by (simp add: disjunctive_add_eq_or [symmetric] unat_word_ariths unat_of_nat)
  have "unat (drop_bit 8 ?w) = (pos + 49152) div 256" unfolding unat_drop_bit_eq w by (simp add: drop_bit_eq_div)
  then have hi: "unat ?hi = 192 + pos div 256"
    using assms by (simp only: unsigned_ucast_eq) (simp add: take_bit_eq_mod)
  have "unat (?hi AND 0x3f) = unat ?hi mod 64" by (rule low_bits)
  moreover have "bit (?hi AND 0xc0) 7" by (simp add: bit_simps)
  then have "?hi AND 0xc0 \<noteq> 0" by (metis bit_0_eq bot_apply bot_bool_def)
  moreover have "unat ?lo = pos mod 256"
    using w mod_mult_self1 [of pos 192 256] by (simp add: unsigned_ucast_eq take_bit_eq_mod)
  moreover have "(192 + pos div 256) mod 64 = pos div 256"
    using assms mod_mult_self1 [of "pos div 256" 3 64] by (simp add: add.commute)
  ultimately have "unat (?hi AND 0x3f) * 256 + unat ?lo = pos" "?hi AND 0xc0 \<noteq> 0" using hi by auto
  then show ?thesis using that [of ?hi ?lo] by (simp add: be16_def)
qed


lemma labels_end_ok:
  assumes "j < length buf" "0 < j" "buf ! (j - 1) \<noteq> 0"
  shows "labels_end buf j table = Some (int (j + 1), take j buf @ 0 # drop (j + 1) buf, table)"
  using assms by (simp add: labels_end_def mem_write_in)

text \<open>What a successful run leaves: \<open>r\<close> is the index after the name.\<close>

definition written :: "byte list \<Rightarrow> nat \<Rightarrow> byte list \<Rightarrow> dnslabel_table option \<Rightarrow> labels_result \<Rightarrow> bool" where
  "written buf j name table = (\<lambda>(r, buf', table').
     \<exists>r' k. r = int r' \<and> j < r' \<and> r' \<le> length buf \<and> length buf' = length buf \<and> take j buf' = take j buf \<and>
       encodes buf' r' j (labels_of name) k r' \<and> k \<le> r' \<and>
       rel_option (\<lambda>t t'. \<exists>new. t' = t @ new \<and> list_all (stands buf' r') new) table table')"

lemma writtenI:
  assumes "encodes buf' r j (labels_of name) k r" "j < r" "r \<le> length buf" "length buf' = length buf" "take j buf' = take j buf"
    "k \<le> r" "rel_option (\<lambda>t t'. \<exists>new. t' = t @ new \<and> list_all (stands buf' r) new) table table'"
  shows "written buf j name table (int r, buf', table')"
  using assms by (auto simp: written_def)

lemma get_pos_entry:
  "0 \<le> dnslabel_table_get_pos t name \<Longrightarrow> \<exists>p. dnslabel_table_get_pos t name = int p \<and> (name, p) \<in> set t"
  by (auto simp: dnslabel_table_get_pos_def split: option.splits dest: map_of_SomeD)

lemma table_add_cases:
  obtains new where "snd (dnslabel_table_add alloc t name j) = t @ new" "new = [] \<or> new = [(name, j)]"
  by (cases "length t = MAX_LABELS \<or> \<not> alloc j") (auto simp: dnslabel_table_add_def intro: that [of "[]"])

lemma written_pointer:
  assumes "stands buf j (name, p)" "j + 2 \<le> buf_len" "buf_len \<le> length buf" "buf_len \<le> 16384"
    and "APPEND16 buf buf_len j (of_int (int p) OR 0xc000) = Some (Inr (buf1, j1))"
  shows "written buf j name table (int j1, buf1, table)"
proof -
  obtain k e where e: "encodes buf j p (labels_of name) k e" "k \<le> j" using assms(1) by (auto simp: stands_def)
  have "p < 16384" using encodes_pos [OF e(1)] assms(2,4) by simp
  then obtain hi lo where b: "be16 (of_nat p OR 0xc000) = [hi, lo]" "hi AND 0xc0 \<noteq> 0" "unat (hi AND 0x3f) * 256 + unat lo = p"
    by (rule pointer_bytes)
  have eq: "buf1 = take j buf @ [hi, lo] @ drop (j + 2) buf" "j1 = j + 2"
    using assms(2,3,5) b(1) by (auto simp: APPEND16_def mem_write_in)
  have "encodes buf1 (j + 2) p (labels_of name) k e" using e(1) by (rule encodes_mono) (use assms eq in auto)
  then have "encodes buf1 (j + 2) j (labels_of name) (k + 1) (j + 2)"
    using b(2,3) assms(2,3) by (intro encodes.pointer) (auto simp: eq nth_append)
  then show ?thesis
    unfolding eq(2) by (rule writtenI) (use assms(2,3) e(2) in \<open>auto simp: eq intro!: option.rel_refl\<close>)
qed


lemma written_label:
  assumes l: "l \<noteq> []" "length l \<le> 63" and fits: "j + 1 + length l \<le> length buf"
    and buf1: "buf1 = take j buf @ (of_nat (length l) # l) @ drop (j + 1 + length l) buf"
    and rest: "encodes buf' r (j + 1 + length l) ls k r" "j + 1 + length l < r" "r \<le> length buf"
      "length buf' = length buf" "take (j + 1 + length l) buf' = take (j + 1 + length l) buf1"
  shows "encodes buf' r j (l # ls) k r" "take j buf' = take j buf"
proof -
  have pre: "take (j + 1 + length l) buf' = take j buf @ of_nat (length l) # l"
    using rest(5) fits by (simp add: buf1)
  have "buf' = take (j + 1 + length l) buf' @ drop (j + 1 + length l) buf'" by simp
  then have b: "buf' = take j buf @ of_nat (length l) # l @ drop (j + 1 + length l) buf'" by (simp only: pre) simp
  have "buf' ! j = of_nat (length l)" "take (length l) (drop (j + 1) buf') = l"
    using fits by (subst b, simp add: nth_append)+
  then show "encodes buf' r j (l # ls) k r" using l rest by (intro encodes.label) auto
  show "take j buf' = take j buf" using fits by (subst b) simp
qed

lemma labels_loop_label:
  assumes "labels_loop alloc buf buf_len j name table = Some (r, buf', table')" "0 \<le> r"
    "\<not> 0 \<le> (case table of None \<Rightarrow> -1 | Some t \<Rightarrow> dnslabel_table_get_pos t name)"
    "takeWhile (\<lambda>c. c \<noteq> dot) name = l" "buf_len \<le> length buf"
  obtains buf1 table1 where "length l \<le> 63" "j + length l + 1 \<le> buf_len"
    "buf1 = take j buf @ (of_nat (length l) # l) @ drop (j + 1 + length l) buf"
    "table1 = map_option (\<lambda>t. snd (dnslabel_table_add alloc t name j)) table"
    "(case drop (length l) name of [] \<Rightarrow> labels_end buf1 (j + 1 + length l) table1
      | _ # name1 \<Rightarrow> labels_loop alloc buf1 buf_len (j + 1 + length l) name1 table1) = Some (r, buf', table')"
  using assms(1) [unfolded labels_loop.simps [of alloc buf]] assms(2-5)
  by (auto simp: Let_def mem_write_in split: if_splits)

lemma grown_table:
  assumes "stands buf' r (name, j)"
    and "rel_option (\<lambda>t t'. \<exists>new. t' = t @ new \<and> list_all (stands buf' r) new)
      (map_option (\<lambda>t. snd (dnslabel_table_add alloc t name j)) table) table'"
  shows "rel_option (\<lambda>t t'. \<exists>new. t' = t @ new \<and> list_all (stands buf' r) new) table table'"
proof (cases table)
  case (Some t)
  obtain new where "snd (dnslabel_table_add alloc t name j) = t @ new" "new = [] \<or> new = [(name, j)]"
    by (rule table_add_cases)
  then show ?thesis using assms Some by (cases table') auto
qed (use assms in simp)

lemma table_self: "rel_option (\<lambda>t t'. \<exists>new. t' = t @ new \<and> list_all P new) table table"
  by (rule option.rel_refl) auto

lemma labels_loop_written:
  assumes "labels_loop alloc buf buf_len j name table = Some (r, buf', table')" "0 \<le> r" "plain_name name"
    "buf_len \<le> length buf" "buf_len \<le> 16384"
    "pred_option (\<lambda>t. \<forall>x \<in> set t. length (fst x) \<le> length name \<longrightarrow> stands buf j x) table"
  shows "written buf j name table (r, buf', table')"
  using assms
proof (induction "length name" arbitrary: buf j name table r rule: less_induct)
  case less
  note run = less(2) [unfolded labels_loop.simps [of alloc buf]]
  let ?ref = "case table of None \<Rightarrow> -1 | Some t \<Rightarrow> dnslabel_table_get_pos t name"
  show ?case
  proof (cases "0 \<le> ?ref")
    case True
    then obtain t p where t: "table = Some t" "(name, p) \<in> set t" "?ref = int p"
      by (cases table) (auto dest: get_pos_entry)
    have "stands buf j (name, p)" using less(7) t by auto
    moreover obtain j1 where "j + 2 \<le> buf_len" "APPEND16 buf buf_len j (of_int (int p) OR 0xc000) = Some (Inr (buf', j1))"
        "r = int j1" "table' = table"
      using run less(3) t(3) by (auto simp: Let_def APPEND16_def split: if_splits bind_splits)
    ultimately show ?thesis using less(5,6) written_pointer by blast
  next
    case False
    obtain l where tw: "takeWhile (\<lambda>c. c \<noteq> dot) name = l" by simp
    obtain buf1 table1 where s: "length l \<le> 63" "j + length l + 1 \<le> buf_len"
      "buf1 = take j buf @ (of_nat (length l) # l) @ drop (j + 1 + length l) buf"
      "table1 = map_option (\<lambda>t. snd (dnslabel_table_add alloc t name j)) table"
      "(case drop (length l) name of [] \<Rightarrow> labels_end buf1 (j + 1 + length l) table1
        | _ # name1 \<Rightarrow> labels_loop alloc buf1 buf_len (j + 1 + length l) name1 table1) = Some (r, buf', table')"
      using labels_loop_label [OF less(2,3) False tw less(5)] by blast
    have len1: "length buf1 = length buf" using s(2,3) less(5) by simp
    show ?thesis using less(4)
    proof (cases rule: labels_cases)
      case root
      then have eq: "r = int (j + 1)" "buf' = buf1" "table' = table1" "buf1 = take j buf @ 0 # drop (j + 1) buf"
        using s tw less(5) by (auto simp: labels_end_def nth_append)
      have "encodes buf' (j + 1) j [] 0 (j + 1)" using s(2) less(5) by (intro encodes.root) (auto simp: eq nth_append)
      then have e: "encodes buf' (j + 1) j (labels_of name) 0 (j + 1)" using root by (simp add: labels_of_def)
      then have "stands buf' (j + 1) (name, j)" by (auto simp: stands_def)
      then have "rel_option (\<lambda>t t'. \<exists>new. t' = t @ new \<and> list_all (stands buf' (j + 1)) new) table table'"
        by (rule grown_table [where alloc = alloc]) (use s(4) eq(3) in \<open>simp add: table_self\<close>)
      then show ?thesis unfolding eq(1) using e s(2) less(5) by (intro writtenI) (auto simp: eq)
    next
      case last
      let ?j = "j + 1 + length l"
      have l: "l = name" using last(2) tw by simp
      have "buf1 ! (?j - 1) = last l" "0 < ?j"
        using s(2) less(5) last(1) l by (auto simp: s(3) nth_append last_conv_nth)
      then have z: "buf1 ! (?j - 1) \<noteq> 0" using last(4) l by simp
      have "?j < length buf1"
        using s(5) l z by (auto simp: labels_end_def mem_write_def nth_opt_Some_iff split: if_splits bind_splits)
      then have eq: "r = int (?j + 1)" "buf' = take ?j buf1 @ 0 # drop (?j + 1) buf1" "table' = table1"
        using s(5) labels_end_ok [OF _ \<open>0 < ?j\<close> z, of table1] l by auto
      have "encodes buf' (?j + 1) ?j [] 0 (?j + 1)"
        using \<open>?j < length buf1\<close> by (intro encodes.root) (auto simp: eq nth_append)
      note e = written_label [OF _ s(1) _ s(3) this]
      have ne: "l \<noteq> []" using l last(1) by simp
      have "encodes buf' (?j + 1) j [l] 0 (?j + 1)"
        by (rule e(1)) (use s(2) less(5) ne len1 \<open>?j < length buf1\<close> in \<open>auto simp: eq\<close>)
      moreover have "take j buf' = take j buf" using s(2) less(5) len1 by (simp add: eq s(3))
      ultimately have e: "encodes buf' (?j + 1) j (labels_of name) 0 (?j + 1)" "take j buf' = take j buf"
        using last(3) l by simp_all
      then have "stands buf' (?j + 1) (name, j)" by (auto simp: stands_def)
      then have "rel_option (\<lambda>t t'. \<exists>new. t' = t @ new \<and> list_all (stands buf' (?j + 1)) new) table table'"
        by (rule grown_table [where alloc = alloc]) (use s(4) eq(3) in \<open>simp add: table_self\<close>)
      then show ?thesis unfolding eq(1)
        using e len1 \<open>?j < length buf1\<close> by (intro writtenI) (auto simp: eq)
    next
      case (more l' name1)
      let ?j = "j + 1 + length l"
      have l: "l' = l" using more(1) tw by simp
      have "drop (length l) name = dot # name1" using more(3) l by simp
      then have run1: "labels_loop alloc buf1 buf_len ?j name1 table1 = Some (r, buf', table')" using s(5) by simp
      have "pred_option (\<lambda>t. \<forall>x \<in> set t. length (fst x) \<le> length name1 \<longrightarrow> stands buf1 ?j x) table1"
      proof (cases table)
        case (Some t)
        obtain new where new: "snd (dnslabel_table_add alloc t name j) = t @ new" "new = [] \<or> new = [(name, j)]"
          by (rule table_add_cases)
        have "take j buf1 = take j buf" using s(2,3) less(5) by simp
        then have "stands buf j x \<Longrightarrow> stands buf1 ?j x" for x by (auto intro: stands_mono [of buf j x])
        moreover have "length name1 < length name" using more(3) by simp
        ultimately show ?thesis using less(7) Some new by (auto simp: s(4))
      qed (simp add: s(4))
      then have "written buf1 ?j name1 table1 (r, buf', table')"
        using less(5,6) len1 more(3,5) by (intro less(1) [OF _ run1 less(3)]) auto
      then obtain r' k where w: "r = int r'" "?j < r'" "r' \<le> length buf1" "length buf' = length buf1" "take ?j buf' = take ?j buf1"
          "encodes buf' r' ?j (labels_of name1) k r'" "k \<le> r'"
          "rel_option (\<lambda>t t'. \<exists>new. t' = t @ new \<and> list_all (stands buf' r') new) table1 table'"
        by (auto simp: written_def)
      have ne: "l \<noteq> []" using l more(2) by simp
      have "encodes buf' r' j (l # labels_of name1) k r'" "take j buf' = take j buf"
        by (rule written_label [OF ne s(1) _ s(3) w(6)], use s(2) less(5) w len1 in auto)+
      then have e: "encodes buf' r' j (labels_of name) k r'" "take j buf' = take j buf"
        using more(6) l by simp_all
      then have "stands buf' r' (name, j)" using w(7) by (auto simp: stands_def)
      then have "rel_option (\<lambda>t t'. \<exists>new. t' = t @ new \<and> list_all (stands buf' r') new) table table'"
        by (rule grown_table [where alloc = alloc]) (use s(4) w(8) in simp)
      then show ?thesis unfolding w(1) using e w len1 by (intro writtenI) auto
    qed
  qed
qed


text \<open>When the name fits, it is written.\<close>

lemma labels_loop_step:
  assumes "\<not> 0 \<le> (case table of None \<Rightarrow> -1 | Some t \<Rightarrow> dnslabel_table_get_pos t name)"
    "takeWhile (\<lambda>c. c \<noteq> dot) name = l" "length l \<le> 63" "j + length l + 1 \<le> buf_len" "buf_len \<le> length buf"
    "buf1 = take j buf @ (of_nat (length l) # l) @ drop (j + 1 + length l) buf"
    "table1 = map_option (\<lambda>t. snd (dnslabel_table_add alloc t name j)) table"
  shows "labels_loop alloc buf buf_len j name table =
    (case drop (length l) name of [] \<Rightarrow> labels_end buf1 (j + 1 + length l) table1
      | _ # name1 \<Rightarrow> labels_loop alloc buf1 buf_len (j + 1 + length l) name1 table1)"
  using assms unfolding labels_loop.simps [of alloc buf] by (auto simp: Let_def mem_write_in)

lemma labels_loop_fits:
  assumes "plain_name name" "list_all (\<lambda>l. length l \<le> 63) (labels_of name)" "j + length name + 2 \<le> buf_len" "buf_len \<le> length buf"
  shows "\<exists>r buf' table'. labels_loop alloc buf buf_len j name table = Some (int r, buf', table') \<and> r \<le> j + length name + 2"
  using assms
proof (induction "length name" arbitrary: buf j name table rule: less_induct)
  case less
  show ?case
  proof (cases "0 \<le> (case table of None \<Rightarrow> -1 | Some t \<Rightarrow> dnslabel_table_get_pos t name)")
    case True
    then show ?thesis
      using less(4,5) by (subst labels_loop.simps) (auto simp: Let_def APPEND16_def mem_write_in be16_def intro!: exI [of _ "j + 2"])
  next
    case False
    show ?thesis using less(2)
    proof (cases rule: labels_cases)
      case root
      show ?thesis
        by (subst labels_loop_step [OF False refl _ _ less(5) refl refl])
          (use root less(4,5) in \<open>auto simp: labels_end_def nth_append intro!: exI [of _ "j + 1"]\<close>)
    next
      case last
      define buf1 where "buf1 = take j buf @ (of_nat (length name) # name) @ drop (j + 1 + length name) buf"
      have "buf1 ! (j + 1 + length name - 1) = List.last name" "j + 1 + length name < length buf1"
        using less(4,5) last(1) by (auto simp: buf1_def nth_append last_conv_nth)
      then have "labels_end buf1 (j + 1 + length name) t = Some (int (j + 1 + length name + 1),
          take (j + 1 + length name) buf1 @ 0 # drop (j + 1 + length name + 1) buf1, t)" for t
        using last(4) by (intro labels_end_ok) auto
      then show ?thesis
        using less(3,4) last by (subst labels_loop_step [OF False last(2) _ _ less(5) buf1_def refl]) (auto intro!: exI [of _ "j + length name + 2"])
    next
      case (more l name1)
      define buf1 where "buf1 = take j buf @ (of_nat (length l) # l) @ drop (j + 1 + length l) buf"
      have len: "length name = length l + 1 + length name1" "length l \<le> 63" "length buf1 = length buf"
        using more less(3,4,5) by (auto simp: buf1_def)
      define table1 where "table1 = map_option (\<lambda>t. snd (dnslabel_table_add alloc t name j)) table"
      have "\<exists>r buf' table'. labels_loop alloc buf1 buf_len (j + 1 + length l) name1 table1 = Some (int r, buf', table') \<and>
          r \<le> j + 1 + length l + length name1 + 2"
        using more less(3-5) len by (intro less(1)) auto
      moreover have "labels_loop alloc buf buf_len j name table = labels_loop alloc buf1 buf_len (j + 1 + length l) name1 table1"
        using len less(4) more(3) by (subst labels_loop_step [OF False more(1) len(2) _ less(5) buf1_def table1_def]) simp_all
      ultimately show ?thesis using len(1) by (simp add: add.assoc)
    qed
  qed
qed

lemma name_fits:
  assumes "plain_name name" "list_all (\<lambda>l. length l \<le> 63) (labels_of name)" "length name \<le> 255"
    "j + length name + 2 \<le> buf_len" "buf_len \<le> length buf"
  obtains r buf' table' where "dnsname_to_labels alloc buf buf_len j name table = Some (int r, buf', table')" "r \<le> j + length name + 2"
  using labels_loop_fits [OF assms(1,2,4,5), of alloc table] assms(3) that by (auto simp: dnsname_to_labels_def)

definition table_ok :: "byte list \<Rightarrow> nat \<Rightarrow> dnslabel_table option \<Rightarrow> bool" where
  "table_ok buf j = pred_option (list_all (stands buf j))"

text \<open>\<open>name_here buf len j name e\<close>: the name is at \<open>j\<close> and the next field at \<open>e\<close>.\<close>

definition name_here :: "byte list \<Rightarrow> nat \<Rightarrow> nat \<Rightarrow> byte list \<Rightarrow> nat \<Rightarrow> bool" where
  "name_here buf len j name e \<longleftrightarrow> plain_name name \<and> length name \<le> 255 \<and> (\<exists>k \<le> len. encodes buf len j (labels_of name) k e)"

lemma name_here_mono: "name_here buf len j name e \<Longrightarrow> take len buf' = take len buf \<Longrightarrow> len \<le> len' \<Longrightarrow> name_here buf' len' j name e"
  unfolding name_here_def by (meson encodes_mono le_trans)

lemma name_here_parse: "name_here buf len j name e \<Longrightarrow> len \<le> length buf \<Longrightarrow> name_parse buf len j 256 = Some (0, e, name)"
  using name_parse_loop_encodes [of buf len j "labels_of name" _ e 0 "[]" 256 j None] joined_labels [of name]
  by (auto simp: name_here_def name_parse_def)

lemma name_written:
  assumes "dnsname_to_labels alloc buf buf_len j name table = Some (int r, buf', table')" "plain_name name"
    "buf_len \<le> length buf" "buf_len \<le> 16384" "table_ok buf j table"
  shows "j < r" "r \<le> length buf" "length buf' = length buf" "take j buf' = take j buf" "name_here buf' r j name r" "table_ok buf' r table'"
    "table' = None \<longleftrightarrow> table = None"
proof -
  have run: "labels_loop alloc buf buf_len j name table = Some (int r, buf', table')" "length name \<le> 255"
    using assms(1) by (auto simp: dnsname_to_labels_def split: if_splits)
  have "written buf j name table (int r, buf', table')"
    using labels_loop_written [OF run(1) _ assms(2-4)] assms(5) by (auto simp: table_ok_def list_all_iff pred_option_def)
  then obtain k where w: "j < r" "r \<le> length buf" "length buf' = length buf" "take j buf' = take j buf"
      "encodes buf' r j (labels_of name) k r" "k \<le> r"
      "rel_option (\<lambda>t t'. \<exists>new. t' = t @ new \<and> list_all (stands buf' r) new) table table'"
    by (auto simp: written_def)
  then show "j < r" "r \<le> length buf" "length buf' = length buf" "take j buf' = take j buf" "name_here buf' r j name r"
    using assms(2) run(2) by (auto simp: name_here_def)
  show "table' = None \<longleftrightarrow> table = None" using w(7) by (cases table; cases table') auto
  show "table_ok buf' r table'"
    using w(1,4,7) assms(5) stands_mono [of buf j _ buf' r]
    by (cases table; cases table') (auto simp: table_ok_def list_all_iff)
qed

lemma table_ok_mono: "table_ok buf j t \<Longrightarrow> take j buf' = take j buf \<Longrightarrow> j \<le> j' \<Longrightarrow> table_ok buf' j' t"
  by (cases t) (auto simp: table_ok_def list_all_iff intro: stands_mono)

section \<open>Any packet\<close>

definition parse_bounds :: "nat \<Rightarrow> nat \<Rightarrow> nat \<Rightarrow> name_result \<Rightarrow> bool" where
  "parse_bounds len idx n = (\<lambda>(r, idx', name). r = -1 \<and> idx' = idx \<or> r = 0 \<and> idx < idx' \<and> idx' \<le> len \<and> length name < n)"

lemma mem_read_label: "j < len \<Longrightarrow> len + 63 \<le> length m \<Longrightarrow> k \<le> 63 \<Longrightarrow> mem_read m (j + 1) k = Some (take k (drop (j + 1) m))"
  by (simp add: mem_read_in)

lemma no_high_bits: "x AND 0xc0 = 0 \<Longrightarrow> unat x \<le> 63" for x :: byte
proof -
  assume *: "x AND 0xc0 = 0"
  have "(0xc0 OR 0x3f :: byte) = -1" by simp
  then have "x = x AND (0xc0 OR 0x3f)" by (simp only: and_minus_numerals and.right_neutral)
  also have "\<dots> = x AND 0x3f" by (simp only: bit.conj_disj_distrib *) simp
  finally have "unat x = unat x mod 64" using low_bits [of x] by simp
  then show "unat x \<le> 63" by linarith
qed

lemma name_parse_loop_bounds:
  assumes "len + 63 \<le> length packet" "case name_end of None \<Rightarrow> idx \<le> j | Some e \<Rightarrow> idx < e \<and> e \<le> len"
  shows "\<exists>res. name_parse_loop packet len idx n j name_end p cp = Some res \<and> parse_bounds len idx n res"
  using assms
proof (induction packet len idx n j name_end p cp rule: name_parse_loop.induct)
  case (1 packet len idx n j name_end p cp)
  consider (out) "len \<le> j" | (root) "j < len" "packet ! j = 0" | (ptr) "j < len" "packet ! j \<noteq> 0" "packet ! j AND 0xc0 \<noteq> 0"
    | (label) "j < len" "packet ! j \<noteq> 0" "packet ! j AND 0xc0 = 0"
    by linarith
  then show ?case
  proof cases
    case out
    then show ?thesis by (simp add: name_parse_loop.simps parse_bounds_def)
  next
    case root
    then show ?thesis using 1(3,4) by (subst name_parse_loop.simps) (auto simp: parse_bounds_def split: option.splits)
  next
    case ptr
    let ?j = "unat (packet ! j AND 0x3f) * 256 + unat (packet ! (j + 1))"
    show ?thesis
    proof (cases "j + 1 < len \<and> ?j < len \<and> p + 1 \<le> len")
      case True
      define name_end1 where "name_end1 = (case name_end of None \<Rightarrow> Some (j + 2) | Some e \<Rightarrow> Some e)"
      have "name_parse_loop packet len idx n j name_end p cp = name_parse_loop packet len idx n ?j name_end1 (p + 1) cp"
        using ptr True 1(3) unfolding name_end1_def by (subst name_parse_loop.simps) auto
      moreover have "\<exists>res. name_parse_loop packet len idx n ?j name_end1 (p + 1) cp = Some res \<and> parse_bounds len idx n res"
        by (rule 1(1) [OF _ nth_opt_in _ _ _ nth_opt_in name_end1_def refl])
          (use ptr True 1(3,4) in \<open>auto simp: name_end1_def split: option.splits\<close>)
      ultimately show ?thesis by simp
    qed (use ptr 1(3) in \<open>subst name_parse_loop.simps, auto simp: parse_bounds_def Let_def\<close>)
  next
    case label
    define k where "k = unat (packet ! j)"
    have k: "k \<le> 63" using label(3) by (auto simp: k_def intro: no_high_bits)
    define cp1 where "cp1 = (if cp \<noteq> [] then cp @ [dot] else cp)"
    show ?thesis
    proof (cases "(cp = [] \<or> length cp + 1 < n) \<and> length cp1 + k < n")
      case True
      have "name_parse_loop packet len idx n j name_end p cp =
          name_parse_loop packet len idx n (j + 1 + k) name_end p (cp1 @ take k (drop (j + 1) packet))"
        using label True k 1(3) mem_read_label [OF label(1) 1(3) k] unfolding cp1_def k_def by (subst name_parse_loop.simps) auto
      moreover have "\<exists>res. name_parse_loop packet len idx n (j + 1 + k) name_end p (cp1 @ take k (drop (j + 1) packet)) = Some res \<and>
          parse_bounds len idx n res"
        unfolding k_def
        by (rule 1(2) [OF _ nth_opt_in _ _ _ _ cp1_def _ mem_read_label])
          (use label True k 1(3,4) in \<open>auto simp: k_def split: option.splits\<close>)
      ultimately show ?thesis by simp
    qed (use label k 1(3) in \<open>subst name_parse_loop.simps, auto simp: parse_bounds_def k_def cp1_def Let_def\<close>)
  qed
qed

end
