(* ===== verification/Dns_Messages.thy ===== *)
theory Dns_Messages
  imports Dns_Names
begin

text \<open>
  DNS messages, \<^verbatim>\<open>evdns.c\<close>: queries read by a server port (\<open>request_parse\<close>), the records of an answer and the packet made of
  them (\<open>evdns_server_request_add_reply\<close>, \<open>evdns_server_request_format_response\<close>), and answers read by the client
  (\<open>reply_parse\<close>). Packets are the first \<open>len\<close> bytes of some memory, as in Dns\_Names.
\<close>

section \<open>Reading fields\<close>

definition un16 :: "byte list \<Rightarrow> 16 word" where
  "un16 bs = push_bit 8 (ucast (bs ! 0)) OR ucast (bs ! 1)"

definition un32 :: "byte list \<Rightarrow> 32 word" where
  "un32 bs = push_bit 24 (ucast (bs ! 0)) OR push_bit 16 (ucast (bs ! 1)) OR push_bit 8 (ucast (bs ! 2)) OR ucast (bs ! 3)"

text \<open>\<open>Inl ()\<close> is the jump to \<open>err\<close>.\<close>

definition GET16 :: "byte list \<Rightarrow> nat \<Rightarrow> nat \<Rightarrow> (unit + 16 word \<times> nat) option" where
  "GET16 packet len j =
     (if j + 2 > len then Some (Inl ()) else do { bs \<leftarrow> mem_read packet j 2; Some (Inr (un16 bs, j + 2)) })"

definition GET32 :: "byte list \<Rightarrow> nat \<Rightarrow> nat \<Rightarrow> (unit + 32 word \<times> nat) option" where
  "GET32 packet len j =
     (if j + 4 > len then Some (Inl ()) else do { bs \<leftarrow> mem_read packet j 4; Some (Inr (un32 bs, j + 4)) })"

text \<open>Going on after a step that may have jumped to \<open>err\<close>.\<close>

definition and_then :: "('e + 'a) option \<Rightarrow> ('a \<Rightarrow> ('e + 'b) option) \<Rightarrow> ('e + 'b) option" where
  "and_then m f = (case m of None \<Rightarrow> None | Some (Inl e) \<Rightarrow> Some (Inl e) | Some (Inr x) \<Rightarrow> f x)"

text \<open>The same jump with what the error path needs.\<close>

definition failing :: "'f \<Rightarrow> ('e + 'a) option \<Rightarrow> ('f + 'a) option" where
  "failing f m = (case m of None \<Rightarrow> None | Some (Inl e) \<Rightarrow> Some (Inl f) | Some (Inr x) \<Rightarrow> Some (Inr x))"

fun GET16s :: "nat \<Rightarrow> byte list \<Rightarrow> nat \<Rightarrow> nat \<Rightarrow> (unit + 16 word list \<times> nat) option" where
  "GET16s 0 packet len j = Some (Inr ([], j))"
| "GET16s (Suc n) packet len j =
     and_then (GET16 packet len j) (\<lambda>(x, j1). and_then (GET16s n packet len j1) (\<lambda>(xs, j2). Some (Inr (x # xs, j2))))"

definition c_string :: "byte list \<Rightarrow> byte list" where
  "c_string bs = takeWhile (\<lambda>c. c \<noteq> 0) bs"

text \<open>\<open>name_parse\<close> with the jump to \<open>err\<close> its callers make of -1.\<close>

definition parse_name :: "byte list \<Rightarrow> nat \<Rightarrow> nat \<Rightarrow> nat \<Rightarrow> (unit + byte list \<times> nat) option" where
  "parse_name packet len j n = do {
     (r, j1, name) \<leftarrow> name_parse packet len j n;
     Some (if r < 0 then Inl () else Inr (c_string name, j1))
   }"

section \<open>Queries\<close>

record evdns_server_question =
  sq_type :: int
  sq_class :: int
  sq_name :: "byte list"

record server_reply_item =
  it_name :: "byte list"
  it_type :: "16 word"
  it_class :: "16 word"
  it_ttl :: "32 word"
  it_is_name :: bool
  it_datalen :: "16 word"
  it_data :: "byte list option"

record server_request =
  sr_trans_id :: "16 word"
  sr_flags :: int
  sr_questions :: "evdns_server_question list"
  sr_n_answer :: int
  sr_n_authority :: int
  sr_n_additional :: int
  sr_answer :: "server_reply_item list"
  sr_authority :: "server_reply_item list"
  sr_additional :: "server_reply_item list"
  sr_response :: "byte list option"

text \<open>
  The questions of a query. \<open>alloc i\<close>: whether the \<open>i\<close>-th allocation of the function succeeds; the question \<open>q\<close> is the
  allocation \<open>2 + q\<close>.
\<close>

fun parse_questions :: "(nat \<Rightarrow> bool) \<Rightarrow> byte list \<Rightarrow> nat \<Rightarrow> nat \<Rightarrow> nat \<Rightarrow> nat \<Rightarrow> (unit + evdns_server_question list \<times> nat) option" where
  "parse_questions alloc packet len j i 0 = Some (Inr ([], j))"
| "parse_questions alloc packet len j i (Suc n) =
     and_then (parse_name packet len j 256) (\<lambda>(name, j1).
     and_then (GET16 packet len j1) (\<lambda>(type, j2).
     and_then (GET16 packet len j2) (\<lambda>(cls, j3).
       if \<not> alloc (2 + i) then Some (Inl ())
       else and_then (parse_questions alloc packet len j3 (Suc i) n) (\<lambda>(qs, j4).
         Some (Inr (\<lparr>sq_type = uint type, sq_class = uint cls, sq_name = name\<rparr> # qs, j4))))))"

text \<open>
  What happens to a query: it is dropped (the result is -1), answered with an error at once (the result is -1), or given to
  the user's callback.
\<close>

datatype request_outcome = Dropped | Refused server_request int | Delivered server_request

definition DNS_ERR_NOTIMPL :: int where "DNS_ERR_NOTIMPL = 4"

definition request_parse :: "(nat \<Rightarrow> bool) \<Rightarrow> byte list \<Rightarrow> nat \<Rightarrow> request_outcome option" where
  "request_parse alloc packet len = do {
     hdr \<leftarrow> GET16s 6 packet len 0;
     (case hdr of
        Inl _ \<Rightarrow> Some Dropped
      | Inr (h, j) \<Rightarrow>
          let trans_id = h ! 0; flags = h ! 1; questions = unat (h ! 2) in
          if flags AND 0x8000 \<noteq> 0 then Some Dropped
          else
            let flags1 = flags AND 0x0110 in
            if \<not> alloc 0 \<or> \<not> alloc 1 then Some Dropped
            else do {
              r \<leftarrow> parse_questions alloc packet len j 0 questions;
              (case r of
                 Inl _ \<Rightarrow> Some Dropped
               | Inr (qs, _) \<Rightarrow>
                   let req = \<lparr>sr_trans_id = trans_id, sr_flags = uint flags1, sr_questions = qs,
                     sr_n_answer = 0, sr_n_authority = 0, sr_n_additional = 0,
                     sr_answer = [], sr_authority = [], sr_additional = [], sr_response = None\<rparr> in
                   Some (if flags1 AND 0x7800 \<noteq> 0 then Refused req DNS_ERR_NOTIMPL else Delivered req))
            })
   }"

section \<open>Answers\<close>

datatype dns_section = EVDNS_ANSWER_SECTION | EVDNS_AUTHORITY_SECTION | EVDNS_ADDITIONAL_SECTION

definition add_item :: "dns_section \<Rightarrow> server_reply_item \<Rightarrow> server_request \<Rightarrow> server_request" where
  "add_item sec item req = (case sec of
     EVDNS_ANSWER_SECTION \<Rightarrow> req\<lparr>sr_answer := sr_answer req @ [item], sr_n_answer := sr_n_answer req + 1\<rparr>
   | EVDNS_AUTHORITY_SECTION \<Rightarrow> req\<lparr>sr_authority := sr_authority req @ [item], sr_n_authority := sr_n_authority req + 1\<rparr>
   | EVDNS_ADDITIONAL_SECTION \<Rightarrow> req\<lparr>sr_additional := sr_additional req @ [item], sr_n_additional := sr_n_additional req + 1\<rparr>)"

text \<open>
  \<open>sect\<close> is \<open>None\<close> for a value that is none of the three. \<open>data\<close> is the memory the caller hands in; the three
  allocations are the item, its name and its data.
\<close>

definition evdns_server_request_add_reply ::
    "(nat \<Rightarrow> bool) \<Rightarrow> server_request \<Rightarrow> dns_section option \<Rightarrow> byte list \<Rightarrow> int \<Rightarrow> int \<Rightarrow> int \<Rightarrow> int \<Rightarrow> bool \<Rightarrow> byte list option \<Rightarrow>
      (int \<times> server_request) option" where
  "evdns_server_request_add_reply alloc req sect name type cls ttl datalen is_name data =
     (if sr_response req \<noteq> None then Some (-1, req)
      else case sect of None \<Rightarrow> Some (-1, req)
      | Some sec \<Rightarrow>
        if \<not> alloc 0 \<or> \<not> alloc 1 then Some (-1, req)
        else
          let item = \<lparr>it_name = name, it_type = of_int type, it_class = of_int cls, it_ttl = of_int ttl,
            it_is_name = is_name, it_datalen = 0, it_data = None\<rparr> in
          case data of None \<Rightarrow> Some (0, add_item sec item req)
          | Some d \<Rightarrow>
            if \<not> alloc 2 then Some (-1, req)
            else if is_name then Some (0, add_item sec (item\<lparr>it_data := Some (c_string d), it_datalen := -1\<rparr>) req)
            else do {
              ev_assert (0 \<le> datalen);
              bs \<leftarrow> mem_read d 0 (nat datalen);
              Some (0, add_item sec (item\<lparr>it_data := Some bs, it_datalen := of_int datalen\<rparr>) req)
            })"

definition TYPE_A :: int where "TYPE_A = 1"
definition TYPE_CNAME :: int where "TYPE_CNAME = 5"
definition TYPE_SOA :: int where "TYPE_SOA = 6"
definition TYPE_PTR :: int where "TYPE_PTR = 12"
definition TYPE_AAAA :: int where "TYPE_AAAA = 28"
definition CLASS_INET :: int where "CLASS_INET = 1"

definition evdns_server_request_add_a_reply ::
    "(nat \<Rightarrow> bool) \<Rightarrow> server_request \<Rightarrow> byte list \<Rightarrow> int \<Rightarrow> byte list option \<Rightarrow> int \<Rightarrow> (int \<times> server_request) option" where
  "evdns_server_request_add_a_reply alloc req name n addrs ttl =
     evdns_server_request_add_reply alloc req (Some EVDNS_ANSWER_SECTION) name TYPE_A CLASS_INET ttl (n * 4) False addrs"

definition evdns_server_request_add_aaaa_reply ::
    "(nat \<Rightarrow> bool) \<Rightarrow> server_request \<Rightarrow> byte list \<Rightarrow> int \<Rightarrow> byte list option \<Rightarrow> int \<Rightarrow> (int \<times> server_request) option" where
  "evdns_server_request_add_aaaa_reply alloc req name n addrs ttl =
     evdns_server_request_add_reply alloc req (Some EVDNS_ANSWER_SECTION) name TYPE_AAAA CLASS_INET ttl (n * 16) False addrs"

definition evdns_server_request_add_cname_reply ::
    "(nat \<Rightarrow> bool) \<Rightarrow> server_request \<Rightarrow> byte list \<Rightarrow> byte list option \<Rightarrow> int \<Rightarrow> (int \<times> server_request) option" where
  "evdns_server_request_add_cname_reply alloc req name cname ttl =
     evdns_server_request_add_reply alloc req (Some EVDNS_ANSWER_SECTION) name TYPE_CNAME CLASS_INET ttl (-1) True cname"

definition evdns_server_request_set_flags :: "server_request \<Rightarrow> int \<Rightarrow> server_request" where
  "evdns_server_request_set_flags req flags = req\<lparr>sr_flags := (sr_flags req AND NOT (0x400 OR 0x080)) OR flags\<rparr>"

definition server_request_free_answers :: "server_request \<Rightarrow> server_request" where
  "server_request_free_answers req = req\<lparr>sr_answer := [], sr_authority := [], sr_additional := []\<rparr>"


text \<open>
  The response is built in a buffer on the stack. A step may return early, jump to \<open>overflow\<close> with the buffer as it is then,
  or go on.
\<close>

datatype response_stop = Return int | Overflow "byte list"

type_synonym response_state = "byte list \<times> nat \<times> dnslabel_table"

definition append16s :: "byte list \<Rightarrow> nat \<Rightarrow> nat \<Rightarrow> 16 word list \<Rightarrow> (response_stop + byte list \<times> nat) option" where
  "append16s buf buf_len j xs = do {
     r \<leftarrow> APPEND16s buf buf_len j xs;
     Some (case r of Inl buf1 \<Rightarrow> Inl (Overflow buf1) | Inr x \<Rightarrow> Inr x)
   }"

definition APPEND32 :: "byte list \<Rightarrow> nat \<Rightarrow> nat \<Rightarrow> 32 word \<Rightarrow> (response_stop + byte list \<times> nat) option" where
  "APPEND32 buf buf_len j x =
     (if j + 4 > buf_len then Some (Inl (Overflow buf))
      else do { buf1 \<leftarrow> mem_write buf j (be32 x); Some (Inr (buf1, j + 4)) })"

text \<open>A name of an item; -1 and -2 both lead to \<open>overflow\<close>.\<close>

definition append_name :: "(nat \<Rightarrow> bool) \<Rightarrow> nat \<Rightarrow> response_state \<Rightarrow> byte list \<Rightarrow> (response_stop + response_state) option" where
  "append_name alloc buf_len = (\<lambda>(buf, j, table) name. do {
     (r, buf1, table1) \<leftarrow> dnsname_to_labels alloc buf buf_len j name (Some table);
     Some (if r < 0 then Inl (Overflow buf1) else Inr (buf1, nat r, the table1))
   })"

fun format_questions :: "(nat \<Rightarrow> bool) \<Rightarrow> nat \<Rightarrow> response_state \<Rightarrow> evdns_server_question list \<Rightarrow> (response_stop + response_state) option" where
  "format_questions alloc buf_len st [] = Some (Inr st)"
| "format_questions alloc buf_len (buf, j, table) (q # qs) = do {
     (r, buf1, table1) \<leftarrow> dnsname_to_labels alloc buf buf_len j (sq_name q) (Some table);
     if r < 0 then Some (Inl (Return r))
     else and_then (append16s buf1 buf_len (nat r) [of_int (sq_type q), of_int (sq_class q)]) (\<lambda>(buf2, j2).
       format_questions alloc buf_len (buf2, j2, the table1) qs)
   }"

text \<open>The data of a record: a name with its length in front, or bytes.\<close>

definition format_rdata :: "(nat \<Rightarrow> bool) \<Rightarrow> nat \<Rightarrow> response_state \<Rightarrow> server_reply_item \<Rightarrow> (response_stop + response_state) option" where
  "format_rdata alloc buf_len = (\<lambda>(buf, j, table) item.
     if it_is_name item then do {
       data \<leftarrow> it_data item;
       and_then (append_name alloc buf_len (buf, j + 2, table) data) (\<lambda>(buf1, j1, table1). do {
         buf2 \<leftarrow> mem_write buf1 j (be16 (of_nat (j1 - (j + 2))));
         Some (Inr (buf2, j1, table1))
       })
     }
     else and_then (append16s buf buf_len j [it_datalen item]) (\<lambda>(buf1, j1).
       if j1 + unat (it_datalen item) > buf_len then Some (Inl (Overflow buf1))
       else do {
         bs \<leftarrow> mem_read (case it_data item of None \<Rightarrow> [] | Some d \<Rightarrow> d) 0 (unat (it_datalen item));
         buf2 \<leftarrow> mem_write buf1 j1 bs;
         Some (Inr (buf2, j1 + unat (it_datalen item), table))
       }))"

fun format_items :: "(nat \<Rightarrow> bool) \<Rightarrow> nat \<Rightarrow> response_state \<Rightarrow> server_reply_item list \<Rightarrow> (response_stop + response_state) option" where
  "format_items alloc buf_len st [] = Some (Inr st)"
| "format_items alloc buf_len st (item # items) =
     and_then (append_name alloc buf_len st (it_name item)) (\<lambda>(buf1, j1, table1).
     and_then (append16s buf1 buf_len j1 [it_type item, it_class item]) (\<lambda>(buf2, j2).
     and_then (APPEND32 buf2 buf_len j2 (it_ttl item)) (\<lambda>(buf3, j3).
     and_then (format_rdata alloc buf_len (buf3, j3, table1) item) (\<lambda>st4.
       format_items alloc buf_len st4 items))))"

definition format_body :: "(nat \<Rightarrow> bool) \<Rightarrow> server_request \<Rightarrow> int \<Rightarrow> byte list \<Rightarrow> (response_stop + response_state) option" where
  "format_body alloc req err buf =
     (let flags = of_int (sr_flags req) OR (0x8000 OR of_int err) in
      and_then (append16s buf 1500 0 [sr_trans_id req, flags, of_nat (length (sr_questions req)),
        of_int (sr_n_answer req), of_int (sr_n_authority req), of_int (sr_n_additional req)]) (\<lambda>(buf1, j1).
      and_then (format_questions alloc 1500 (buf1, j1, []) (sr_questions req)) (\<lambda>st2.
      and_then (format_items alloc 1500 st2 (sr_answer req)) (\<lambda>st3.
      and_then (format_items alloc 1500 st3 (sr_authority req)) (\<lambda>st4.
        format_items alloc 1500 st4 (sr_additional req))))))"

text \<open>
  \<open>buf\<close> is what the 1500 bytes of the stack hold at the start; \<open>alloc_response\<close> is whether the response can be
  allocated.
\<close>

definition truncated :: "byte list \<Rightarrow> byte list option" where
  "truncated buf = do {
     b \<leftarrow> nth_opt buf 2;
     buf1 \<leftarrow> upd_opt buf 2 (b OR 0x02);
     mem_read buf1 0 512
   }"

definition evdns_server_request_format_response ::
    "(nat \<Rightarrow> bool) \<Rightarrow> bool \<Rightarrow> byte list \<Rightarrow> server_request \<Rightarrow> int \<Rightarrow> (int \<times> server_request) option" where
  "evdns_server_request_format_response alloc alloc_response buf req err =
     (if err < 0 \<or> err > 15 then Some (-1, req)
      else do {
        r \<leftarrow> format_body alloc req err buf;
        (case r of
           Inl (Return x) \<Rightarrow> Some (x, req)
         | _ \<Rightarrow> do {
             bytes \<leftarrow> (case r of
                 Inr (buf1, j, _) \<Rightarrow> if j > 512 then truncated buf1 else mem_read buf1 0 j
               | Inl (Overflow buf1) \<Rightarrow> truncated buf1
               | Inl (Return _) \<Rightarrow> None);
             Some (if alloc_response then (0, server_request_free_answers (req\<lparr>sr_response := Some bytes\<rparr>))
                   else (-1, server_request_free_answers req))
           })
      })"


section \<open>Reading answers\<close>

text \<open>
  What \<open>reply_parse\<close> uses of a \<open>struct request\<close>: the memory of the query and its length, its type, and where a CNAME goes
  (\<open>None\<close> for a NULL \<open>put_cname_in_ptr\<close>, otherwise the pointer stored there).
\<close>

record request =
  rq_trans_id :: "16 word"
  rq_request :: "byte list"
  rq_request_len :: nat
  rq_request_type :: int
  rq_put_cname :: "byte list option option"

text \<open>The union of the source holds addresses or a name, by the type of the query.\<close>

record reply =
  rp_type :: int
  rp_have_answer :: bool
  rp_addrcount :: nat
  rp_addresses :: "byte list"
  rp_name :: "byte list"

definition MAX_V4_ADDRS :: nat where "MAX_V4_ADDRS = 32"
definition MAX_V6_ADDRS :: nat where "MAX_V6_ADDRS = 32"

definition EVUTIL_TOLOWER :: "byte \<Rightarrow> byte" where
  "EVUTIL_TOLOWER c = (if 65 \<le> c \<and> c \<le> 90 then c + 32 else c)"

text \<open>\<open>char\<close> is unsigned, as on the ARM boards the repository targets; the callers only test the result for 0.\<close>

fun evutil_ascii_strcasecmp :: "byte list \<Rightarrow> byte list \<Rightarrow> int" where
  "evutil_ascii_strcasecmp s1 s2 =
     (let c1 = EVUTIL_TOLOWER (case s1 of [] \<Rightarrow> 0 | c # _ \<Rightarrow> c); c2 = EVUTIL_TOLOWER (case s2 of [] \<Rightarrow> 0 | c # _ \<Rightarrow> c) in
      if c1 < c2 then -1 else if c1 > c2 then 1 else if c1 = 0 then 0
      else case s1 of [] \<Rightarrow> 0 | _ # s1' \<Rightarrow> (case s2 of [] \<Rightarrow> 0 | _ # s2' \<Rightarrow> evutil_ascii_strcasecmp s1' s2'))"

declare evutil_ascii_strcasecmp.simps [simp del]

text \<open>\<open>TEST_NAME\<close> for each question: the same place of the query has to hold the same name.\<close>

fun test_questions :: "bool \<Rightarrow> request \<Rightarrow> byte list \<Rightarrow> nat \<Rightarrow> nat \<Rightarrow> bool \<Rightarrow> nat \<Rightarrow> (unit + bool \<times> nat) option" where
  "test_questions randomize_case req packet len j matches 0 = Some (Inr (matches, j))"
| "test_questions randomize_case req packet len j matches (Suc n) =
     and_then (parse_name packet len j 256) (\<lambda>(tmp_name, j1).
     and_then (parse_name (rq_request req) (rq_request_len req) j 256) (\<lambda>(cmp_name, _).
       let same = (if randomize_case then tmp_name = cmp_name else evutil_ascii_strcasecmp tmp_name cmp_name = 0) in
       if j1 + 4 > len then Some (Inl ())
       else test_questions randomize_case req packet len (j1 + 4) (matches \<or> same) n))"

definition rr_header :: "byte list \<Rightarrow> nat \<Rightarrow> nat \<Rightarrow> (unit + 16 word \<times> 16 word \<times> 32 word \<times> nat \<times> nat) option" where
  "rr_header packet len j =
     and_then (parse_name packet len j 256) (\<lambda>(_, j1).
     and_then (GET16 packet len j1) (\<lambda>(type, j2).
     and_then (GET16 packet len j2) (\<lambda>(cls, j3).
     and_then (GET32 packet len j3) (\<lambda>(ttl, j4).
     and_then (GET16 packet len j4) (\<lambda>(datalength, j5). Some (Inr (type, cls, ttl, unat datalength, j5)))))))"

text \<open>The answers read so far: the index, the least TTL, the reply and the CNAME of the request.\<close>

type_synonym answer_state = "nat \<times> 32 word \<times> reply \<times> byte list option option"

text \<open>A record with addresses of \<open>width\<close> bytes each. The flag of the result is whether the loop ends here.\<close>

definition take_addresses ::
    "nat \<Rightarrow> nat \<Rightarrow> byte list \<Rightarrow> nat \<Rightarrow> nat \<Rightarrow> 32 word \<Rightarrow> answer_state \<Rightarrow> (unit + bool \<times> answer_state) option" where
  "take_addresses width maximum packet len datalength ttl = (\<lambda>(j, ttl_r, reply, cname).
     if datalength mod width \<noteq> 0 then Some (Inl ())
     else
       let addrtocopy = min (maximum - rp_addrcount reply) (datalength div width) in
       if j + width * addrtocopy > len then Some (Inl ())
       else do {
         bs \<leftarrow> mem_read packet j (width * addrtocopy);
         let reply1 = reply\<lparr>rp_addresses := rp_addresses reply @ bs, rp_addrcount := rp_addrcount reply + addrtocopy,
           rp_have_answer := True\<rparr>;
         Some (Inr (rp_addrcount reply1 = maximum, j + width * addrtocopy, min ttl_r ttl, reply1, cname))
       })"

text \<open>
  One record of the answer section. \<open>host_name_max\<close> is the constant of the system's \<^verbatim>\<open>limits.h\<close>, \<open>alloc\<close> whether the
  copy of a CNAME can be allocated.
\<close>

definition parse_answer ::
    "nat \<Rightarrow> bool \<Rightarrow> int \<Rightarrow> byte list \<Rightarrow> nat \<Rightarrow> answer_state \<Rightarrow> (unit + bool \<times> answer_state) option" where
  "parse_answer host_name_max alloc request_type packet len = (\<lambda>(j, ttl_r, reply, cname).
     and_then (rr_header packet len j) (\<lambda>(type, cls, ttl, datalength, j1).
       let skip = Some (Inr (False, j1 + datalength, ttl_r, reply, cname)) in
       if uint type = TYPE_A \<and> uint cls = CLASS_INET then
         if request_type \<noteq> TYPE_A then skip
         else take_addresses 4 MAX_V4_ADDRS packet len datalength ttl (j1, ttl_r, reply, cname)
       else if uint type = TYPE_PTR \<and> uint cls = CLASS_INET then
         if request_type \<noteq> TYPE_PTR then skip
         else and_then (parse_name packet len j1 host_name_max) (\<lambda>(name, j2).
           Some (Inr (True, j2, min ttl_r ttl, reply\<lparr>rp_name := name, rp_have_answer := True\<rparr>, cname)))
       else if uint type = TYPE_CNAME then
         if cname \<noteq> Some None then skip
         else and_then (parse_name packet len j1 host_name_max) (\<lambda>(name, j2).
           Some (Inr (False, j2, ttl_r, reply, Some (if alloc then Some name else None))))
       else if uint type = TYPE_AAAA \<and> uint cls = CLASS_INET then
         if request_type \<noteq> TYPE_AAAA then skip
         else take_addresses 16 MAX_V6_ADDRS packet len datalength ttl (j1, ttl_r, reply, cname)
       else skip))"

fun parse_answers ::
    "nat \<Rightarrow> bool \<Rightarrow> int \<Rightarrow> byte list \<Rightarrow> nat \<Rightarrow> answer_state \<Rightarrow> nat \<Rightarrow> (byte list option option + answer_state) option" where
  "parse_answers host_name_max alloc request_type packet len st 0 = Some (Inr st)"
| "parse_answers host_name_max alloc request_type packet len st (Suc n) =
     and_then (failing (case st of (_, _, _, cname) \<Rightarrow> cname) (parse_answer host_name_max alloc request_type packet len st)) (\<lambda>(stop, st1).
       if stop then Some (Inr st1) else parse_answers host_name_max alloc request_type packet len st1 n)"

text \<open>The authority section: the TTL of a negative answer is in the SOA record.\<close>

fun parse_authority :: "byte list \<Rightarrow> nat \<Rightarrow> nat \<Rightarrow> 32 word \<Rightarrow> nat \<Rightarrow> (unit + 32 word) option" where
  "parse_authority packet len j ttl_r 0 = Some (Inr ttl_r)"
| "parse_authority packet len j ttl_r (Suc n) =
     and_then (rr_header packet len j) (\<lambda>(type, cls, ttl, datalength, j1).
       if uint type = TYPE_SOA \<and> uint cls = CLASS_INET then
         and_then (parse_name packet len j1 256) (\<lambda>(_, j2).
         and_then (parse_name packet len j2 256) (\<lambda>(_, j3).
         and_then (GET32 packet len j3) (\<lambda>(serial, j4).
         and_then (GET32 packet len j4) (\<lambda>(refresh, j5).
         and_then (GET32 packet len j5) (\<lambda>(retry, j6).
         and_then (GET32 packet len j6) (\<lambda>(expire, j7).
         and_then (GET32 packet len j7) (\<lambda>(minimum, j8).
           parse_authority packet len j8 (min (min ttl_r ttl) minimum) n)))))))
       else parse_authority packet len (j1 + datalength) ttl_r n)"

text \<open>
  The outcome: the packet is ignored, or \<open>reply_handle\<close> is called with the request, the flags, the TTL and the reply (NULL
  after an error). \<open>find_req\<close> is \<open>request_find_from_trans_id\<close> on the state of the base.
\<close>

datatype reply_outcome = Ignored | Handle_reply int request "16 word" "32 word" "reply option"

definition DNS_ERR_NOTEXIST :: "16 word" where "DNS_ERR_NOTEXIST = 3"

definition parse_body ::
    "nat \<Rightarrow> bool \<Rightarrow> bool \<Rightarrow> request \<Rightarrow> byte list \<Rightarrow> nat \<Rightarrow> nat \<Rightarrow> 16 word list \<Rightarrow>
      (byte list option option + 32 word \<times> reply \<times> byte list option option) option" where
  "parse_body host_name_max alloc randomize_case req packet len j h =
     (let flags = h ! 1; reply = \<lparr>rp_type = rq_request_type req, rp_have_answer = False, rp_addrcount = 0,
        rp_addresses = [], rp_name = []\<rparr> in
      if flags AND 0x020f \<noteq> 0 \<and> flags AND 0x020f \<noteq> DNS_ERR_NOTEXIST then Some (Inl (rq_put_cname req))
      else
        and_then (failing (rq_put_cname req) (test_questions randomize_case req packet len j False (unat (h ! 2)))) (\<lambda>(name_matches, j1).
        if \<not> name_matches then Some (Inl (rq_put_cname req))
        else
          and_then (parse_answers host_name_max alloc (rq_request_type req) packet len (j1, 0xffffffff, reply, rq_put_cname req) (unat (h ! 3)))
            (\<lambda>(j2, ttl_r, reply1, cname).
          and_then (failing cname (if rp_have_answer reply1 then Some (Inr ttl_r) else parse_authority packet len j2 ttl_r (unat (h ! 4)))) (\<lambda>ttl_r1.
            Some (Inr (if ttl_r1 = 0xffffffff then 0 else ttl_r1, reply1, cname))))))"

definition reply_parse ::
    "nat \<Rightarrow> bool \<Rightarrow> bool \<Rightarrow> (16 word \<Rightarrow> request option) \<Rightarrow> byte list \<Rightarrow> nat \<Rightarrow> reply_outcome option" where
  "reply_parse host_name_max alloc randomize_case find_req packet len = do {
     hdr \<leftarrow> GET16s 6 packet len 0;
     (case hdr of
        Inl _ \<Rightarrow> Some Ignored
      | Inr (h, j) \<Rightarrow>
          (case find_req (h ! 0) of
             None \<Rightarrow> Some Ignored
           | Some req \<Rightarrow>
               if h ! 1 AND 0x8000 = 0 then Some Ignored
               else do {
                 r \<leftarrow> parse_body host_name_max alloc randomize_case req packet len j h;
                 Some (case r of
                   Inl cname \<Rightarrow> Handle_reply (-1) (req\<lparr>rq_put_cname := cname\<rparr>) (h ! 1) 0 None
                 | Inr (ttl, reply, cname) \<Rightarrow> Handle_reply 0 (req\<lparr>rq_put_cname := cname\<rparr>) (h ! 1) ttl (Some reply))
               }))
   }"

end
