(* ===== verification/Dns_Roundtrip.thy ===== *)
theory Dns_Roundtrip
  imports Dns_Messages
begin

text \<open>
  A query and its answer on the wire: what the client writes the server reads, and what the server answers the client reads.
\<close>

section \<open>Bytes written and read\<close>

definition put :: "byte list \<Rightarrow> nat \<Rightarrow> byte list \<Rightarrow> byte list" where
  "put buf j bs = take j buf @ bs @ drop (j + length bs) buf"

definition bytes_at :: "byte list \<Rightarrow> nat \<Rightarrow> byte list \<Rightarrow> bool" where
  "bytes_at buf j bs \<longleftrightarrow> j + length bs \<le> length buf \<and> take (length bs) (drop j buf) = bs"

lemma put_simps [simp]:
  "j + length bs \<le> length buf \<Longrightarrow> length (put buf j bs) = length buf"
  "j \<le> length buf \<Longrightarrow> take j (put buf j bs) = take j buf"
  by (simp_all add: put_def)

lemma put_take: "i \<le> j \<Longrightarrow> j \<le> length buf \<Longrightarrow> take i (put buf j bs) = take i buf"
  by (simp add: put_def)

lemma put_put: "j + length xs \<le> length buf \<Longrightarrow> put (put buf j xs) (j + length xs) ys = put buf j (xs @ ys)"
  by (simp add: put_def ac_simps)

lemma mem_write_put: "j + length bs \<le> length buf \<Longrightarrow> mem_write buf j bs = Some (put buf j bs)"
  by (simp add: put_def mem_write_in)

lemma bytes_at_put: "j + length bs \<le> length buf \<Longrightarrow> bytes_at (put buf j bs) j bs"
  by (simp add: bytes_at_def put_def)

lemma bytes_at_prefix: "bytes_at buf j bs \<Longrightarrow> take n buf' = take n buf \<Longrightarrow> j + length bs \<le> n \<Longrightarrow> n \<le> length buf' \<Longrightarrow> bytes_at buf' j bs"
  unfolding bytes_at_def
proof (intro conjI)
  assume *: "j + length bs \<le> length buf \<and> take (length bs) (drop j buf) = bs" "take n buf' = take n buf" "j + length bs \<le> n" "n \<le> length buf'"
  then show "j + length bs \<le> length buf'" by simp
  have "take (length bs) (drop j (take n xs)) = take (length bs) (drop j xs)" for xs :: "byte list" using *(3) by (simp add: drop_take)
  then show "take (length bs) (drop j buf') = bs" using *(1,2) by metis
qed

lemma bytes_at_append: "bytes_at buf j (xs @ ys) \<longleftrightarrow> bytes_at buf j xs \<and> bytes_at buf (j + length xs) ys"
proof
  assume *: "bytes_at buf j (xs @ ys)"
  have "take (length xs) (take (length xs + length ys) (drop j buf)) = xs"
    "drop (length xs) (take (length xs + length ys) (drop j buf)) = ys"
    using * by (simp_all add: bytes_at_def)
  then show "bytes_at buf j xs \<and> bytes_at buf (j + length xs) ys"
    using * by (simp add: bytes_at_def drop_take add.commute)
next
  assume "bytes_at buf j xs \<and> bytes_at buf (j + length xs) ys"
  then show "bytes_at buf j (xs @ ys)"
    by (simp add: bytes_at_def take_add add.commute)
qed

lemma length_be [simp]: "length (be16 x) = 2" "length (be32 y) = 4"
  by (simp_all add: be16_def be32_def)

lemma un16_be16 [simp]: "un16 (be16 x) = x"
  by (rule bit_eqI) (auto simp: un16_def be16_def bit_simps)

lemma un32_be32 [simp]: "un32 (be32 x) = x"
proof (rule bit_eqI)
  fix n
  assume "possible_bit TYPE(32 word) n"
  then have "n < 32" by simp
  then consider "24 \<le> n" | "16 \<le> n" "n < 24" | "8 \<le> n" "n < 16" | "n < 8" by linarith
  then show "bit (un32 (be32 x)) n = bit x n"
    using \<open>n < 32\<close> by cases (auto simp: un32_def be32_def bit_simps)
qed

lemma and_then_simps [simp]:
  "and_then (Some (Inl e)) f = Some (Inl e)" "and_then (Some (Inr x)) f = f x" "and_then None f = None"
  by (simp_all add: and_then_def)

lemma failing_simps [simp]: "failing c (Some (Inl e)) = Some (Inl c)" "failing c (Some (Inr x)) = Some (Inr x)" "failing c None = None"
  by (simp_all add: failing_def)

lemma GET16_at: "bytes_at packet j (be16 x) \<Longrightarrow> j + 2 \<le> len \<Longrightarrow> GET16 packet len j = Some (Inr (x, j + 2))"
  by (simp add: GET16_def bytes_at_def mem_read_in)

lemma GET32_at: "bytes_at packet j (be32 x) \<Longrightarrow> j + 4 \<le> len \<Longrightarrow> GET32 packet len j = Some (Inr (x, j + 4))"
  by (simp add: GET32_def bytes_at_def mem_read_in)

lemma length_be16s [simp]: "length (concat (map be16 xs)) = 2 * length xs"
  by (induction xs) simp_all

lemma GET16s_at:
  "bytes_at packet j (concat (map be16 xs)) \<Longrightarrow> j + 2 * length xs \<le> len \<Longrightarrow>
   GET16s (length xs) packet len j = Some (Inr (xs, j + 2 * length xs))"
proof (induction xs arbitrary: j)
  case (Cons x xs)
  then show ?case using GET16_at [of packet j x len] by (simp add: bytes_at_append)
qed simp

lemma APPEND16s_put:
  "j + 2 * length xs \<le> buf_len \<Longrightarrow> buf_len \<le> length buf \<Longrightarrow>
   APPEND16s buf buf_len j xs = Some (Inr (put buf j (concat (map be16 xs)), j + 2 * length xs))"
proof (induction xs arbitrary: buf j)
  case Nil
  then show ?case by (simp add: put_def)
next
  case (Cons x xs)
  then have "APPEND16s (put buf j (be16 x)) buf_len (j + 2) xs =
      Some (Inr (put (put buf j (be16 x)) (j + 2) (concat (map be16 xs)), j + 2 + 2 * length xs))"
    by simp
  then show ?case using Cons.prems put_put [of j "be16 x" buf] by (simp add: APPEND16_def mem_write_put)
qed

lemma append16s_put:
  "j + 2 * length xs \<le> buf_len \<Longrightarrow> buf_len \<le> length buf \<Longrightarrow>
   append16s buf buf_len j xs = Some (Inr (put buf j (concat (map be16 xs)), j + 2 * length xs))"
  by (simp add: append16s_def APPEND16s_put)

lemma APPEND32_put:
  "j + 4 \<le> buf_len \<Longrightarrow> buf_len \<le> length buf \<Longrightarrow> APPEND32 buf buf_len j x = Some (Inr (put buf j (be32 x), j + 4))"
  by (simp add: APPEND32_def mem_write_put)

lemma plain_no_zero: "plain_name name \<Longrightarrow> c_string name = name"
  by (auto simp: plain_name_def c_string_def takeWhile_eq_all_conv)

lemma parse_name_here: "name_here buf len j name e \<Longrightarrow> len \<le> length buf \<Longrightarrow> parse_name buf len j 256 = Some (Inr (name, e))"
  by (simp add: parse_name_def name_here_parse plain_no_zero name_here_def)


section \<open>A query\<close>

definition wire_name :: "byte list \<Rightarrow> bool" where
  "wire_name name \<longleftrightarrow> plain_name name \<and> list_all (\<lambda>l. length l \<le> 63) (labels_of name) \<and> length name \<le> 255"

text \<open>A message with one question at the start of some memory: the six fields of the header, and where the rest begins.\<close>

definition one_question :: "byte list \<Rightarrow> nat \<Rightarrow> 16 word list \<Rightarrow> byte list \<Rightarrow> 16 word \<Rightarrow> 16 word \<Rightarrow> nat \<Rightarrow> bool" where
  "one_question m len h name type cls r \<longleftrightarrow> length h = 6 \<and> bytes_at m 0 (concat (map be16 h)) \<and> name_here m len 12 name r \<and>
     12 \<le> r \<and> bytes_at m r (be16 type @ be16 cls) \<and> r + 4 \<le> len \<and> len \<le> length m"

lemma one_question_mono:
  assumes "one_question m len h name type cls r" "take len m' = take len m" "len \<le> len'" "len' \<le> length m'"
  shows "one_question m' len' h name type cls r"
  using assms by (auto simp: one_question_def intro: name_here_mono bytes_at_prefix)

lemma query_built:
  assumes "wire_name name" "evdns_request_len (length name) \<le> buf_len" "buf_len \<le> length buf" "buf_len \<le> 16384"
  obtains r q where "evdns_request_data_build name trans_id type cls buf buf_len = Some (int (r + 4), q)"
    "one_question q (r + 4) [trans_id, 0x0100, 1, 0, 0, 0] name type cls r" "length q = length buf"
proof -
  let ?h = "[trans_id, 0x0100, 1, 0, 0, 0] :: 16 word list"
  define buf1 where "buf1 = put buf 0 (concat (map be16 ?h))"
  have room: "18 + length name \<le> buf_len" using assms(2) by (simp add: evdns_request_len_def)
  have len1: "length buf1 = length buf" using room assms(3) by (simp add: buf1_def put_def)
  have hdr: "APPEND16s buf buf_len 0 ?h = Some (Inr (buf1, 12))"
    using APPEND16s_put [of 0 ?h buf_len buf] room assms(3) by (simp add: buf1_def)
  obtain r buf2 t where n: "dnsname_to_labels (\<lambda>_. True) buf1 buf_len 12 name None = Some (int r, buf2, t)" "r \<le> 12 + length name + 2"
    using assms(1,3) room len1 by (auto simp: wire_name_def intro: name_fits [of name 12 buf_len buf1 "\<lambda>_. True" None])
  have w: "12 < r" "r \<le> length buf1" "length buf2 = length buf1" "take 12 buf2 = take 12 buf1" "name_here buf2 r 12 name r"
    using name_written [OF n(1)] assms len1 by (simp_all add: wire_name_def table_ok_def)
  define q where "q = put buf2 r (be16 type @ be16 cls)"
  have fits: "r + 4 \<le> length buf2" "length q = length buf2" using room n(2) len1 w(3) assms(3) by (auto simp: q_def)
  have "APPEND16s buf2 buf_len r [type, cls] = Some (Inr (q, r + 4))"
    using APPEND16s_put [of r "[type, cls]" buf_len buf2] room n(2) len1 w(3) assms(3) by (simp add: q_def)
  then have "evdns_request_data_build name trans_id type cls buf buf_len = Some (int (r + 4), q)"
    using hdr n(1) by (simp add: evdns_request_data_build_def del: APPEND16s.simps)
  moreover have "one_question q (r + 4) ?h name type cls r"
  proof -
    have "bytes_at buf1 0 (concat (map be16 ?h))" using room assms(3) unfolding buf1_def by (intro bytes_at_put) simp
    then have "bytes_at buf2 0 (concat (map be16 ?h))" by (rule bytes_at_prefix [OF _ w(4)]) (use w fits in auto)
    then have "bytes_at q 0 (concat (map be16 ?h))"
      by (rule bytes_at_prefix [of _ _ _ r]) (use w fits in \<open>auto simp: q_def\<close>)
    moreover have "name_here q (r + 4) 12 name r" using w(5) by (rule name_here_mono) (use fits in \<open>auto simp: q_def\<close>)
    moreover have "bytes_at q r (be16 type @ be16 cls)" unfolding q_def by (rule bytes_at_put) (use fits in auto)
    ultimately show ?thesis using w(1) fits by (simp add: one_question_def)
  qed
  ultimately show ?thesis using that fits len1 w(3) by simp
qed

lemma header_read:
  "one_question m len h name type cls r \<Longrightarrow> GET16s 6 m len 0 = Some (Inr (h, 12))"
  using GET16s_at [of m 0 h len] by (auto simp: one_question_def)

lemma question_read:
  assumes "one_question m len h name type cls r"
  shows "parse_name m len 12 256 = Some (Inr (name, r))" "GET16 m len r = Some (Inr (type, r + 2))"
    "GET16 m len (r + 2) = Some (Inr (cls, r + 4))"
  using assms GET16_at [of m r type len] GET16_at [of m "r + 2" cls len]
  by (auto simp: one_question_def bytes_at_append intro: parse_name_here)

definition query_of :: "16 word \<Rightarrow> int \<Rightarrow> evdns_server_question \<Rightarrow> server_request" where
  "query_of trans_id flags q = \<lparr>sr_trans_id = trans_id, sr_flags = flags, sr_questions = [q], sr_n_answer = 0, sr_n_authority = 0,
     sr_n_additional = 0, sr_answer = [], sr_authority = [], sr_additional = [], sr_response = None\<rparr>"

lemma request_parse_query:
  assumes "one_question m len h name type cls r" "h ! 1 AND 0x8000 = 0" "h ! 2 = 1"
  shows "request_parse (\<lambda>_. True) m len =
    Some (Delivered (query_of (h ! 0) (uint (h ! 1 AND 0x0110)) \<lparr>sq_type = uint type, sq_class = uint cls, sq_name = name\<rparr>))"
proof -
  have "(h ! 1 AND 0x0110) AND 0x7800 = 0" by (simp add: and.assoc)
  then show ?thesis
    using header_read [OF assms(1)] question_read [OF assms(1)] assms(2,3)
    by (simp add: request_parse_def query_of_def Let_def numeral_2_eq_2)
qed


section \<open>An answer\<close>

lemma name_appended:
  assumes "wire_name name" "j + length name + 2 \<le> buf_len" "buf_len \<le> length buf" "buf_len \<le> 16384" "table_ok buf j (Some t)"
  obtains r buf1 t1 where "dnsname_to_labels alloc buf buf_len j name (Some t) = Some (int r, buf1, Some t1)"
    "append_name alloc buf_len (buf, j, t) name = Some (Inr (buf1, r, t1))"
    "j < r" "r \<le> j + length name + 2" "length buf1 = length buf" "take j buf1 = take j buf" "name_here buf1 r j name r" "table_ok buf1 r (Some t1)"
proof -
  obtain r buf1 table' where n: "dnsname_to_labels alloc buf buf_len j name (Some t) = Some (int r, buf1, table')" "r \<le> j + length name + 2"
    using assms by (auto simp: wire_name_def intro: name_fits [of name j buf_len buf alloc "Some t"])
  note w = name_written [OF n(1) _ assms(3,4,5)]
  have "plain_name name" using assms(1) by (simp add: wire_name_def)
  then obtain t1 where "table' = Some t1" using w(7) by auto
  with n show ?thesis using w \<open>plain_name name\<close> by (intro that [of r buf1 t1]) (auto simp: append_name_def)
qed

text \<open>A record at \<open>j\<close>: its name, the fixed fields and the data.\<close>

definition record_at :: "byte list \<Rightarrow> nat \<Rightarrow> nat \<Rightarrow> byte list \<Rightarrow> 16 word \<Rightarrow> 16 word \<Rightarrow> 32 word \<Rightarrow> byte list \<Rightarrow> nat \<Rightarrow> bool" where
  "record_at m len j name type cls ttl d e \<longleftrightarrow> (\<exists>r. name_here m len j name r \<and>
     bytes_at m r (be16 type @ be16 cls @ be32 ttl @ be16 (of_nat (length d)) @ d) \<and> e = r + 10 + length d \<and> e \<le> len \<and>
     len \<le> length m \<and> length d < 65536)"

definition data_item :: "server_reply_item \<Rightarrow> byte list \<Rightarrow> bool" where
  "data_item item d \<longleftrightarrow> \<not> it_is_name item \<and> it_data item = Some d \<and> length d < 65536 \<and> it_datalen item = of_nat (length d)"

lemma unat_datalen: "length d < 65536 \<Longrightarrow> unat (of_nat (length d) :: 16 word) = length d"
  by (simp add: unat_of_nat)

lemma item_formatted:
  assumes "wire_name (it_name item)" "data_item item d" "j + length (it_name item) + 12 + length d \<le> buf_len"
    "buf_len \<le> length buf" "buf_len \<le> 16384" "table_ok buf j (Some t)"
  obtains buf1 e t1 where "format_items alloc buf_len (buf, j, t) (item # items) = format_items alloc buf_len (buf1, e, t1) items"
    "record_at buf1 e j (it_name item) (it_type item) (it_class item) (it_ttl item) d e"
    "j < e" "e \<le> j + length (it_name item) + 12 + length d" "length buf1 = length buf" "take j buf1 = take j buf" "table_ok buf1 e (Some t1)"
proof -
  obtain r buf1 t1 where n: "append_name alloc buf_len (buf, j, t) (it_name item) = Some (Inr (buf1, r, t1))"
    "j < r" "r \<le> j + length (it_name item) + 2" "length buf1 = length buf" "take j buf1 = take j buf"
    "name_here buf1 r j (it_name item) r" "table_ok buf1 r (Some t1)"
    using assms by (auto intro: name_appended [of "it_name item" j buf_len buf t alloc])
  have d: "\<not> it_is_name item" "it_data item = Some d" "it_datalen item = of_nat (length d)" "length d < 65536"
    using assms(2) by (simp_all add: data_item_def)
  let ?f1 = "be16 (it_type item) @ be16 (it_class item)"
  let ?f2 = "?f1 @ be32 (it_ttl item)" and ?l = "be16 (of_nat (length d))"
  let ?e = "r + 10 + length d"
  define buf2 where "buf2 = put buf1 r (?f2 @ ?l @ d)"
  have room: "?e \<le> buf_len" "?e \<le> length buf1" using n(3,4) assms(3,4) by auto
  have p: "append16s buf1 buf_len r [it_type item, it_class item] = Some (Inr (put buf1 r ?f1, r + 4))"
    "APPEND32 (put buf1 r ?f1) buf_len (r + 4) (it_ttl item) = Some (Inr (put buf1 r ?f2, r + 8))"
    "append16s (put buf1 r ?f2) buf_len (r + 8) [of_nat (length d)] = Some (Inr (put buf1 r (?f2 @ ?l), r + 10))"
    "mem_write (put buf1 r (?f2 @ ?l)) (r + 10) d = Some buf2"
    using room n(4) assms(4) put_put [of r ?f1 buf1 "be32 (it_ttl item)"] put_put [of r ?f2 buf1 ?l] put_put [of r "?f2 @ ?l" buf1 d]
    by (simp_all add: append16s_put APPEND32_put mem_write_put buf2_def add.assoc)
  have rd: "format_rdata alloc buf_len (put buf1 r ?f2, r + 8, t1) item = Some (Inr (buf2, ?e, t1))"
    using p(3,4) d room(1) by (simp add: format_rdata_def unat_datalen mem_read_def)
  have run: "format_items alloc buf_len (buf, j, t) (item # items) = format_items alloc buf_len (buf2, ?e, t1) items"
    using n(1) p(1,2) rd by simp
  have tk: "take r buf2 = take r buf1" "length buf2 = length buf1" using room by (simp_all add: buf2_def)
  have "bytes_at buf2 r (?f2 @ ?l @ d)" unfolding buf2_def using room by (intro bytes_at_put) simp
  moreover have "name_here buf2 ?e j (it_name item) r" by (rule name_here_mono [OF n(6) tk(1)]) simp
  ultimately have "record_at buf2 ?e j (it_name item) (it_type item) (it_class item) (it_ttl item) d ?e"
    using room tk(2) d(4) by (auto simp: record_at_def)
  moreover have "take j buf2 = take j buf" using n(2,5) tk(1) by (metis min.absorb1 less_imp_le take_take)
  moreover have "table_ok buf2 ?e (Some t1)" by (rule table_ok_mono [OF n(7) tk(1)]) simp
  ultimately show ?thesis using that [OF run] n tk room by simp
qed


fun records_at :: "byte list \<Rightarrow> nat \<Rightarrow> nat \<Rightarrow> server_reply_item list \<Rightarrow> nat \<Rightarrow> bool" where
  "records_at m len j [] e \<longleftrightarrow> j = e"
| "records_at m len j (item # items) e \<longleftrightarrow>
     (\<exists>k. record_at m len j (it_name item) (it_type item) (it_class item) (it_ttl item) (the (it_data item)) k \<and> records_at m len k items e)"

lemma record_at_mono:
  assumes "record_at m len j name type cls ttl d e" "take len m' = take len m" "len \<le> len'" "len' \<le> length m'"
  shows "record_at m' len' j name type cls ttl d e"
proof -
  obtain r where r: "name_here m len j name r" "bytes_at m r (be16 type @ be16 cls @ be32 ttl @ be16 (of_nat (length d)) @ d)"
      "e = r + 10 + length d" "e \<le> len" "length d < 65536"
    using assms(1) by (auto simp: record_at_def)
  have "bytes_at m' r (be16 type @ be16 cls @ be32 ttl @ be16 (of_nat (length d)) @ d)"
    by (rule bytes_at_prefix [OF r(2) assms(2)]) (use r assms(3,4) in auto)
  then show ?thesis using r assms(3,4) name_here_mono [OF r(1) assms(2,3)] by (auto simp: record_at_def)
qed

lemma records_at_mono:
  "records_at m len j items e \<Longrightarrow> take len m' = take len m \<Longrightarrow> len \<le> len' \<Longrightarrow> len' \<le> length m' \<Longrightarrow> records_at m' len' j items e"
  by (induction items arbitrary: j) (auto intro: record_at_mono)

definition item_room :: "server_reply_item \<Rightarrow> nat" where
  "item_room item = length (it_name item) + 12 + length (the (it_data item))"

definition plain_item :: "server_reply_item \<Rightarrow> bool" where
  "plain_item item \<longleftrightarrow> wire_name (it_name item) \<and> data_item item (the (it_data item))"

lemma items_formatted:
  assumes "list_all plain_item items" "j + sum_list (map item_room items) \<le> buf_len"
    "buf_len \<le> length buf" "buf_len \<le> 16384" "table_ok buf j (Some t)"
  shows "\<exists>buf1 e t1. format_items alloc buf_len (buf, j, t) items = Some (Inr (buf1, e, t1)) \<and> records_at buf1 e j items e \<and>
    j \<le> e \<and> e \<le> j + sum_list (map item_room items) \<and> length buf1 = length buf \<and> take j buf1 = take j buf"
  using assms
proof (induction items arbitrary: buf j t)
  case (Cons item items)
  obtain buf1 e t1 where i: "format_items alloc buf_len (buf, j, t) (item # items) = format_items alloc buf_len (buf1, e, t1) items"
    "record_at buf1 e j (it_name item) (it_type item) (it_class item) (it_ttl item) (the (it_data item)) e"
    "j < e" "e \<le> j + item_room item" "length buf1 = length buf" "take j buf1 = take j buf" "table_ok buf1 e (Some t1)"
    using Cons.prems
    by (auto simp: plain_item_def item_room_def intro: item_formatted [of item "the (it_data item)" j buf_len buf t alloc items])
  obtain buf2 e2 t2 where r: "format_items alloc buf_len (buf1, e, t1) items = Some (Inr (buf2, e2, t2))" "records_at buf2 e2 e items e2"
    "e \<le> e2" "e2 \<le> e + sum_list (map item_room items)" "length buf2 = length buf1" "take e buf2 = take e buf1"
    using Cons.IH [of e buf1 t1] Cons.prems i by auto
  have "take j buf2 = take j buf" using i(3,6) r(6) by (metis less_imp_le min.absorb1 take_take)
  moreover have "record_at buf2 e2 j (it_name item) (it_type item) (it_class item) (it_ttl item) (the (it_data item)) e"
    by (rule record_at_mono [OF i(2) r(6)]) (use r i Cons.prems in auto)
  ultimately show ?case using i r by (auto intro!: exI [of _ e])
qed simp

section \<open>Reading the answer\<close>

lemma rr_header_at:
  assumes "record_at m len j name type cls ttl d e"
  obtains j1 where "rr_header m len j = Some (Inr (type, cls, ttl, length d, j1))" "bytes_at m j1 d" "e = j1 + length d" "e \<le> len"
proof -
  obtain r where r: "name_here m len j name r" "bytes_at m r (be16 type @ be16 cls @ be32 ttl @ be16 (of_nat (length d)) @ d)"
      "e = r + 10 + length d" "e \<le> len" "len \<le> length m" "length d < 65536"
    using assms(1) by (auto simp: record_at_def)
  have b: "bytes_at m r (be16 type)" "bytes_at m (r + 2) (be16 cls)" "bytes_at m (r + 4) (be32 ttl)"
    "bytes_at m (r + 8) (be16 (of_nat (length d)))" "bytes_at m (r + 10) d"
    using r(2) by (simp_all add: bytes_at_append numeral_eq_Suc)
  have "rr_header m len j = Some (Inr (type, cls, ttl, length d, r + 10))"
    using r(3,4,6) parse_name_here [OF r(1,5)] GET16_at [OF b(1), of len] GET16_at [OF b(2), of len] GET32_at [OF b(3), of len] GET16_at [OF b(4), of len]
    by (simp add: rr_header_def unat_datalen add.commute [of _ r] del: add_2_eq_Suc add_2_eq_Suc')
  then show ?thesis using that b(5) r by simp
qed

definition add_addresses :: "reply \<Rightarrow> byte list \<Rightarrow> reply" where
  "add_addresses reply d =
     reply\<lparr>rp_addresses := rp_addresses reply @ d, rp_addrcount := rp_addrcount reply + length d div 4, rp_have_answer := True\<rparr>"

lemma parse_answer_a:
  assumes "record_at m len j name 1 1 ttl d e" "length d mod 4 = 0" "rp_addrcount reply + length d div 4 \<le> 32"
  shows "parse_answer hmax al TYPE_A m len (j, ttl_r, reply, cname) =
    Some (Inr (rp_addrcount reply + length d div 4 = 32, e, min ttl_r ttl, add_addresses reply d, cname))"
proof -
  obtain j1 where h: "rr_header m len j = Some (Inr (1, 1, ttl, length d, j1))" "bytes_at m j1 d" "e = j1 + length d" "e \<le> len"
    using rr_header_at [OF assms(1)] by metis
  have n: "min (32 - rp_addrcount reply) (length d div 4) = length d div 4" "4 * (length d div 4) = length d"
    using assms(2,3) by auto
  have "mem_read m j1 (length d) = Some d" using h(2) by (simp add: bytes_at_def mem_read_in)
  then show ?thesis
    using h(1,3,4) n assms(2) by (simp add: parse_answer_def take_addresses_def MAX_V4_ADDRS_def TYPE_A_def CLASS_INET_def Let_def add_addresses_def)
qed

text \<open>Records of type A and class IN with at least one address.\<close>

definition a_item :: "server_reply_item \<Rightarrow> bool" where
  "a_item item \<longleftrightarrow> it_type item = 1 \<and> it_class item = 1 \<and> length (the (it_data item)) mod 4 = 0 \<and> the (it_data item) \<noteq> []"

definition n_addrs :: "server_reply_item list \<Rightarrow> nat" where
  "n_addrs items = sum_list (map (\<lambda>item. length (the (it_data item)) div 4) items)"

lemma n_addrs_pos: "list_all a_item items \<Longrightarrow> items \<noteq> [] \<Longrightarrow> 0 < n_addrs items"
  by (cases items) (auto simp: n_addrs_def a_item_def elim!: dvdE intro!: gr0I)

lemma parse_answers_a:
  assumes "records_at m len j items e" "list_all a_item items" "rp_addrcount reply + n_addrs items \<le> 32"
  shows "parse_answers hmax al TYPE_A m len (j, ttl_r, reply, cname) (length items) =
    Some (Inr (e, foldl min ttl_r (map it_ttl items), foldl add_addresses reply (map (\<lambda>item. the (it_data item)) items), cname))"
  using assms
proof (induction items arbitrary: j ttl_r reply)
  case (Cons item items)
  let ?d = "the (it_data item)"
  obtain k where k: "record_at m len j (it_name item) 1 1 (it_ttl item) ?d k" "records_at m len k items e"
    using Cons.prems(1,2) by (auto simp: a_item_def)
  have cnt: "rp_addrcount reply + length ?d div 4 + n_addrs items \<le> 32" using Cons.prems(3) by (simp add: n_addrs_def)
  note one = parse_answer_a [OF k(1), of reply hmax al ttl_r cname]
  show ?case
  proof (cases "rp_addrcount reply + length ?d div 4 = 32")
    case True
    then have "items = []" using cnt n_addrs_pos [of items] Cons.prems(2) by auto
    then show ?thesis using one True Cons.prems(2) k(2) by (simp add: a_item_def)
  next
    case False
    have "rp_addrcount (add_addresses reply ?d) + n_addrs items \<le> 32" using cnt by (simp add: add_addresses_def)
    then show ?thesis using one False Cons.prems(2) Cons.IH [OF k(2)] cnt by (simp add: a_item_def)
  qed
qed simp


section \<open>A lookup\<close>

text \<open>The server's callback: an A record for each list of addresses.\<close>

fun answer_all :: "server_request \<Rightarrow> byte list \<Rightarrow> (byte list \<times> int) list \<Rightarrow> server_request option" where
  "answer_all req name [] = Some req"
| "answer_all req name ((addrs, ttl) # others) = do {
     (r, req1) \<leftarrow> evdns_server_request_add_a_reply (\<lambda>_. True) req name (int (length addrs div 4)) (Some addrs) ttl;
     answer_all req1 name others
   }"

text \<open>
  The client asks for the addresses of \<open>name\<close>, the server answers, the client reads the answer. \<open>junk1\<close> and \<open>junk2\<close> are what
  follows the packets in the memory of the receivers, \<open>stack\<close> the initial contents of the server's buffer.
\<close>

definition dns_lookup ::
    "(nat \<Rightarrow> bool) \<Rightarrow> nat \<Rightarrow> bool \<Rightarrow> byte list \<Rightarrow> 16 word \<Rightarrow> byte list \<Rightarrow> nat \<Rightarrow> byte list \<Rightarrow> byte list \<Rightarrow> byte list \<Rightarrow>
      (byte list \<times> int) list \<Rightarrow> reply_outcome option" where
  "dns_lookup alloc host_name_max randomize_case name trans_id buf buf_len stack junk1 junk2 answers = do {
     (n, q) \<leftarrow> evdns_request_data_build name trans_id (of_int TYPE_A) (of_int CLASS_INET) buf buf_len;
     outcome \<leftarrow> request_parse (\<lambda>_. True) (take (nat n) q @ junk1) (nat n);
     (case outcome of
        Delivered sr \<Rightarrow> do {
          sr1 \<leftarrow> answer_all sr (sq_name (hd (sr_questions sr))) answers;
          (r, sr2) \<leftarrow> evdns_server_request_format_response alloc True stack sr1 0;
          resp \<leftarrow> sr_response sr2;
          reply_parse host_name_max True randomize_case
            (\<lambda>i. if i = trans_id then Some \<lparr>rq_trans_id = trans_id, rq_request = q, rq_request_len = nat n,
               rq_request_type = TYPE_A, rq_put_cname = None\<rparr> else None)
            (resp @ junk2) (length resp)
        }
      | _ \<Rightarrow> None)
   }"

definition a_record :: "byte list \<Rightarrow> byte list \<times> int \<Rightarrow> server_reply_item" where
  "a_record name = (\<lambda>(addrs, ttl). \<lparr>it_name = name, it_type = 1, it_class = 1, it_ttl = of_int ttl, it_is_name = False,
     it_datalen = of_nat (length addrs), it_data = Some addrs\<rparr>)"

lemma answer_all_ok:
  assumes "\<forall>(addrs, ttl) \<in> set answers. 4 dvd length addrs" "sr_response req = None"
  shows "answer_all req name answers = Some (req\<lparr>sr_answer := sr_answer req @ map (a_record name) answers,
    sr_n_answer := sr_n_answer req + int (length answers)\<rparr>)"
  using assms
proof (induction answers arbitrary: req)
  case (Cons a answers)
  obtain addrs ttl where a: "a = (addrs, ttl)" by force
  have "4 dvd length addrs" using Cons.prems(1) a by simp
  then have d: "int (length addrs div 4) * 4 = int (length addrs)" by (metis dvd_div_mult_self of_nat_mult of_nat_numeral)
  have "evdns_server_request_add_a_reply (\<lambda>_. True) req name (int (length addrs div 4)) (Some addrs) ttl =
      Some (0, req\<lparr>sr_answer := sr_answer req @ [a_record name a], sr_n_answer := sr_n_answer req + 1\<rparr>)"
    using Cons.prems(2) unfolding evdns_server_request_add_a_reply_def d
    by (simp add: evdns_server_request_add_reply_def Let_def mem_read_def add_item_def a_record_def a TYPE_A_def CLASS_INET_def)
  then show ?case using Cons.IH [of "req\<lparr>sr_answer := sr_answer req @ [a_record name a], sr_n_answer := sr_n_answer req + 1\<rparr>"] Cons.prems
    by (simp add: a ac_simps)
qed simp


lemma response_built:
  assumes "wire_name name" "list_all plain_item items" "18 + length name + sum_list (map item_room items) \<le> 512" "length stack = 1500"
    and req: "sr_trans_id req = trans_id" "sr_flags req = flags" "sr_questions req = [\<lparr>sq_type = 1, sq_class = 1, sq_name = name\<rparr>]"
      "sr_answer req = items" "sr_authority req = []" "sr_additional req = []" "sr_n_answer req = int (length items)"
      "sr_n_authority req = 0" "sr_n_additional req = 0"
  obtains r m e req1 where "evdns_server_request_format_response alloc True stack req 0 = Some (0, req1)" "sr_response req1 = Some (take e m)"
    "one_question m e [trans_id, of_int flags OR 0x8000, 1, of_nat (length items), 0, 0] name 1 1 r"
    "records_at m e (r + 4) items e" "e \<le> 512" "length m = 1500"
proof -
  let ?h = "[trans_id, of_int flags OR 0x8000, 1, of_nat (length items), 0, 0] :: 16 word list"
  define buf1 where "buf1 = put stack 0 (concat (map be16 ?h))"
  have len1: "length buf1 = 1500" using assms(4) by (simp add: buf1_def put_def)
  have hdr: "append16s stack 1500 0 ?h = Some (Inr (buf1, 12))"
    using append16s_put [of 0 ?h 1500 stack] assms(4) by (simp add: buf1_def)
  obtain r buf2 t where n: "dnsname_to_labels alloc buf1 1500 12 name (Some []) = Some (int r, buf2, Some t)"
    "12 < r" "r \<le> 12 + length name + 2" "length buf2 = length buf1" "take 12 buf2 = take 12 buf1" "name_here buf2 r 12 name r" "table_ok buf2 r (Some t)"
    using assms(1,3) len1 by (auto simp: table_ok_def intro: name_appended [of name 12 1500 buf1 "[]" alloc])
  let ?tc = "be16 1 @ be16 1"
  define buf3 where "buf3 = put buf2 r ?tc"
  have room: "r + 4 \<le> length buf2" "length buf3 = 1500" using n(3,4) assms(3) len1 by (auto simp: buf3_def)
  have q: "append16s buf2 1500 r [1, 1] = Some (Inr (buf3, r + 4))"
    using append16s_put [of r "[1, 1]" 1500 buf2] n(4) len1 room by (simp add: buf3_def)
  have t3: "table_ok buf3 (r + 4) (Some t)" by (rule table_ok_mono [OF n(7)]) (use room in \<open>auto simp: buf3_def\<close>)
  obtain m e t1 where i: "format_items alloc 1500 (buf3, r + 4, t) items = Some (Inr (m, e, t1))" "records_at m e (r + 4) items e"
    "r + 4 \<le> e" "e \<le> r + 4 + sum_list (map item_room items)" "length m = length buf3" "take (r + 4) m = take (r + 4) buf3"
    using items_formatted [OF assms(2) _ _ _ t3, of 1500 alloc] n(3) room(2) assms(3) by auto
  have "bytes_at buf1 0 (concat (map be16 ?h))" unfolding buf1_def using assms(4) by (intro bytes_at_put) simp
  then have "bytes_at buf2 0 (concat (map be16 ?h))" by (rule bytes_at_prefix [OF _ n(5)]) (use n(4) len1 in auto)
  then have "bytes_at buf3 0 (concat (map be16 ?h))"
    by (rule bytes_at_prefix [of _ _ _ r]) (use n room in \<open>auto simp: buf3_def\<close>)
  moreover have "name_here buf3 (r + 4) 12 name r" using n(6) by (rule name_here_mono) (use room in \<open>auto simp: buf3_def\<close>)
  moreover have "bytes_at buf3 r ?tc" unfolding buf3_def by (rule bytes_at_put) (use room in auto)
  ultimately have "one_question buf3 (r + 4) ?h name 1 1 r" using n(2) room n(4) len1 by (simp add: one_question_def)
  then have one: "one_question m e ?h name 1 1 r" by (rule one_question_mono [OF _ i(6)]) (use i room n(3) assms(3) in auto)
  have e: "e \<le> 512" using i(4) n(3) assms(3) by simp
  have "format_questions alloc 1500 (buf1, 12, []) (sr_questions req) = Some (Inr (buf3, r + 4, t))"
    using n(1) q by (simp add: req(3))
  then have "format_body alloc req 0 stack = Some (Inr (m, e, t1))"
    using hdr i(1) by (simp add: format_body_def req Let_def)
  then have "evdns_server_request_format_response alloc True stack req 0 = Some (0, server_request_free_answers (req\<lparr>sr_response := Some (take e m)\<rparr>))"
    using e i(5) room(2) by (simp add: evdns_server_request_format_response_def mem_read_def)
  then show ?thesis by (rule that [OF _ _ one i(2) e]) (use i(5) room(2) in \<open>simp_all add: server_request_free_answers_def\<close>)
qed

lemma strcasecmp_refl: "evutil_ascii_strcasecmp s s = 0"
  by (induction s) (simp_all add: evutil_ascii_strcasecmp.simps Let_def)

lemma addresses_collected:
  "foldl add_addresses reply ds = reply\<lparr>rp_addresses := rp_addresses reply @ concat ds,
     rp_addrcount := rp_addrcount reply + sum_list (map (\<lambda>d. length d div 4) ds), rp_have_answer := rp_have_answer reply \<or> ds \<noteq> []\<rparr>"
  by (induction ds arbitrary: reply) (simp_all add: add_addresses_def)


lemma reply_parse_addresses:
  assumes pk: "one_question m len [trans_id, 0x8100, 1, of_nat (length items), 0, 0] name 1 1 r" "records_at m len (r + 4) items e"
    and qs: "one_question (rq_request req) (rq_request_len req) h name 1 1 r'"
    and items: "list_all a_item items" "n_addrs items \<le> 32"
    and req: "find_req trans_id = Some req" "rq_request_type req = TYPE_A"
  shows "reply_parse hmax al rnd find_req m len = Some (Handle_reply 0 req 0x8100
    (let ttl = foldl min 0xffffffff (map it_ttl items) in if ttl = 0xffffffff then 0 else ttl)
    (Some \<lparr>rp_type = TYPE_A, rp_have_answer = (items \<noteq> []), rp_addrcount = n_addrs items,
      rp_addresses = concat (map (\<lambda>item. the (it_data item)) items), rp_name = []\<rparr>))"
proof -
  have "length items \<le> n_addrs items"
    using items(1)
  proof (induction items)
    case (Cons item items)
    then have "0 < n_addrs [item]" by (intro n_addrs_pos) auto
    with Cons show ?case by (simp add: n_addrs_def)
  qed simp
  then have "length items \<le> 32" using items(2) by simp
  then have cnt: "unat (of_nat (length items) :: 16 word) = length items" by (simp add: unat_of_nat)
  have "r + 4 \<le> len" using pk(1) by (simp add: one_question_def)
  then have tq: "test_questions rnd req m len 12 False (Suc 0) = Some (Inr (True, r + 4))"
    using question_read(1) [OF pk(1)] question_read(1) [OF qs] by (simp add: strcasecmp_refl)
  let ?reply = "\<lparr>rp_type = TYPE_A, rp_have_answer = False, rp_addrcount = 0, rp_addresses = [], rp_name = []\<rparr>"
  note pa = parse_answers_a [OF pk(2) items(1), where reply = ?reply and hmax = hmax and al = al and ttl_r = "0xffffffff" and cname = "rq_put_cname req"]
  show ?thesis
    unfolding reply_parse_def
    using header_read [OF pk(1)] tq pa items(2) cnt req
    by (simp add: parse_body_def Let_def addresses_collected n_addrs_def comp_def)
qed

end
