(* ===== verification/Dns_Props.thy ===== *)
theory Dns_Props
  imports Dns_Roundtrip
begin

text \<open>
  The properties of the DNS message code: names survive writing and parsing, also with compression; parsing any packet stays in
  bounds given some slack, and leaves them without it; the end of a name can be written one byte past the buffer; queries of
  any opcode are delivered; a lookup gives the client the addresses the server answered with.
\<close>

text \<open>
  C35. When \<open>dnsname_to_labels\<close> succeeds, \<open>name_parse\<close> reads the same name at the same place of the buffer and stops where
  writing stopped. This holds with the compression table too, provided its entries stand in the message; then the
  entries of the new table stand there as well, and what was written before is unchanged.
\<close>
theorem dnsname_roundtrip:
  assumes "dnsname_to_labels alloc buf buf_len j name table = Some (int r, buf', table')" "plain_name name"
    "buf_len \<le> length buf" "buf_len \<le> 16384" "table_ok buf j table" "r \<le> len" "len \<le> length buf"
  shows "name_parse buf' len j 256 = Some (0, r, name) \<and> take j buf' = take j buf \<and> table_ok buf' r table'"
proof -
  note w = name_written [OF assms(1-5)]
  have "name_here buf' len j name r" by (rule name_here_mono [OF w(5) refl assms(6)])
  then have "name_parse buf' len j 256 = Some (0, r, name)" by (rule name_here_parse) (simp add: assms(7) w(3))
  then show ?thesis using w(4,6) by simp
qed

theorem dnsname_roundtrip_witness:
  "name_parse [1, 97, 0, 1, 98, 192, 0] 7 3 256 = Some (0, 7, [98, 46, 97])"
proof -
  let ?m = "[1, 97, 0, 9, 9, 9, 9] :: byte list"
  have "encodes ?m 3 2 [] 0 3" using encodes.root [of 2 3 ?m] by simp
  then have "encodes ?m 3 0 [[97]] 0 3" using encodes.label [of 0 "[97]" 3 ?m "[]" 0 3] by (simp add: numeral_2_eq_2)
  moreover have "labels_of [97] = [[97]]" by code_simp
  ultimately have "stands ?m 3 ([97], 0)" unfolding stands_def by (auto intro: exI [of _ 0])
  then have "table_ok [1, 97, 0, 9, 9, 9, 9] 3 (Some [([97], 0)])" by (simp add: table_ok_def)
  note ok = this
  have run: "dnsname_to_labels (\<lambda>_. True) [1, 97, 0, 9, 9, 9, 9] 7 3 [98, 46, 97] (Some [([97], 0)]) =
      Some (int 7, [1, 97, 0, 1, 98, 192, 0], Some [([97], 0), ([98, 46, 97], 3)])"
    by code_simp
  have "plain_name [98, 46, 97]" by code_simp
  then show ?thesis 
    using dnsname_roundtrip [OF run _ _ _ ok, of 7] by (simp add: numeral_eq_Suc)
qed

text \<open>
  C37. A message of at most \<open>len\<close> bytes with 63 bytes of memory behind it can be parsed whatever it contains: \<open>name_parse\<close>
  ends, reads no memory outside, and returns -1 with the index unchanged or 0 with the index moved forward, not past the end,
  and a name that fits the buffer.
\<close>
theorem name_parse_in_bounds:
  assumes "len + 63 \<le> length packet"
  shows "\<exists>r idx' name. name_parse packet len idx n = Some (r, idx', name) \<and>
    (r = -1 \<and> idx' = idx \<or> r = 0 \<and> idx < idx' \<and> idx' \<le> len \<and> length name < n)"
  using name_parse_loop_bounds [where name_end = None and idx = idx and j = idx and len = len and packet = packet and n = n and p = 0 and cp = "[]"] assms by (auto simp: name_parse_def parse_bounds_def)

theorem name_parse_in_bounds_witness:
  "\<exists>r idx' name. name_parse (replicate 64 5) 1 0 256 = Some (r, idx', name) \<and>
    (r = -1 \<and> idx' = 0 \<or> r = 0 \<and> 0 < idx' \<and> idx' \<le> 1 \<and> length name < 256)"
  by (rule name_parse_in_bounds) simp

text \<open>
  C38. Without that memory it is not defined: a label that is cut short by the end of the packet is copied from beyond it.
\<close>
theorem name_parse_reads_past_packet:
  assumes "idx < length packet" "0 < n" "n \<le> 63" "packet ! idx = of_nat n" "length packet \<le> idx + n" "n < name_out_len"
  shows "name_parse packet (length packet) idx name_out_len = None"
proof -
  have "(of_nat n :: byte) \<noteq> 0" using small_label(2) [OF assms(3)] assms(2) by auto
  moreover have "mem_read packet (idx + 1) n = None" using assms(5) by (simp add: mem_read_def)
  ultimately show ?thesis
    using assms small_label [OF assms(3)] by (simp add: name_parse_def name_parse_loop.simps)
qed

theorem name_parse_reads_past_packet_witness:
  "name_parse [5, 97, 98] (length ([5, 97, 98] :: byte list)) 0 256 = None"
  by (rule name_parse_reads_past_packet [where n = 5]) simp_all

text \<open>
  C39. \<open>dnsname_to_labels\<close> checks the room for each label but not for the final zero byte: a label that ends exactly at the end
  of the buffer is followed by a write one byte past it.
\<close>
theorem dnsname_to_labels_writes_past_buffer:
  assumes "name \<noteq> []" "plain_name name" "dot \<notin> set name" "length name \<le> 63" "j + 1 + length name = length buf"
  shows "dnsname_to_labels alloc buf (length buf) j name None = None"
proof -
  have tw: "takeWhile (\<lambda>c. c \<noteq> dot) name = name" using assms(3) by (auto simp: takeWhile_eq_all_conv)
  define buf1 where "buf1 = take j buf @ (of_nat (length name) # name) @ drop (j + 1 + length name) buf"
  have "last name \<noteq> 0" using assms(1,2) last_in_set by (metis plain_name_def)
  moreover have "buf1 ! (j + length name) = last name" using assms(1,5) by (simp add: buf1_def nth_append last_conv_nth)
  moreover have "length buf1 = length buf" using assms(5) by (simp add: buf1_def)
  ultimately have "labels_end buf1 (j + 1 + length name) None = None"
    by (simp add: labels_end_def mem_write_def assms(5) [symmetric])
  then have "labels_loop alloc buf (length buf) j name None = None"
    using assms(4,5) labels_loop_step [where table = None and name = name and l = name and buf_len = "length buf" and ?buf1.0 = buf1 and j = j and buf = buf]
    by (simp add: tw buf1_def)
  then show ?thesis using assms(4) by (simp add: dnsname_to_labels_def)
qed

theorem dnsname_to_labels_writes_past_buffer_witness:
  "dnsname_to_labels (\<lambda>_. True) [0, 0, 0] (length ([0, 0, 0] :: byte list)) 0 [97, 98] None = None"
  by (rule dnsname_to_labels_writes_past_buffer) (simp, code_simp, simp_all)

text \<open>
  C40. No query is answered with "not implemented": the test that is to refuse all but standard queries looks at bits that have
  been masked out before, so queries of every opcode reach the user's callback (or are dropped as malformed).
\<close>
theorem request_parse_never_refuses:
  "request_parse alloc packet len \<noteq> Some (Refused req err)"
proof -
  have "(flags AND 0x0110) AND 0x7800 = 0" for flags :: "16 word" by (simp add: and.assoc)
  then show ?thesis
    by (auto simp: request_parse_def Let_def split: bind_splits if_splits sum.splits)
qed

lemma a_records:
  assumes "wire_name name" "list_all (\<lambda>(addrs, ttl). 4 dvd length addrs \<and> addrs \<noteq> []) answers"
    "18 + length name + sum_list (map (\<lambda>(addrs, ttl). length name + 12 + length addrs) answers) \<le> 512"
  shows "list_all a_item (map (a_record name) answers) \<and> list_all plain_item (map (a_record name) answers) \<and>
    n_addrs (map (a_record name) answers) = sum_list (map (\<lambda>(addrs, ttl). length addrs div 4) answers) \<and>
    sum_list (map item_room (map (a_record name) answers)) = sum_list (map (\<lambda>(addrs, ttl). length name + 12 + length addrs) answers) \<and>
    map it_ttl (map (a_record name) answers) = map (\<lambda>(addrs, ttl). of_int ttl) answers \<and>
    map (\<lambda>item. the (it_data item)) (map (a_record name) answers) = map fst answers"
  using assms(2,3)
  by (induction answers)
    (auto simp: a_item_def plain_item_def data_item_def n_addrs_def item_room_def a_record_def assms(1) dvd_eq_mod_eq_0)

text \<open>
  C36. A lookup: the client builds a query, the server parses it, answers with A records and formats the response, the client
  parses that. If all fits a packet of 512 bytes and there are at most 32 addresses, the client gets exactly the addresses in
  order, with the least TTL of the records, whatever follows the packets in memory, whichever labels could be remembered for
  compression, and with or without the case test.
\<close>
theorem dns_lookup_roundtrip:
  assumes "wire_name name" "evdns_request_len (length name) \<le> buf_len" "buf_len \<le> length buf" "buf_len \<le> 16384" "length stack = 1500"
    and answers: "list_all (\<lambda>(addrs, ttl). 4 dvd length addrs \<and> addrs \<noteq> []) answers"
      "sum_list (map (\<lambda>(addrs, ttl). length addrs div 4) answers) \<le> 32"
      "18 + length name + sum_list (map (\<lambda>(addrs, ttl). length name + 12 + length addrs) answers) \<le> 512"
  shows "\<exists>req. rq_trans_id req = trans_id \<and>
    dns_lookup alloc host_name_max randomize_case name trans_id buf buf_len stack junk1 junk2 answers =
      Some (Handle_reply 0 req 0x8100
        (let ttl = foldl min 0xffffffff (map (\<lambda>(addrs, ttl). of_int ttl) answers) in if ttl = 0xffffffff then 0 else ttl)
        (Some \<lparr>rp_type = TYPE_A, rp_have_answer = (answers \<noteq> []), rp_addrcount = sum_list (map (\<lambda>(addrs, ttl). length addrs div 4) answers),
          rp_addresses = concat (map fst answers), rp_name = []\<rparr>))"
proof -
  let ?items = "map (a_record name) answers"
  have f: "list_all a_item ?items" "list_all plain_item ?items" "n_addrs ?items = sum_list (map (\<lambda>(addrs, ttl). length addrs div 4) answers)"
    "sum_list (map item_room ?items) = sum_list (map (\<lambda>(addrs, ttl). length name + 12 + length addrs) answers)"
    "map it_ttl ?items = map (\<lambda>(addrs, ttl). of_int ttl) answers" "map (\<lambda>item. the (it_data item)) ?items = map fst answers"
    using a_records [OF assms(1) answers(1,3)] by simp_all
  obtain r n q where q: "evdns_request_data_build name trans_id 1 1 buf buf_len = Some (int n, q)"
    "one_question q n [trans_id, 0x0100, 1, 0, 0, 0] name 1 1 r" "length q = length buf"
    using query_built [OF assms(1-4)] by metis
  have types: "(of_int TYPE_A :: 16 word) = 1" "(of_int CLASS_INET :: 16 word) = 1" by (simp_all add: TYPE_A_def CLASS_INET_def)
  define sr where "sr = query_of trans_id 0x0100 \<lparr>sq_type = 1, sq_class = 1, sq_name = name\<rparr>"
  have "one_question (take (n) q @ junk1) (n) [trans_id, 0x0100, 1, 0, 0, 0] name 1 1 r"
    by (rule one_question_mono [OF q(2)]) (use q(2) in \<open>auto simp: one_question_def\<close>)
  from request_parse_query [OF this]
  have parsed: "request_parse (\<lambda>_. True) (take (n) q @ junk1) (n) = Some (Delivered sr)" by (simp add: sr_def)
  have question: "sq_name (hd (sr_questions sr)) = name" by (simp add: sr_def query_of_def)
  define sr1 where "sr1 = sr\<lparr>sr_answer := ?items, sr_n_answer := int (length answers)\<rparr>"
  have all: "answer_all sr name answers = Some sr1"
    using answer_all_ok [of answers sr name] answers(1) by (auto simp: sr1_def sr_def query_of_def list_all_iff)
  obtain r' m e sr2 where fr: "evdns_server_request_format_response alloc True stack sr1 0 = Some (0, sr2)"
    "sr_response sr2 = Some (take e m)" "one_question m e [trans_id, of_int 0x0100 OR 0x8000, 1, of_nat (length ?items), 0, 0] name 1 1 r'"
    "records_at m e (r' + 4) ?items e" "e \<le> 512" "length m = 1500"
    by (rule response_built [OF assms(1) f(2) _ assms(5), where req = sr1 and trans_id = trans_id and flags = "0x0100" and alloc = alloc])
      (use answers(3) f(4) in \<open>auto simp: sr1_def sr_def query_of_def\<close>)
  define req where "req = \<lparr>rq_trans_id = trans_id, rq_request = q, rq_request_len = n, rq_request_type = TYPE_A, rq_put_cname = None\<rparr>"
  define find_req where "find_req = (\<lambda>i. if i = trans_id then Some req else None)"
  have pk: "one_question (take e m @ junk2) e [trans_id, 0x8100, 1, of_nat (length ?items), 0, 0] name 1 1 r'"
    "records_at (take e m @ junk2) e (r' + 4) ?items e"
    using one_question_mono [OF fr(3), of "take e m @ junk2" e] records_at_mono [OF fr(4), of "take e m @ junk2" e] fr(5,6) by auto
  have "reply_parse host_name_max True randomize_case find_req (take e m @ junk2) e = Some (Handle_reply 0 req 0x8100
    (let ttl = foldl min 0xffffffff (map it_ttl ?items) in if ttl = 0xffffffff then 0 else ttl)
    (Some \<lparr>rp_type = TYPE_A, rp_have_answer = (?items \<noteq> []), rp_addrcount = n_addrs ?items,
      rp_addresses = concat (map (\<lambda>item. the (it_data item)) ?items), rp_name = []\<rparr>))"
    by (rule reply_parse_addresses [OF pk _ f(1)])
      (use q(2) f(3) answers(2) in \<open>auto simp: req_def find_req_def\<close>)
  then have "dns_lookup alloc host_name_max randomize_case name trans_id buf buf_len stack junk1 junk2 answers = \<dots>"
    using q(1) parsed fr(1,2,5,6) all types question unfolding find_req_def req_def dns_lookup_def by (simp cong: if_cong)
  then show ?thesis unfolding f by (intro exI [of _ req]) (simp add: req_def)
qed

theorem dns_lookup_roundtrip_witness:
  "\<exists>req. rq_trans_id req = 7 \<and>
    dns_lookup (\<lambda>_. True) 64 False [97, 46, 98] 7 (replicate 105 0) 105 (replicate 1500 9) [] [] [([10, 0, 0, 1], 60)] =
      Some (Handle_reply 0 req 0x8100 60 (Some \<lparr>rp_type = TYPE_A, rp_have_answer = True, rp_addrcount = 1,
        rp_addresses = [10, 0, 0, 1], rp_name = []\<rparr>))"
proof -
  have "wire_name [97, 46, 98]" "(4 :: nat) dvd Suc (Suc (Suc (Suc 0)))" by (code_simp, simp add: numeral_eq_Suc)
  then show ?thesis
    using dns_lookup_roundtrip [of "[97, 46, 98]" 105 "replicate 105 0" "replicate 1500 9" "[([10, 0, 0, 1], 60)]" 7 "\<lambda>_. True" 64 False "[]" "[]"]
    by (simp add: evdns_request_len_def)
qed

end
