(* ===== verification/Dns_Client.thy ===== *)
theory Dns_Client
  imports Dns_Messages
begin

text \<open>
  The DNS client of \<^verbatim>\<open>evdns.c\<close>: requests in flight and waiting, name servers that are up or down, transmission, timeouts,
  answers, cancelling and probes. Requests, handles and name servers are numbered; the base maps the numbers of live objects
  to their contents, so that the use of a freed object is undefined. The circular lists of the source are lists that start
  at the head. Requests without a search list are modelled (\<open>DNS_QUERY_NO_SEARCH\<close>: \<open>handle->search_state\<close> is NULL).
\<close>

section \<open>State\<close>

record dns_request = request +
  dq_reissue_count :: nat
  dq_tx_count :: nat
  dq_ns :: "nat option"
  dq_timeout :: bool
  dq_transmit_me :: bool
  dq_handle :: nat
  dq_probe :: "nat option"

record evdns_request =
  eh_current_req :: "nat option"
  eh_pending_cb :: bool

record nameserver =
  ns_failed_times :: nat
  ns_timedout :: nat
  ns_timeout :: bool
  ns_probe_request :: "nat option"
  ns_state :: bool
  ns_choked :: bool
  ns_write_waiting :: bool

text \<open>
  A callback that waits in the deferred queue: the handle, the type, the TTL, the error and the reply. The callback is that of
  the user, or \<open>nameserver_probe_callback\<close> with the server it probes.
\<close>

record reply_callback =
  rc_handle :: nat
  rc_type :: int
  rc_ttl :: "32 word"
  rc_err :: int
  rc_reply :: "reply option"
  rc_probe :: "nat option"

text \<open>
  \<open>db_calls\<close> counts the calls out of the component (allocation, random numbers, sending, timers), whose results are
  functions of that number. \<open>db_delivered\<close> is the history of the callbacks to the user that have run.
\<close>

record evdns_base =
  db_req_heads :: "nat list list"
  db_req_waiting :: "nat list"
  db_servers :: "nat list"
  db_good_nameservers :: int
  db_requests_inflight :: int
  db_requests_waiting :: int
  db_max_requests_inflight :: int
  db_max_reissues :: nat
  db_max_retransmits :: nat
  db_max_nameserver_timeout :: nat
  db_requests :: "nat \<Rightarrow> dns_request option"
  db_handles :: "nat \<Rightarrow> evdns_request option"
  db_nameservers :: "nat \<Rightarrow> nameserver option"
  db_deferred :: "reply_callback list"
  db_delivered :: "reply_callback list"
  db_randomize_case :: bool
  db_calls :: nat

datatype send_result = Sent | Send_again | Send_error

record dns_env =
  de_alloc :: "nat \<Rightarrow> bool"
  de_random :: "nat \<Rightarrow> 16 word"
  de_send :: "nat \<Rightarrow> send_result"
  de_timer :: "nat \<Rightarrow> bool"
  de_bits :: "nat \<Rightarrow> byte list"
  de_memory :: "nat \<Rightarrow> byte list"

definition tick :: "evdns_base \<Rightarrow> evdns_base" where
  "tick base = base\<lparr>db_calls := db_calls base + 1\<rparr>"

definition upd_req :: "evdns_base \<Rightarrow> nat \<Rightarrow> (dns_request \<Rightarrow> dns_request) \<Rightarrow> evdns_base" where
  "upd_req base r f = base\<lparr>db_requests := (db_requests base)(r := map_option f (db_requests base r))\<rparr>"

definition upd_ns :: "evdns_base \<Rightarrow> nat \<Rightarrow> (nameserver \<Rightarrow> nameserver) \<Rightarrow> evdns_base" where
  "upd_ns base s f = base\<lparr>db_nameservers := (db_nameservers base)(s := map_option f (db_nameservers base s))\<rparr>"

definition upd_handle :: "evdns_base \<Rightarrow> nat \<Rightarrow> (evdns_request \<Rightarrow> evdns_request) \<Rightarrow> evdns_base" where
  "upd_handle base h f = base\<lparr>db_handles := (db_handles base)(h := map_option f (db_handles base h))\<rparr>"

text \<open>\<open>ASSERT_VALID_REQUEST\<close>.\<close>

definition valid_request :: "evdns_base \<Rightarrow> nat \<Rightarrow> dns_request option" where
  "valid_request base r = do {
     req \<leftarrow> db_requests base r;
     h \<leftarrow> db_handles base (dq_handle req);
     ev_assert (eh_current_req h = Some r);
     Some req
   }"

section \<open>Lists\<close>

definition REQ_HEAD :: "evdns_base \<Rightarrow> 16 word \<Rightarrow> nat" where
  "REQ_HEAD base trans_id = unat trans_id mod length (db_req_heads base)"

text \<open>A list is named by the index of its head, or \<open>None\<close> for the waiting list.\<close>

definition evdns_request_insert :: "evdns_base \<Rightarrow> nat \<Rightarrow> nat option \<Rightarrow> evdns_base option" where
  "evdns_request_insert base r head = do {
     valid_request base r;
     (case head of
        None \<Rightarrow> Some (base\<lparr>db_req_waiting := db_req_waiting base @ [r]\<rparr>)
      | Some i \<Rightarrow> do {
          rs \<leftarrow> nth_opt (db_req_heads base) i;
          Some (base\<lparr>db_req_heads := (db_req_heads base)[i := rs @ [r]]\<rparr>)
        })
   }"

definition evdns_request_remove :: "evdns_base \<Rightarrow> nat \<Rightarrow> nat option \<Rightarrow> evdns_base option" where
  "evdns_request_remove base r head = do {
     valid_request base r;
     (case head of
        None \<Rightarrow> do {
          ev_assert (r \<in> set (db_req_waiting base));
          Some (base\<lparr>db_req_waiting := remove1 r (db_req_waiting base)\<rparr>)
        }
      | Some i \<Rightarrow> do {
          rs \<leftarrow> nth_opt (db_req_heads base) i;
          ev_assert (r \<in> set rs);
          Some (base\<lparr>db_req_heads := (db_req_heads base)[i := remove1 r rs]\<rparr>)
        })
   }"

definition has_trans_id :: "evdns_base \<Rightarrow> 16 word \<Rightarrow> nat \<Rightarrow> bool" where
  "has_trans_id base trans_id r = (case db_requests base r of None \<Rightarrow> False | Some req \<Rightarrow> rq_trans_id req = trans_id)"

definition request_find_from_trans_id :: "evdns_base \<Rightarrow> 16 word \<Rightarrow> nat option" where
  "request_find_from_trans_id base trans_id =
     find (has_trans_id base trans_id) (db_req_heads base ! REQ_HEAD base trans_id)"

partial_function (option) transaction_id_pick :: "dns_env \<Rightarrow> evdns_base \<Rightarrow> (16 word \<times> evdns_base) option" where
  "transaction_id_pick env base =
     (let trans_id = de_random env (db_calls base); base1 = tick base in
      if trans_id = 0xffff then transaction_id_pick env base1
      else if request_find_from_trans_id base1 trans_id = None then Some (trans_id, base1)
      else transaction_id_pick env base1)"

definition request_trans_id_set :: "evdns_base \<Rightarrow> nat \<Rightarrow> 16 word \<Rightarrow> evdns_base option" where
  "request_trans_id_set base r trans_id = do {
     req \<leftarrow> db_requests base r;
     m \<leftarrow> mem_write (rq_request req) 0 (be16 trans_id);
     Some (upd_req base r (\<lambda>req. req\<lparr>rq_trans_id := trans_id, rq_request := m\<rparr>))
   }"

section \<open>Name servers\<close>

definition good_ns :: "evdns_base \<Rightarrow> nat \<Rightarrow> bool" where
  "good_ns base s = (case db_nameservers base s of None \<Rightarrow> False | Some ns \<Rightarrow> ns_state ns)"

definition nameserver_pick :: "evdns_base \<Rightarrow> (nat option \<times> evdns_base) option" where
  "nameserver_pick base =
     (if db_servers base = [] then Some (None, base)
      else if db_good_nameservers base = 0 then
        let servers = rotate1 (db_servers base) in Some (Some (hd servers), base\<lparr>db_servers := servers\<rparr>)
      else
        let bad = takeWhile (\<lambda>s. \<not> good_ns base s) (db_servers base) in
        (case drop (length bad) (db_servers base) of
           [] \<Rightarrow> None
         | s # rest \<Rightarrow> Some (Some s, base\<lparr>db_servers := rest @ bad @ [s]\<rparr>)))"

text \<open>Requests that have not gone out yet are moved to another server.\<close>

fun reassign :: "nat \<Rightarrow> evdns_base \<Rightarrow> nat list \<Rightarrow> evdns_base option" where
  "reassign s base [] = Some base"
| "reassign s base (r # rs) = do {
     req \<leftarrow> db_requests base r;
     base1 \<leftarrow> (if dq_tx_count req = 0 \<and> dq_ns req = Some s then do {
         (ns, base1) \<leftarrow> nameserver_pick base;
         Some (upd_req base1 r (\<lambda>req. req\<lparr>dq_ns := ns\<rparr>))
       } else Some base);
     reassign s base1 rs
   }"

definition nameserver_failed :: "dns_env \<Rightarrow> evdns_base \<Rightarrow> nat \<Rightarrow> evdns_base option" where
  "nameserver_failed env base s = do {
     ns \<leftarrow> db_nameservers base s;
     if \<not> ns_state ns then Some base
     else do {
       ev_assert (db_good_nameservers base > 0);
       let base1 = base\<lparr>db_good_nameservers := db_good_nameservers base - 1\<rparr>;
       let base2 = upd_ns base1 s (\<lambda>ns. ns\<lparr>ns_state := False, ns_failed_times := 1\<rparr>);
       let base3 = tick (if de_timer env (db_calls base2) then upd_ns base2 s (\<lambda>ns. ns\<lparr>ns_timeout := True\<rparr>) else base2);
       if db_good_nameservers base3 = 0 then Some base3
       else reassign s base3 (concat (db_req_heads base3))
     }
   }"

definition nameserver_write_waiting :: "evdns_base \<Rightarrow> nat \<Rightarrow> bool \<Rightarrow> evdns_base" where
  "nameserver_write_waiting base s waiting = upd_ns base s (\<lambda>ns. ns\<lparr>ns_write_waiting := waiting\<rparr>)"

section \<open>Transmission\<close>

definition evdns_request_transmit_to :: "dns_env \<Rightarrow> evdns_base \<Rightarrow> nat \<Rightarrow> nat \<Rightarrow> (int \<times> evdns_base) option" where
  "evdns_request_transmit_to env base r server = do {
     req \<leftarrow> valid_request base r;
     (case de_send env (db_calls base) of
        Sent \<Rightarrow> Some (0, tick base)
      | Send_again \<Rightarrow> Some (1, tick base)
      | Send_error \<Rightarrow> do {
          s \<leftarrow> dq_ns req;
          base1 \<leftarrow> nameserver_failed env (tick base) s;
          Some (2, base1)
        })
   }"

definition evdns_request_transmit :: "dns_env \<Rightarrow> evdns_base \<Rightarrow> nat \<Rightarrow> (int \<times> evdns_base) option" where
  "evdns_request_transmit env base r = do {
     req \<leftarrow> valid_request base r;
     let base1 = upd_req base r (\<lambda>req. req\<lparr>dq_transmit_me := True\<rparr>);
     ev_assert (rq_trans_id req \<noteq> 0xffff);
     (case dq_ns req of
        None \<Rightarrow> Some (1, base1)
      | Some s \<Rightarrow> do {
          ns \<leftarrow> db_nameservers base1 s;
          if ns_choked ns then Some (1, base1)
          else do {
            (x, base2) \<leftarrow> evdns_request_transmit_to env base1 r s;
            if x = 1 then do {
              req2 \<leftarrow> db_requests base2 r;
              s2 \<leftarrow> dq_ns req2;
              Some (1, nameserver_write_waiting (upd_ns base2 s2 (\<lambda>ns. ns\<lparr>ns_choked := True\<rparr>)) s2 True)
            }
            else
              let base3 = tick (if de_timer env (db_calls base2) then upd_req base2 r (\<lambda>req. req\<lparr>dq_timeout := True\<rparr>) else base2) in
              Some (if x = 2 then 1 else 0,
                upd_req base3 r (\<lambda>req. req\<lparr>dq_tx_count := dq_tx_count req + 1, dq_transmit_me := False\<rparr>))
          }
        })
   }"

fun transmit_all :: "dns_env \<Rightarrow> evdns_base \<Rightarrow> bool \<Rightarrow> nat list \<Rightarrow> (bool \<times> evdns_base) option" where
  "transmit_all env base did [] = Some (did, base)"
| "transmit_all env base did (r # rs) = do {
     req \<leftarrow> db_requests base r;
     if dq_transmit_me req then do {
       (x, base1) \<leftarrow> evdns_request_transmit env base r;
       transmit_all env base1 True rs
     }
     else transmit_all env base did rs
   }"

definition evdns_transmit :: "dns_env \<Rightarrow> evdns_base \<Rightarrow> (bool \<times> evdns_base) option" where
  "evdns_transmit env base = transmit_all env base False (concat (db_req_heads base))"

partial_function (option) evdns_requests_pump_waiting_queue :: "dns_env \<Rightarrow> evdns_base \<Rightarrow> evdns_base option" where
  "evdns_requests_pump_waiting_queue env base =
     (if \<not> (db_requests_inflight base < db_max_requests_inflight base \<and> db_requests_waiting base \<noteq> 0) then Some base
      else (case db_req_waiting base of
        [] \<Rightarrow> None
      | r # _ \<Rightarrow> do {
          (ns, base1) \<leftarrow> nameserver_pick base;
          let base2 = upd_req base1 r (\<lambda>req. req\<lparr>dq_ns := ns\<rparr>);
          if ns = None then Some base2
          else do {
            base3 \<leftarrow> evdns_request_remove base2 r None;
            let base4 = base3\<lparr>db_requests_waiting := db_requests_waiting base3 - 1,
              db_requests_inflight := db_requests_inflight base3 + 1\<rparr>;
            (trans_id, base5) \<leftarrow> transaction_id_pick env base4;
            base6 \<leftarrow> request_trans_id_set base5 r trans_id;
            base7 \<leftarrow> evdns_request_insert base6 r (Some (REQ_HEAD base6 trans_id));
            (x, base8) \<leftarrow> evdns_request_transmit env base7 r;
            (y, base9) \<leftarrow> evdns_transmit env base8;
            evdns_requests_pump_waiting_queue env base9
          }
        }))"


text \<open>The part of \<open>nameserver_ready_callback\<close> for a socket that has become writable.\<close>

definition nameserver_ready_write :: "dns_env \<Rightarrow> evdns_base \<Rightarrow> nat \<Rightarrow> evdns_base option" where
  "nameserver_ready_write env base s = do {
     db_nameservers base s;
     (did_try, base1) \<leftarrow> evdns_transmit env (upd_ns base s (\<lambda>ns. ns\<lparr>ns_choked := False\<rparr>));
     Some (if did_try then base1 else nameserver_write_waiting base1 s False)
   }"

definition evdns_base_resume :: "dns_env \<Rightarrow> evdns_base \<Rightarrow> evdns_base option" where
  "evdns_base_resume env base = evdns_requests_pump_waiting_queue env base"

definition evdns_base_count_nameservers :: "evdns_base \<Rightarrow> nat" where
  "evdns_base_count_nameservers base = length (db_servers base)"

text \<open>
  A new limit of requests in flight: the table of lists gets a new size, and each request goes to the end of the list of its
  id in the new table.
\<close>

fun rehash :: "evdns_base \<Rightarrow> nat list list \<Rightarrow> nat list \<Rightarrow> nat list list option" where
  "rehash base heads [] = Some heads"
| "rehash base heads (r # rs) = do {
     req \<leftarrow> valid_request base r;
     let i = unat (rq_trans_id req) mod length heads;
     rehash base (heads[i := heads ! i @ [r]]) rs
   }"

definition evdns_base_set_max_requests_inflight :: "dns_env \<Rightarrow> evdns_base \<Rightarrow> int \<Rightarrow> (int \<times> evdns_base) option" where
  "evdns_base_set_max_requests_inflight env base maxinflight = do {
     let m = (if maxinflight < 1 then 1 else maxinflight);
     let n_heads = nat ((m + 4) div 5);
     ev_assert (n_heads > 0);
     if \<not> de_alloc env (db_calls base) then Some (-1, tick base)
     else do {
       heads \<leftarrow> rehash base (replicate n_heads []) (concat (db_req_heads base));
       Some (0, (tick base)\<lparr>db_req_heads := heads, db_max_requests_inflight := m\<rparr>)
     }
   }"

section \<open>Finishing requests\<close>

text \<open>\<open>head\<close> is the list the request is in; the inflight lists have a timer to stop.\<close>

definition request_finished :: "dns_env \<Rightarrow> evdns_base \<Rightarrow> nat \<Rightarrow> nat option \<Rightarrow> bool \<Rightarrow> evdns_base option" where
  "request_finished env base r head free_handle = do {
     req \<leftarrow> valid_request base r;
     base1 \<leftarrow> evdns_request_remove base r head;
     let base2 = (if head \<noteq> None
       then (upd_req base1 r (\<lambda>req. req\<lparr>dq_timeout := False\<rparr>))\<lparr>db_requests_inflight := db_requests_inflight base1 - 1\<rparr>
       else base1\<lparr>db_requests_waiting := db_requests_waiting base1 - 1\<rparr>);
     h \<leftarrow> db_handles base2 (dq_handle req);
     let base3 = (if free_handle \<and> \<not> eh_pending_cb h then base2\<lparr>db_handles := (db_handles base2)(dq_handle req := None)\<rparr>
       else upd_handle base2 (dq_handle req) (\<lambda>h. h\<lparr>eh_current_req := None\<rparr>));
     evdns_requests_pump_waiting_queue env (base3\<lparr>db_requests := (db_requests base3)(r := None)\<rparr>)
   }"

definition request_reissue :: "evdns_base \<Rightarrow> nat \<Rightarrow> (int \<times> evdns_base) option" where
  "request_reissue base r = do {
     req \<leftarrow> valid_request base r;
     (ns, base1) \<leftarrow> nameserver_pick base;
     let base2 = upd_req base1 r (\<lambda>req. req\<lparr>dq_ns := ns\<rparr>);
     if ns = dq_ns req then Some (1, base2)
     else Some (0, upd_req base2 r (\<lambda>req. req\<lparr>dq_reissue_count := dq_reissue_count req + 1, dq_tx_count := 0, dq_transmit_me := True\<rparr>))
   }"

definition reply_schedule_callback :: "dns_env \<Rightarrow> evdns_base \<Rightarrow> nat \<Rightarrow> 32 word \<Rightarrow> int \<Rightarrow> reply option \<Rightarrow> evdns_base option" where
  "reply_schedule_callback env base r ttl err reply =
     (if \<not> de_alloc env (db_calls base) then Some (tick base)
      else do {
        req \<leftarrow> db_requests base r;
        db_handles base (dq_handle req);
        let base1 = upd_handle (tick base) (dq_handle req) (\<lambda>h. h\<lparr>eh_pending_cb := True\<rparr>);
        Some (base1\<lparr>db_deferred := db_deferred base1 @ [\<lparr>rc_handle = dq_handle req, rc_type = rq_request_type req, rc_ttl = ttl,
          rc_err = err, rc_reply = reply, rc_probe = dq_probe req\<rparr>]\<rparr>)
      })"

definition DNS_ERR_TRUNCATED :: int where "DNS_ERR_TRUNCATED = 65"
definition DNS_ERR_UNKNOWN :: int where "DNS_ERR_UNKNOWN = 66"
definition DNS_ERR_TIMEOUT :: int where "DNS_ERR_TIMEOUT = 67"
definition DNS_ERR_CANCEL :: int where "DNS_ERR_CANCEL = 69"
definition DNS_ERR_NODATA :: int where "DNS_ERR_NODATA = 70"

definition evdns_cancel_request :: "dns_env \<Rightarrow> evdns_base \<Rightarrow> nat \<Rightarrow> evdns_base option" where
  "evdns_cancel_request env base h = do {
     handle \<leftarrow> db_handles base h;
     (case eh_current_req handle of
        None \<Rightarrow> Some base
      | Some r \<Rightarrow>
          if eh_pending_cb handle then Some base
          else do {
            req \<leftarrow> valid_request base r;
            base1 \<leftarrow> reply_schedule_callback env base r 0 DNS_ERR_CANCEL None;
            request_finished env base1 r (if dq_ns req \<noteq> None then Some (REQ_HEAD base1 (rq_trans_id req)) else None) True
          })
   }"

definition nameserver_up :: "dns_env \<Rightarrow> evdns_base \<Rightarrow> nat \<Rightarrow> evdns_base option" where
  "nameserver_up env base s = do {
     ns \<leftarrow> db_nameservers base s;
     if ns_state ns then Some base
     else do {
       let base1 = upd_ns base s (\<lambda>ns. ns\<lparr>ns_timeout := False\<rparr>);
       base2 \<leftarrow> (case ns_probe_request ns of
           None \<Rightarrow> Some base1
         | Some h \<Rightarrow> do {
             base2 \<leftarrow> evdns_cancel_request env base1 h;
             Some (upd_ns base2 s (\<lambda>ns. ns\<lparr>ns_probe_request := None\<rparr>))
           });
       Some ((upd_ns base2 s (\<lambda>ns. ns\<lparr>ns_state := True, ns_failed_times := 0, ns_timedout := 0\<rparr>))
         \<lparr>db_good_nameservers := db_good_nameservers base2 + 1\<rparr>)
     }
   }"

section \<open>Answers and timeouts\<close>

definition reply_error :: "16 word \<Rightarrow> reply option \<Rightarrow> int" where
  "reply_error flags reply =
     (if flags AND 0x0200 \<noteq> 0 then DNS_ERR_TRUNCATED
      else if flags AND 0x000f \<noteq> 0 then
        let error_code = unat (flags AND 0x000f) - 1 in if error_code > 4 then DNS_ERR_UNKNOWN else int error_code + 1
      else case reply of Some rp \<Rightarrow> if \<not> rp_have_answer rp then DNS_ERR_NODATA else DNS_ERR_UNKNOWN | None \<Rightarrow> DNS_ERR_UNKNOWN)"

definition forget_probe :: "evdns_base \<Rightarrow> nat \<Rightarrow> nat \<Rightarrow> evdns_base" where
  "forget_probe base s h =
     (case db_nameservers base s of
        Some ns \<Rightarrow> if ns_probe_request ns = Some h then upd_ns base s (\<lambda>ns. ns\<lparr>ns_probe_request := None\<rparr>) else base
      | None \<Rightarrow> base)"

text \<open>The end of a request that has failed or succeeded: the callback is scheduled, the request leaves the inflight list.\<close>

definition finish_inflight :: "dns_env \<Rightarrow> evdns_base \<Rightarrow> nat \<Rightarrow> 32 word \<Rightarrow> int \<Rightarrow> reply option \<Rightarrow> evdns_base option" where
  "finish_inflight env base r ttl err reply = do {
     base1 \<leftarrow> reply_schedule_callback env base r ttl err reply;
     req \<leftarrow> db_requests base1 r;
     request_finished env base1 r (Some (REQ_HEAD base1 (rq_trans_id req))) True
   }"

definition reply_handle :: "dns_env \<Rightarrow> evdns_base \<Rightarrow> nat \<Rightarrow> 16 word \<Rightarrow> 32 word \<Rightarrow> reply option \<Rightarrow> evdns_base option" where
  "reply_handle env base r flags ttl reply = do {
     req \<leftarrow> valid_request base r;
     if flags AND 0x020f \<noteq> 0 \<or> (case reply of None \<Rightarrow> True | Some rp \<Rightarrow> \<not> rp_have_answer rp) then do {
       let error = reply_error flags reply;
       if error = 4 \<or> error = 5 then
         if dq_reissue_count req < db_max_reissues base then do {
           s \<leftarrow> dq_ns req;
           base1 \<leftarrow> nameserver_failed env base s;
           (x, base2) \<leftarrow> request_reissue base1 r;
           if x = 0 then Some base2 else finish_inflight env base2 r ttl error None
         }
         else finish_inflight env base r ttl error None
       else if error = 2 then finish_inflight env base r ttl error None
       else do {
         s \<leftarrow> dq_ns req;
         base1 \<leftarrow> nameserver_up env (forget_probe base s (dq_handle req)) s;
         finish_inflight env base1 r ttl error None
       }
     }
     else do {
       base1 \<leftarrow> reply_schedule_callback env base r ttl 0 reply;
       s \<leftarrow> dq_ns req;
       base2 \<leftarrow> nameserver_up env (forget_probe base1 s (dq_handle req)) s;
       request_finished env base2 r (Some (REQ_HEAD base2 (rq_trans_id req))) True
     }
   }"

text \<open>The timer has fired, so it is no longer set.\<close>

definition evdns_request_timeout_callback :: "dns_env \<Rightarrow> evdns_base \<Rightarrow> nat \<Rightarrow> evdns_base option" where
  "evdns_request_timeout_callback env base r = do {
     req \<leftarrow> db_requests base r;
     s \<leftarrow> dq_ns req;
     ns \<leftarrow> db_nameservers base s;
     let base1 = upd_ns (upd_req base r (\<lambda>req. req\<lparr>dq_timeout := False\<rparr>)) s (\<lambda>ns. ns\<lparr>ns_timedout := ns_timedout ns + 1\<rparr>);
     base2 \<leftarrow> (if ns_timedout ns + 1 > db_max_nameserver_timeout base
       then nameserver_failed env (upd_ns base1 s (\<lambda>ns. ns\<lparr>ns_timedout := 0\<rparr>)) s else Some base1);
     if dq_tx_count req \<ge> db_max_retransmits base2 then finish_inflight env base2 r 0 DNS_ERR_TIMEOUT None
     else do {
       (new_ns, base3) \<leftarrow> nameserver_pick base2;
       let base4 = (case new_ns of None \<Rightarrow> base3 | Some _ \<Rightarrow> upd_req base3 r (\<lambda>req. req\<lparr>dq_ns := new_ns\<rparr>));
       (x, base5) \<leftarrow> evdns_request_transmit env base4 r;
       Some base5
     }
   }"

section \<open>New requests\<close>

definition EVUTIL_ISALPHA :: "byte \<Rightarrow> bool" where
  "EVUTIL_ISALPHA c \<longleftrightarrow> 65 \<le> c \<and> c \<le> 90 \<or> 97 \<le> c \<and> c \<le> 122"

text \<open>The 0x20 hack: the case of each letter is random.\<close>

definition random_case :: "byte list \<Rightarrow> byte list \<Rightarrow> byte list" where
  "random_case bits name = map (\<lambda>(i, c).
     if EVUTIL_ISALPHA c then if bit (bits ! (i div 8)) (i mod 8) then c OR 0x20 else c AND NOT 0x20 else c) (enumerate 0 name)"

text \<open>\<open>r\<close> is the address of the memory \<open>mm_malloc\<close> returns.\<close>

definition request_new :: "dns_env \<Rightarrow> evdns_base \<Rightarrow> nat \<Rightarrow> nat \<Rightarrow> int \<Rightarrow> byte list \<Rightarrow> nat option \<Rightarrow> (bool \<times> evdns_base) option" where
  "request_new env base h r type name probe = do {
     let issuing_now = (db_requests_inflight base < db_max_requests_inflight base);
     (trans_id, base1) \<leftarrow> (if issuing_now then transaction_id_pick env base else Some (0xffff, base));
     let alloc = de_alloc env (db_calls base1);
     let memory = take (evdns_request_len (length name)) (de_memory env (db_calls base1));
     let base2 = tick base1;
     if \<not> alloc \<or> length name \<ge> 256 then Some (False, base2)
     else do {
       let name1 = (if db_randomize_case base2 then random_case (de_bits env (db_calls base2)) name else name);
       (rlen, m) \<leftarrow> evdns_request_data_build name1 trans_id (of_int type) (of_int CLASS_INET) memory (evdns_request_len (length name));
       if rlen < 0 then Some (False, base2)
       else do {
         (ns, base3) \<leftarrow> (if issuing_now then nameserver_pick base2 else Some (None, base2));
         let req = \<lparr>rq_trans_id = trans_id, rq_request = m, rq_request_len = nat rlen, rq_request_type = type, rq_put_cname = None,
           dq_reissue_count = 0, dq_tx_count = 0, dq_ns = ns, dq_timeout = False, dq_transmit_me = False, dq_handle = h, dq_probe = probe\<rparr>;
         Some (True, upd_handle (base3\<lparr>db_requests := (db_requests base3)(r \<mapsto> req)\<rparr>) h (\<lambda>h. h\<lparr>eh_current_req := Some r\<rparr>))
       }
     }
   }"

definition request_submit :: "dns_env \<Rightarrow> evdns_base \<Rightarrow> nat \<Rightarrow> evdns_base option" where
  "request_submit env base r = do {
     req \<leftarrow> valid_request base r;
     if dq_ns req \<noteq> None then do {
       base1 \<leftarrow> evdns_request_insert base r (Some (REQ_HEAD base (rq_trans_id req)));
       (x, base2) \<leftarrow> evdns_request_transmit env (base1\<lparr>db_requests_inflight := db_requests_inflight base1 + 1\<rparr>) r;
       Some base2
     }
     else do {
       base1 \<leftarrow> evdns_request_insert base r None;
       Some (base1\<lparr>db_requests_waiting := db_requests_waiting base1 + 1\<rparr>)
     }
   }"

text \<open>
  \<open>evdns_base_resolve_ipv4\<close> and \<open>evdns_base_resolve_ipv6\<close> without a search list: the type is that of the records asked for,
  \<open>h\<close> and \<open>r\<close> are the addresses of the new handle and request. The result is whether there is a handle.
\<close>

definition evdns_base_resolve :: "dns_env \<Rightarrow> evdns_base \<Rightarrow> nat \<Rightarrow> nat \<Rightarrow> int \<Rightarrow> byte list \<Rightarrow> (bool \<times> evdns_base) option" where
  "evdns_base_resolve env base h r type name =
     (if \<not> de_alloc env (db_calls base) then Some (False, tick base)
      else do {
        let base1 = (tick base)\<lparr>db_handles := (db_handles base)(h \<mapsto> \<lparr>eh_current_req = None, eh_pending_cb = False\<rparr>)\<rparr>;
        (ok, base2) \<leftarrow> request_new env base1 h r type name None;
        if ok then do { base3 \<leftarrow> request_submit env base2 r; Some (True, base3) }
        else Some (False, base2\<lparr>db_handles := (db_handles base2)(h := None)\<rparr>)
      })"

section \<open>Probes\<close>

definition google_com :: "byte list" where
  "google_com = [103, 111, 111, 103, 108, 101, 46, 99, 111, 109]"

definition nameserver_send_probe :: "dns_env \<Rightarrow> evdns_base \<Rightarrow> nat \<Rightarrow> nat \<Rightarrow> nat \<Rightarrow> evdns_base option" where
  "nameserver_send_probe env base s h r =
     (if \<not> de_alloc env (db_calls base) then Some (tick base)
      else do {
        let base1 = (tick base)\<lparr>db_handles := (db_handles base)(h \<mapsto> \<lparr>eh_current_req = None, eh_pending_cb = False\<rparr>)\<rparr>;
        (ok, base2) \<leftarrow> request_new env base1 h r TYPE_A google_com (Some s);
        if \<not> ok then Some (base2\<lparr>db_handles := (db_handles base2)(h := None)\<rparr>)
        else do {
          let base3 = upd_ns base2 s (\<lambda>ns. ns\<lparr>ns_probe_request := Some h\<rparr>);
          (trans_id, base4) \<leftarrow> transaction_id_pick env base3;
          base5 \<leftarrow> request_trans_id_set base4 r trans_id;
          request_submit env (upd_req base5 r (\<lambda>req. req\<lparr>dq_ns := Some s\<rparr>)) r
        }
      })"

text \<open>The timer of the next probe; its length is \<open>probe_timeout\<close>.\<close>

fun probe_backoff :: "nat \<Rightarrow> int \<times> int \<Rightarrow> int \<times> int" where
  "probe_backoff 0 t = t"
| "probe_backoff (Suc i) (sec, usec) =
     (if sec \<ge> 3600 then (sec, usec)
      else let sec1 = sec * 3; usec1 = usec * 3 in
        probe_backoff i (if usec1 > 1000000 then (sec1 + usec1 div 1000000, usec1 mod 1000000) else (sec1, usec1)))"

definition probe_timeout :: "nat \<Rightarrow> int \<times> int \<Rightarrow> int \<times> int" where
  "probe_timeout failed_times initial = (case probe_backoff failed_times initial of (sec, usec) \<Rightarrow> if sec > 3600 then (3600, 0) else (sec, usec))"

definition nameserver_probe_failed :: "dns_env \<Rightarrow> evdns_base \<Rightarrow> nat \<Rightarrow> evdns_base option" where
  "nameserver_probe_failed env base s = do {
     ns \<leftarrow> db_nameservers base s;
     let base1 = upd_ns base s (\<lambda>ns. ns\<lparr>ns_timeout := False\<rparr>);
     if ns_state ns then Some base1
     else
       let base2 = upd_ns base1 s (\<lambda>ns. ns\<lparr>ns_failed_times := ns_failed_times ns + 1\<rparr>) in
       Some (tick (if de_timer env (db_calls base2) then upd_ns base2 s (\<lambda>ns. ns\<lparr>ns_timeout := True\<rparr>) else base2))
   }"

definition nameserver_probe_callback :: "dns_env \<Rightarrow> evdns_base \<Rightarrow> nat \<Rightarrow> int \<Rightarrow> evdns_base option" where
  "nameserver_probe_callback env base s result =
     (if result = DNS_ERR_CANCEL then Some base
      else do {
        db_nameservers base s;
        let base1 = upd_ns base s (\<lambda>ns. ns\<lparr>ns_probe_request := None\<rparr>);
        if result = 0 \<or> result = 3 then nameserver_up env base1 s else nameserver_probe_failed env base1 s
      })"

text \<open>The first callback of the deferred queue runs.\<close>

definition reply_run_callback :: "dns_env \<Rightarrow> evdns_base \<Rightarrow> evdns_base option" where
  "reply_run_callback env base = (case db_deferred base of
     [] \<Rightarrow> Some base
   | cb # rest \<Rightarrow> do {
       let base1 = base\<lparr>db_deferred := rest\<rparr>;
       ev_assert (rc_type cb = TYPE_A \<or> rc_type cb = TYPE_PTR \<or> rc_type cb = TYPE_AAAA);
       base2 \<leftarrow> (case rc_probe cb of
           None \<Rightarrow> Some (base1\<lparr>db_delivered := db_delivered base1 @ [cb]\<rparr>)
         | Some s \<Rightarrow> nameserver_probe_callback env base1 s (if rc_reply cb \<noteq> None then 0 else rc_err cb));
       h \<leftarrow> db_handles base2 (rc_handle cb);
       Some (if eh_pending_cb h then base2\<lparr>db_handles := (db_handles base2)(rc_handle cb := None)\<rparr> else base2)
     })"

end
