(* ===== verification/Dns_Client_Inv.thy ===== *)
theory Dns_Client_Inv
  imports Dns_Client
begin

text \<open>
  The invariant of the DNS client and what each step of transmitting and choosing name servers does. Steps that only send,
  choose servers or mark them leave the lists, the handles and the callbacks alone: they are \<open>quiet\<close>.
\<close>

section \<open>The invariant\<close>

definition inflight :: "evdns_base \<Rightarrow> nat list" where
  "inflight b = concat (db_req_heads b)"

definition live :: "evdns_base \<Rightarrow> nat list" where
  "live b = inflight b @ db_req_waiting b"

text \<open>What no step changes of a request while it is in a list, except a new transaction id.\<close>

definition static_req :: "dns_request \<Rightarrow> 16 word \<times> byte list \<times> nat \<times> int \<times> nat \<times> nat option" where
  "static_req q = (rq_trans_id q, rq_request q, rq_request_len q, rq_request_type q, dq_handle q, dq_probe q)"

definition sreq :: "evdns_base \<Rightarrow> nat \<Rightarrow> (16 word \<times> byte list \<times> nat \<times> int \<times> nat \<times> nat option) option" where
  "sreq b r = map_option static_req (db_requests b r)"

definition sprobe :: "evdns_base \<Rightarrow> nat \<Rightarrow> nat option option" where
  "sprobe b s = map_option ns_probe_request (db_nameservers b s)"

definition tid :: "evdns_base \<Rightarrow> nat \<Rightarrow> 16 word" where
  "tid b r = (case sreq b r of None \<Rightarrow> 0 | Some (t, _) \<Rightarrow> t)"

definition owner :: "evdns_base \<Rightarrow> nat \<Rightarrow> (nat \<times> nat option) option" where
  "owner b r = map_option (\<lambda>q. (dq_handle q, dq_probe q)) (db_requests b r)"

definition hdl :: "evdns_base \<Rightarrow> nat \<Rightarrow> nat" where
  "hdl b r = (case owner b r of None \<Rightarrow> 0 | Some (h, _) \<Rightarrow> h)"

definition quiet :: "evdns_base \<Rightarrow> evdns_base \<Rightarrow> bool" where
  "quiet b b' \<longleftrightarrow> db_req_heads b' = db_req_heads b \<and> db_req_waiting b' = db_req_waiting b \<and>
     db_requests_inflight b' = db_requests_inflight b \<and> db_requests_waiting b' = db_requests_waiting b \<and>
     db_max_requests_inflight b' = db_max_requests_inflight b \<and> db_handles b' = db_handles b \<and>
     db_deferred b' = db_deferred b \<and> db_delivered b' = db_delivered b \<and> sreq b' = sreq b \<and> sprobe b' = sprobe b \<and>
     set (db_servers b') = set (db_servers b) \<and> db_max_reissues b' = db_max_reissues b \<and> db_max_retransmits b' = db_max_retransmits b"

text \<open>
  The lists: every live request is in exactly one, in flight in the list of its transaction id; ids are distinct. \<open>X\<close> are
  requests whose callback has been scheduled but that are still in a list (in the middle of an operation).
\<close>

definition dns_type :: "int \<Rightarrow> bool" where
  "dns_type y \<longleftrightarrow> y = TYPE_A \<or> y = TYPE_PTR \<or> y = TYPE_AAAA"

definition lists_ok :: "evdns_base \<Rightarrow> bool" where
  "lists_ok b \<longleftrightarrow> db_req_heads b \<noteq> [] \<and> distinct (live b) \<and> (\<forall>r. r \<in> set (live b) \<longleftrightarrow> sreq b r \<noteq> None) \<and>
     (\<forall>i < length (db_req_heads b). \<forall>r \<in> set (db_req_heads b ! i). REQ_HEAD b (tid b r) = i \<and> tid b r \<noteq> 0xffff) \<and>
     inj_on (tid b) (set (inflight b)) \<and>
     db_requests_inflight b = int (length (inflight b)) \<and> db_requests_waiting b = int (length (db_req_waiting b)) \<and>
     (\<forall>r t m l y h p. sreq b r = Some (t, m, l, y, h, p) \<longrightarrow> 2 \<le> length m \<and> dns_type y)"

definition handles_ok :: "nat set \<Rightarrow> evdns_base \<Rightarrow> bool" where
  "handles_ok X b \<longleftrightarrow> (\<forall>r \<in> set (live b). \<exists>h. db_handles b (hdl b r) = Some h \<and> eh_current_req h = Some r \<and> (eh_pending_cb h \<longleftrightarrow> r \<in> X)) \<and>
     (\<forall>a h r. db_handles b a = Some h \<longrightarrow> eh_current_req h = Some r \<longrightarrow> r \<in> set (live b) \<and> hdl b r = a)"

definition deferred_ok :: "nat set \<Rightarrow> evdns_base \<Rightarrow> bool" where
  "deferred_ok X b \<longleftrightarrow> distinct (map rc_handle (db_deferred b)) \<and> (\<forall>cb \<in> set (db_deferred b). dns_type (rc_type cb)) \<and>
     (\<forall>cb \<in> set (db_deferred b). \<exists>h. db_handles b (rc_handle cb) = Some h \<and> eh_pending_cb h \<and>
        (\<forall>r. eh_current_req h = Some r \<longrightarrow> r \<in> X))"

text \<open>
  A server that remembers a probe: the probe is live, or its callback waits and will make the server forget it. \<open>Y\<close> are servers
  whose probe is being cancelled.
\<close>

definition probe_answered :: "evdns_base \<Rightarrow> nat \<Rightarrow> nat \<Rightarrow> bool" where
  "probe_answered b h s \<longleftrightarrow> (\<exists>cb \<in> set (db_deferred b). rc_handle cb = h \<and> rc_probe cb = Some s \<and> (rc_reply cb \<noteq> None \<or> rc_err cb \<noteq> DNS_ERR_CANCEL))"

definition probes_ok :: "nat set \<Rightarrow> evdns_base \<Rightarrow> bool" where
  "probes_ok Y b \<longleftrightarrow> (\<forall>s h. s \<notin> Y \<longrightarrow> sprobe b s = Some (Some h) \<longrightarrow>
      (\<exists>r \<in> set (live b). owner b r = Some (h, Some s)) \<or>
      probe_answered b h s) \<and>
     (\<forall>r h s. owner b r = Some (h, Some s) \<longrightarrow> sprobe b s \<noteq> None) \<and>
     (\<forall>cb \<in> set (db_deferred b). \<forall>s. rc_probe cb = Some s \<longrightarrow> sprobe b s \<noteq> None)"

definition servers_ok :: "evdns_base \<Rightarrow> bool" where
  "servers_ok b \<longleftrightarrow> distinct (db_servers b) \<and> set (db_servers b) = dom (db_nameservers b) \<and>
     db_good_nameservers b = int (card {s. good_ns b s})"

definition assigned :: "evdns_base \<Rightarrow> bool" where
  "assigned b \<longleftrightarrow> (\<forall>r \<in> set (inflight b). \<forall>q. db_requests b r = Some q \<longrightarrow> (\<exists>s \<in> set (db_servers b). dq_ns q = Some s)) \<and>
     (\<forall>r \<in> set (db_req_waiting b). \<forall>q. db_requests b r = Some q \<longrightarrow> dq_ns q = None)"

definition client_inv :: "nat set \<Rightarrow> nat set \<Rightarrow> evdns_base \<Rightarrow> bool" where
  "client_inv X Y b \<longleftrightarrow> lists_ok b \<and> handles_ok X b \<and> deferred_ok X b \<and> probes_ok Y b \<and> servers_ok b \<and> assigned b"

section \<open>Quiet steps\<close>

named_theorems dns_upd

lemma tick_simps [dns_upd, simp]:
  "db_req_heads (tick b) = db_req_heads b" "db_req_waiting (tick b) = db_req_waiting b" "db_servers (tick b) = db_servers b"
  "db_good_nameservers (tick b) = db_good_nameservers b" "db_requests_inflight (tick b) = db_requests_inflight b"
  "db_requests_waiting (tick b) = db_requests_waiting b" "db_max_requests_inflight (tick b) = db_max_requests_inflight b"
  "db_requests (tick b) = db_requests b" "db_handles (tick b) = db_handles b" "db_nameservers (tick b) = db_nameservers b"
  "db_deferred (tick b) = db_deferred b" "db_delivered (tick b) = db_delivered b" "db_max_reissues (tick b) = db_max_reissues b"
  "db_max_retransmits (tick b) = db_max_retransmits b" "db_max_nameserver_timeout (tick b) = db_max_nameserver_timeout b"
  "db_randomize_case (tick b) = db_randomize_case b" "db_calls (tick b) = db_calls b + 1"
  by (simp_all add: tick_def)

lemma upd_req_simps [dns_upd, simp]:
  "db_req_heads (upd_req b r f) = db_req_heads b" "db_req_waiting (upd_req b r f) = db_req_waiting b" "db_servers (upd_req b r f) = db_servers b"
  "db_good_nameservers (upd_req b r f) = db_good_nameservers b" "db_requests_inflight (upd_req b r f) = db_requests_inflight b"
  "db_requests_waiting (upd_req b r f) = db_requests_waiting b" "db_max_requests_inflight (upd_req b r f) = db_max_requests_inflight b"
  "db_requests (upd_req b r f) = (db_requests b)(r := map_option f (db_requests b r))" "db_handles (upd_req b r f) = db_handles b"
  "db_nameservers (upd_req b r f) = db_nameservers b" "db_deferred (upd_req b r f) = db_deferred b"
  "db_delivered (upd_req b r f) = db_delivered b" "db_max_reissues (upd_req b r f) = db_max_reissues b"
  "db_max_retransmits (upd_req b r f) = db_max_retransmits b" "db_max_nameserver_timeout (upd_req b r f) = db_max_nameserver_timeout b"
  "db_calls (upd_req b r f) = db_calls b"
  by (simp_all add: upd_req_def)

lemma upd_ns_simps [dns_upd, simp]:
  "db_req_heads (upd_ns b s f) = db_req_heads b" "db_req_waiting (upd_ns b s f) = db_req_waiting b" "db_servers (upd_ns b s f) = db_servers b"
  "db_good_nameservers (upd_ns b s f) = db_good_nameservers b" "db_requests_inflight (upd_ns b s f) = db_requests_inflight b"
  "db_requests_waiting (upd_ns b s f) = db_requests_waiting b" "db_max_requests_inflight (upd_ns b s f) = db_max_requests_inflight b"
  "db_requests (upd_ns b s f) = db_requests b" "db_handles (upd_ns b s f) = db_handles b"
  "db_nameservers (upd_ns b s f) = (db_nameservers b)(s := map_option f (db_nameservers b s))" "db_deferred (upd_ns b s f) = db_deferred b"
  "db_delivered (upd_ns b s f) = db_delivered b" "db_max_reissues (upd_ns b s f) = db_max_reissues b"
  "db_max_retransmits (upd_ns b s f) = db_max_retransmits b" "db_max_nameserver_timeout (upd_ns b s f) = db_max_nameserver_timeout b"
  "db_calls (upd_ns b s f) = db_calls b"
  by (simp_all add: upd_ns_def)

lemma upd_handle_simps [dns_upd, simp]:
  "db_req_heads (upd_handle b h f) = db_req_heads b" "db_req_waiting (upd_handle b h f) = db_req_waiting b"
  "db_servers (upd_handle b h f) = db_servers b" "db_good_nameservers (upd_handle b h f) = db_good_nameservers b"
  "db_requests_inflight (upd_handle b h f) = db_requests_inflight b" "db_requests_waiting (upd_handle b h f) = db_requests_waiting b"
  "db_max_requests_inflight (upd_handle b h f) = db_max_requests_inflight b" "db_requests (upd_handle b h f) = db_requests b"
  "db_handles (upd_handle b h f) = (db_handles b)(h := map_option f (db_handles b h))"
  "db_nameservers (upd_handle b h f) = db_nameservers b" "db_deferred (upd_handle b h f) = db_deferred b"
  "db_delivered (upd_handle b h f) = db_delivered b" "db_calls (upd_handle b h f) = db_calls b"
  by (simp_all add: upd_handle_def)

lemma quiet_refl [simp]: "quiet b b"
  by (simp add: quiet_def)

lemma quiet_trans [trans]: "quiet a b \<Longrightarrow> quiet b c \<Longrightarrow> quiet a c"
  by (simp add: quiet_def)

lemma quiet_tick [simp]: "quiet b (tick b)"
  by (simp add: quiet_def sreq_def sprobe_def fun_eq_iff)

lemma quiet_upd_req: "(\<And>q. db_requests b r = Some q \<Longrightarrow> static_req (f q) = static_req q) \<Longrightarrow> quiet b (upd_req b r f)"
  by (cases "db_requests b r") (auto simp: quiet_def sreq_def sprobe_def fun_eq_iff)

lemma quiet_upd_ns: "(\<And>ns. db_nameservers b s = Some ns \<Longrightarrow> ns_probe_request (f ns) = ns_probe_request ns) \<Longrightarrow> quiet b (upd_ns b s f)"
  by (cases "db_nameservers b s") (auto simp: quiet_def sreq_def sprobe_def fun_eq_iff)

lemma owner_sreq: "owner b r = map_option (\<lambda>(_, _, _, _, h, p). (h, p)) (sreq b r)"
  by (cases "db_requests b r") (simp_all add: owner_def sreq_def static_req_def)

lemma quiet_eqs:
  assumes "quiet b b'"
  shows "inflight b' = inflight b" "live b' = live b" "tid b' = tid b" "hdl b' = hdl b"
    "lists_ok b' = lists_ok b" "handles_ok X b' = handles_ok X b" "deferred_ok X b' = deferred_ok X b" "probes_ok Y b' = probes_ok Y b"
proof -
  have "REQ_HEAD b' = REQ_HEAD b" using assms by (simp add: quiet_def REQ_HEAD_def fun_eq_iff)
  moreover show i: "inflight b' = inflight b" using assms by (simp add: quiet_def inflight_def)
  moreover show l: "live b' = live b" using assms i by (simp add: quiet_def live_def)
  moreover show t: "tid b' = tid b" "hdl b' = hdl b" using assms by (simp_all add: quiet_def tid_def hdl_def owner_sreq fun_eq_iff)
  moreover have "owner b' = owner b" using assms by (simp add: quiet_def owner_sreq fun_eq_iff)
  ultimately show "lists_ok b' = lists_ok b" "handles_ok X b' = handles_ok X b" "deferred_ok X b' = deferred_ok X b" "probes_ok Y b' = probes_ok Y b"
    using assms by (simp_all add: quiet_def lists_ok_def handles_ok_def deferred_ok_def probes_ok_def probe_answered_def)
qed

lemma quiet_inv:
  "client_inv X Y b \<Longrightarrow> quiet b b' \<Longrightarrow> servers_ok b' \<Longrightarrow> assigned b' \<Longrightarrow> client_inv X Y b'"
  using quiet_eqs(5) [of b b'] quiet_eqs(6,7) [of b b' X] quiet_eqs(8) [of b b' Y] by (auto simp: client_inv_def)


text \<open>No server comes up.\<close>

definition no_better :: "evdns_base \<Rightarrow> evdns_base \<Rightarrow> bool" where
  "no_better b b' \<longleftrightarrow> (\<forall>s. good_ns b' s \<longrightarrow> good_ns b s)"

lemma no_better_trans: "no_better a b \<Longrightarrow> no_better b c \<Longrightarrow> no_better a c"
  by (simp add: no_better_def)

lemma no_better_same: "good_ns b' = good_ns b \<Longrightarrow> no_better b b'"
  by (simp add: no_better_def)

lemma no_better_simps [simp]: "no_better b b" "no_better b (tick b)"
  by (simp_all add: no_better_def good_ns_def)

definition calm :: "evdns_base \<Rightarrow> evdns_base \<Rightarrow> bool" where
  "calm b b' \<longleftrightarrow> quiet b b' \<and> servers_ok b' \<and> assigned b' \<and> no_better b b'"

lemma calm_trans: "calm a b \<Longrightarrow> calm b c \<Longrightarrow> calm a c"
  by (auto simp: calm_def intro: quiet_trans no_better_trans)

lemma calm_inv: "client_inv X Y b \<Longrightarrow> calm b b' \<Longrightarrow> client_inv X Y b'"
  by (auto simp: calm_def intro: quiet_inv)

lemma servers_ok_cong:
  "servers_ok b \<Longrightarrow> distinct (db_servers b') \<Longrightarrow> set (db_servers b') = set (db_servers b) \<Longrightarrow> dom (db_nameservers b') = dom (db_nameservers b) \<Longrightarrow>
   good_ns b' = good_ns b \<Longrightarrow> db_good_nameservers b' = db_good_nameservers b \<Longrightarrow> servers_ok b'"
  by (simp add: servers_ok_def)

lemma good_in_servers: "servers_ok b \<Longrightarrow> good_ns b s \<Longrightarrow> s \<in> set (db_servers b)"
  by (auto simp: servers_ok_def good_ns_def split: option.splits)

lemma good_finite: "servers_ok b \<Longrightarrow> finite {s. good_ns b s}"
  by (rule finite_subset [of _ "set (db_servers b)"]) (auto dest: good_in_servers)

lemma ok_tick [simp]: "servers_ok (tick b) = servers_ok b" "assigned (tick b) = assigned b"
  by (simp_all add: servers_ok_def assigned_def inflight_def good_ns_def)

lemma calm_tick: "servers_ok b \<Longrightarrow> assigned b \<Longrightarrow> calm b (tick b)"
  by (simp add: calm_def)

lemma calm_upd_req:
  assumes "servers_ok b" "assigned b"
    and "\<And>q. db_requests b r = Some q \<Longrightarrow> static_req (f q) = static_req q \<and>
      (dq_ns (f q) = dq_ns q \<or> r \<notin> set (db_req_waiting b) \<and> (\<exists>s \<in> set (db_servers b). dq_ns (f q) = Some s))"
  shows "calm b (upd_req b r f)"
proof -
  have "servers_ok (upd_req b r f)" by (rule servers_ok_cong [OF assms(1)]) (use assms(1) in \<open>auto simp: good_ns_def fun_eq_iff servers_ok_def\<close>)
  moreover have "quiet b (upd_req b r f)" using assms(3) by (intro quiet_upd_req) blast
  moreover have "assigned (upd_req b r f)"
    using assms(2,3) by (cases "db_requests b r") (auto simp: assigned_def inflight_def)
  moreover have "no_better b (upd_req b r f)" by (simp add: no_better_def good_ns_def)
  ultimately show ?thesis by (simp add: calm_def)
qed

lemma calm_upd_ns:
  assumes "servers_ok b" "assigned b"
    and "\<And>ns. db_nameservers b s = Some ns \<Longrightarrow> ns_probe_request (f ns) = ns_probe_request ns \<and> ns_state (f ns) = ns_state ns"
  shows "calm b (upd_ns b s f)"
proof -
  have g: "good_ns (upd_ns b s f) = good_ns b" using assms(3) by (cases "db_nameservers b s") (auto simp: good_ns_def fun_eq_iff)
  then have "servers_ok (upd_ns b s f)"
    by (intro servers_ok_cong [OF assms(1)]) (use assms(1) in \<open>auto simp: servers_ok_def split: if_splits\<close>)
  moreover have "quiet b (upd_ns b s f)" using assms(3) by (intro quiet_upd_ns) blast
  moreover have "assigned (upd_ns b s f)" using assms(2) by (simp add: assigned_def inflight_def)
  ultimately show ?thesis using no_better_same [OF g] by (simp add: calm_def)
qed

lemma nameserver_pick_ok:
  assumes "servers_ok b" "assigned b"
  obtains ns b' where "nameserver_pick b = Some (ns, b')" "calm b b'" "db_requests b' = db_requests b"
    "ns = None \<longleftrightarrow> db_servers b = []" "\<And>s. ns = Some s \<Longrightarrow> s \<in> set (db_servers b)" "db_calls b' = db_calls b"
proof -
  have calm: "calm b (b\<lparr>db_servers := ss\<rparr>)" if "distinct ss" "set ss = set (db_servers b)" for ss
    using assms that by (auto simp: calm_def no_better_def quiet_def sreq_def sprobe_def servers_ok_def assigned_def inflight_def good_ns_def fun_eq_iff)
  have dist: "distinct (db_servers b)" using assms(1) by (simp add: servers_ok_def)
  consider (none) "db_servers b = []" | (bad) "db_servers b \<noteq> []" "db_good_nameservers b = 0"
    | (good) "db_servers b \<noteq> []" "db_good_nameservers b \<noteq> 0" by blast
  then show ?thesis
  proof cases
    case none
    have "calm b b" using assms by (simp add: calm_def)
    then show ?thesis using none that [of None b] by (simp add: nameserver_pick_def)
  next
    case bad
    have "hd (rotate1 (db_servers b)) \<in> set (db_servers b)" using bad(1) by (metis hd_in_set rotate1_is_Nil_conv set_rotate1)
    then show ?thesis
      using bad dist by (intro that [OF _ calm [of "rotate1 (db_servers b)"]]) (auto simp: nameserver_pick_def Let_def)
  next
    case good
    define bad where "bad = takeWhile (\<lambda>s. \<not> good_ns b s) (db_servers b)"
    define rest where "rest = drop (length bad) (db_servers b)"
    have split: "db_servers b = bad @ rest" by (metis append_take_drop_id bad_def rest_def takeWhile_eq_take)
    have "card {s. good_ns b s} \<noteq> 0" using good(2) assms(1) by (simp add: servers_ok_def)
    then obtain s where "good_ns b s" by fastforce
    then have "bad \<noteq> db_servers b"
      using good_in_servers [OF assms(1)] set_takeWhileD unfolding bad_def by metis
    then obtain t more where t: "rest = t # more" using split by (cases rest) auto
    have pick: "nameserver_pick b = Some (Some t, b\<lparr>db_servers := more @ bad @ [t]\<rparr>)"
      using good t by (simp add: nameserver_pick_def bad_def [symmetric] rest_def [symmetric])
    show ?thesis
      using dist split t good(1) by (intro that [OF pick calm]) auto
  qed
qed


lemma reassign_ok:
  assumes "servers_ok b" "assigned b" "set rs \<subseteq> set (inflight b)" "\<forall>r \<in> set rs. db_requests b r \<noteq> None \<and> r \<notin> set (db_req_waiting b)"
  shows "\<exists>b'. reassign s b rs = Some b' \<and> calm b b' \<and> db_calls b' = db_calls b"
  using assms
proof (induction rs arbitrary: b)
  case Nil
  then show ?case by (simp add: calm_def)
next
  case (Cons r rs)
  obtain q where q: "db_requests b r = Some q" using Cons.prems(4) by auto
  show ?case
  proof (cases "dq_tx_count q = 0 \<and> dq_ns q = Some s")
    case True
    obtain ns b1 where p: "nameserver_pick b = Some (ns, b1)" "calm b b1" "db_requests b1 = db_requests b"
      "ns = None \<longleftrightarrow> db_servers b = []" "\<And>s. ns = Some s \<Longrightarrow> s \<in> set (db_servers b)" "db_calls b1 = db_calls b"
      using nameserver_pick_ok [OF Cons.prems(1,2)] by metis
    have "r \<in> set (inflight b)" using Cons.prems(3) by simp
    then have "db_servers b \<noteq> []" using Cons.prems(2) q by (auto simp: assigned_def)
    then obtain s1 where s1: "ns = Some s1" "s1 \<in> set (db_servers b)" using p(4,5) by (cases ns) auto
    have q1: "quiet b b1" "servers_ok b1" "assigned b1" using p(2) by (simp_all add: calm_def)
    have c: "calm b1 (upd_req b1 r (\<lambda>req. req\<lparr>dq_ns := ns\<rparr>))"
      using q1 s1 Cons.prems(4) by (intro calm_upd_req) (auto simp: static_req_def quiet_def)
    define b2 where "b2 = upd_req b1 r (\<lambda>req. req\<lparr>dq_ns := ns\<rparr>)"
    have c2: "calm b b2" using p(2) c by (simp add: b2_def calm_trans)
    then have q2: "quiet b b2" "servers_ok b2" "assigned b2" by (simp_all add: calm_def)
    have "\<exists>b'. reassign s b2 rs = Some b' \<and> calm b2 b' \<and> db_calls b' = db_calls b2"
      using Cons.prems(3,4) q2 quiet_eqs(1) [OF q2(1)] p(3)
      by (intro Cons.IH) (auto simp: b2_def q1 quiet_def)
    then show ?thesis using q True p(1,6) c2 by (auto simp: b2_def intro: calm_trans)
  next
    case False
    then show ?thesis using q Cons.IH [OF Cons.prems(1,2)] Cons.prems(3,4) by auto
  qed
qed

lemma live_requests:
  assumes "lists_ok b"
  shows "r \<in> set (live b) \<Longrightarrow> \<exists>q. db_requests b r = Some q" "r \<in> set (inflight b) \<Longrightarrow> r \<notin> set (db_req_waiting b)"
  using assms by (auto simp: lists_ok_def sreq_def live_def)

lemma nameserver_failed_ok:
  assumes "lists_ok b" "servers_ok b" "assigned b" "s \<in> set (db_servers b)"
  shows "\<exists>b'. nameserver_failed env b s = Some b' \<and> calm b b'"
proof -
  obtain ns where ns: "db_nameservers b s = Some ns" using assms(2,4) by (auto simp: servers_ok_def)
  show ?thesis
  proof (cases "ns_state ns")
    case False
    then show ?thesis using ns assms by (simp add: nameserver_failed_def calm_def)
  next
    case True
    then have g: "good_ns b s" using ns by (simp add: good_ns_def)
    then have pos: "card {s. good_ns b s} > 0" using good_finite [OF assms(2)] by (auto simp: card_gt_0_iff)
    define b2 where "b2 = upd_ns (b\<lparr>db_good_nameservers := db_good_nameservers b - 1\<rparr>) s (\<lambda>ns. ns\<lparr>ns_state := False, ns_failed_times := 1\<rparr>)"
    have ns2: "db_nameservers b2 = (db_nameservers b)(s \<mapsto> ns\<lparr>ns_state := False, ns_failed_times := 1\<rparr>)" by (simp add: b2_def ns)
    have "{t. good_ns b2 t} = {t. good_ns b t} - {s}" by (auto simp: good_ns_def ns2 split: if_splits)
    then have "int (card {t. good_ns b2 t}) = int (card {t. good_ns b t}) - 1"
      using g pos good_finite [OF assms(2)] by (simp add: of_nat_diff)
    then have s2: "servers_ok b2" using assms(2) ns by (auto simp: servers_ok_def ns2) (auto simp: b2_def)
    have "assigned b2" using assms(3) by (simp add: assigned_def b2_def inflight_def)
    moreover have "quiet b b2" using ns by (auto simp: quiet_def sreq_def sprobe_def b2_def fun_eq_iff)
    moreover have "no_better b b2" using g by (auto simp: no_better_def good_ns_def ns2)
    ultimately have c2: "calm b b2" using s2 by (simp add: calm_def)
    define b3 where "b3 = tick (if de_timer env (db_calls b2) then upd_ns b2 s (\<lambda>ns. ns\<lparr>ns_timeout := True\<rparr>) else b2)"
    have "calm b2 (upd_ns b2 s (\<lambda>ns. ns\<lparr>ns_timeout := True\<rparr>))" using c2 by (intro calm_upd_ns) (auto simp: calm_def)
    then have "calm b2 b3" using c2 by (auto simp: b3_def calm_def intro: quiet_trans no_better_trans)
    then have c3: "calm b b3" using c2 by (rule calm_trans [rotated])
    then have q3: "quiet b b3" "servers_ok b3" "assigned b3" by (simp_all add: calm_def)
    have l3: "lists_ok b3" using quiet_eqs(5) [OF q3(1)] assms(1) by simp
    have "\<exists>b'. reassign s b3 (concat (db_req_heads b3)) = Some b' \<and> calm b3 b' \<and> db_calls b' = db_calls b3"
      using q3 live_requests [OF l3] by (intro reassign_ok) (auto simp: inflight_def live_def)
    then obtain b4 where b4: "reassign s b3 (concat (db_req_heads b3)) = Some b4" "calm b3 b4" by auto
    have ok: "db_good_nameservers b > 0" using pos assms(2) by (simp add: servers_ok_def)
    have "nameserver_failed env b s = (if db_good_nameservers b3 = 0 then Some b3 else reassign s b3 (concat (db_req_heads b3)))"
      unfolding nameserver_failed_def b3_def b2_def using ns True ok by (simp add: Let_def)
    then show ?thesis using b4 calm_trans [OF c3 b4(2)] c3 by auto
  qed
qed


section \<open>Transmission\<close>

lemma inflight_tid:
  assumes "lists_ok b" "r \<in> set (inflight b)"
  shows "tid b r \<noteq> 0xffff" "REQ_HEAD b (tid b r) < length (db_req_heads b)" "r \<in> set (db_req_heads b ! REQ_HEAD b (tid b r))"
proof -
  obtain rs where "rs \<in> set (db_req_heads b)" "r \<in> set rs" using assms(2) by (auto simp: inflight_def)
  then obtain i where "i < length (db_req_heads b)" "r \<in> set (db_req_heads b ! i)" by (metis in_set_conv_nth)
  with assms(1) show "tid b r \<noteq> 0xffff" "REQ_HEAD b (tid b r) < length (db_req_heads b)" "r \<in> set (db_req_heads b ! REQ_HEAD b (tid b r))"
    by (auto simp: lists_ok_def)
qed

lemma live_handle:
  assumes "handles_ok X b" "r \<in> set (live b)"
  obtains h where "db_handles b (hdl b r) = Some h" "eh_current_req h = Some r" "eh_pending_cb h \<longleftrightarrow> r \<in> X"
  using assms unfolding handles_ok_def by blast

lemma handle_live:
  assumes "handles_ok X b" "db_handles b a = Some h" "eh_current_req h = Some r"
  shows "r \<in> set (live b)" "hdl b r = a"
  using assms unfolding handles_ok_def by blast+

lemma valid_request_ok:
  assumes "lists_ok b" "handles_ok X b" "r \<in> set (live b)"
  obtains q where "db_requests b r = Some q" "valid_request b r = Some q"
proof -
  obtain q where q: "db_requests b r = Some q" using live_requests(1) [OF assms(1,3)] by blast
  have "hdl b r = dq_handle q" using q by (simp add: hdl_def owner_def)
  moreover obtain h where "db_handles b (hdl b r) = Some h" "eh_current_req h = Some r" by (rule live_handle [OF assms(2,3)])
  ultimately show ?thesis using q that by (simp add: valid_request_def)
qed

lemma calm_valid:
  assumes "client_inv X Y b" "calm b b'"
  shows "client_inv X Y b'" "lists_ok b'" "handles_ok X b'" "servers_ok b'" "assigned b'" "live b' = live b" "inflight b' = inflight b"
    "db_req_waiting b' = db_req_waiting b" "set (db_servers b') = set (db_servers b)"
  using calm_inv [OF assms] assms quiet_eqs(1,2) [of b b'] by (auto simp: client_inv_def calm_def quiet_def)

lemma transmit_ok:
  assumes inv: "client_inv X Y b" and r: "r \<in> set (inflight b)"
  shows "\<exists>x b'. evdns_request_transmit env b r = Some (x, b') \<and> calm b b'"
proof -
  have ok: "lists_ok b" "handles_ok X b" "servers_ok b" "assigned b" using inv by (simp_all add: client_inv_def)
  have rl: "r \<in> set (live b)" using r by (simp add: live_def)
  obtain q where q: "db_requests b r = Some q" "valid_request b r = Some q" by (rule valid_request_ok [OF ok(1,2) rl])
  have "tid b r \<noteq> 0xffff" using inflight_tid(1) [OF ok(1) r] .
  then have t: "rq_trans_id q \<noteq> 0xffff" using q(1) by (simp add: tid_def sreq_def static_req_def)
  obtain s where s: "s \<in> set (db_servers b)" "dq_ns q = Some s" using ok(4) r q(1) unfolding assigned_def by blast
  obtain ns where ns: "db_nameservers b s = Some ns" using s(1) ok(3) by (auto simp: servers_ok_def)
  define b1 where "b1 = upd_req b r (\<lambda>req. req\<lparr>dq_transmit_me := True\<rparr>)"
  have c1: "calm b b1" unfolding b1_def using ok by (intro calm_upd_req) (auto simp: static_req_def)
  note i1 = calm_valid [OF inv c1]
  have q1: "db_requests b1 r = Some (q\<lparr>dq_transmit_me := True\<rparr>)" "valid_request b1 r = Some (q\<lparr>dq_transmit_me := True\<rparr>)"
    using q(1) valid_request_ok [OF i1(2,3), of r] rl i1(6) by (auto simp: b1_def)
  have s1: "db_nameservers b1 s = Some ns" using ns by (simp add: b1_def)
  show ?thesis
  proof (cases "ns_choked ns")
    case True
    then show ?thesis using q t s s1 c1 by (auto simp: evdns_request_transmit_def b1_def [symmetric])
  next
    case False
    have to: "\<exists>x b2. evdns_request_transmit_to env b1 r s = Some (x, b2) \<and> calm b1 b2 \<and> (x = 1 \<longrightarrow> b2 = tick b1)"
    proof (cases "de_send env (db_calls b1)")
      case Send_error
      have "\<exists>b2. nameserver_failed env (tick b1) s = Some b2 \<and> calm (tick b1) b2"
        using i1 s calm_valid [OF i1(1) calm_tick [OF i1(4,5)]] by (intro nameserver_failed_ok) auto
      then show ?thesis using Send_error q1 s(2) calm_trans [OF calm_tick [OF i1(4,5)]] by (auto simp: evdns_request_transmit_to_def)
    qed (use q1 calm_tick [OF i1(4,5)] in \<open>auto simp: evdns_request_transmit_to_def\<close>)
    then obtain x b2 where x: "evdns_request_transmit_to env b1 r s = Some (x, b2)" "calm b1 b2" "x = 1 \<longrightarrow> b2 = tick b1" by blast
    note i2 = calm_valid [OF i1(1) x(2)]
    have c2: "calm b b2" using c1 x(2) by (rule calm_trans)
    show ?thesis
    proof (cases "x = 1")
      case True
      let ?b3 = "upd_ns b2 s (\<lambda>ns. ns\<lparr>ns_choked := True\<rparr>)"
      have c3: "calm b2 ?b3" using i2 by (intro calm_upd_ns) auto
      note i3 = calm_valid [OF i2(1) c3]
      have "calm ?b3 (nameserver_write_waiting ?b3 s True)"
        unfolding nameserver_write_waiting_def using i3 by (intro calm_upd_ns) auto
      then have "calm b (nameserver_write_waiting ?b3 s True)" using c2 c3 by (blast intro: calm_trans)
      moreover have "db_requests b2 r = Some (q\<lparr>dq_transmit_me := True\<rparr>)" using True x(3) q1 by simp
      ultimately show ?thesis
        using q t s s1 False x(1) True by (auto simp: evdns_request_transmit_def b1_def [symmetric])
    next
      case False
      define b3 where "b3 = tick (if de_timer env (db_calls b2) then upd_req b2 r (\<lambda>req. req\<lparr>dq_timeout := True\<rparr>) else b2)"
      have "calm b2 (upd_req b2 r (\<lambda>req. req\<lparr>dq_timeout := True\<rparr>))" using i2 by (intro calm_upd_req) (auto simp: static_req_def)
      then have c3: "calm b2 b3" using i2 by (auto simp: b3_def calm_def intro: quiet_trans no_better_trans)
      note i3 = calm_valid [OF i2(1) c3]
      have "calm b3 (upd_req b3 r (\<lambda>req. req\<lparr>dq_tx_count := dq_tx_count req + 1, dq_transmit_me := False\<rparr>))"
        using i3 by (intro calm_upd_req) (auto simp: static_req_def)
      then have "calm b (upd_req b3 r (\<lambda>req. req\<lparr>dq_tx_count := dq_tx_count req + 1, dq_transmit_me := False\<rparr>))"
        using c2 c3 by (blast intro: calm_trans)
      then show ?thesis
        using q t s s1 \<open>\<not> ns_choked ns\<close> x(1) False
        by (auto simp: evdns_request_transmit_def b1_def [symmetric] b3_def [symmetric])
    qed
  qed
qed

lemma transmit_all_ok:
  assumes "client_inv X Y b" "set rs \<subseteq> set (inflight b)"
  shows "\<exists>y b'. transmit_all env b did rs = Some (y, b') \<and> calm b b'"
  using assms
proof (induction rs arbitrary: b did)
  case Nil
  then show ?case by (auto simp: calm_def client_inv_def)
next
  case (Cons r rs)
  obtain q where q: "db_requests b r = Some q"
    using Cons.prems live_requests(1) [of b r] by (auto simp: client_inv_def live_def)
  show ?case
  proof (cases "dq_transmit_me q")
    case True
    obtain x b1 where t: "evdns_request_transmit env b r = Some (x, b1)" "calm b b1"
      using transmit_ok [OF Cons.prems(1)] Cons.prems(2) by (metis list.set_intros(1) subsetD)
    have "\<exists>y b'. transmit_all env b1 True rs = Some (y, b') \<and> calm b1 b'"
      using calm_valid [OF Cons.prems(1) t(2)] Cons.prems(2) by (intro Cons.IH) auto
    then show ?thesis using q True t by (auto intro: calm_trans)
  next
    case False
    then show ?thesis using q Cons by simp
  qed
qed

lemma evdns_transmit_ok: "client_inv X Y b \<Longrightarrow> \<exists>y b'. evdns_transmit env b = Some (y, b') \<and> calm b b'"
  unfolding evdns_transmit_def by (rule transmit_all_ok) (simp_all add: inflight_def)


section \<open>Transaction ids\<close>

text \<open>
  What is assumed of the environment: memory can be had, and the random number generator never stops producing any value.
\<close>

definition env_ok :: "dns_env \<Rightarrow> bool" where
  "env_ok env \<longleftrightarrow> (\<forall>i. de_alloc env i) \<and> (\<forall>i. 512 \<le> length (de_memory env i)) \<and> (\<forall>n t. t \<noteq> 0xffff \<longrightarrow> (\<exists>m \<ge> n. de_random env m = t))"

definition heads_ok :: "evdns_base \<Rightarrow> bool" where
  "heads_ok b \<longleftrightarrow> db_req_heads b \<noteq> [] \<and>
     (\<forall>i < length (db_req_heads b). \<forall>r \<in> set (db_req_heads b ! i). REQ_HEAD b (tid b r) = i \<and> db_requests b r \<noteq> None)"

lemma heads_ok_lists: "lists_ok b \<Longrightarrow> heads_ok b"
  using live_requests(1) [of b] by (fastforce simp: heads_ok_def lists_ok_def live_def inflight_def)

lemma trans_id_unused:
  assumes "heads_ok b"
  shows "request_find_from_trans_id b t = None \<longleftrightarrow> t \<notin> tid b ` set (inflight b)"
proof -
  have len: "REQ_HEAD b t < length (db_req_heads b)" using assms by (simp add: REQ_HEAD_def heads_ok_def)
  have has: "db_requests b r \<noteq> None \<Longrightarrow> has_trans_id b t r \<longleftrightarrow> tid b r = t" for r
    by (auto simp: has_trans_id_def tid_def sreq_def static_req_def)
  have "t \<in> tid b ` set (inflight b) \<longleftrightarrow> (\<exists>r \<in> set (db_req_heads b ! REQ_HEAD b t). tid b r = t)" (is "?l \<longleftrightarrow> ?r")
  proof
    assume ?l
    then obtain r rs where "t = tid b r" "rs \<in> set (db_req_heads b)" "r \<in> set rs" by (auto simp: inflight_def)
    then obtain i where "i < length (db_req_heads b)" "r \<in> set (db_req_heads b ! i)" by (metis in_set_conv_nth)
    then show ?r using assms \<open>t = tid b r\<close> by (auto simp: heads_ok_def)
  next
    assume ?r
    then obtain r where "r \<in> set (db_req_heads b ! REQ_HEAD b t)" "tid b r = t" by blast
    moreover then have "r \<in> set (inflight b)" using nth_mem [OF len] by (auto simp: inflight_def)
    ultimately show ?l by blast
  qed
  moreover have "\<forall>r \<in> set (db_req_heads b ! REQ_HEAD b t). has_trans_id b t r \<longleftrightarrow> tid b r = t"
    using has len assms by (auto simp: heads_ok_def)
  ultimately show ?thesis by (auto simp: request_find_from_trans_id_def find_None_iff)
qed

lemma REQ_HEAD_tick [simp]: "REQ_HEAD (tick b) = REQ_HEAD b" "tid (tick b) = tid b" "inflight (tick b) = inflight b" "heads_ok (tick b) = heads_ok b"
  by (simp_all add: REQ_HEAD_def tid_def sreq_def inflight_def heads_ok_def fun_eq_iff)

lemma transaction_id_pick_found:
  assumes "heads_ok b" "db_calls b \<le> m" "de_random env m \<noteq> 0xffff" "de_random env m \<notin> tid b ` set (inflight b)"
  shows "\<exists>t n. transaction_id_pick env b = Some (t, b\<lparr>db_calls := n\<rparr>) \<and> t \<noteq> 0xffff \<and> t \<notin> tid b ` set (inflight b)"
  using assms
proof (induction "m - db_calls b" arbitrary: b rule: less_induct)
  case less
  let ?t = "de_random env (db_calls b)"
  show ?case
  proof (cases "?t \<noteq> 0xffff \<and> ?t \<notin> tid b ` set (inflight b)")
    case True
    then have "request_find_from_trans_id (tick b) ?t = None" using trans_id_unused [of "tick b" ?t] less.prems(1) by simp
    then have "transaction_id_pick env b = Some (?t, b\<lparr>db_calls := db_calls b + 1\<rparr>)"
      using True by (subst transaction_id_pick.simps) (simp add: Let_def tick_def)
    then show ?thesis using True by blast
  next
    case False
    then have "db_calls b \<noteq> m" using less.prems(3,4) by metis
    then have "\<exists>t n. transaction_id_pick env (tick b) = Some (t, (tick b)\<lparr>db_calls := n\<rparr>) \<and> t \<noteq> 0xffff \<and> t \<notin> tid (tick b) ` set (inflight (tick b))"
      using less.prems by (intro less.hyps) auto
    moreover have "transaction_id_pick env b = transaction_id_pick env (tick b)"
      using False trans_id_unused [of "tick b" ?t] less.prems(1) by (subst transaction_id_pick.simps) (auto simp: Let_def)
    moreover have "(tick b)\<lparr>db_calls := n\<rparr> = b\<lparr>db_calls := n\<rparr>" for n by (simp add: tick_def)
    ultimately show ?thesis by simp
  qed
qed

lemma transaction_id_pick_ok:
  assumes "env_ok env" "heads_ok b" "length (inflight b) < 65535"
  obtains t n where "transaction_id_pick env b = Some (t, b\<lparr>db_calls := n\<rparr>)" "t \<noteq> 0xffff" "t \<notin> tid b ` set (inflight b)"
proof -
  have "card (insert 0xffff (tid b ` set (inflight b))) \<le> Suc (length (inflight b))"
    by (metis card_insert_le_m1 card_image_le card_length diff_Suc_1 finite_set le_trans zero_less_Suc)
  moreover have "card (UNIV :: 16 word set) = 65536" by (simp add: card_word)
  ultimately have "insert 0xffff (tid b ` set (inflight b)) \<noteq> UNIV" using assms(3) by auto
  then obtain t where "t \<noteq> 0xffff" "t \<notin> tid b ` set (inflight b)" by blast
  moreover then obtain m where "db_calls b \<le> m" "de_random env m = t" using assms(1) unfolding env_ok_def by blast
  ultimately show ?thesis using transaction_id_pick_found [OF assms(2), of m env] that by blast
qed

end
