(* ===== verification/Dns_Client_Ops.thy ===== *)
theory Dns_Client_Ops
  imports Dns_Client_Inv "HOL-Library.Multiset"
begin

text \<open>
  The operations of the DNS client that move, finish and start requests: each is defined on a base that satisfies the invariant,
  keeps it, and neither loses nor duplicates a request.
\<close>

section \<open>From the waiting list to the inflight lists\<close>

text \<open>What moving requests out of the waiting list leaves alone.\<close>

definition pumped :: "evdns_base \<Rightarrow> evdns_base \<Rightarrow> bool" where
  "pumped b b' \<longleftrightarrow> db_handles b' = db_handles b \<and> db_deferred b' = db_deferred b \<and> db_delivered b' = db_delivered b \<and>
     sprobe b' = sprobe b \<and> db_max_requests_inflight b' = db_max_requests_inflight b \<and> set (db_servers b') = set (db_servers b) \<and>
     length (db_req_heads b') = length (db_req_heads b) \<and> owner b' = owner b \<and> mset (live b') = mset (live b) \<and>
     (\<forall>r \<in> set (inflight b). r \<in> set (inflight b') \<and> tid b' r = tid b r) \<and> no_better b b'"

lemma pumped_trans: "pumped a b \<Longrightarrow> pumped b c \<Longrightarrow> pumped a c"
  by (auto simp: pumped_def intro: no_better_trans)

lemma pumped_calm: "calm b b' \<Longrightarrow> pumped b b'"
  using quiet_eqs(1-3) [of b b'] by (auto simp: calm_def pumped_def quiet_def owner_sreq fun_eq_iff)

lemma pumped_refl [simp]: "pumped b b"
  by (simp add: pumped_def)

lemma mset_concat_append: "i < length xss \<Longrightarrow> mset (concat (xss[i := xss ! i @ [x]])) = add_mset x (mset (concat xss))"
proof (induction xss arbitrary: i)
  case (Cons xs xss)
  then show ?case by (cases i) auto
qed simp

lemma mset_concat_remove: "i < length xss \<Longrightarrow> x \<in> set (xss ! i) \<Longrightarrow> add_mset x (mset (concat (xss[i := remove1 x (xss ! i)]))) = mset (concat xss)"
proof (induction xss arbitrary: i)
  case (Cons xs xss)
  then show ?case by (cases i) auto
qed simp

definition moved :: "evdns_base \<Rightarrow> nat \<Rightarrow> nat list \<Rightarrow> dns_request \<Rightarrow> nat \<Rightarrow> evdns_base" where
  "moved b r ws q n = b\<lparr>db_requests := (db_requests b)(r \<mapsto> q), db_req_waiting := ws, db_requests_waiting := db_requests_waiting b - 1,
     db_requests_inflight := db_requests_inflight b + 1, db_calls := n,
     db_req_heads := (db_req_heads b)[REQ_HEAD b (rq_trans_id q) := db_req_heads b ! REQ_HEAD b (rq_trans_id q) @ [r]]\<rparr>"

definition owner_of :: "dns_request \<Rightarrow> nat \<times> nat option" where
  "owner_of q = (dq_handle q, dq_probe q)"

lemma moved_ok:
  assumes inv: "client_inv X Y b" and w: "db_req_waiting b = r # ws" and q: "db_requests b r = Some q"
    and q': "owner_of q' = owner_of q \<and> rq_request_type q' = rq_request_type q" "length (rq_request q') = length (rq_request q)" "dq_ns q' = Some s" "s \<in> set (db_servers b)"
      "rq_trans_id q' \<noteq> 0xffff" "rq_trans_id q' \<notin> tid b ` set (inflight b)"
  shows "client_inv X Y (moved b r ws q' n) \<and> pumped b (moved b r ws q' n)"
proof -
  define b' where "b' = moved b r ws q' n"
  define t where "t = rq_trans_id q'"
  define i where "i = REQ_HEAD b t"
  have ok: "lists_ok b" "handles_ok X b" "deferred_ok X b" "probes_ok Y b" "servers_ok b" "assigned b" using inv by (simp_all add: client_inv_def)
  have i: "i < length (db_req_heads b)" using ok(1) by (simp add: i_def REQ_HEAD_def lists_ok_def)
  have f: "db_req_heads b' = (db_req_heads b)[i := db_req_heads b ! i @ [r]]" "db_req_waiting b' = ws"
    "db_requests b' = (db_requests b)(r \<mapsto> q')" "db_nameservers b' = db_nameservers b" "db_handles b' = db_handles b"
    "db_deferred b' = db_deferred b" "db_servers b' = db_servers b" "db_good_nameservers b' = db_good_nameservers b"
    "db_delivered b' = db_delivered b" "db_max_requests_inflight b' = db_max_requests_inflight b"
    by (simp_all add: b'_def moved_def i_def t_def)
  have mi: "mset (inflight b') = add_mset r (mset (inflight b))" unfolding inflight_def f using i by (rule mset_concat_append)
  then have ml: "mset (live b') = mset (live b)" by (simp add: live_def f w)
  have si: "set (inflight b') = insert r (set (inflight b))" using arg_cong [OF mi, of set_mset] by simp
  have sl: "set (live b') = set (live b)" using arg_cong [OF ml, of set_mset] by simp
  have dist: "distinct (live b)" "distinct (live b')" using ok(1) mset_eq_imp_distinct_iff [OF ml] by (simp_all add: lists_ok_def)
  then have r: "r \<notin> set (inflight b)" "r \<notin> set ws" "r \<in> set (live b)" by (auto simp: live_def w)
  have ow: "owner b' = owner b" using q q'(1) by (auto simp: owner_def f owner_of_def fun_eq_iff)
  then have hd: "hdl b' = hdl b" by (simp add: hdl_def fun_eq_iff)
  have ti: "tid b' = (tid b)(r := t)" by (auto simp: tid_def sreq_def f fun_eq_iff static_req_def t_def)
  have sp: "sprobe b' = sprobe b" by (simp add: sprobe_def f fun_eq_iff)
  have rh: "REQ_HEAD b' = REQ_HEAD b" by (simp add: REQ_HEAD_def f fun_eq_iff)
  have "inj_on (tid b) (set (inflight b))" using ok(1) by (simp add: lists_ok_def)
  then have "inj_on ((tid b)(r := t)) (set (inflight b))" using q'(6) by (simp add: t_def inj_on_fun_updI)
  then have "inj_on (tid b') (set (inflight b'))" using r(1) q'(6) by (auto simp: ti si t_def)
  moreover have "\<forall>j < length (db_req_heads b'). \<forall>x \<in> set (db_req_heads b' ! j). REQ_HEAD b' (tid b' x) = j \<and> tid b' x \<noteq> 0xffff"
  proof (intro allI impI ballI)
    fix j x
    assume j: "j < length (db_req_heads b')" "x \<in> set (db_req_heads b' ! j)"
    show "REQ_HEAD b' (tid b' x) = j \<and> tid b' x \<noteq> 0xffff"
    proof (cases "x = r")
      case True
      have "r \<notin> set (db_req_heads b ! j)" using r(1) j(1) nth_mem [of j "db_req_heads b"] by (auto simp: f inflight_def)
      then have "j = i" using j True by (cases "j = i") (auto simp: f)
      then show ?thesis using True q'(5) by (simp add: ti rh i_def t_def)
    next
      case False
      then have "x \<in> set (db_req_heads b ! j)" using j by (cases "j = i") (auto simp: f)
      then show ?thesis using False j(1) ok(1) by (simp add: f ti rh lists_ok_def)
    qed
  qed
  moreover have "(x \<in> set (live b')) = (sreq b' x \<noteq> None)" for x
    using ok(1) q sl by (auto simp: lists_ok_def sreq_def f)
  moreover have "2 \<le> length m \<and> dns_type y" if "sreq b' x = Some (t', m, l, y, h, p)" for x t' m l y h p
  proof (cases "x = r")
    case True
    have "sreq b r = Some (rq_trans_id q, rq_request q, rq_request_len q, rq_request_type q, dq_handle q, dq_probe q)"
      using q by (simp add: sreq_def static_req_def)
    then have "2 \<le> length (rq_request q) \<and> dns_type (rq_request_type q)" using ok(1) unfolding lists_ok_def by blast
    then show ?thesis using that True q'(1,2) by (auto simp: sreq_def f static_req_def)
  next
    case False
    then have "sreq b x = Some (t', m, l, y, h, p)" using that by (simp add: sreq_def f)
    then show ?thesis using ok(1) unfolding lists_ok_def by blast
  qed
  moreover have "db_requests_inflight b' = int (length (inflight b'))" "db_requests_waiting b' = int (length (db_req_waiting b'))"
    using ok(1) arg_cong [OF mi, of size] by (simp_all add: lists_ok_def w b'_def moved_def)
  ultimately have "lists_ok b'" using i dist(2) unfolding lists_ok_def f(1) by (auto simp: f)
  moreover have "handles_ok X b'" "deferred_ok X b'" "probes_ok Y b'"
    using ok by (simp_all add: handles_ok_def deferred_ok_def probes_ok_def probe_answered_def hd ow sl sp f)
  moreover have "servers_ok b'" using ok(5) by (simp add: servers_ok_def f good_ns_def)
  moreover have "assigned b'" using ok(6) r q'(3,4) by (auto simp: assigned_def si f w)
  ultimately have "client_inv X Y b'" by (simp add: client_inv_def)
  moreover have "no_better b b'" by (rule no_better_same) (simp add: good_ns_def f fun_eq_iff)
  then have "pumped b b'" using r(1) by (auto simp: pumped_def f sp ow ml si ti)
  ultimately show ?thesis by (simp add: b'_def)
qed


lemma pump_moves:
  assumes env: "env_ok env" and inv: "client_inv X Y b" and room: "length (live b) < 65535"
    and w: "db_req_waiting b = r # ws" and go: "db_requests_inflight b < db_max_requests_inflight b" and some: "db_servers b \<noteq> []"
  shows "\<exists>b'. evdns_requests_pump_waiting_queue env b = evdns_requests_pump_waiting_queue env b' \<and>
    client_inv X Y b' \<and> pumped b b' \<and> db_req_waiting b' = ws"
proof -
  have ok: "lists_ok b" "handles_ok X b" "servers_ok b" "assigned b" using inv by (simp_all add: client_inv_def)
  obtain ns b1 where p: "nameserver_pick b = Some (ns, b1)" "calm b b1" "db_requests b1 = db_requests b"
      "ns = None \<longleftrightarrow> db_servers b = []" "\<And>s. ns = Some s \<Longrightarrow> s \<in> set (db_servers b)"
    using nameserver_pick_ok [OF ok(3,4)] by metis
  then obtain s where s: "ns = Some s" "s \<in> set (db_servers b)" using some by (cases ns) auto
  note i1 = calm_valid [OF inv p(2)]
  have w1: "db_req_waiting b1 = r # ws" "r \<in> set (live b1)" using i1(6,8) w by (simp_all add: live_def)
  obtain q where q: "db_requests b1 r = Some q" "valid_request b1 r = Some q" by (rule valid_request_ok [OF i1(2,3) w1(2)])
  obtain h where h: "db_handles b1 (dq_handle q) = Some h" "eh_current_req h = Some r"
    using q by (auto simp: valid_request_def split: bind_splits)
  define b4 where "b4 = (upd_req b1 r (\<lambda>req. req\<lparr>dq_ns := ns\<rparr>))\<lparr>db_req_waiting := ws,
    db_requests_waiting := db_requests_waiting b1 - 1, db_requests_inflight := db_requests_inflight b1 + 1\<rparr>"
  have t4: "tid b4 = tid b1" "inflight b4 = inflight b1" "REQ_HEAD b4 = REQ_HEAD b1"
    using q(1) by (auto simp: b4_def tid_def sreq_def static_req_def inflight_def REQ_HEAD_def fun_eq_iff)
  have "heads_ok b4" using heads_ok_lists [OF i1(2)] t4 by (auto simp: heads_ok_def b4_def)
  moreover have "length (inflight b4) < 65535" using room i1(7) t4(2) by (simp add: live_def)
  ultimately obtain t n where t: "transaction_id_pick env b4 = Some (t, b4\<lparr>db_calls := n\<rparr>)" "t \<noteq> 0xffff" "t \<notin> tid b1 ` set (inflight b1)"
    using transaction_id_pick_ok [OF env] t4 by metis
  have "sreq b1 r = Some (rq_trans_id q, rq_request q, rq_request_len q, rq_request_type q, dq_handle q, dq_probe q)"
    using q(1) by (simp add: sreq_def static_req_def)
  then have two: "2 \<le> length (rq_request q)" using i1(2) unfolding lists_ok_def by blast
  define m where "m = be16 t @ drop 2 (rq_request q)"
  have m: "mem_write (rq_request q) 0 (be16 t) = Some m" "length m = length (rq_request q)"
    using two by (simp_all add: mem_write_def m_def be16_def numeral_2_eq_2)
  define q' where "q' = q\<lparr>dq_ns := ns, rq_trans_id := t, rq_request := m\<rparr>"
  define b7 where "b7 = moved b1 r ws q' n"
  have b7: "client_inv X Y b7" "pumped b1 b7"
    using moved_ok [OF i1(1) w1(1) q(1), of q' s n] t m(2) s i1(9) by (auto simp: b7_def q'_def owner_of_def)
  have i: "REQ_HEAD b1 t < length (db_req_heads b1)" using i1(2) by (simp add: REQ_HEAD_def lists_ok_def)
  have b3: "evdns_request_remove (upd_req b1 r (\<lambda>req. req\<lparr>dq_ns := ns\<rparr>)) r None =
      Some ((upd_req b1 r (\<lambda>req. req\<lparr>dq_ns := ns\<rparr>))\<lparr>db_req_waiting := ws\<rparr>)"
    using q(1) h w1(1) by (simp add: evdns_request_remove_def valid_request_def)
  define b6 where "b6 = upd_req (b4\<lparr>db_calls := n\<rparr>) r (\<lambda>req. req\<lparr>rq_trans_id := t, rq_request := m\<rparr>)"
  have set: "request_trans_id_set (b4\<lparr>db_calls := n\<rparr>) r t = Some b6"
    using q(1) m(1) by (simp add: request_trans_id_set_def b4_def b6_def)
  have ins: "evdns_request_insert b6 r (Some (REQ_HEAD b6 t)) = Some b7"
    using q(1) h i by (auto simp: evdns_request_insert_def valid_request_def b6_def b4_def b7_def moved_def q'_def REQ_HEAD_def upd_req_def)
  have r7: "r \<in> set (inflight b7)"
    using i nth_mem [of "REQ_HEAD b1 t" "db_req_heads b7"] by (auto simp: b7_def moved_def inflight_def q'_def intro!: bexI [of _ "db_req_heads b1 ! REQ_HEAD b1 t @ [r]"] set_update_memI)
  obtain x b8 where b8: "evdns_request_transmit env b7 r = Some (x, b8)" "calm b7 b8" using transmit_ok [OF b7(1) r7] by blast
  note i8 = calm_valid [OF b7(1) b8(2)]
  obtain y b9 where b9: "evdns_transmit env b8 = Some (y, b9)" "calm b8 b9" using evdns_transmit_ok [OF i8(1)] by blast
  note i9 = calm_valid [OF i8(1) b9(2)]
  have wc: "db_requests_waiting b \<noteq> 0" using ok(1) w by (simp add: lists_ok_def)
  have b4': "(upd_req b1 r (\<lambda>req. req\<lparr>dq_ns := ns\<rparr>))\<lparr>db_req_waiting := ws, db_requests_waiting := db_requests_waiting b1 - 1,
      db_requests_inflight := db_requests_inflight b1 + 1\<rparr> = b4" by (simp add: b4_def)
  have "evdns_requests_pump_waiting_queue env b = evdns_requests_pump_waiting_queue env b9"
    using go wc w p(1) s(1) b3 b4' t(1) set ins b8(1) b9(1)
    by (subst evdns_requests_pump_waiting_queue.simps) simp
  moreover have "pumped b b9"
    using pumped_calm [OF p(2)] b7(2) pumped_calm [OF b8(2)] pumped_calm [OF b9(2)] by (blast intro: pumped_trans)
  moreover have "db_req_waiting b9 = ws" using i8(8) i9(8) by (simp add: b7_def moved_def)
  ultimately show ?thesis using i9(1) by blast
qed


text \<open>After pumping, nothing waits that could go: the waiting list is empty, or as many are in flight as allowed, or there is no server.\<close>

definition pump_done :: "evdns_base \<Rightarrow> bool" where
  "pump_done b \<longleftrightarrow> db_req_waiting b = [] \<or> db_max_requests_inflight b \<le> int (length (inflight b)) \<or> db_servers b = []"

lemma pump_ok:
  assumes "env_ok env" "client_inv X Y b" "length (live b) < 65535"
  shows "\<exists>b'. evdns_requests_pump_waiting_queue env b = Some b' \<and> client_inv X Y b' \<and> pumped b b' \<and> pump_done b'"
  using assms(2,3)
proof (induction "length (db_req_waiting b)" arbitrary: b rule: less_induct)
  case less
  have ok: "lists_ok b" "servers_ok b" "assigned b" using less.prems(1) by (simp_all add: client_inv_def)
  have cnt: "db_requests_inflight b = int (length (inflight b))" "db_requests_waiting b = int (length (db_req_waiting b))"
    using ok(1) by (simp_all add: lists_ok_def)
  show ?case
  proof (cases "db_requests_inflight b < db_max_requests_inflight b \<and> db_req_waiting b \<noteq> []")
    case False
    then show ?thesis
      using less.prems cnt by (subst evdns_requests_pump_waiting_queue.simps) (auto simp: pump_done_def)
  next
    case True
    then obtain r ws where w: "db_req_waiting b = r # ws" by (cases "db_req_waiting b") auto
    show ?thesis
    proof (cases "db_servers b = []")
      case False
      obtain b' where b': "evdns_requests_pump_waiting_queue env b = evdns_requests_pump_waiting_queue env b'" "client_inv X Y b'"
          "pumped b b'" "db_req_waiting b' = ws"
        using pump_moves [OF assms(1) less.prems w _ False] True by blast
      have "length (live b') = length (live b)" using b'(3) by (metis pumped_def size_mset)
      then have "\<exists>b2. evdns_requests_pump_waiting_queue env b' = Some b2 \<and> client_inv X Y b2 \<and> pumped b' b2 \<and> pump_done b2"
        using b' less.prems(2) w by (intro less.hyps) auto
      then show ?thesis using b'(1,3) pumped_trans by auto
    next
      case None: True
      let ?b' = "upd_req b r (\<lambda>req. req\<lparr>dq_ns := None\<rparr>)"
      have "calm b ?b'" using ok w by (intro calm_upd_req) (auto simp: static_req_def assigned_def)
      moreover have "evdns_requests_pump_waiting_queue env b = Some ?b'"
        using True None w cnt by (subst evdns_requests_pump_waiting_queue.simps) (simp add: nameserver_pick_def)
      moreover have "pump_done ?b'" using None by (simp add: pump_done_def)
      ultimately show ?thesis using calm_inv [OF less.prems(1)] pumped_calm by blast
    qed
  qed
qed


section \<open>Finishing a request\<close>

definition where_is :: "evdns_base \<Rightarrow> nat \<Rightarrow> nat option" where
  "where_is b r = (if r \<in> set (db_req_waiting b) then None else Some (REQ_HEAD b (tid b r)))"

text \<open>The base after the request has left its list and has been freed, before the waiting list is looked at.\<close>

definition dropped :: "evdns_base \<Rightarrow> nat \<Rightarrow> evdns_base \<Rightarrow> bool" where
  "dropped b r b' \<longleftrightarrow> add_mset r (mset (live b')) = mset (live b) \<and> sprobe b' = sprobe b \<and>
     set (inflight b') = set (inflight b) - {r} \<and> set (db_req_waiting b') = set (db_req_waiting b) - {r} \<and>
     db_requests b' = (db_requests b)(r := None) \<and> db_handles b' = (db_handles b)(hdl b r := map_option (\<lambda>h. h\<lparr>eh_current_req := None\<rparr>) (db_handles b (hdl b r))) \<and>
     db_deferred b' = db_deferred b \<and> db_delivered b' = db_delivered b \<and> db_max_requests_inflight b' = db_max_requests_inflight b \<and>
     db_nameservers b' = db_nameservers b \<and> db_servers b' = db_servers b \<and> db_good_nameservers b' = db_good_nameservers b \<and>
     length (db_req_heads b') = length (db_req_heads b) \<and>
     (\<forall>i < length (db_req_heads b). set (db_req_heads b' ! i) \<subseteq> set (db_req_heads b ! i)) \<and>
     db_requests_inflight b' = int (length (inflight b')) \<and> db_requests_waiting b' = int (length (db_req_waiting b'))"

lemma dropped_inv:
  assumes inv: "client_inv X Y b" and r: "r \<in> set (live b)" "r \<in> X" and d: "dropped b r b'"
    and pr: "\<And>s. s \<notin> Y \<Longrightarrow> sprobe b s = Some (Some (hdl b r)) \<Longrightarrow> probe_answered b (hdl b r) s"
  shows "client_inv (X - {r}) Y b'"
proof -
  have ok: "lists_ok b" "handles_ok X b" "deferred_ok X b" "probes_ok Y b" "servers_ok b" "assigned b" using inv by (simp_all add: client_inv_def)
  have ml: "add_mset r (mset (live b')) = mset (live b)" and sp: "sprobe b' = sprobe b"
    and si: "set (inflight b') = set (inflight b) - {r}" "set (db_req_waiting b') = set (db_req_waiting b) - {r}"
    and rq: "db_requests b' = (db_requests b)(r := None)"
    and hs: "db_handles b' = (db_handles b)(hdl b r := map_option (\<lambda>h. h\<lparr>eh_current_req := None\<rparr>) (db_handles b (hdl b r)))"
    and df: "db_deferred b' = db_deferred b" and sv: "db_nameservers b' = db_nameservers b" "db_servers b' = db_servers b"
      "db_good_nameservers b' = db_good_nameservers b"
    and hd: "length (db_req_heads b') = length (db_req_heads b)" "\<forall>i < length (db_req_heads b). set (db_req_heads b' ! i) \<subseteq> set (db_req_heads b ! i)"
    and cnt: "db_requests_inflight b' = int (length (inflight b'))" "db_requests_waiting b' = int (length (db_req_waiting b'))"
    using d unfolding dropped_def by blast+
  have dist: "distinct (r # live b')"
    using ok(1) mset_eq_imp_distinct_iff [of "r # live b'" "live b"] ml by (simp add: lists_ok_def)
  have sl: "set (live b') = set (live b) - {r}" using arg_cong [OF ml, of set_mset] dist by auto
  have ow: "owner b' = (owner b)(r := None)" by (simp add: owner_def rq fun_eq_iff)
  have same: "x \<noteq> r \<Longrightarrow> hdl b' x = hdl b x \<and> tid b' x = tid b x \<and> sreq b' x = sreq b x" for x
    by (simp add: hdl_def ow tid_def sreq_def rq)
  have rh: "REQ_HEAD b' = REQ_HEAD b" by (simp add: REQ_HEAD_def hd fun_eq_iff)
  have rin: "r \<notin> set (db_req_heads b' ! j)" if "j < length (db_req_heads b')" for j
    using that dist nth_mem [of j "db_req_heads b'"] by (auto simp: live_def inflight_def)
  have "\<forall>j < length (db_req_heads b'). \<forall>x \<in> set (db_req_heads b' ! j). REQ_HEAD b' (tid b' x) = j \<and> tid b' x \<noteq> 0xffff"
  proof (intro allI impI ballI)
    fix j x
    assume j: "j < length (db_req_heads b')" "x \<in> set (db_req_heads b' ! j)"
    then have "x \<noteq> r" "x \<in> set (db_req_heads b ! j)" "j < length (db_req_heads b)" using rin hd by auto
    then show "REQ_HEAD b' (tid b' x) = j \<and> tid b' x \<noteq> 0xffff" using ok(1) same rh by (simp add: lists_ok_def)
  qed
  moreover have "inj_on (tid b') (set (inflight b'))"
  proof -
    have "inj_on (tid b) (set (inflight b) - {r})" using ok(1) by (auto simp: lists_ok_def intro: inj_on_subset)
    then show ?thesis using same by (subst si, subst inj_on_cong [of _ _ "tid b"]) auto
  qed
  moreover have "(x \<in> set (live b')) = (sreq b' x \<noteq> None)" for x
    using ok(1) sl by (cases "x = r") (auto simp: lists_ok_def same, auto simp: sreq_def rq)
  moreover have "2 \<le> length m \<and> dns_type y" if "sreq b' x = Some (t', m, l, y, h, p)" for x t' m l y h p
  proof -
    have "x \<noteq> r" using that by (auto simp: sreq_def rq)
    then have "sreq b x = Some (t', m, l, y, h, p)" using that same by simp
    then show ?thesis using ok(1) unfolding lists_ok_def by blast
  qed
  moreover have "db_req_heads b' \<noteq> []" using hd(1) ok(1) by (auto simp: lists_ok_def)
  ultimately have "lists_ok b'" using dist cnt unfolding lists_ok_def by (auto simp: sreq_def)
  moreover have "handles_ok (X - {r}) b'"
    unfolding handles_ok_def
  proof (intro conjI ballI allI impI)
    fix x
    assume x: "x \<in> set (live b')"
    then have x': "x \<in> set (live b)" "x \<noteq> r" using sl by auto
    obtain h where h: "db_handles b (hdl b x) = Some h" "eh_current_req h = Some x" "eh_pending_cb h \<longleftrightarrow> x \<in> X"
      using ok(2) x'(1) unfolding handles_ok_def by blast
    obtain hr where "db_handles b (hdl b r) = Some hr" "eh_current_req hr = Some r" using ok(2) r(1) unfolding handles_ok_def by blast
    then have "hdl b x \<noteq> hdl b r" using h x'(2) by auto
    then show "\<exists>h. db_handles b' (hdl b' x) = Some h \<and> eh_current_req h = Some x \<and> (eh_pending_cb h \<longleftrightarrow> x \<in> X - {r})"
      using h x'(2) same by (simp add: hs)
  next
    fix a h x
    assume "db_handles b' a = Some h" "eh_current_req h = Some x"
    then have a: "a \<noteq> hdl b r" "db_handles b a = Some h" "eh_current_req h = Some x" by (auto simp: hs split: if_splits)
    then have "x \<in> set (live b)" "hdl b x = a" using ok(2) unfolding handles_ok_def by blast+
    then show "x \<in> set (live b')" "hdl b' x = a" using a(1) sl same by auto
  qed
  moreover have "deferred_ok (X - {r}) b'"
    unfolding deferred_ok_def df
  proof (intro conjI ballI)
    show "distinct (map rc_handle (db_deferred b))" using ok(3) by (simp add: deferred_ok_def)
    show "dns_type (rc_type cb)" if "cb \<in> set (db_deferred b)" for cb using ok(3) that by (simp add: deferred_ok_def)
    fix cb
    assume "cb \<in> set (db_deferred b)"
    then obtain h where h: "db_handles b (rc_handle cb) = Some h" "eh_pending_cb h" "\<forall>x. eh_current_req h = Some x \<longrightarrow> x \<in> X"
      using ok(3) by (auto simp: deferred_ok_def)
    show "\<exists>h. db_handles b' (rc_handle cb) = Some h \<and> eh_pending_cb h \<and> 
      (\<forall>x. eh_current_req h = Some x \<longrightarrow> x \<in> X - {r})"
    proof (cases "rc_handle cb = hdl b r")
      case True
      then show ?thesis using h by (simp add: hs)
    next
      case False
      then have "eh_current_req h \<noteq> Some r" using h(1) ok(2) unfolding handles_ok_def by metis
      then show ?thesis using h False same by (auto simp: hs)
    qed
  qed
  moreover have "probes_ok Y b'"
    unfolding probes_ok_def
  proof (intro conjI allI impI ballI)
    fix s h
    assume s: "s \<notin> Y" "sprobe b' s = Some (Some h)"
    then consider x where "x \<in> set (live b)" "owner b x = Some (h, Some s)" | "probe_answered b h s"
      using ok(4) unfolding probes_ok_def sp by blast
    then show "(\<exists>x \<in> set (live b'). owner b' x = Some (h, Some s)) \<or> probe_answered b' h s"
    proof cases
      case 1
      show ?thesis
      proof (cases "x = r")
        case True
        then have "hdl b r = h" using 1 by (simp add: hdl_def)
        then show ?thesis using pr [OF s(1)] s(2) by (simp add: sp probe_answered_def df)
      qed (use 1 sl in \<open>auto simp: ow\<close>)
    qed (simp add: probe_answered_def df)
  next
    fix x h s
    assume "owner b' x = Some (h, Some s)"
    then show "sprobe b' s \<noteq> None" using ok(4) unfolding sp ow probes_ok_def by (auto split: if_splits)
  next
    fix cb s
    assume "cb \<in> set (db_deferred b')" "rc_probe cb = Some s"
    then show "sprobe b' s \<noteq> None" using ok(4) unfolding sp df probes_ok_def by blast
  qed
  moreover have "servers_ok b'" using ok(5) by (simp add: servers_ok_def sv good_ns_def)
  moreover have "assigned b'" using ok(6) dist by (auto simp: assigned_def si sv rq)
  ultimately show ?thesis by (simp add: client_inv_def)
qed


lemma request_finished_eq:
  assumes inv: "client_inv X Y b" and r: "r \<in> set (live b)" "r \<in> X"
  shows "\<exists>b1. request_finished env b r (where_is b r) True = evdns_requests_pump_waiting_queue env b1 \<and> dropped b r b1"
proof -
  have ok: "lists_ok b" "handles_ok X b" using inv by (simp_all add: client_inv_def)
  obtain q where q: "db_requests b r = Some q" "valid_request b r = Some q" by (rule valid_request_ok [OF ok r(1)])
  have hq: "hdl b r = dq_handle q" using q(1) by (simp add: hdl_def owner_def)
  obtain h where h: "db_handles b (dq_handle q) = Some h" "eh_current_req h = Some r" "eh_pending_cb h"
    using live_handle [OF ok(2) r(1)] r(2) hq by metis
  have dist: "distinct (live b)" and cnt: "db_requests_inflight b = int (length (inflight b))" "db_requests_waiting b = int (length (db_req_waiting b))"
    using ok(1) by (simp_all add: lists_ok_def)
  show ?thesis
  proof (cases "r \<in> set (db_req_waiting b)")
    case True
    define b1 where "b1 = b\<lparr>db_req_waiting := remove1 r (db_req_waiting b), db_requests_waiting := db_requests_waiting b - 1,
      db_handles := (db_handles b)(dq_handle q \<mapsto> h\<lparr>eh_current_req := None\<rparr>), db_requests := (db_requests b)(r := None)\<rparr>"
    have "request_finished env b r (where_is b r) True = evdns_requests_pump_waiting_queue env b1"
      using True q h by (simp add: request_finished_def where_is_def evdns_request_remove_def Let_def upd_handle_def b1_def)
    moreover have "int (length (db_req_waiting b)) - 1 = int (length (remove1 r (db_req_waiting b)))"
      using True length_pos_if_in_set [OF True] by (simp add: length_remove1 of_nat_diff Suc_leI)
    then have "dropped b r b1"
      using True dist cnt h(1) hq by (auto simp: dropped_def b1_def live_def inflight_def sprobe_def fun_eq_iff)
    ultimately show ?thesis by blast
  next
    case False
    then have "r \<in> set (inflight b)" using r(1) by (simp add: live_def)
    define i where "i = REQ_HEAD b (tid b r)"
    have i: "i < length (db_req_heads b)" "r \<in> set (db_req_heads b ! i)"
      using inflight_tid [OF ok(1) \<open>r \<in> set (inflight b)\<close>] by (simp_all add: i_def)
    define b1 where "b1 = b\<lparr>db_req_heads := (db_req_heads b)[i := remove1 r (db_req_heads b ! i)], db_requests_inflight := db_requests_inflight b - 1,
      db_handles := (db_handles b)(dq_handle q \<mapsto> h\<lparr>eh_current_req := None\<rparr>), db_requests := (db_requests b)(r := None)\<rparr>"
    have "request_finished env b r (where_is b r) True = evdns_requests_pump_waiting_queue env b1"
      using False q h i by (simp add: request_finished_def where_is_def i_def [symmetric] evdns_request_remove_def Let_def upd_handle_def upd_req_def b1_def)
    moreover have "dropped b r b1"
    proof -
      have mi: "add_mset r (mset (inflight b1)) = mset (inflight b)" unfolding inflight_def b1_def using mset_concat_remove [OF i] by simp
      have "distinct (inflight b)" using dist by (simp add: live_def)
      then have "distinct (r # inflight b1)" using mset_eq_imp_distinct_iff [of "r # inflight b1" "inflight b"] mi by simp
      then have "set (inflight b1) = set (inflight b) - {r}" using arg_cong [OF mi, of set_mset] by auto
      moreover have "set (remove1 r (db_req_heads b ! i)) \<subseteq> set (db_req_heads b ! i)" by (rule set_remove1_subset)
      then have "\<forall>j < length (db_req_heads b). set (db_req_heads b1 ! j) \<subseteq> set (db_req_heads b ! j)"
        using i(1) unfolding b1_def by (simp add: nth_list_update)
      moreover have "sprobe b1 = sprobe b" by (simp add: sprobe_def b1_def fun_eq_iff)
      moreover have "mset (live b) = add_mset r (mset (live b1))" using mi [symmetric] by (simp add: live_def b1_def)
      moreover have "db_requests_inflight b1 = int (length (inflight b1))" using arg_cong [OF mi, of size] cnt by (simp add: b1_def)
      ultimately show ?thesis using cnt(2) h(1) hq False by (auto simp: dropped_def) (auto simp: b1_def)
    qed
    ultimately show ?thesis by blast
  qed
qed


text \<open>The effect of an operation on the requests: \<open>gone\<close> leave the lists, the others keep their handles.\<close>

definition settled :: "nat set \<Rightarrow> evdns_base \<Rightarrow> evdns_base \<Rightarrow> bool" where
  "settled gone b b' \<longleftrightarrow> set (live b') = set (live b) - gone \<and> (\<forall>x \<in> set (live b'). owner b' x = owner b x) \<and>
     db_max_requests_inflight b' = db_max_requests_inflight b \<and> set (db_servers b') = set (db_servers b) \<and>
     length (db_req_heads b') = length (db_req_heads b) \<and>
     (\<forall>x \<in> set (inflight b) - gone. x \<in> set (inflight b') \<and> tid b' x = tid b x) \<and> dom (db_nameservers b') = dom (db_nameservers b)"

lemma request_finished_ok:
  assumes env: "env_ok env" and inv: "client_inv X Y b" and r: "r \<in> set (live b)" "r \<in> X" and room: "length (live b) \<le> 65535"
    and pr: "\<And>s. s \<notin> Y \<Longrightarrow> sprobe b s = Some (Some (hdl b r)) \<Longrightarrow> probe_answered b (hdl b r) s"
  shows "\<exists>b'. request_finished env b r (where_is b r) True = Some b' \<and> client_inv (X - {r}) Y b' \<and> settled {r} b b' \<and> pump_done b' \<and>
    db_deferred b' = db_deferred b \<and> db_delivered b' = db_delivered b \<and> sprobe b' = sprobe b \<and>
    (\<forall>h. h \<noteq> hdl b r \<longrightarrow> db_handles b' h = db_handles b h) \<and> no_better b b'"
proof -
  obtain b1 where b1: "request_finished env b r (where_is b r) True = evdns_requests_pump_waiting_queue env b1" "dropped b r b1"
    using request_finished_eq [OF inv r] by blast
  have i1: "client_inv (X - {r}) Y b1" by (rule dropped_inv [OF inv r b1(2) pr])
  have ml: "add_mset r (mset (live b1)) = mset (live b)" using b1(2) by (simp add: dropped_def)
  have "length (live b1) < 65535" using arg_cong [OF ml, of size] room by simp
  then obtain b' where b': "evdns_requests_pump_waiting_queue env b1 = Some b'" "client_inv (X - {r}) Y b'" "pumped b1 b'" "pump_done b'"
    using pump_ok [OF env i1] by blast
  have d1: "set (inflight b1) = set (inflight b) - {r}" "set (db_req_waiting b1) = set (db_req_waiting b) - {r}"
    "db_requests b1 = (db_requests b)(r := None)"
    "db_max_requests_inflight b1 = db_max_requests_inflight b" "db_servers b1 = db_servers b" "length (db_req_heads b1) = length (db_req_heads b)"
    "db_deferred b1 = db_deferred b" "db_delivered b1 = db_delivered b" "sprobe b1 = sprobe b"
    "db_handles b1 = (db_handles b)(hdl b r := map_option (\<lambda>h. h\<lparr>eh_current_req := None\<rparr>) (db_handles b (hdl b r)))"
    using b1(2) unfolding dropped_def by blast+
  have "set (live b') = set (live b1)" using b'(3) by (metis pumped_def set_mset_mset)
  moreover have "set (live b1) = set (live b) - {r}" using d1(1,2) by (auto simp: live_def)
  moreover have "owner b1 x = owner b x \<and> tid b1 x = tid b x" if "x \<noteq> r" for x using that by (simp add: owner_def tid_def sreq_def d1)
  moreover have "dom (db_nameservers b') = dom (db_nameservers b)"
    using b'(2,3) inv d1(5) by (auto simp: client_inv_def servers_ok_def pumped_def)
  ultimately have "settled {r} b b'"
    using b'(3) d1 by (auto simp: settled_def pumped_def)
  moreover have "no_better b b1" by (rule no_better_same) (use b1(2) in \<open>simp add: good_ns_def dropped_def fun_eq_iff\<close>)
  then have "no_better b b'" using b'(3) by (auto simp: pumped_def intro: no_better_trans)
  ultimately show ?thesis using b1(1) b' d1 by (auto simp: pumped_def)
qed

end
