(* ===== verification/Dns_Client_Steps.thy ===== *)
theory Dns_Client_Steps
  imports Dns_Client_Ops
begin

text \<open>
  Scheduling callbacks, cancelling, name servers coming up, answers, timeouts and new requests of the DNS client.
\<close>

section \<open>Callbacks that are owed\<close>

text \<open>
  The callbacks that have still to run, each as its handle with the server it probes: those of live requests and the
  scheduled ones.
\<close>

definition rc_owner :: "reply_callback \<Rightarrow> nat \<times> nat option" where
  "rc_owner cb = (rc_handle cb, rc_probe cb)"

definition owed :: "evdns_base \<Rightarrow> (nat \<times> nat option) set" where
  "owed b = {p. \<exists>r \<in> set (live b). owner b r = Some p} \<union> rc_owner ` set (db_deferred b)"

definition callback_for :: "evdns_base \<Rightarrow> nat \<Rightarrow> 32 word \<Rightarrow> int \<Rightarrow> reply option \<Rightarrow> reply_callback" where
  "callback_for b r ttl err reply = (case db_requests b r of Some q \<Rightarrow>
     \<lparr>rc_handle = dq_handle q, rc_type = rq_request_type q, rc_ttl = ttl, rc_err = err, rc_reply = reply, rc_probe = dq_probe q\<rparr>)"

lemma pending_deferred:
  assumes "client_inv X Y b" "cb \<in> set (db_deferred b)" "r \<in> set (live b)" "rc_handle cb = hdl b r"
  shows "r \<in> X"
proof -
  have ok: "handles_ok X b" "deferred_ok X b" using assms(1) by (simp_all add: client_inv_def)
  obtain h where "db_handles b (hdl b r) = Some h" "eh_pending_cb h \<longleftrightarrow> r \<in> X" using live_handle [OF ok(1) assms(3)] by metis
  moreover obtain h' where "db_handles b (rc_handle cb) = Some h'" "eh_pending_cb h'" using ok(2) assms(2) unfolding deferred_ok_def by blast
  ultimately show ?thesis using assms(4) by simp
qed

lemma hdl_inj: "handles_ok X b \<Longrightarrow> x \<in> set (live b) \<Longrightarrow> y \<in> set (live b) \<Longrightarrow> hdl b x = hdl b y \<Longrightarrow> x = y"
  by (metis live_handle option.inject)

lemma schedule_ok:
  assumes env: "env_ok env" and inv: "client_inv X Y b" and r: "r \<in> set (live b)" "r \<notin> X"
  shows "\<exists>b'. reply_schedule_callback env b r ttl err reply = Some b' \<and> client_inv (insert r X) Y b' \<and> settled {} b b' \<and>
    db_deferred b' = db_deferred b @ [callback_for b r ttl err reply] \<and> db_delivered b' = db_delivered b \<and> sprobe b' = sprobe b \<and>
    db_requests b' = db_requests b \<and> db_req_waiting b' = db_req_waiting b \<and> db_req_heads b' = db_req_heads b \<and> db_nameservers b' = db_nameservers b"
proof -
  have ok: "lists_ok b" "handles_ok X b" "deferred_ok X b" "probes_ok Y b" "servers_ok b" "assigned b" using inv by (simp_all add: client_inv_def)
  obtain q where q: "db_requests b r = Some q" using live_requests(1) [OF ok(1) r(1)] by blast
  have hq: "hdl b r = dq_handle q" using q by (simp add: hdl_def owner_def)
  obtain h where h: "db_handles b (dq_handle q) = Some h" "eh_current_req h = Some r" "\<not> eh_pending_cb h"
    using live_handle [OF ok(2) r(1)] hq r(2) by metis
  let ?cb = "callback_for b r ttl err reply"
  have cb: "rc_handle ?cb = dq_handle q" "rc_probe ?cb = dq_probe q" "rc_type ?cb = rq_request_type q" using q by (simp_all add: callback_for_def)
  define b' where "b' = (upd_handle (tick b) (dq_handle q) (\<lambda>h. h\<lparr>eh_pending_cb := True\<rparr>))\<lparr>db_deferred := db_deferred b @ [?cb]\<rparr>"
  have run: "reply_schedule_callback env b r ttl err reply = Some b'"
    using env q h by (simp add: reply_schedule_callback_def env_ok_def b'_def callback_for_def)
  have f: "db_requests b' = db_requests b" "db_req_waiting b' = db_req_waiting b" "db_req_heads b' = db_req_heads b"
    "db_nameservers b' = db_nameservers b" "db_deferred b' = db_deferred b @ [?cb]" "db_servers b' = db_servers b"
    "db_handles b' = (db_handles b)(dq_handle q \<mapsto> h\<lparr>eh_pending_cb := True\<rparr>)" "db_good_nameservers b' = db_good_nameservers b"
    "db_requests_inflight b' = db_requests_inflight b" "db_requests_waiting b' = db_requests_waiting b" "db_delivered b' = db_delivered b"
    "db_max_requests_inflight b' = db_max_requests_inflight b"
    using h(1) by (simp_all add: b'_def)
  have s: "inflight b' = inflight b" "live b' = live b" "sreq b' = sreq b" "owner b' = owner b" "tid b' = tid b" "hdl b' = hdl b" "sprobe b' = sprobe b"
    "REQ_HEAD b' = REQ_HEAD b"
    by (simp_all add: inflight_def live_def sreq_def owner_def tid_def hdl_def sprobe_def REQ_HEAD_def f fun_eq_iff)
  have "lists_ok b'" using ok(1) by (simp add: lists_ok_def s f)
  moreover have "handles_ok (insert r X) b'"
    unfolding handles_ok_def s
  proof (intro conjI ballI allI impI)
    fix x
    assume x: "x \<in> set (live b)"
    show "\<exists>h. db_handles b' (hdl b x) = Some h \<and> eh_current_req h = Some x \<and> (eh_pending_cb h \<longleftrightarrow> x \<in> insert r X)"
    proof (cases "x = r")
      case True
      then show ?thesis using h hq by (simp add: f)
    next
      case False
      then have "hdl b x \<noteq> dq_handle q" using hdl_inj [OF ok(2) x r(1)] hq by auto
      then show ?thesis using live_handle [OF ok(2) x] False by (metis f(7) fun_upd_other insert_iff)
    qed
  next
    fix a ha x
    assume "db_handles b' a = Some ha" "eh_current_req ha = Some x"
    then obtain ha' where "db_handles b a = Some ha'" "eh_current_req ha' = Some x" using h by (auto simp: f split: if_splits)
    then show "x \<in> set (live b)" "hdl b x = a" using handle_live [OF ok(2)] by auto
  qed
  moreover have "deferred_ok (insert r X) b'"
  proof -
    have "dq_handle q \<notin> rc_handle ` set (db_deferred b)" using pending_deferred [OF inv _ r(1)] r(2) hq by (metis imageE)
    moreover have "sreq b r = Some (rq_trans_id q, rq_request q, rq_request_len q, rq_request_type q, dq_handle q, dq_probe q)"
      using q by (simp add: sreq_def static_req_def)
    then have "dns_type (rq_request_type q)" using ok(1) unfolding lists_ok_def by blast
    ultimately show ?thesis using ok(3) h cb(1,3) by (auto simp: deferred_ok_def f)
  qed
  moreover have "probes_ok Y b'"
    using ok(4) q unfolding probes_ok_def probe_answered_def s f
    by (auto simp: cb owner_def) blast+
  moreover have "servers_ok b'" "assigned b'" using ok(5,6) by (simp_all add: servers_ok_def assigned_def f s good_ns_def)
  ultimately have "client_inv (insert r X) Y b'" by (simp add: client_inv_def)
  moreover have "settled {} b b'" by (simp add: settled_def s f)
  ultimately show ?thesis using run f s by auto
qed


lemma where_is_inflight:
  "lists_ok b \<Longrightarrow> r \<in> set (inflight b) \<Longrightarrow> where_is b r = Some (REQ_HEAD b (tid b r))"
  using live_requests(2) [of b r] by (simp add: where_is_def)

lemma tid_eq: "db_requests b r = Some q \<Longrightarrow> tid b r = rq_trans_id q"
  by (simp add: tid_def sreq_def static_req_def)

lemma callback_for_handle: "db_requests b r = Some q \<Longrightarrow> rc_handle (callback_for b r ttl err reply) = hdl b r"
  by (simp add: callback_for_def hdl_def owner_def)

text \<open>Scheduling the callback and finishing the request, in whichever list it is. \<open>G\<close> are the requests that are gone.\<close>

definition keeps :: "nat set \<Rightarrow> evdns_base \<Rightarrow> evdns_base \<Rightarrow> bool" where
  "keeps G b b' \<longleftrightarrow> settled G b b' \<and> owed b' = owed b \<and> db_delivered b' = db_delivered b \<and> length (live b') \<le> length (live b) \<and>
     set (db_deferred b) \<subseteq> set (db_deferred b')"

lemma settled_trans: "settled G a b \<Longrightarrow> settled H b c \<Longrightarrow> settled (G \<union> H) a c"
  by (auto simp: settled_def)

lemma keeps_trans: "keeps G a b \<Longrightarrow> keeps H b c \<Longrightarrow> keeps (G \<union> H) a c"
  by (auto simp: keeps_def intro: settled_trans)

lemma quiet_owner: "quiet b b' \<Longrightarrow> owner b' = owner b"
  by (simp add: quiet_def owner_sreq fun_eq_iff)

lemma sprobe_dom: "dom (sprobe b) = dom (db_nameservers b)"
  by (auto simp: sprobe_def)

lemma keeps_quiet: "quiet b b' \<Longrightarrow> keeps {} b b'"
  using quiet_eqs(1-4) [of b b'] quiet_owner [of b b'] by (auto simp: keeps_def settled_def quiet_def owed_def simp flip: sprobe_dom)

lemma keeps_calm: "calm b b' \<Longrightarrow> keeps {} b b'"
  by (simp add: calm_def keeps_quiet)

lemma keeps_refl [simp]: "keeps {} b b"
  by (simp add: keeps_quiet)

lemma scheduled_finished_ok:
  assumes env: "env_ok env" and inv: "client_inv X Y b" and r: "r \<in> set (live b)" "r \<in> X" and room: "length (live b) \<le> 65535"
    and cb: "cb \<in> set (db_deferred b)" "owner b r = Some (rc_owner cb)"
    and pr: "\<And>s. s \<notin> Y \<Longrightarrow> sprobe b s = Some (Some (hdl b r)) \<Longrightarrow> probe_answered b (hdl b r) s"
  shows "\<exists>b'. request_finished env b r (where_is b r) True = Some b' \<and> client_inv (X - {r}) Y b' \<and> keeps {r} b b' \<and> pump_done b' \<and>
    db_deferred b' = db_deferred b \<and> sprobe b' = sprobe b \<and> no_better b b'"
proof -
  obtain b' where b': "request_finished env b r (where_is b r) True = Some b'" "client_inv (X - {r}) Y b'" "settled {r} b b'" "pump_done b'"
      "db_deferred b' = db_deferred b" "db_delivered b' = db_delivered b" "sprobe b' = sprobe b" "no_better b b'"
    using request_finished_ok [OF env inv r room pr] by blast
  have sl: "set (live b') = set (live b) - {r}" "\<forall>x \<in> set (live b'). owner b' x = owner b x" using b'(3) by (auto simp: settled_def)
  have "{p. \<exists>x \<in> set (live b'). owner b' x = Some p} = {p. \<exists>x \<in> set (live b) - {r}. owner b x = Some p}" using sl by auto
  moreover have "{p. \<exists>x \<in> set (live b). owner b x = Some p} = insert (rc_owner cb) {p. \<exists>x \<in> set (live b) - {r}. owner b x = Some p}"
    using r(1) cb(2) by auto
  moreover have "rc_owner cb \<in> rc_owner ` set (db_deferred b)" using cb(1) by (rule imageI)
  ultimately have "owed b' = owed b" using b'(5) by (auto simp: owed_def)
  moreover have "length (live b') \<le> length (live b)"
  proof -
    have "distinct (live b')" "distinct (live b)" using b'(2) inv by (simp_all add: client_inv_def lists_ok_def)
    moreover have "card (set (live b')) \<le> card (set (live b))" using sl(1) by (intro card_mono) auto
    ultimately show ?thesis by (simp only: distinct_card)
  qed
  ultimately show ?thesis using b' by (auto simp: keeps_def)
qed

lemma answered:
  assumes inv: "client_inv X Y b" and r: "r \<in> set (live b)" "owner b r = Some (hdl b r, rc_probe cb)"
    and cb: "cb \<in> set (db_deferred b)" "rc_handle cb = hdl b r" "rc_reply cb \<noteq> None \<or> rc_err cb \<noteq> DNS_ERR_CANCEL"
    and s: "s \<notin> Y" "sprobe b s = Some (Some (hdl b r))"
  shows "probe_answered b (hdl b r) s"
proof -
  consider x where "x \<in> set (live b)" "owner b x = Some (hdl b r, Some s)" | "probe_answered b (hdl b r) s"
    using inv s unfolding client_inv_def probes_ok_def by blast
  then show ?thesis
  proof cases
    case 1
    then have "hdl b x = hdl b r" by (simp add: hdl_def)
    then have "x = r" using hdl_inj [of X b] 1(1) r(1) inv by (auto simp: client_inv_def)
    then have "rc_probe cb = Some s" using 1(2) r(2) by simp
    then show ?thesis using cb by (auto simp: probe_answered_def)
  qed
qed

lemma schedule_finish_ok:
  assumes env: "env_ok env" and inv: "client_inv X Y b" and r: "r \<in> set (live b)" "r \<notin> X" and room: "length (live b) \<le> 65535"
    and ok: "\<And>s. s \<notin> Y \<Longrightarrow> sprobe b s = Some (Some (hdl b r)) \<Longrightarrow> reply \<noteq> None \<or> err \<noteq> DNS_ERR_CANCEL"
  shows "\<exists>b1 b'. reply_schedule_callback env b r ttl err reply = Some b1 \<and> db_requests b1 = db_requests b \<and> db_req_heads b1 = db_req_heads b \<and>
    request_finished env b1 r (where_is b r) True = Some b' \<and> client_inv X Y b' \<and> keeps {r} b b' \<and> pump_done b' \<and>
    db_deferred b' = db_deferred b @ [callback_for b r ttl err reply] \<and> sprobe b' = sprobe b \<and> no_better b b'"
proof -
  obtain q where q: "db_requests b r = Some q" using live_requests(1) [of b r] inv r(1) by (auto simp: client_inv_def)
  let ?cb = "callback_for b r ttl err reply"
  obtain b1 where b1: "reply_schedule_callback env b r ttl err reply = Some b1" "client_inv (insert r X) Y b1" "settled {} b b1"
      "db_deferred b1 = db_deferred b @ [?cb]" "db_delivered b1 = db_delivered b" "sprobe b1 = sprobe b"
      "db_requests b1 = db_requests b" "db_req_waiting b1 = db_req_waiting b" "db_req_heads b1 = db_req_heads b"
      "db_nameservers b1 = db_nameservers b"
    using schedule_ok [OF env inv r] by metis
  have e: "live b1 = live b" "hdl b1 = hdl b" "where_is b1 r = where_is b r" "owner b1 = owner b"
    by (simp_all add: live_def inflight_def hdl_def owner_def where_is_def REQ_HEAD_def tid_def sreq_def b1 fun_eq_iff)
  have "owner b1 r = Some (hdl b1 r, rc_probe ?cb)" "rc_handle ?cb = hdl b1 r"
    using q e by (simp_all add: owner_def hdl_def callback_for_def)
  moreover then have ow: "owner b1 r = Some (rc_owner ?cb)" by (simp add: rc_owner_def)
  moreover have "rc_reply ?cb \<noteq> None \<or> rc_err ?cb \<noteq> DNS_ERR_CANCEL" if "s \<notin> Y" "sprobe b1 s = Some (Some (hdl b1 r))" for s
    using ok [OF that(1)] that(2) q e b1(6) by (simp add: callback_for_def)
  ultimately have "probe_answered b1 (hdl b1 r) s" if "s \<notin> Y" "sprobe b1 s = Some (Some (hdl b1 r))" for s
    using answered [OF b1(2), of r ?cb s] that r(1) e b1(4) by auto
  then obtain b' where b': "request_finished env b1 r (where_is b1 r) True = Some b'" "client_inv (insert r X - {r}) Y b'" "keeps {r} b1 b'"
      "pump_done b'" "db_deferred b' = db_deferred b1" "sprobe b' = sprobe b1" "no_better b1 b'"
    using scheduled_finished_ok [OF env b1(2) _ _ _ _ _, of r ?cb] r(1) room e b1(4) ow by auto
  have "insert r X - {r} = X" using r(2) by auto
  moreover have "keeps {} b b1"
    using b1 e r(1) ow by (auto simp: keeps_def owed_def)
  then have "keeps {r} b b'" using keeps_trans [OF _ b'(3)] by fastforce
  moreover have "no_better b b'" using b'(7) b1(10) by (simp add: no_better_def good_ns_def)
  ultimately show ?thesis using b1 b' e(3) by auto
qed

lemma finish_inflight_ok:
  assumes env: "env_ok env" and inv: "client_inv X Y b" and r: "r \<in> set (inflight b)" "r \<notin> X" and room: "length (live b) \<le> 65535"
    and err: "reply \<noteq> None \<or> err \<noteq> DNS_ERR_CANCEL"
  shows "\<exists>b'. finish_inflight env b r ttl err reply = Some b' \<and> client_inv X Y b' \<and> keeps {r} b b' \<and> pump_done b' \<and>
    db_deferred b' = db_deferred b @ [callback_for b r ttl err reply] \<and> sprobe b' = sprobe b"
proof -
  have rl: "r \<in> set (live b)" using r(1) by (simp add: live_def)
  have ok: "lists_ok b" using inv by (simp add: client_inv_def)
  obtain q where q: "db_requests b r = Some q" using live_requests(1) [OF ok rl] by blast
  obtain b1 b' where b: "reply_schedule_callback env b r ttl err reply = Some b1" "db_requests b1 = db_requests b" "db_req_heads b1 = db_req_heads b"
    "request_finished env b1 r (where_is b r) True = Some b'" "client_inv X Y b'" "keeps {r} b b'" "pump_done b'"
    "db_deferred b' = db_deferred b @ [callback_for b r ttl err reply]" "sprobe b' = sprobe b"
    using schedule_finish_ok [OF env inv rl r(2) room, of reply err ttl] err by blast
  have "where_is b r = Some (REQ_HEAD b1 (rq_trans_id q))"
    using where_is_inflight [OF ok r(1)] tid_eq [OF q] b(3) by (simp add: REQ_HEAD_def)
  then show ?thesis using b q by (simp add: finish_inflight_def)
qed


section \<open>Cancelling and servers coming up\<close>

lemma where_is_ns:
  assumes "client_inv X Y b" "r \<in> set (live b)" "db_requests b r = Some q"
  shows "where_is b r = (if dq_ns q \<noteq> None then Some (REQ_HEAD b (rq_trans_id q)) else None)"
proof -
  have ok: "lists_ok b" "assigned b" using assms(1) by (simp_all add: client_inv_def)
  show ?thesis
  proof (cases "r \<in> set (db_req_waiting b)")
    case True
    then show ?thesis using ok(2) assms(3) unfolding assigned_def by (auto simp: where_is_def)
  next
    case False
    then have i: "r \<in> set (inflight b)" using assms(2) by (simp add: live_def)
    then have "dq_ns q \<noteq> None" using ok(2) assms(3) unfolding assigned_def by blast
    then show ?thesis using where_is_inflight [OF ok(1) i] tid_eq [OF assms(3)] by simp
  qed
qed

text \<open>\<open>G\<close> is the request that is cancelled, if there is one.\<close>

lemma cancel_ok:
  assumes env: "env_ok env" and inv: "client_inv X Y b" and room: "length (live b) \<le> 65535" and h: "db_handles b h = Some hh"
    and free: "\<And>s. s \<notin> Y \<Longrightarrow> sprobe b s \<noteq> Some (Some h)"
  shows "\<exists>G b'. evdns_cancel_request env b h = Some b' \<and> client_inv X Y b' \<and> keeps G b b' \<and> sprobe b' = sprobe b \<and> no_better b b' \<and>
    (\<forall>x \<in> G. hdl b x = h \<and> x \<notin> X)"
proof -
  have ok: "lists_ok b" "handles_ok X b" "servers_ok b" "assigned b" using inv by (simp_all add: client_inv_def)
  show ?thesis
  proof (cases "eh_current_req hh = None \<or> eh_pending_cb hh")
    case True
    then have "evdns_cancel_request env b h = Some b" using h by (auto simp: evdns_cancel_request_def split: option.splits)
    moreover have "calm b b" using ok by (simp add: calm_def)
    ultimately show ?thesis using inv keeps_calm [of b b] by (intro exI [of _ "{}"] exI [of _ b]) auto
  next
    case False
    then obtain r where r: "eh_current_req hh = Some r" "\<not> eh_pending_cb hh" by auto
    have rl: "r \<in> set (live b)" "hdl b r = h" using handle_live [OF ok(2) h r(1)] by auto
    have rx: "r \<notin> X" using live_handle [OF ok(2) rl(1)] rl(2) h r(2) by (metis option.inject)
    obtain q where q: "db_requests b r = Some q" "valid_request b r = Some q" by (rule valid_request_ok [OF ok(1,2) rl(1)])
    obtain b1 b' where b: "reply_schedule_callback env b r 0 DNS_ERR_CANCEL None = Some b1" "db_req_heads b1 = db_req_heads b"
        "request_finished env b1 r (where_is b r) True = Some b'" "client_inv X Y b'" "keeps {r} b b'" "sprobe b' = sprobe b" "no_better b b'"
      using schedule_finish_ok [OF env inv rl(1) rx room, of None DNS_ERR_CANCEL 0] free rl(2) by metis
    have "where_is b r = (if dq_ns q \<noteq> None then Some (REQ_HEAD b1 (rq_trans_id q)) else None)"
      using where_is_ns [OF inv rl(1) q(1)] b(2) by (simp add: REQ_HEAD_def)
    then have "evdns_cancel_request env b h = Some b'" using h r q(2) b(1,3) by (simp add: evdns_cancel_request_def)
    then show ?thesis using b rl(2) rx by (intro exI [of _ "{r}"] exI [of _ b']) auto
  qed
qed


lemma probe_changed:
  assumes inv: "client_inv X Y b" and f: "\<And>ns. ns_state (f ns) = ns_state ns"
  shows "client_inv X (insert s Y) (upd_ns b s f) \<and> keeps {} b (upd_ns b s f)"
proof -
  let ?b = "upd_ns b s f"
  have ok: "lists_ok b" "handles_ok X b" "deferred_ok X b" "probes_ok Y b" "servers_ok b" "assigned b" using inv by (simp_all add: client_inv_def)
  have e: "inflight ?b = inflight b" "live ?b = live b" "sreq ?b = sreq b" "owner ?b = owner b" "tid ?b = tid b" "hdl ?b = hdl b" "REQ_HEAD ?b = REQ_HEAD b"
    by (simp_all add: inflight_def live_def sreq_def owner_def tid_def hdl_def REQ_HEAD_def fun_eq_iff)
  have sp: "sprobe ?b t = None \<longleftrightarrow> sprobe b t = None" "t \<noteq> s \<Longrightarrow> sprobe ?b t = sprobe b t" for t
    by (auto simp: sprobe_def)
  have g: "good_ns ?b = good_ns b" using f by (cases "db_nameservers b s") (auto simp: good_ns_def fun_eq_iff)
  have "servers_ok ?b" by (rule servers_ok_cong [OF ok(5)]) (use ok(5) g in \<open>auto simp: servers_ok_def split: if_splits\<close>)
  moreover have "probes_ok (insert s Y) ?b"
    using ok(4) unfolding probes_ok_def by (simp add: e sp probe_answered_def)
  moreover have "lists_ok ?b" "handles_ok X ?b" "deferred_ok X ?b" "assigned ?b"
    using ok by (simp_all add: lists_ok_def handles_ok_def deferred_ok_def assigned_def e)
  moreover have "keeps {} b ?b" by (auto simp: keeps_def settled_def owed_def e split: if_splits)
  ultimately show ?thesis by (simp add: client_inv_def)
qed

lemma inv_unmark:
  assumes "client_inv X Y b" "\<And>h. sprobe b s \<noteq> Some (Some h)"
  shows "client_inv X (Y - {s}) b"
proof -
  have "probes_ok (Y - {s}) b" using assms unfolding client_inv_def probes_ok_def by (metis DiffI singletonD)
  then show ?thesis using assms(1) by (simp add: client_inv_def)
qed

lemma probe_cleared:
  assumes inv: "client_inv X Y b" and f: "\<And>ns. ns_probe_request (f ns) = None \<and> ns_state (f ns) = ns_state ns"
  shows "client_inv X (Y - {s}) (upd_ns b s f) \<and> keeps {} b (upd_ns b s f)"
proof -
  have "sprobe (upd_ns b s f) s \<noteq> Some (Some h)" for h using f by (auto simp: sprobe_def)
  moreover have "client_inv X (insert s Y) (upd_ns b s f) \<and> keeps {} b (upd_ns b s f)" using f by (intro probe_changed [OF inv]) simp
  ultimately show ?thesis using inv_unmark [of X "insert s Y" "upd_ns b s f" s] by simp
qed

lemma marked_up:
  assumes inv: "client_inv X Y b" and ns: "db_nameservers b s = Some ns" "\<not> ns_state ns"
    and f: "ns_state (f ns)" "ns_probe_request (f ns) = ns_probe_request ns"
  shows "client_inv X Y ((upd_ns b s f)\<lparr>db_good_nameservers := db_good_nameservers b + 1\<rparr>) \<and>
    quiet b ((upd_ns b s f)\<lparr>db_good_nameservers := db_good_nameservers b + 1\<rparr>)"
proof -
  let ?b = "(upd_ns b s f)\<lparr>db_good_nameservers := db_good_nameservers b + 1\<rparr>"
  have ok: "servers_ok b" "assigned b" using inv by (simp_all add: client_inv_def)
  have "{t. good_ns ?b t} = insert s {t. good_ns b t}" using ns f by (auto simp: good_ns_def)
  moreover have "s \<notin> {t. good_ns b t}" using ns by (simp add: good_ns_def)
  ultimately have "card {t. good_ns ?b t} = card {t. good_ns b t} + 1" using good_finite [OF ok(1)] by simp
  then have "servers_ok ?b" using ok(1) ns by (auto simp: servers_ok_def)
  moreover have "assigned ?b" using ok(2) by (simp add: assigned_def inflight_def)
  moreover have "quiet b ?b" using ns f by (auto simp: quiet_def sreq_def sprobe_def fun_eq_iff)
  ultimately show ?thesis using quiet_inv [OF inv] by blast
qed


text \<open>The scheduled callbacks of the requests in \<open>X\<close> are for the servers these requests probe.\<close>

definition matched :: "nat set \<Rightarrow> evdns_base \<Rightarrow> bool" where
  "matched X b \<longleftrightarrow> (\<forall>x \<in> X. \<forall>cb \<in> set (db_deferred b). rc_handle cb = hdl b x \<longrightarrow> owner b x = Some (hdl b x, rc_probe cb))"

lemma matched_empty [simp]: "matched {} b"
  by (simp add: matched_def)

lemma probe_cases:
  assumes "client_inv X Y b" "s \<notin> Y" "sprobe b s = Some (Some h)"
  obtains r where "r \<in> set (live b)" "owner b r = Some (h, Some s)" "hdl b r = h"
  | cb where "cb \<in> set (db_deferred b)" "rc_handle cb = h" "rc_probe cb = Some s"
proof -
  have "(\<exists>r \<in> set (live b). owner b r = Some (h, Some s)) \<or> probe_answered b h s"
    using assms unfolding client_inv_def probes_ok_def by blast
  then show ?thesis using that by (auto simp: probe_answered_def hdl_def)
qed

lemma probe_unique:
  assumes inv: "client_inv X Y b" and m: "matched X b" and s: "s \<notin> Y" "sprobe b s = Some (Some h)" and t: "t \<notin> Y" "sprobe b t = Some (Some h)"
  shows "s = t"
proof -
  have ok: "handles_ok X b" "distinct (map rc_handle (db_deferred b))" using inv by (simp_all add: client_inv_def deferred_ok_def)
  have mixed: "u = v" if "r \<in> set (live b)" "owner b r = Some (h, Some u)" "hdl b r = h"
      "cb \<in> set (db_deferred b)" "rc_handle cb = h" "rc_probe cb = Some v" for r cb u v
    using that pending_deferred [OF inv that(4,1)] m by (auto simp: matched_def)
  show ?thesis
  proof (cases rule: probe_cases [OF inv s])
    case r: (1 r)
    show ?thesis
    proof (cases rule: probe_cases [OF inv t])
      case (1 r')
      then show ?thesis using r hdl_inj [OF ok(1), of r r'] by auto
    next
      case (2 cb)
      then show ?thesis using mixed r by blast
    qed
  next
    case cb: (2 cb)
    show ?thesis
    proof (cases rule: probe_cases [OF inv t])
      case (1 r)
      then show ?thesis using mixed cb by blast
    next
      case (2 cb')
      then have "cb = cb'" using cb ok(2) by (metis distinct_map inj_onD)
      then show ?thesis using cb 2 by simp
    qed
  qed
qed

lemma probe_handle:
  assumes inv: "client_inv X Y b" and s: "s \<notin> Y" "sprobe b s = Some (Some h)"
  shows "db_handles b h \<noteq> None"
proof -
  have ok: "handles_ok X b" "deferred_ok X b" using inv by (simp_all add: client_inv_def)
  show ?thesis
  proof (cases rule: probe_cases [OF inv s])
    case (1 r)
    then show ?thesis using live_handle [OF ok(1), of r] by (metis option.distinct(1))
  next
    case (2 cb)
    then show ?thesis using ok(2) by (auto simp: deferred_ok_def)
  qed
qed

lemma inv_mono: "client_inv X Y b \<Longrightarrow> Y \<subseteq> Z \<Longrightarrow> client_inv X Z b"
  unfolding client_inv_def probes_ok_def by blast

lemma nameserver_up_ok:
  assumes env: "env_ok env" and inv: "client_inv X {} b" and m: "matched X b" and room: "length (live b) \<le> 65535" and s: "s \<in> set (db_servers b)"
  shows "\<exists>G b'. nameserver_up env b s = Some b' \<and> client_inv X {} b' \<and> keeps G b b' \<and>
    (\<forall>x \<in> G. x \<notin> X \<and> sprobe b s = Some (Some (hdl b x)))"
proof -
  have ok: "servers_ok b" "assigned b" using inv by (simp_all add: client_inv_def)
  obtain ns where ns: "db_nameservers b s = Some ns" using s ok(1) by (auto simp: servers_ok_def)
  show ?thesis
  proof (cases "ns_state ns")
    case True
    then show ?thesis using ns inv by (intro exI [of _ "{}"] exI [of _ b]) (simp add: nameserver_up_def)
  next
    case down: False
    define b1 where "b1 = upd_ns b s (\<lambda>ns. ns\<lparr>ns_timeout := False\<rparr>)"
    have c1: "calm b b1" unfolding b1_def using ok by (intro calm_upd_ns) auto
    note i1 = calm_valid [OF inv c1]
    have s1: "sprobe b1 = sprobe b" "hdl b1 = hdl b" using c1 quiet_eqs(4) [of b b1] unfolding calm_def quiet_def by blast+
    have dn: "\<not> good_ns b1 s" using ns down by (simp add: b1_def good_ns_def)
    have m1: "matched X b1" using m by (simp add: matched_def b1_def hdl_def owner_def)
    define p where "p = (case ns_probe_request ns of None \<Rightarrow> Some b1
         | Some h \<Rightarrow> do { b2 \<leftarrow> evdns_cancel_request env b1 h; Some (upd_ns b2 s (\<lambda>ns. ns\<lparr>ns_probe_request := None\<rparr>)) })"
    have "\<exists>G b2. p = Some b2 \<and>
      client_inv X {} b2 \<and> keeps G b1 b2 \<and> \<not> good_ns b2 s \<and> (\<forall>x \<in> G. x \<notin> X \<and> sprobe b s = Some (Some (hdl b x)))"
    proof (cases "ns_probe_request ns")
      case None
      then show ?thesis using i1(1) dn by (intro exI [of _ "{}"] exI [of _ b1]) (simp add: p_def)
    next
      case (Some h)
      then have sp: "sprobe b1 s = Some (Some h)" using ns s1 by (simp add: sprobe_def)
      have "sprobe b1 t \<noteq> Some (Some h)" if "t \<notin> {s}" for t using probe_unique [OF i1(1) m1 _ sp, of t] that by auto
      moreover obtain hh where hh: "db_handles b1 h = Some hh" using probe_handle [OF i1(1) _ sp] by auto
      moreover have "client_inv X {s} b1" using i1(1) by (rule inv_mono) simp
      ultimately obtain G b2 where b2: "evdns_cancel_request env b1 h = Some b2" "client_inv X {s} b2" "keeps G b1 b2" "no_better b1 b2"
          "\<forall>x \<in> G. hdl b1 x = h \<and> x \<notin> X"
        using cancel_ok [OF env, of X "{s}" b1 h hh] room i1(6) by auto
      define b3 where "b3 = upd_ns b2 s (\<lambda>ns. ns\<lparr>ns_probe_request := None\<rparr>)"
      have b3: "client_inv X ({s} - {s}) b3 \<and> keeps {} b2 b3" unfolding b3_def by (rule probe_cleared [OF b2(2)]) simp
      have "\<not> good_ns b2 s" using b2(4) dn by (auto simp: no_better_def)
      then have "\<not> good_ns b3 s" by (cases "db_nameservers b2 s") (auto simp: b3_def good_ns_def)
      moreover have "keeps G b1 b3" using b3 keeps_trans [OF b2(3), of "{}" b3] by simp
      moreover have "\<forall>x \<in> G. x \<notin> X \<and> sprobe b s = Some (Some (hdl b x))" using b2(5) sp s1 by simp
      ultimately show ?thesis
        using Some b2(1) b3 by (intro exI [of _ G] exI [of _ b3]) (simp add: p_def b3_def [symmetric])
    qed
    then obtain G b2 where b2: "p = Some b2"
      "client_inv X {} b2" "keeps G b1 b2" "\<not> good_ns b2 s" "\<forall>x \<in> G. x \<notin> X \<and> sprobe b s = Some (Some (hdl b x))" by blast
    let ?f = "\<lambda>ns. ns\<lparr>ns_state := True, ns_failed_times := 0, ns_timedout := 0\<rparr>"
    have "set (db_servers b2) = set (db_servers b)" using b2(3) i1(9) by (simp add: keeps_def settled_def)
    then obtain ns2 where "db_nameservers b2 s = Some ns2" using b2(2) s by (auto simp: client_inv_def servers_ok_def)
    then have up: "client_inv X {} ((upd_ns b2 s ?f)\<lparr>db_good_nameservers := db_good_nameservers b2 + 1\<rparr>)"
        "quiet b2 ((upd_ns b2 s ?f)\<lparr>db_good_nameservers := db_good_nameservers b2 + 1\<rparr>)"
      using marked_up [OF b2(2), of s ns2 ?f] b2(4) by (auto simp: good_ns_def)
    then have "keeps G b ((upd_ns b2 s ?f)\<lparr>db_good_nameservers := db_good_nameservers b2 + 1\<rparr>)"
      using keeps_trans [OF keeps_trans [OF keeps_calm [OF c1] b2(3)] keeps_quiet [OF up(2)]] by simp
    moreover have "nameserver_up env b s = Some ((upd_ns b2 s ?f)\<lparr>db_good_nameservers := db_good_nameservers b2 + 1\<rparr>)"
      using ns down b2(1) unfolding nameserver_up_def b1_def p_def by (simp add: Let_def)
    ultimately show ?thesis using up(1) b2(5) by blast
  qed
qed


section \<open>Answers\<close>

lemma request_reissue_ok:
  assumes inv: "client_inv X Y b" and r: "r \<in> set (inflight b)"
  shows "\<exists>x b'. request_reissue b r = Some (x, b') \<and> calm b b'"
proof -
  have ok: "lists_ok b" "handles_ok X b" "servers_ok b" "assigned b" using inv by (simp_all add: client_inv_def)
  have rl: "r \<in> set (live b)" "r \<notin> set (db_req_waiting b)" using r live_requests(2) [OF ok(1) r] by (simp_all add: live_def)
  obtain q where q: "db_requests b r = Some q" "valid_request b r = Some q" by (rule valid_request_ok [OF ok(1,2) rl(1)])
  obtain ns b1 where p: "nameserver_pick b = Some (ns, b1)" "calm b b1" "db_requests b1 = db_requests b"
      "ns = None \<longleftrightarrow> db_servers b = []" "\<And>s. ns = Some s \<Longrightarrow> s \<in> set (db_servers b)"
    using nameserver_pick_ok [OF ok(3,4)] by metis
  note i1 = calm_valid [OF inv p(2)]
  have "db_servers b \<noteq> []" using ok(4) r q(1) by (auto simp: assigned_def)
  then obtain s where s: "ns = Some s" "s \<in> set (db_servers b1)" using p(4,5) i1(9) by (cases ns) auto
  define b2 where "b2 = upd_req b1 r (\<lambda>req. req\<lparr>dq_ns := ns\<rparr>)"
  have c2: "calm b1 b2" unfolding b2_def using i1 s rl(2) by (intro calm_upd_req) (auto simp: static_req_def)
  note i2 = calm_valid [OF i1(1) c2]
  have "calm b2 (upd_req b2 r (\<lambda>req. req\<lparr>dq_reissue_count := dq_reissue_count req + 1, dq_tx_count := 0, dq_transmit_me := True\<rparr>))"
    using i2 by (intro calm_upd_req) (auto simp: static_req_def)
  then show ?thesis
    using q(2) p(1) calm_trans [OF p(2) c2] calm_trans [OF calm_trans [OF p(2) c2]]
    by (simp add: request_reissue_def b2_def [symmetric])
qed

lemma reply_error_not_cancel: "reply_error flags reply \<noteq> DNS_ERR_CANCEL"
  by (auto simp: reply_error_def Let_def DNS_ERR_TRUNCATED_def DNS_ERR_UNKNOWN_def DNS_ERR_CANCEL_def DNS_ERR_NODATA_def split: option.splits)

lemma forget_probe_ok:
  assumes "client_inv X {} b"
  shows "client_inv X {} (forget_probe b s h)" "keeps {} b (forget_probe b s h)" "sprobe (forget_probe b s h) s \<noteq> Some (Some h)"
    "db_deferred (forget_probe b s h) = db_deferred b" "owner (forget_probe b s h) = owner b"
proof -
  have "forget_probe b s h = b \<and> sprobe b s \<noteq> Some (Some h) \<or>
      forget_probe b s h = upd_ns b s (\<lambda>ns. ns\<lparr>ns_probe_request := None\<rparr>)"
    by (auto simp: forget_probe_def sprobe_def split: option.splits)
  moreover have "client_inv X ({} - {s}) (upd_ns b s (\<lambda>ns. ns\<lparr>ns_probe_request := None\<rparr>)) \<and>
      keeps {} b (upd_ns b s (\<lambda>ns. ns\<lparr>ns_probe_request := None\<rparr>))"
    by (rule probe_cleared [OF assms]) simp
  moreover have "sprobe (upd_ns b s (\<lambda>ns. ns\<lparr>ns_probe_request := None\<rparr>)) s \<noteq> Some (Some h)"
    by (cases "db_nameservers b s") (simp_all add: sprobe_def)
  ultimately show "client_inv X {} (forget_probe b s h)" "keeps {} b (forget_probe b s h)" "sprobe (forget_probe b s h) s \<noteq> Some (Some h)"
    "db_deferred (forget_probe b s h) = db_deferred b" "owner (forget_probe b s h) = owner b"
    using assms by (auto simp: owner_def fun_eq_iff)
qed

text \<open>The server that answered: its probe is forgotten, and it is up.\<close>

lemma server_answers_ok:
  assumes env: "env_ok env" and inv: "client_inv X {} b" and m: "matched X b" and room: "length (live b) \<le> 65535" and s: "s \<in> set (db_servers b)"
    and r: "r \<in> set (live b)" "db_requests b r = Some q"
  shows "\<exists>G b'. nameserver_up env (forget_probe b s (dq_handle q)) s = Some b' \<and> client_inv X {} b' \<and> keeps G b b' \<and> r \<notin> G"
proof -
  define b1 where "b1 = forget_probe b s (dq_handle q)"
  note f = forget_probe_ok [OF inv, of s "dq_handle q", folded b1_def]
  have e: "hdl b1 = hdl b" "hdl b r = dq_handle q" using f(5) r(2) by (simp_all add: hdl_def owner_def fun_eq_iff)
  have "matched X b1" "length (live b1) \<le> 65535" "s \<in> set (db_servers b1)"
    using m f(2) room s by (auto simp: matched_def f(4,5) e keeps_def settled_def)
  then obtain G b' where b': "nameserver_up env b1 s = Some b'" "client_inv X {} b'" "keeps G b1 b'"
      "\<forall>x \<in> G. x \<notin> X \<and> sprobe b1 s = Some (Some (hdl b1 x))"
    using nameserver_up_ok [OF env f(1)] by blast
  then have "r \<notin> G" using f(3) e by auto
  then show ?thesis using b' keeps_trans [OF f(2) b'(3)] by (auto simp: b1_def)
qed


text \<open>What the user is told of an answer.\<close>

definition told :: "evdns_base \<Rightarrow> nat \<Rightarrow> 32 word \<Rightarrow> int \<Rightarrow> reply option \<Rightarrow> bool" where
  "told b h ttl err reply \<longleftrightarrow> (\<exists>cb \<in> set (db_deferred b). rc_handle cb = h \<and> rc_ttl cb = ttl \<and> rc_err cb = err \<and> rc_reply cb = reply)"

definition reply_bad :: "16 word \<Rightarrow> reply option \<Rightarrow> bool" where
  "reply_bad flags reply \<longleftrightarrow> flags AND 0x020f \<noteq> 0 \<or> (case reply of None \<Rightarrow> True | Some rp \<Rightarrow> \<not> rp_have_answer rp)"

lemma keeps_inflight:
  assumes "keeps G b b'" "r \<notin> G" "r \<in> set (inflight b)"
  shows "r \<in> set (inflight b')" "r \<in> set (live b')" "tid b' r = tid b r" "owner b' r = owner b r" "hdl b' r = hdl b r"
    "length (live b') \<le> length (live b)"
  using assms by (auto simp: keeps_def settled_def live_def hdl_def)

lemma told_finished:
  assumes env: "env_ok env" and inv: "client_inv X Y b0" and b: "client_inv {} {} b" "keeps G b0 b" "r \<notin> G" and r: "r \<in> set (inflight b0)"
    and room: "length (live b0) \<le> 65535" and err: "err \<noteq> DNS_ERR_CANCEL"
  shows "\<exists>G b'. finish_inflight env b r ttl err None = Some b' \<and> client_inv {} {} b' \<and> keeps G b0 b' \<and> told b' (hdl b0 r) ttl err None"
proof -
  note k = keeps_inflight [OF b(2,3) r]
  obtain b' where b': "finish_inflight env b r ttl err None = Some b'" "client_inv {} {} b'" "keeps {r} b b'"
      "db_deferred b' = db_deferred b @ [callback_for b r ttl err None]"
    using finish_inflight_ok [OF env b(1) k(1), of None err ttl] k(6) room err by auto
  obtain q where "db_requests b r = Some q" using b(1) k(2) live_requests(1) [of b r] by (auto simp: client_inv_def)
  then have "told b' (hdl b0 r) ttl err None" using b'(4) k(5) by (simp add: told_def callback_for_def hdl_def owner_def)
  then show ?thesis using b' keeps_trans [OF b(2) b'(3)] by blast
qed

lemma reply_good_ok:
  assumes env: "env_ok env" and inv: "client_inv {} {} b" and r: "r \<in> set (inflight b)" and room: "length (live b) \<le> 65535"
    and good: "\<not> reply_bad flags reply"
  shows "\<exists>G b'. reply_handle env b r flags ttl reply = Some b' \<and> client_inv {} {} b' \<and> keeps G b b' \<and> told b' (hdl b r) ttl 0 reply"
proof -
  have ok: "lists_ok b" "handles_ok {} b" "assigned b" using inv by (simp_all add: client_inv_def)
  have rl: "r \<in> set (live b)" using r by (simp add: live_def)
  obtain q where q: "db_requests b r = Some q" "valid_request b r = Some q" by (rule valid_request_ok [OF ok(1,2) rl])
  obtain s where s: "s \<in> set (db_servers b)" "dq_ns q = Some s" using ok(3) r q(1) unfolding assigned_def by blast
  let ?cb = "callback_for b r ttl 0 reply"
  have cb: "rc_handle ?cb = hdl b r" "rc_reply ?cb = reply" "rc_err ?cb = 0" "rc_ttl ?cb = ttl" "owner b r = Some (hdl b r, rc_probe ?cb)"
    "owner b r = Some (rc_owner ?cb)"
    using q(1) by (simp_all add: callback_for_def hdl_def owner_def rc_owner_def)
  obtain b1 where b1: "reply_schedule_callback env b r ttl 0 reply = Some b1" "client_inv {r} {} b1" "settled {} b b1"
      "db_deferred b1 = db_deferred b @ [?cb]" "db_delivered b1 = db_delivered b" "db_requests b1 = db_requests b" "db_req_waiting b1 = db_req_waiting b"
      "db_req_heads b1 = db_req_heads b"
    using schedule_ok [OF env inv rl, of ttl 0 reply] by auto
  have e: "live b1 = live b" "inflight b1 = inflight b" "hdl b1 = hdl b" "owner b1 = owner b"
    by (simp_all add: live_def inflight_def hdl_def owner_def b1 fun_eq_iff)
  have "rc_handle c \<noteq> hdl b r" if "c \<in> set (db_deferred b)" for c using pending_deferred [OF inv that rl] by blast
  then have m: "matched {r} b1" using cb by (auto simp: matched_def b1(4) e)
  have k1: "keeps {} b b1" using b1(3-5) e cb(6) rl by (auto simp: keeps_def owed_def)
  obtain G b2 where b2: "nameserver_up env (forget_probe b1 s (dq_handle q)) s = Some b2" "client_inv {r} {} b2" "keeps G b1 b2" "r \<notin> G"
    using server_answers_ok [OF env b1(2) m, of s r q] room s b1(3,6) q(1) rl e by (auto simp: settled_def)
  have "r \<in> set (inflight b1)" using r e by simp
  note k = keeps_inflight [OF b2(3,4) this]
  have cb2: "?cb \<in> set (db_deferred b2)" using b2(3) b1(4) by (auto simp: keeps_def)
  have "reply \<noteq> None" using good by (cases reply) (auto simp: reply_bad_def)
  then have "probe_answered b2 (hdl b2 r) t" if "sprobe b2 t = Some (Some (hdl b2 r))" for t
    using answered [OF b2(2) k(2), of ?cb t] cb cb2 that k e by simp
  then obtain b' where b': "request_finished env b2 r (where_is b2 r) True = Some b'" "client_inv {} {} b'" "keeps {r} b2 b'"
      "db_deferred b' = db_deferred b2"
    using scheduled_finished_ok [OF env b2(2) k(2) _ _ cb2] k e cb(6) room by auto
  have "lists_ok b2" using b2(2) by (simp add: client_inv_def)
  moreover have "tid b1 r = rq_trans_id q" using q(1) b1(6) by (simp add: tid_def sreq_def static_req_def)
  ultimately have "where_is b2 r = Some (REQ_HEAD b2 (rq_trans_id q))" using where_is_inflight [of b2 r] k by simp
  then have "reply_handle env b r flags ttl reply = Some b'"
    using good q(2) s(2) b1(1) b2(1) b'(1) by (simp add: reply_handle_def reply_bad_def)
  moreover have "told b' (hdl b r) ttl 0 reply" using cb2 cb b'(4) by (auto simp: told_def)
  moreover have "keeps ({} \<union> G \<union> {r}) b b'" using keeps_trans [OF keeps_trans [OF k1 b2(3)] b'(3)] by simp
  ultimately show ?thesis using b'(2) by blast
qed


lemma reply_bad_ok:
  assumes env: "env_ok env" and inv: "client_inv {} {} b" and r: "r \<in> set (inflight b)" and room: "length (live b) \<le> 65535"
    and bad: "reply_bad flags reply"
  shows "\<exists>G b'. reply_handle env b r flags ttl reply = Some b' \<and> client_inv {} {} b' \<and> keeps G b b' \<and>
    (told b' (hdl b r) ttl (reply_error flags reply) None \<or> reply_error flags reply \<in> {4, 5} \<and> G = {})"
proof -
  have ok: "lists_ok b" "handles_ok {} b" "servers_ok b" "assigned b" using inv by (simp_all add: client_inv_def)
  have rl: "r \<in> set (live b)" using r by (simp add: live_def)
  obtain q where q: "db_requests b r = Some q" "valid_request b r = Some q" by (rule valid_request_ok [OF ok(1,2) rl])
  obtain s where s: "s \<in> set (db_servers b)" "dq_ns q = Some s" using ok(4) r q(1) unfolding assigned_def by blast
  let ?e = "reply_error flags reply"
  have fin: "\<exists>G b'. finish_inflight env b1 r ttl ?e None = Some b' \<and> client_inv {} {} b' \<and> keeps G b b' \<and> told b' (hdl b r) ttl ?e None"
    if "client_inv {} {} b1" "keeps G b b1" "r \<notin> G" for b1 G
    using told_finished [OF env inv that r room reply_error_not_cancel] .
  consider (reissue) "?e = 4 \<or> ?e = 5" "dq_reissue_count q < db_max_reissues b"
    | (give_up) "?e = 4 \<or> ?e = 5" "\<not> dq_reissue_count q < db_max_reissues b" | (servfail) "?e = 2"
    | (other) "?e \<noteq> 2" "?e \<noteq> 4" "?e \<noteq> 5" by blast
  then show ?thesis
  proof cases
    case reissue
    obtain b1 where b1: "nameserver_failed env b s = Some b1" "calm b b1" using nameserver_failed_ok [OF ok(1,3,4) s(1)] by blast
    note i1 = calm_valid [OF inv b1(2)]
    obtain x b2 where b2: "request_reissue b1 r = Some (x, b2)" "calm b1 b2" using request_reissue_ok [OF i1(1)] r i1(7) by metis
    have c: "calm b b2" using b1(2) b2(2) by (rule calm_trans)
    have i2: "client_inv {} {} b2" using c inv by (metis calm_inv)
    have run: "reply_handle env b r flags ttl reply = (if x = 0 then Some b2 else finish_inflight env b2 r ttl ?e None)"
      using bad reissue q(2) s(2) b1(1) b2(1) by (simp add: reply_handle_def reply_bad_def)
    show ?thesis
    proof (cases "x = 0")
      case True
      then show ?thesis using run i2 keeps_calm [OF c] reissue(1) by auto
    next
      case False
      then show ?thesis using run fin [OF i2 keeps_calm [OF c]] by auto
    qed
  next
    case give_up
    then have "reply_handle env b r flags ttl reply = finish_inflight env b r ttl ?e None"
      using bad q(2) by (simp add: reply_handle_def reply_bad_def)
    then show ?thesis using fin [OF inv keeps_refl] by auto
  next
    case servfail
    then have "reply_handle env b r flags ttl reply = finish_inflight env b r ttl ?e None"
      using bad q(2) by (simp add: reply_handle_def reply_bad_def)
    then show ?thesis using fin [OF inv keeps_refl] by auto
  next
    case other
    obtain G b1 where b1: "nameserver_up env (forget_probe b s (dq_handle q)) s = Some b1" "client_inv {} {} b1" "keeps G b b1" "r \<notin> G"
      using server_answers_ok [OF env inv matched_empty room s(1) rl q(1)] by blast
    then have "reply_handle env b r flags ttl reply = finish_inflight env b1 r ttl ?e None"
      using bad other q(2) s(2) by (simp add: reply_handle_def reply_bad_def)
    then show ?thesis using fin [OF b1(2-4)] by auto
  qed
qed

section \<open>Timeouts\<close>

text \<open>What sending a request changes of it: how often it was sent, whether it still has to be, and its timer.\<close>

definition sending :: "evdns_base \<Rightarrow> nat \<Rightarrow> (nat \<times> bool \<times> bool) option" where
  "sending b r = map_option (\<lambda>q. (dq_tx_count q, dq_transmit_me q, dq_timeout q)) (db_requests b r)"

lemma sending_simps [simp]:
  "sending (tick b) = sending b" "sending (upd_ns b s f) = sending b" "sending (b\<lparr>db_good_nameservers := n\<rparr>) = sending b"
  "sending (b\<lparr>db_servers := ss\<rparr>) = sending b" "sending (upd_req b r (\<lambda>req. req\<lparr>dq_ns := ns\<rparr>)) = sending b"
  by (auto simp: sending_def fun_eq_iff option.map_comp o_def)

lemma nameserver_pick_sending: "nameserver_pick b = Some (ns, b') \<Longrightarrow> sending b' = sending b \<and> db_calls b' = db_calls b"
  by (auto simp: nameserver_pick_def Let_def split: if_splits list.splits)

lemma reassign_sending: "reassign s b rs = Some b' \<Longrightarrow> sending b' = sending b \<and> db_calls b' = db_calls b"
proof (induction rs arbitrary: b)
  case (Cons r rs)
  obtain q :: dns_request and b1 where b1: "reassign s b1 rs = Some b'" and "(if dq_tx_count q = 0 \<and> dq_ns q = Some s
      then nameserver_pick b \<bind> (\<lambda>(ns, base1). Some (upd_req base1 r (\<lambda>req. req\<lparr>dq_ns := ns\<rparr>))) else Some b) = Some b1"
    using Cons.prems unfolding reassign.simps bind_eq_Some_conv by (elim exE conjE) (rule that)
  then have "sending b1 = sending b \<and> db_calls b1 = db_calls b"
    by (auto simp: bind_eq_Some_conv dest: nameserver_pick_sending split: if_splits)
  then show ?case using Cons.IH [OF b1] by simp
qed simp

lemma nameserver_failed_sending:
  assumes "nameserver_failed env b s = Some b'"
  shows "sending b' = sending b \<and> db_calls b \<le> db_calls b'"
  using assms by (auto simp: nameserver_failed_def Let_def bind_eq_Some_conv dest!: reassign_sending split: if_splits)

text \<open>
  A request in the hands of \<open>evdns_request_transmit\<close> goes to its server, which may fail for good, or it waits with its flag set for
  the socket of the server to accept packets again.
\<close>

definition sent_or_waits :: "dns_env \<Rightarrow> evdns_base \<Rightarrow> evdns_base \<Rightarrow> nat \<Rightarrow> nat \<Rightarrow> bool" where
  "sent_or_waits env b b' r n \<longleftrightarrow>
     (\<exists>q s ns. db_requests b' r = Some q \<and> dq_ns q = Some s \<and> s \<in> set (db_servers b') \<and> db_nameservers b' s = Some ns \<and>
       (if dq_transmit_me q then dq_tx_count q = n \<and> ns_choked ns
        else dq_tx_count q = n + 1 \<and> (\<exists>k. db_calls b \<le> k \<and> k < db_calls b' \<and> de_send env k \<noteq> Send_again) \<and>
          ((\<forall>k. de_timer env k) \<longrightarrow> dq_timeout q)))"

lemma sent_or_waits_earlier:
  assumes "db_calls a \<le> db_calls b" "sent_or_waits env b b' r n"
  shows "sent_or_waits env a b' r n"
proof -
  have "\<exists>k. db_calls a \<le> k \<and> k < m \<and> P k" if "\<exists>k. db_calls b \<le> k \<and> k < m \<and> P k" for m P
    using that assms(1) le_trans by blast
  then show ?thesis using assms(2) unfolding sent_or_waits_def by (elim exE conjE) (intro exI conjI, assumption+, simp split: if_splits)
qed

lemma sent_or_waits_intro:
  assumes "assigned b'" "servers_ok b'" "r \<in> set (inflight b')" "sending b' r = Some (m, me, tm)"
    and "if me then m = n \<and> (\<forall>q s ns. db_requests b' r = Some q \<longrightarrow> dq_ns q = Some s \<longrightarrow> db_nameservers b' s = Some ns \<longrightarrow> ns_choked ns)
      else m = n + 1 \<and> (\<exists>k. db_calls b \<le> k \<and> k < db_calls b' \<and> de_send env k \<noteq> Send_again) \<and> ((\<forall>k. de_timer env k) \<longrightarrow> tm)"
  shows "sent_or_waits env b b' r n"
proof -
  obtain q where q: "db_requests b' r = Some q" "dq_tx_count q = m" "dq_transmit_me q = me" "dq_timeout q = tm"
    using assms(4) by (auto simp: sending_def)
  obtain s where s: "s \<in> set (db_servers b')" "dq_ns q = Some s" using assms(1,3) q(1) unfolding assigned_def by blast
  obtain ns where "db_nameservers b' s = Some ns" using s(1) assms(2) by (auto simp: servers_ok_def)
  with q s assms(5) show ?thesis unfolding sent_or_waits_def by (intro exI [of _ q] exI [of _ s] exI [of _ ns]) (simp split: if_splits)
qed

lemma transmit_sends:
  assumes run: "evdns_request_transmit env b r = Some (x, b')" and ok: "assigned b'" "servers_ok b'" "r \<in> set (inflight b')"
    and q: "db_requests b r = Some q" "dq_ns q = Some s"
  shows "sent_or_waits env b b' r (dq_tx_count q)"
proof -
  define b1 where "b1 = upd_req b r (\<lambda>req. req\<lparr>dq_transmit_me := True\<rparr>)"
  have q1: "db_requests b1 r = Some (q\<lparr>dq_transmit_me := True\<rparr>)" "db_calls b1 = db_calls b" using q by (simp_all add: b1_def)
  have v: "valid_request b r = Some q" using run q(1) by (auto simp: evdns_request_transmit_def valid_request_def bind_eq_Some_conv)
  obtain ns where ns: "db_nameservers b1 s = Some ns"
    using run v q(2) by (auto simp: evdns_request_transmit_def b1_def [symmetric] bind_eq_Some_conv)
  show ?thesis
  proof (cases "ns_choked ns")
    case True
    then have "b' = b1" using run v q(2) ns by (auto simp: evdns_request_transmit_def b1_def [symmetric] bind_eq_Some_conv)
    then show ?thesis using q1 q(2) ns True by (intro sent_or_waits_intro [OF ok, where me = True]) (simp_all add: sending_def)
  next
    case False
    then obtain y b2 where y: "evdns_request_transmit_to env b1 r s = Some (y, b2)"
      using run v q(2) ns by (auto simp: evdns_request_transmit_def b1_def [symmetric] bind_eq_Some_conv)
    have to: "sending b2 = sending b1 \<and> db_calls b1 < db_calls b2 \<and> (y = 1 \<longleftrightarrow> de_send env (db_calls b1) = Send_again) \<and> (y = 1 \<longrightarrow> b2 = tick b1)"
      using y by (cases "de_send env (db_calls b1)") (auto simp: evdns_request_transmit_to_def bind_eq_Some_conv dest!: nameserver_failed_sending)
    show ?thesis
    proof (cases "y = 1")
      case True
      then have "b' = nameserver_write_waiting (upd_ns b2 s (\<lambda>ns. ns\<lparr>ns_choked := True\<rparr>)) s True"
        using run v q(2) ns False y to q1(1) by (auto simp: evdns_request_transmit_def b1_def [symmetric] bind_eq_Some_conv)
      then show ?thesis using True to q1 q(2) ns
        by (intro sent_or_waits_intro [OF ok, where me = True]) (simp_all add: sending_def nameserver_write_waiting_def)
    next
      case False
      define b3 where "b3 = tick (if de_timer env (db_calls b2) then upd_req b2 r (\<lambda>req. req\<lparr>dq_timeout := True\<rparr>) else b2)"
      have b': "b' = upd_req b3 r (\<lambda>req. req\<lparr>dq_tx_count := dq_tx_count req + 1, dq_transmit_me := False\<rparr>)"
        using run v q(2) ns \<open>\<not> ns_choked ns\<close> y False
        by (simp add: evdns_request_transmit_def b1_def [symmetric] b3_def [symmetric] bind_eq_Some_conv)
      have "sending b2 r = Some (dq_tx_count q, True, dq_timeout q)" using to q1(1) by (simp add: sending_def)
      then have "sending b' r = Some (dq_tx_count q + 1, False, dq_timeout q \<or> de_timer env (db_calls b2))"
        by (auto simp: b' b3_def sending_def)
      moreover have "db_calls b < db_calls b'" using to q1(2) by (simp add: b' b3_def)
      ultimately show ?thesis using to False q1(2) by (intro sent_or_waits_intro [OF ok]) auto
    qed
  qed
qed

text \<open>Choosing a server for a request in flight, if there is one, and sending the request.\<close>

lemma resend_ok:
  assumes inv: "client_inv X Y b" and r: "r \<in> set (inflight b)" and sg: "sending b r = Some (n, me, tm)"
  obtains nn b3 x b5 where "nameserver_pick b = Some (nn, b3)"
    "evdns_request_transmit env (case nn of None \<Rightarrow> b3 | Some _ \<Rightarrow> upd_req b3 r (\<lambda>req. req\<lparr>dq_ns := nn\<rparr>)) r = Some (x, b5)"
    "calm b b5" "sent_or_waits env b b5 r n"
proof -
  have ok: "lists_ok b" "servers_ok b" "assigned b" using inv by (simp_all add: client_inv_def)
  obtain nn b3 where p: "nameserver_pick b = Some (nn, b3)" "calm b b3" "\<And>s. nn = Some s \<Longrightarrow> s \<in> set (db_servers b)"
    using nameserver_pick_ok [OF ok(2,3)] by metis
  note i3 = calm_valid [OF inv p(2)]
  define b4 where "b4 = (case nn of None \<Rightarrow> b3 | Some _ \<Rightarrow> upd_req b3 r (\<lambda>req. req\<lparr>dq_ns := nn\<rparr>))"
  have rw: "r \<notin> set (db_req_waiting b3)" using live_requests(2) [OF ok(1) r] i3(8) by simp
  have "calm b3 (upd_req b3 r (\<lambda>req. req\<lparr>dq_ns := Some t\<rparr>))" if "nn = Some t" for t
    using i3 p(3) rw that by (intro calm_upd_req) (auto simp: static_req_def)
  moreover have "calm b3 b3" using i3 by (simp add: calm_def)
  ultimately have c4: "calm b3 b4" by (cases nn) (simp_all add: b4_def)
  note i4 = calm_valid [OF i3(1) c4]
  obtain x b5 where b5: "evdns_request_transmit env b4 r = Some (x, b5)" "calm b4 b5"
    using transmit_ok [OF i4(1)] r i3(7) i4(7) by metis
  have c5: "calm b b5" by (rule calm_trans [OF calm_trans [OF p(2) c4] b5(2)])
  have "sending b4 = sending b3" "db_calls b4 = db_calls b3" by (simp_all add: b4_def split: option.split)
  then have s4: "sending b4 r = Some (n, me, tm)" "db_calls b \<le> db_calls b4"
    using sg nameserver_pick_sending [OF p(1)] by simp_all
  then obtain q4 where q4: "db_requests b4 r = Some q4" "dq_tx_count q4 = n" by (auto simp: sending_def)
  moreover have r5: "r \<in> set (inflight b4)" "r \<in> set (inflight b5)" using r i3(7) i4(7) calm_valid(7) [OF inv c5] by simp_all
  ultimately obtain t where "dq_ns q4 = Some t" using i4(5) unfolding assigned_def by blast
  then have "sent_or_waits env b4 b5 r n"
    using transmit_sends [OF b5(1) calm_valid(5,4) [OF inv c5] r5(2) q4(1)] q4(2) by simp
  then have "sent_or_waits env b b5 r n" by (rule sent_or_waits_earlier [OF s4(2)])
  with p(1) b5(1) c5 show thesis using that by (simp add: b4_def)
qed

lemma timeout_ok:
  assumes env: "env_ok env" and inv: "client_inv {} {} b" and r: "r \<in> set (inflight b)" and room: "length (live b) \<le> 65535"
    and q: "db_requests b r = Some q"
  shows "\<exists>G b'. evdns_request_timeout_callback env b r = Some b' \<and> client_inv {} {} b' \<and> keeps G b b' \<and>
    (if db_max_retransmits b \<le> dq_tx_count q then told b' (hdl b r) 0 DNS_ERR_TIMEOUT None
     else G = {} \<and> sent_or_waits env b b' r (dq_tx_count q))"
proof -
  have ok: "lists_ok b" "handles_ok {} b" "servers_ok b" "assigned b" using inv by (simp_all add: client_inv_def)
  obtain s where s: "s \<in> set (db_servers b)" "dq_ns q = Some s" using ok(4) r q unfolding assigned_def by blast
  obtain ns where ns: "db_nameservers b s = Some ns" using s(1) ok(3) by (auto simp: servers_ok_def)
  define b1 where "b1 = upd_ns (upd_req b r (\<lambda>req. req\<lparr>dq_timeout := False\<rparr>)) s (\<lambda>ns. ns\<lparr>ns_timedout := ns_timedout ns + 1\<rparr>)"
  define b1' where "b1' = upd_ns b1 s (\<lambda>ns. ns\<lparr>ns_timedout := 0\<rparr>)"
  have "calm b (upd_req b r (\<lambda>req. req\<lparr>dq_timeout := False\<rparr>))" using ok by (intro calm_upd_req) (auto simp: static_req_def)
  moreover then have "calm (upd_req b r (\<lambda>req. req\<lparr>dq_timeout := False\<rparr>)) b1"
    unfolding b1_def by (intro calm_upd_ns) (auto simp: calm_def)
  ultimately have c1: "calm b b1" by (rule calm_trans)
  note i1 = calm_valid [OF inv c1]
  have c1': "calm b1 b1'" unfolding b1'_def using i1 by (intro calm_upd_ns) auto
  note i1' = calm_valid [OF i1(1) c1']
  obtain b2' where b2': "nameserver_failed env b1' s = Some b2'" "calm b1' b2'"
    using nameserver_failed_ok [OF i1'(2,4,5), of s env] s(1) unfolding i1(9) i1'(9) by metis
  define b2 where "b2 = (if ns_timedout ns + 1 > db_max_nameserver_timeout b then b2' else b1)"
  have "calm b b2'" using calm_trans [OF calm_trans [OF c1 c1'] b2'(2)] .
  then have c2: "calm b b2" using c1 by (simp add: b2_def)
  note i2 = calm_valid [OF inv c2]
  have sg: "sending b2 r = Some (dq_tx_count q, dq_transmit_me q, False) \<and> db_calls b \<le> db_calls b2"
  proof -
    have "sending b1 r = Some (dq_tx_count q, dq_transmit_me q, False) \<and> sending b1' r = sending b1 r \<and> db_calls b1' = db_calls b \<and> db_calls b1 = db_calls b"
      using q by (simp add: b1_def b1'_def sending_def)
    then show ?thesis using nameserver_failed_sending [OF b2'(1)] by (simp add: b2_def)
  qed
  have mr: "db_max_retransmits b2 = db_max_retransmits b" using c2 by (simp add: calm_def quiet_def)
  have step: "(if ns_timedout ns + 1 > db_max_nameserver_timeout b then nameserver_failed env b1' s else Some b1) = Some b2"
    using b2'(1) by (simp add: b2_def)
  have run: "evdns_request_timeout_callback env b r =
     (if dq_tx_count q \<ge> db_max_retransmits b2 then finish_inflight env b2 r 0 DNS_ERR_TIMEOUT None
      else do {
        (new_ns, base3) \<leftarrow> nameserver_pick b2;
        (x, base5) \<leftarrow> evdns_request_transmit env (case new_ns of None \<Rightarrow> base3 | Some _ \<Rightarrow> upd_req base3 r (\<lambda>req. req\<lparr>dq_ns := new_ns\<rparr>)) r;
        Some base5
      })"
    by (simp only: evdns_request_timeout_callback_def q s(2) ns Let_def bind.bind_lunit b1_def [symmetric] b1'_def [symmetric] step)
  show ?thesis
  proof (cases "db_max_retransmits b \<le> dq_tx_count q")
    case True
    then have "evdns_request_timeout_callback env b r = finish_inflight env b2 r 0 DNS_ERR_TIMEOUT None"
      using run mr by simp
    moreover have "DNS_ERR_TIMEOUT \<noteq> DNS_ERR_CANCEL" by (simp add: DNS_ERR_TIMEOUT_def DNS_ERR_CANCEL_def)
    ultimately show ?thesis using told_finished [OF env inv i2(1) keeps_calm [OF c2] _ r room] True by auto
  next
    case False
    obtain nn b3 x b5 where b5: "nameserver_pick b2 = Some (nn, b3)"
        "evdns_request_transmit env (case nn of None \<Rightarrow> b3 | Some _ \<Rightarrow> upd_req b3 r (\<lambda>req. req\<lparr>dq_ns := nn\<rparr>)) r = Some (x, b5)"
        "calm b2 b5" "sent_or_waits env b2 b5 r (dq_tx_count q)"
      using resend_ok [OF i2(1), of r] r i2(7) sg by metis
    have "evdns_request_timeout_callback env b r = Some b5" using False run mr b5(1,2) by simp
    moreover have "calm b b5" by (rule calm_trans [OF c2 b5(3)])
    moreover have "sent_or_waits env b b5 r (dq_tx_count q)" using sg b5(4) sent_or_waits_earlier by blast
    ultimately show ?thesis using False calm_inv [OF inv] keeps_calm by auto
  qed
qed

end
