(* ===== verification/Dns_Client_New.thy ===== *)
theory Dns_Client_New
  imports Dns_Client_Steps Dns_Roundtrip
begin

text \<open>
  New requests and probes of the DNS client, and the callbacks that run.
\<close>

section \<open>A request enters a list\<close>

definition enlisted :: "evdns_base \<Rightarrow> nat \<Rightarrow> dns_request \<Rightarrow> evdns_base" where
  "enlisted b r q =
     (let b1 = b\<lparr>db_requests := (db_requests b)(r \<mapsto> q),
        db_handles := (db_handles b)(dq_handle q \<mapsto> \<lparr>eh_current_req = Some r, eh_pending_cb = False\<rparr>)\<rparr> in
      if dq_ns q = None then b1\<lparr>db_req_waiting := db_req_waiting b @ [r], db_requests_waiting := db_requests_waiting b + 1\<rparr>
      else b1\<lparr>db_req_heads := (db_req_heads b)[REQ_HEAD b (rq_trans_id q) := db_req_heads b ! REQ_HEAD b (rq_trans_id q) @ [r]],
        db_requests_inflight := db_requests_inflight b + 1\<rparr>)"

text \<open>A new request that may enter: its address and handle are new, and its id is free if it is to go out.\<close>

definition newcomer :: "evdns_base \<Rightarrow> nat \<Rightarrow> dns_request \<Rightarrow> bool" where
  "newcomer b r q \<longleftrightarrow> db_requests b r = None \<and> (\<forall>x \<in> set (live b). hdl b x \<noteq> dq_handle q) \<and> dq_handle q \<notin> rc_handle ` set (db_deferred b) \<and>
     2 \<le> length (rq_request q) \<and> dns_type (rq_request_type q) \<and>
     (\<forall>s. dq_ns q = Some s \<longrightarrow> s \<in> set (db_servers b) \<and> rq_trans_id q \<noteq> 0xffff \<and> rq_trans_id q \<notin> tid b ` set (inflight b)) \<and>
     (\<forall>s. dq_probe q = Some s \<longrightarrow> sprobe b s \<noteq> None)"

lemma enlisted_fields:
  "db_requests (enlisted b r q) = (db_requests b)(r \<mapsto> q)"
  "db_handles (enlisted b r q) = (db_handles b)(dq_handle q \<mapsto> \<lparr>eh_current_req = Some r, eh_pending_cb = False\<rparr>)"
  "db_deferred (enlisted b r q) = db_deferred b" "db_delivered (enlisted b r q) = db_delivered b" "db_nameservers (enlisted b r q) = db_nameservers b"
  "db_servers (enlisted b r q) = db_servers b" "db_good_nameservers (enlisted b r q) = db_good_nameservers b"
  "db_max_requests_inflight (enlisted b r q) = db_max_requests_inflight b" "length (db_req_heads (enlisted b r q)) = length (db_req_heads b)"
  "db_req_waiting (enlisted b r q) = (if dq_ns q = None then db_req_waiting b @ [r] else db_req_waiting b)"
  "sprobe (enlisted b r q) = sprobe b" "REQ_HEAD (enlisted b r q) = REQ_HEAD b" "good_ns (enlisted b r q) = good_ns b"
  by (simp_all add: enlisted_def Let_def sprobe_def REQ_HEAD_def good_ns_def fun_eq_iff)

lemma enlisted_lists:
  assumes "lists_ok b"
  shows "mset (live (enlisted b r q)) = add_mset r (mset (live b))" "set (live (enlisted b r q)) = insert r (set (live b))"
    "set (inflight (enlisted b r q)) = (if dq_ns q = None then set (inflight b) else insert r (set (inflight b)))"
    "db_requests_inflight (enlisted b r q) = int (length (inflight (enlisted b r q)))"
    "db_requests_waiting (enlisted b r q) = int (length (db_req_waiting (enlisted b r q)))"
proof -
  let ?i = "REQ_HEAD b (rq_trans_id q)"
  have cnt: "db_requests_inflight b = int (length (inflight b))" "db_requests_waiting b = int (length (db_req_waiting b))"
    using assms by (simp_all add: lists_ok_def)
  have i: "?i < length (db_req_heads b)" using assms by (simp add: REQ_HEAD_def lists_ok_def)
  have m: "mset (concat ((db_req_heads b)[?i := db_req_heads b ! ?i @ [r]])) = add_mset r (mset (concat (db_req_heads b)))"
    using i by (rule mset_concat_append)
  show ml: "mset (live (enlisted b r q)) = add_mset r (mset (live b))" using m by (simp add: live_def inflight_def enlisted_def Let_def)
  show "set (live (enlisted b r q)) = insert r (set (live b))" using arg_cong [OF ml, of set_mset] by simp
  show "set (inflight (enlisted b r q)) = (if dq_ns q = None then set (inflight b) else insert r (set (inflight b)))"
    using arg_cong [OF m, of set_mset] by (simp add: inflight_def enlisted_def Let_def)
  show "db_requests_inflight (enlisted b r q) = int (length (inflight (enlisted b r q)))"
    using cnt(1) arg_cong [OF m, of size] by (simp add: inflight_def enlisted_def Let_def)
  show "db_requests_waiting (enlisted b r q) = int (length (db_req_waiting (enlisted b r q)))"
    using cnt(2) by (simp add: enlisted_def Let_def)
qed

lemma enlisted_views:
  assumes "db_requests b r = None"
  shows "owner (enlisted b r q) = (owner b)(r \<mapsto> (dq_handle q, dq_probe q))" "tid (enlisted b r q) = (tid b)(r := rq_trans_id q)"
    "hdl (enlisted b r q) = (hdl b)(r := dq_handle q)" "sreq (enlisted b r q) = (sreq b)(r \<mapsto> static_req q)"
  by (auto simp: owner_def tid_def hdl_def sreq_def static_req_def enlisted_fields fun_eq_iff)

lemma enlisted_lists_ok:
  assumes ok: "lists_ok b" and n: "newcomer b r q"
  shows "lists_ok (enlisted b r q)"
proof -
  let ?b = "enlisted b r q"
  have fresh: "db_requests b r = None" using n by (simp add: newcomer_def)
  note l = enlisted_lists [OF ok, of r q] and v = enlisted_views [OF fresh, of q] and f = enlisted_fields [of b r q]
  have r: "r \<notin> set (live b)" using live_requests(1) [OF ok, of r] fresh by auto
  have dist: "distinct (live b)" using ok by (simp add: lists_ok_def)
  have "distinct (live ?b)" using mset_eq_imp_distinct_iff [of "live ?b" "r # live b"] l(1) dist r by simp
  moreover have "(x \<in> set (live ?b)) = (sreq ?b x \<noteq> None)" for x
    using ok unfolding l(2) v(4) lists_ok_def by (cases "x = r") simp_all
  moreover have "2 \<le> length m \<and> dns_type y" if "sreq ?b x = Some (t, m, k, y, h, p)" for x t m k y h p
  proof (cases "x = r")
    case True
    then show ?thesis using that n by (auto simp: v static_req_def newcomer_def)
  next
    case False
    then have "sreq b x = Some (t, m, k, y, h, p)" using that by (simp add: v)
    then show ?thesis using ok unfolding lists_ok_def by blast
  qed
  moreover have "inj_on (tid ?b) (set (inflight ?b))"
  proof (cases "dq_ns q")
    case None
    have "inj_on (tid b) (set (inflight b))" using ok by (simp add: lists_ok_def)
    then show ?thesis using r None unfolding v l(3) by (subst inj_on_cong [of _ _ "tid b"]) (auto simp: live_def)
  next
    case (Some s)
    have "inj_on (tid b) (set (inflight b))" using ok by (simp add: lists_ok_def)
    then have "inj_on ((tid b)(r := rq_trans_id q)) (set (inflight b))" using n Some by (simp add: newcomer_def inj_on_fun_updI)
    then show ?thesis using r n Some by (auto simp: v l(3) newcomer_def live_def)
  qed
  moreover have "REQ_HEAD ?b (tid ?b x) = j \<and> tid ?b x \<noteq> 0xffff" if j: "j < length (db_req_heads ?b)" "x \<in> set (db_req_heads ?b ! j)" for j x
  proof -
    have jb: "j < length (db_req_heads b)" using j(1) f by simp
    have notr: "r \<notin> set (db_req_heads b ! j)" using r jb nth_mem [of j "db_req_heads b"] by (auto simp: live_def inflight_def)
    show ?thesis
    proof (cases "x = r")
      case True
      then have "dq_ns q \<noteq> None \<and> j = REQ_HEAD b (rq_trans_id q)"
        using j(2) notr jb by (cases "j = REQ_HEAD b (rq_trans_id q)") (auto simp: enlisted_def Let_def split: if_splits)
      then show ?thesis using True n by (auto simp: v f newcomer_def)
    next
      case False
      then have "x \<in> set (db_req_heads b ! j)"
        using j(2) jb by (cases "j = REQ_HEAD b (rq_trans_id q)") (auto simp: enlisted_def Let_def split: if_splits)
      then show ?thesis using False jb ok by (simp add: v f lists_ok_def)
    qed
  qed
  moreover have "db_req_heads ?b \<noteq> []" using ok f(9) by (auto simp: lists_ok_def)
  ultimately show ?thesis using l(4,5) unfolding lists_ok_def by blast
qed

lemma enlisted_ok:
  assumes inv: "client_inv {} Y b" and n: "newcomer b r q" and y: "\<And>s. s \<in> Y \<Longrightarrow> sprobe b s = Some (Some (dq_handle q)) \<and> dq_probe q = Some s"
  shows "client_inv {} {} (enlisted b r q)" "owed (enlisted b r q) = insert (dq_handle q, dq_probe q) (owed b)" "\<And>p. (dq_handle q, p) \<notin> owed b"
proof -
  let ?b = "enlisted b r q"
  have ok: "lists_ok b" "handles_ok {} b" "deferred_ok {} b" "probes_ok Y b" "servers_ok b" "assigned b" using inv by (simp_all add: client_inv_def)
  have fresh: "db_requests b r = None" "\<forall>x \<in> set (live b). hdl b x \<noteq> dq_handle q" "dq_handle q \<notin> rc_handle ` set (db_deferred b)"
    using n by (simp_all add: newcomer_def)
  note l = enlisted_lists [OF ok(1), of r q] and v = enlisted_views [OF fresh(1), of q] and f = enlisted_fields [of b r q]
  have r: "r \<notin> set (live b)" using live_requests(1) [OF ok(1), of r] fresh by auto
  have "handles_ok {} ?b"
    unfolding handles_ok_def
  proof (intro conjI ballI allI impI)
    fix x
    assume "x \<in> set (live ?b)"
    then consider "x = r" | "x \<in> set (live b)" "x \<noteq> r" using l(2) by blast
    then show "\<exists>h. db_handles ?b (hdl ?b x) = Some h \<and> eh_current_req h = Some x \<and> (eh_pending_cb h \<longleftrightarrow> x \<in> {})"
    proof cases
      case 2
      then show ?thesis using fresh(2) live_handle [OF ok(2) 2(1)] by (simp add: v f) metis
    qed (simp add: v f)
  next
    fix a h x
    assume "db_handles ?b a = Some h" "eh_current_req h = Some x"
    then have "a = dq_handle q \<and> x = r \<or> x \<in> set (live b) \<and> hdl b x = a"
      using handle_live [OF ok(2), of a h x] by (cases "a = dq_handle q") (auto simp: f(2))
    then show "x \<in> set (live ?b)" "hdl ?b x = a" using r unfolding l(2) v(3) by auto
  qed
  moreover have "deferred_ok {} ?b"
    unfolding deferred_ok_def f
  proof (intro conjI ballI)
    show "distinct (map rc_handle (db_deferred b))" using ok(3) by (simp add: deferred_ok_def)
    show "dns_type (rc_type cb)" if "cb \<in> set (db_deferred b)" for cb using ok(3) that by (simp add: deferred_ok_def)
    fix cb
    assume cb: "cb \<in> set (db_deferred b)"
    then have "rc_handle cb \<noteq> dq_handle q" using fresh(3) by (metis imageI)
    then show "\<exists>h. ((db_handles b)(dq_handle q \<mapsto> \<lparr>eh_current_req = Some r, eh_pending_cb = False\<rparr>)) (rc_handle cb) = Some h \<and>
        eh_pending_cb h \<and> (\<forall>x. eh_current_req h = Some x \<longrightarrow> x \<in> {})"
      using ok(3) cb by (auto simp: deferred_ok_def)
  qed
  moreover have "probes_ok {} ?b"
    unfolding probes_ok_def
  proof (intro conjI allI impI ballI)
    fix s h
    assume s: "sprobe ?b s = Some (Some h)"
    show "(\<exists>x \<in> set (live ?b). owner ?b x = Some (h, Some s)) \<or> probe_answered ?b h s"
    proof (cases "s \<in> Y")
      case True
      then show ?thesis using y [OF True] s by (auto simp: f l(2) v)
    next
      case False
      then have "(\<exists>x \<in> set (live b). owner b x = Some (h, Some s)) \<or> probe_answered b h s"
        using ok(4) s unfolding probes_ok_def f by blast
      then show ?thesis using r by (auto simp: l(2) v probe_answered_def f)
    qed
  next
    fix x h s
    assume "owner ?b x = Some (h, Some s)"
    then show "sprobe ?b s \<noteq> None" using ok(4) n unfolding probes_ok_def f v newcomer_def by (auto split: if_splits)
  next
    fix cb s
    assume "cb \<in> set (db_deferred ?b)" "rc_probe cb = Some s"
    then show "sprobe ?b s \<noteq> None" using ok(4) unfolding probes_ok_def f by blast
  qed
  moreover have "servers_ok ?b" using ok(5) by (simp add: servers_ok_def f)
  moreover have "assigned ?b" using ok(6) n r unfolding assigned_def l(3) f newcomer_def by (auto simp: live_def)
  ultimately show "client_inv {} {} ?b" using enlisted_lists_ok [OF ok(1) n] by (simp add: client_inv_def)
  show "owed ?b = insert (dq_handle q, dq_probe q) (owed b)" using r by (auto simp: owed_def f l(2) v split: if_splits)
  show "(dq_handle q, p) \<notin> owed b" for p
    using fresh(2,3) by (auto simp: owed_def rc_owner_def hdl_def image_iff split: option.splits)
qed


lemma enlisted_length:
  assumes "client_inv X Y b" "calm (enlisted b r q) b'"
  shows "length (live b') = length (live b) + 1"
proof -
  have "live b' = live (enlisted b r q)" using assms(2) quiet_eqs(2) by (auto simp: calm_def)
  moreover have "size (mset (live (enlisted b r q))) = size (add_mset r (mset (live b)))" using assms(1) enlisted_lists(1) by (simp add: client_inv_def)
  ultimately show ?thesis by simp
qed

section \<open>Random case\<close>

text \<open>Changing the case of letters moves no dot and adds no zero, so the name keeps its labels.\<close>

definition same_shape :: "byte list \<Rightarrow> byte list \<Rightarrow> bool" where
  "same_shape = list_all2 (\<lambda>x y. (x = dot \<longleftrightarrow> y = dot) \<and> (x = 0 \<longleftrightarrow> y = 0))"

lemma split_dots_Cons:
  "split_dots [] = [[]]"
  "split_dots (c # cs) = (if c = dot then [] # split_dots cs else (c # hd (split_dots cs)) # tl (split_dots cs))"
proof -
  show "split_dots [] = [[]]" by (simp add: split_dots.simps)
  show "split_dots (c # cs) = (if c = dot then [] # split_dots cs else (c # hd (split_dots cs)) # tl (split_dots cs))"
    by (subst split_dots.simps, cases "c = dot") (simp_all add: Let_def split_dots.simps [of cs] split: list.splits)
qed

lemma same_shape_split:
  assumes "same_shape a b"
  shows "map length (split_dots a) = map length (split_dots b)"
  using assms unfolding same_shape_def
proof (induction rule: list_all2_induct)
  case (Cons x xs y ys)
  have "split_dots xs \<noteq> []" "split_dots ys \<noteq> []" by simp_all
  then show ?case using Cons by (cases "split_dots xs"; cases "split_dots ys") (auto simp: split_dots_Cons)
qed simp

lemma same_shape_wire:
  assumes "same_shape a b" "wire_name a"
  shows "wire_name b"
proof -
  have len: "length a = length b" using assms(1) by (simp add: same_shape_def list_all2_lengthD)
  have "map length (labels_of a) = map length (labels_of b)" using same_shape_split [OF assms(1)] len by (auto simp: labels_of_def)
  then have "length ` set (labels_of a) = length ` set (labels_of b)" by (metis list.set_map)
  moreover have "0 \<in> set a \<longleftrightarrow> 0 \<in> set b" using assms(1) unfolding same_shape_def list_all2_conv_all_nth in_set_conv_nth by metis
  ultimately show ?thesis
    using assms(2) len unfolding wire_name_def plain_name_def list_all_iff
    by (metis (no_types, lifting) image_iff length_0_conv)
qed

lemma alpha_bit:
  assumes "EVUTIL_ISALPHA c"
  shows "bit c 6"
proof -
  have "65 \<le> unat c" "unat c \<le> 122" using assms by (auto simp: EVUTIL_ISALPHA_def word_le_nat_alt)
  then have "unat c div 64 = 1" by simp
  then have "bit (unat c) 6" by (simp add: bit_iff_odd)
  then show ?thesis by (simp add: bit_unsigned_iff)
qed

lemma case_shape:
  assumes "EVUTIL_ISALPHA c"
  shows "c OR 0x20 \<noteq> dot" "c OR 0x20 \<noteq> 0" "c AND NOT 0x20 \<noteq> dot" "c AND NOT 0x20 \<noteq> 0" "c \<noteq> dot" "c \<noteq> 0"
proof -
  have off: "\<not> bit dot 6" "\<not> bit (0 :: byte) 6" "\<not> bit (0x20 :: byte) 6" by simp_all
  have on: "bit (c OR 0x20) 6" "bit (c AND NOT 0x20) 6"
    using alpha_bit [OF assms] off(3) by (simp_all add: bit_or_iff bit_and_iff bit_not_iff)
  show "c OR 0x20 \<noteq> dot" "c OR 0x20 \<noteq> 0" "c AND NOT 0x20 \<noteq> dot" "c AND NOT 0x20 \<noteq> 0" "c \<noteq> dot" "c \<noteq> 0"
    using on alpha_bit [OF assms] off(1,2) by metis+
qed

lemma random_case_shape: "same_shape name (random_case bits name)"
  unfolding same_shape_def list_all2_conv_all_nth random_case_def
  using case_shape by (auto simp: nth_enumerate_eq)

lemma random_case_wire: "wire_name name \<Longrightarrow> wire_name (random_case bits name)" "length (random_case bits name) = length name"
  using same_shape_wire [OF random_case_shape] by blast (simp add: random_case_def)


section \<open>New requests\<close>

definition idle_handle :: evdns_request where
  "idle_handle = \<lparr>eh_current_req = None, eh_pending_cb = False\<rparr>"

lemma handle_unused:
  assumes "client_inv X Y b" "db_handles b h = None"
  shows "\<forall>x \<in> set (live b). hdl b x \<noteq> h" "h \<notin> rc_handle ` set (db_deferred b)"
proof -
  have ok: "handles_ok X b" "deferred_ok X b" using assms(1) by (simp_all add: client_inv_def)
  show "\<forall>x \<in> set (live b). hdl b x \<noteq> h" using live_handle [OF ok(1)] assms(2) by (metis option.distinct(1))
  show "h \<notin> rc_handle ` set (db_deferred b)" using ok(2) assms(2) unfolding deferred_ok_def by (metis (no_types, lifting) imageE option.distinct(1))
qed

text \<open>Handles no request or callback refers to come and go.\<close>

lemma handle_set:
  assumes inv: "client_inv X Y b" and h: "\<forall>x \<in> set (live b). hdl b x \<noteq> h" "h \<notin> rc_handle ` set (db_deferred b)"
    and v: "\<And>hh. v = Some hh \<Longrightarrow> eh_current_req hh = None"
  shows "client_inv X Y (b\<lparr>db_handles := (db_handles b)(h := v)\<rparr>)" "owed (b\<lparr>db_handles := (db_handles b)(h := v)\<rparr>) = owed b"
    "live (b\<lparr>db_handles := (db_handles b)(h := v)\<rparr>) = live b" "hdl (b\<lparr>db_handles := (db_handles b)(h := v)\<rparr>) = hdl b"
    "owner (b\<lparr>db_handles := (db_handles b)(h := v)\<rparr>) = owner b"
proof -
  let ?b = "b\<lparr>db_handles := (db_handles b)(h := v)\<rparr>"
  have ok: "lists_ok b" "handles_ok X b" "deferred_ok X b" "probes_ok Y b" "servers_ok b" "assigned b" using inv by (simp_all add: client_inv_def)
  have e: "inflight ?b = inflight b" "live ?b = live b" "sreq ?b = sreq b" "owner ?b = owner b" "tid ?b = tid b" "hdl ?b = hdl b" "REQ_HEAD ?b = REQ_HEAD b"
    "sprobe ?b = sprobe b" "good_ns ?b = good_ns b"
    by (simp_all add: inflight_def live_def sreq_def owner_def tid_def hdl_def REQ_HEAD_def sprobe_def good_ns_def fun_eq_iff)
  show "live ?b = live b" "hdl ?b = hdl b" "owner ?b = owner b" "owed ?b = owed b" using e by (simp_all add: owed_def)
  have "handles_ok X ?b"
    unfolding handles_ok_def e
  proof (intro conjI ballI allI impI)
    fix x
    assume x: "x \<in> set (live b)"
    then show "\<exists>a. db_handles ?b (hdl b x) = Some a \<and> eh_current_req a = Some x \<and> (eh_pending_cb a \<longleftrightarrow> x \<in> X)"
      using h(1) live_handle [OF ok(2) x] by simp metis
  next
    fix a hh x
    assume a: "db_handles ?b a = Some hh" "eh_current_req hh = Some x"
    then have "db_handles b a = Some hh" using v by (cases "a = h") auto
    then show "x \<in> set (live b)" "hdl b x = a" using handle_live [OF ok(2)] a(2) by auto
  qed
  moreover have "deferred_ok X ?b"
    unfolding deferred_ok_def
  proof (intro conjI ballI)
    show "distinct (map rc_handle (db_deferred ?b))" using ok(3) by (simp add: deferred_ok_def)
    show "dns_type (rc_type cb)" if "cb \<in> set (db_deferred ?b)" for cb using ok(3) that by (simp add: deferred_ok_def)
    fix cb
    assume cb: "cb \<in> set (db_deferred ?b)"
    then have "rc_handle cb \<noteq> h" using h(2) by auto
    then show "\<exists>a. db_handles ?b (rc_handle cb) = Some a \<and> eh_pending_cb a \<and> (\<forall>r. eh_current_req a = Some r \<longrightarrow> r \<in> X)"
      using ok(3) cb by (simp add: deferred_ok_def)
  qed
  moreover have "lists_ok ?b" "probes_ok Y ?b" "servers_ok ?b" "assigned ?b"
    using ok by (simp_all add: lists_ok_def probes_ok_def probe_answered_def servers_ok_def assigned_def e)
  ultimately show "client_inv X Y ?b" by (simp add: client_inv_def)
qed

lemma calm_calls: "servers_ok b \<Longrightarrow> assigned b \<Longrightarrow> calm b (b\<lparr>db_calls := n\<rparr>)"
  by (simp add: calm_def quiet_def servers_ok_def assigned_def no_better_def good_ns_def sreq_def sprobe_def inflight_def fun_eq_iff)

lemma request_new_ok:
  assumes env: "env_ok env" and inv: "client_inv X Y b" and room: "length (inflight b) < 65535" and name: "wire_name name"
  shows "\<exists>b3 q. request_new env b h r type name probe =
      Some (True, upd_handle (b3\<lparr>db_requests := (db_requests b)(r \<mapsto> q)\<rparr>) h (\<lambda>h. h\<lparr>eh_current_req := Some r\<rparr>)) \<and>
    calm b b3 \<and> db_requests b3 = db_requests b \<and> dq_handle q = h \<and> dq_probe q = probe \<and> 2 \<le> length (rq_request q) \<and> rq_request_type q = type \<and>
    (\<forall>s. dq_ns q = Some s \<longrightarrow> s \<in> set (db_servers b) \<and> rq_trans_id q \<noteq> 0xffff \<and> rq_trans_id q \<notin> tid b ` set (inflight b))"
proof -
  have ok: "lists_ok b" "servers_ok b" "assigned b" using inv by (simp_all add: client_inv_def)
  define go where "go \<longleftrightarrow> db_requests_inflight b < db_max_requests_inflight b"
  obtain t0 n0 where t0: "transaction_id_pick env b = Some (t0, b\<lparr>db_calls := n0\<rparr>)" "t0 \<noteq> 0xffff" "t0 \<notin> tid b ` set (inflight b)"
    using transaction_id_pick_ok [OF env heads_ok_lists [OF ok(1)] room] by metis
  define t where "t = (if go then t0 else 0xffff)"
  define b1 where "b1 = (if go then b\<lparr>db_calls := n0\<rparr> else b)"
  have pick: "(if go then transaction_id_pick env b else Some (0xffff, b)) = Some (t, b1)" using t0(1) by (simp add: t_def b1_def)
  have c1: "calm b b1" using calm_calls [OF ok(2,3), of n0] ok by (simp add: b1_def calm_def)
  define b2 where "b2 = tick b1"
  have c2: "calm b b2" using c1 calm_tick [of b1] calm_trans [OF c1] by (simp add: b2_def calm_def)
  define name1 where "name1 = (if db_randomize_case b2 then random_case (de_bits env (db_calls b2)) name else name)"
  have w1: "wire_name name1" "length name1 = length name" using name random_case_wire by (auto simp: name1_def)
  define mem where "mem = take (evdns_request_len (length name)) (de_memory env (db_calls b1))"
  have len: "length name < 256" "evdns_request_len (length name) \<le> 512" using name by (simp_all add: wire_name_def evdns_request_len_def)
  moreover have "512 \<le> length (de_memory env (db_calls b1))" using env by (simp add: env_ok_def)
  ultimately have lm: "length mem = evdns_request_len (length name)" by (simp add: mem_def)
  have "evdns_request_len (length name1) \<le> evdns_request_len (length name)" "evdns_request_len (length name) \<le> length mem"
    "evdns_request_len (length name) \<le> 16384" using w1(2) lm len(2) by simp_all
  then obtain n m where m: "evdns_request_data_build name1 t (of_int type) (of_int CLASS_INET) mem (evdns_request_len (length name)) = Some (int n, m)"
      "length m = length mem"
    using query_built [OF w1(1)] by metis
  have i2: "servers_ok b2" "assigned b2" using c2 by (simp_all add: calm_def)
  obtain ns0 b30 where p: "nameserver_pick b2 = Some (ns0, b30)" "calm b2 b30" "db_requests b30 = db_requests b2"
      "\<And>s. ns0 = Some s \<Longrightarrow> s \<in> set (db_servers b2)"
    using nameserver_pick_ok [OF i2] by metis
  define ns where "ns = (if go then ns0 else None)"
  define b3 where "b3 = (if go then b30 else b2)"
  have pick2: "(if go then nameserver_pick b2 else Some (None, b2)) = Some (ns, b3)" using p(1) by (simp add: ns_def b3_def)
  have c3: "calm b b3" using c2 calm_trans [OF c2 p(2)] by (simp add: b3_def)
  have rq: "db_requests b3 = db_requests b" using p(3) by (simp add: b3_def b2_def b1_def)
  define q where "q = \<lparr>rq_trans_id = t, rq_request = m, rq_request_len = n, rq_request_type = type, rq_put_cname = None,
    dq_reissue_count = 0, dq_tx_count = 0, dq_ns = ns, dq_timeout = False, dq_transmit_me = False, dq_handle = h, dq_probe = probe\<rparr>"
  have c: "(\<not> de_alloc env (db_calls b1) \<or> 256 \<le> length name) = False" "(int n < 0) = False" using env len(1) by (simp_all add: env_ok_def)
  have "request_new env b h r type name probe =
      Some (True, upd_handle (b3\<lparr>db_requests := (db_requests b3)(r \<mapsto> q)\<rparr>) h (\<lambda>h. h\<lparr>eh_current_req := Some r\<rparr>))"
    by (simp only: request_new_def go_def [symmetric] Let_def pick bind.bind_lunit prod.case c if_False
      b2_def [symmetric] mem_def [symmetric] name1_def [symmetric] m(1) pick2 nat_int q_def [symmetric])
  moreover have "2 \<le> length (rq_request q)" using m(2) lm by (simp add: q_def evdns_request_len_def)
  moreover have "s \<in> set (db_servers b) \<and> rq_trans_id q \<noteq> 0xffff \<and> rq_trans_id q \<notin> tid b ` set (inflight b)" if "dq_ns q = Some s" for s
    using that t0(2,3) p(4) c2 by (simp add: q_def ns_def t_def calm_def quiet_def split: if_splits)
  moreover have "dq_handle q = h" "dq_probe q = probe" "rq_request_type q = type" by (simp_all add: q_def)
  ultimately show ?thesis using c3 rq by (intro exI [of _ b3] exI [of _ q]) simp
qed

lemma submit_ok:
  assumes inv: "client_inv {} Y b" and n: "newcomer b r q" and h: "db_handles b (dq_handle q) = Some idle_handle"
    and y: "\<And>s. s \<in> Y \<Longrightarrow> sprobe b s = Some (Some (dq_handle q)) \<and> dq_probe q = Some s"
  shows "\<exists>b'. request_submit env (upd_handle (b\<lparr>db_requests := (db_requests b)(r \<mapsto> q)\<rparr>) (dq_handle q) (\<lambda>h. h\<lparr>eh_current_req := Some r\<rparr>)) r = Some b' \<and>
    calm (enlisted b r q) b'"
proof -
  let ?b = "upd_handle (b\<lparr>db_requests := (db_requests b)(r \<mapsto> q)\<rparr>) (dq_handle q) (\<lambda>h. h\<lparr>eh_current_req := Some r\<rparr>)"
  note a = enlisted_ok [OF inv n y]
  have valid: "valid_request ?b r = Some q" using h by (simp add: valid_request_def)
  have ok: "lists_ok b" using inv by (simp add: client_inv_def)
  have i: "REQ_HEAD b (rq_trans_id q) < length (db_req_heads b)" using ok by (simp add: REQ_HEAD_def lists_ok_def)
  have hh: "db_handles ?b = db_handles (enlisted b r q)" using h by (simp add: enlisted_fields idle_handle_def)
  show ?thesis
  proof (cases "dq_ns q")
    case None
    then have "request_submit env ?b r = Some (enlisted b r q)"
      using valid h by (simp add: request_submit_def evdns_request_insert_def enlisted_def upd_handle_def idle_handle_def)
    moreover have "calm (enlisted b r q) (enlisted b r q)" using a(1) by (simp add: client_inv_def calm_def)
    ultimately show ?thesis by blast
  next
    case (Some s)
    have "r \<in> set (inflight (enlisted b r q))" using enlisted_lists(3) [OF ok, of r q] Some by simp
    then obtain x b' where "evdns_request_transmit env (enlisted b r q) r = Some (x, b')" "calm (enlisted b r q) b'" using transmit_ok [OF a(1)] by blast
    moreover then have "request_submit env ?b r = Some b'"
      using Some valid h i by (simp add: request_submit_def evdns_request_insert_def enlisted_def upd_handle_def idle_handle_def REQ_HEAD_def)
    ultimately show ?thesis by blast
  qed
qed


text \<open>A new handle and the request that is made for it.\<close>

lemma request_made:
  assumes env: "env_ok env" and inv: "client_inv {} {} b" and room: "length (live b) < 65535" and name: "wire_name name" "dns_type type"
    and fresh: "db_requests b r = None" "db_handles b h = None"
  obtains b3 q where "request_new env ((tick b)\<lparr>db_handles := (db_handles b)(h \<mapsto> idle_handle)\<rparr>) h r type name probe =
      Some (True, upd_handle (b3\<lparr>db_requests := (db_requests b3)(r \<mapsto> q)\<rparr>) h (\<lambda>h. h\<lparr>eh_current_req := Some r\<rparr>))"
    "client_inv {} {} b3" "dq_handle q = h" "dq_probe q = probe" "db_handles b3 (dq_handle q) = Some idle_handle"
    "(\<forall>s. probe = Some s \<longrightarrow> s \<in> set (db_servers b)) \<Longrightarrow> newcomer b3 r q" "owed b3 = owed b" "length (live b3) = length (live b)"
    "db_deferred b3 = db_deferred b" "db_delivered b3 = db_delivered b" "set (db_servers b3) = set (db_servers b)" "db_requests b3 = db_requests b"
proof -
  have ok: "servers_ok b" "assigned b" using inv by (simp_all add: client_inv_def)
  have ct: "calm b (tick b)" using ok by (rule calm_tick)
  have it: "client_inv {} {} (tick b)" by (rule calm_inv [OF inv ct])
  define b1 where "b1 = (tick b)\<lparr>db_handles := (db_handles (tick b))(h := Some idle_handle)\<rparr>"
  have h: "db_handles (tick b) h = None" using fresh by simp
  note hs = handle_set [OF it handle_unused [OF it h], of "Some idle_handle", folded b1_def]
  have i1: "client_inv {} {} b1" "owed b1 = owed b" "live b1 = live b" "hdl b1 = hdl b"
    using hs quiet_eqs(2,4) [OF quiet_tick, of b] keeps_calm [OF ct] by (simp_all add: idle_handle_def keeps_def)
  have "length (inflight b1) < 65535" using room i1(3) by (simp add: live_def b1_def)
  then obtain b3 q where n: "request_new env b1 h r type name probe =
      Some (True, upd_handle (b3\<lparr>db_requests := (db_requests b1)(r \<mapsto> q)\<rparr>) h (\<lambda>h. h\<lparr>eh_current_req := Some r\<rparr>))"
    "calm b1 b3" "db_requests b3 = db_requests b1" "dq_handle q = h" "dq_probe q = probe" "2 \<le> length (rq_request q) \<and> rq_request_type q = type"
    "\<forall>s. dq_ns q = Some s \<longrightarrow> s \<in> set (db_servers b1) \<and> rq_trans_id q \<noteq> 0xffff \<and> rq_trans_id q \<notin> tid b1 ` set (inflight b1)"
    using request_new_ok [OF env i1(1) _ name(1), of h r type probe] by metis
  have qt: "quiet b1 b3" using n(2) by (simp add: calm_def)
  note e3 = quiet_eqs(1-4) [OF qt]
  have d3: "db_handles b3 = db_handles b1" "db_deferred b3 = db_deferred b" "db_delivered b3 = db_delivered b" "set (db_servers b3) = set (db_servers b)"
    "sprobe b3 = sprobe b1" using qt by (simp_all add: quiet_def b1_def)
  have i3: "client_inv {} {} b3" by (rule calm_inv [OF i1(1) n(2)])
  have sv: "sprobe b3 s \<noteq> None" if "s \<in> set (db_servers b)" for s
    using that i3 d3(4) by (auto simp: client_inv_def servers_ok_def sprobe_def)
  show ?thesis
  proof (rule that [of b3 q])
    show "newcomer b3 r q" if "\<forall>s. probe = Some s \<longrightarrow> s \<in> set (db_servers b)"
      using that name(2) sv handle_unused [OF inv fresh(2)] fresh(1) n(3-7) e3 i1(3,4) d3 by (simp add: newcomer_def b1_def)
    show "owed b3 = owed b" using i1(2) keeps_calm [OF n(2)] by (simp add: keeps_def)
    show "length (live b3) = length (live b)" using e3 i1(3) by simp
  qed (use n i3 d3 in \<open>simp_all add: b1_def\<close>)
qed

lemma resolve_ok:
  assumes env: "env_ok env" and inv: "client_inv {} {} b" and room: "length (live b) < 65535" and name: "wire_name name" "dns_type type"
    and fresh: "db_requests b r = None" "db_handles b h = None"
  shows "\<exists>b'. evdns_base_resolve env b h r type name = Some (True, b') \<and> client_inv {} {} b' \<and>
    owed b' = insert (h, None) (owed b) \<and> (\<forall>p. (h, p) \<notin> owed b) \<and> db_deferred b' = db_deferred b \<and> db_delivered b' = db_delivered b \<and>
    length (live b') = length (live b) + 1"
proof -
  obtain b3 q where n: "request_new env ((tick b)\<lparr>db_handles := (db_handles b)(h \<mapsto> idle_handle)\<rparr>) h r type name None =
      Some (True, upd_handle (b3\<lparr>db_requests := (db_requests b3)(r \<mapsto> q)\<rparr>) h (\<lambda>h. h\<lparr>eh_current_req := Some r\<rparr>))"
    "client_inv {} {} b3" "dq_handle q = h" "db_handles b3 (dq_handle q) = Some idle_handle" "newcomer b3 r q" "owed b3 = owed b"
    "dq_probe q = None" "length (live b3) = length (live b)" "db_deferred b3 = db_deferred b" "db_delivered b3 = db_delivered b"
    using request_made [OF env inv room name fresh, of None] by (metis option.distinct(1))
  obtain b' where b': "request_submit env (upd_handle (b3\<lparr>db_requests := (db_requests b3)(r \<mapsto> q)\<rparr>) h (\<lambda>h. h\<lparr>eh_current_req := Some r\<rparr>)) r = Some b'"
      "calm (enlisted b3 r q) b'"
    using submit_ok [OF n(2,5,4), of env] n(3) by auto
  note a = enlisted_ok [OF n(2,5), simplified]
  have "evdns_base_resolve env b h r type name = Some (True, b')"
    using env n(1) b'(1) by (simp add: evdns_base_resolve_def env_ok_def idle_handle_def [symmetric] Let_def)
  moreover have "owed b' = owed (enlisted b3 r q)" "db_deferred b' = db_deferred b" "db_delivered b' = db_delivered b"
    using keeps_calm [OF b'(2)] b'(2) n by (simp_all add: keeps_def calm_def quiet_def enlisted_fields)
  moreover have "length (live b') = length (live b) + 1" by (rule enlisted_length [OF n(2) b'(2), unfolded n(8)])
  ultimately show ?thesis using calm_inv [OF a(1) b'(2)] a(2,3) n(3,6,7) by auto
qed

section \<open>Probes\<close>

lemma google_com_wire: "wire_name google_com" "dns_type TYPE_A"
  by code_simp+

lemma send_probe_ok:
  assumes env: "env_ok env" and inv: "client_inv {} {} b" and room: "length (live b) < 65535" and s: "s \<in> set (db_servers b)"
    and fresh: "db_requests b r = None" "db_handles b h = None"
  shows "\<exists>b'. nameserver_send_probe env b s h r = Some b' \<and> client_inv {} {} b' \<and>
    owed b' = insert (h, Some s) (owed b) \<and> (\<forall>p. (h, p) \<notin> owed b) \<and> db_deferred b' = db_deferred b \<and> db_delivered b' = db_delivered b \<and>
    length (live b') = length (live b) + 1"
proof -
  obtain b3 q where n: "request_new env ((tick b)\<lparr>db_handles := (db_handles b)(h \<mapsto> idle_handle)\<rparr>) h r TYPE_A google_com (Some s) =
      Some (True, upd_handle (b3\<lparr>db_requests := (db_requests b3)(r \<mapsto> q)\<rparr>) h (\<lambda>h. h\<lparr>eh_current_req := Some r\<rparr>))"
    "client_inv {} {} b3" "dq_handle q = h" "dq_probe q = Some s" "db_handles b3 (dq_handle q) = Some idle_handle" "newcomer b3 r q" "owed b3 = owed b"
    "length (live b3) = length (live b)" "db_deferred b3 = db_deferred b" "db_delivered b3 = db_delivered b" "set (db_servers b3) = set (db_servers b)"
    "db_requests b3 = db_requests b"
    using request_made [OF env inv room google_com_wire fresh, of "Some s"] s by (metis option.inject)
  define b4 where "b4 = upd_ns b3 s (\<lambda>ns. ns\<lparr>ns_probe_request := Some h\<rparr>)"
  have i4: "client_inv {} {s} b4" and k4: "keeps {} b3 b4" using probe_changed [OF n(2), of "\<lambda>ns. ns\<lparr>ns_probe_request := Some h\<rparr>" s] by (simp_all add: b4_def)
  have l4: "lists_ok b4" "servers_ok b4" "assigned b4" using i4 by (simp_all add: client_inv_def)
  define new where "new b q = upd_handle (b\<lparr>db_requests := (db_requests b)(r \<mapsto> q)\<rparr>) h (\<lambda>h. h\<lparr>eh_current_req := Some r\<rparr>)" for b q
  have e4: "live b4 = live b3" "inflight b4 = inflight b3" "hdl b4 = hdl b3" "tid b4 = tid b3"
    by (simp_all add: b4_def live_def inflight_def hdl_def owner_def tid_def sreq_def fun_eq_iff)
  have rn: "r \<notin> set (live b4)" using live_requests(1) [OF l4(1), of r] n(6) by (auto simp: newcomer_def b4_def)
  have en: "inflight (new b4 q) = inflight b4" "tid (new b4 q) ` set (inflight b4) = tid b4 ` set (inflight b4)"
    using rn by (auto simp: new_def inflight_def tid_def sreq_def live_def intro!: image_cong)
  have "heads_ok (new b4 q)"
    using heads_ok_lists [OF l4(1)] rn unfolding heads_ok_def
    by (auto simp: new_def tid_def sreq_def REQ_HEAD_def live_def inflight_def dest: nth_mem)
  moreover have "length (inflight (new b4 q)) < 65535" using room n(8) e4(2) en(1) by (simp add: live_def)
  ultimately obtain t k where t: "transaction_id_pick env (new b4 q) = Some (t, (new b4 q)\<lparr>db_calls := k\<rparr>)" "t \<noteq> 0xffff" "t \<notin> tid b4 ` set (inflight b4)"
    using transaction_id_pick_ok [OF env, of "new b4 q"] en by metis
  define m where "m = put (rq_request q) 0 (be16 t)"
  have m: "mem_write (rq_request q) 0 (be16 t) = Some m" "length m = length (rq_request q)"
    using n(6) by (simp_all add: m_def mem_write_put newcomer_def)
  define q' where "q' = q\<lparr>rq_trans_id := t, rq_request := m, dq_ns := Some s\<rparr>"
  define b5 where "b5 = b4\<lparr>db_calls := k\<rparr>"
  have c5: "calm b4 b5" unfolding b5_def by (rule calm_calls [OF l4(2,3)])
  have i5: "client_inv {} {s} b5" by (rule calm_inv [OF i4 c5])
  have q5: "quiet b4 b5" using c5 by (simp add: calm_def)
  note e5 = quiet_eqs(1-4) [OF q5]
  have nc: "newcomer b5 r q'"
    using n(6) t(2,3) s m(2) n(11) e4 e5 unfolding newcomer_def q'_def
    by (simp add: b5_def b4_def sprobe_def n(4))
  have h5: "db_handles b5 (dq_handle q') = Some idle_handle" using n(5) by (simp add: b5_def b4_def q'_def)
  have y5: "sprobe b5 x = Some (Some (dq_handle q')) \<and> dq_probe q' = Some x" if "x \<in> {s}" for x
    using that n(2,3,4,11) s by (auto simp: q'_def b5_def b4_def sprobe_def client_inv_def servers_ok_def)
  obtain b' where b': "request_submit env (new b5 q') r = Some b'" "calm (enlisted b5 r q') b'"
    using submit_ok [OF i5 nc h5 y5, of env] by (auto simp: new_def q'_def n(3))
  note a = enlisted_ok [OF i5 nc y5]
  have s1: "upd_ns (new b3 q) s (\<lambda>ns. ns\<lparr>ns_probe_request := Some h\<rparr>) = new b4 q"
    by (simp add: new_def b4_def upd_ns_def upd_handle_def)
  define b6 where "b6 = upd_req ((new b4 q)\<lparr>db_calls := k\<rparr>) r (\<lambda>req. req\<lparr>rq_trans_id := t, rq_request := m\<rparr>)"
  have s2: "request_trans_id_set ((new b4 q)\<lparr>db_calls := k\<rparr>) r t = Some b6"
    using m(1) by (simp add: request_trans_id_set_def b6_def new_def)
  have s3: "upd_req b6 r (\<lambda>req. req\<lparr>dq_ns := Some s\<rparr>) = new b5 q'"
    by (simp add: b6_def new_def b5_def q'_def upd_req_def upd_handle_def)
  have "nameserver_send_probe env b s h r = Some b'"
    using env n(1) [folded new_def] s1 t(1) s2 s3 b'(1)
    by (simp add: nameserver_send_probe_def env_ok_def idle_handle_def [symmetric] Let_def)
  moreover have "owed b5 = owed b" using keeps_calm [OF c5] k4 n(7) by (simp add: keeps_def)
  moreover have "owed b' = owed (enlisted b5 r q')" "db_deferred b' = db_deferred b" "db_delivered b' = db_delivered b"
    using keeps_calm [OF b'(2)] b'(2) n by (simp_all add: keeps_def calm_def quiet_def enlisted_fields b5_def b4_def)
  moreover have "dq_handle q' = h" "dq_probe q' = Some s" using n(3,4) by (simp_all add: q'_def)
  moreover have "length (live b') = length (live b) + 1"
    using enlisted_length [OF i5 b'(2)] e5(2) e4(1) n(8) by simp
  ultimately show ?thesis using calm_inv [OF a(1) b'(2)] a(2,3) by auto
qed


section \<open>Callbacks\<close>

lemma nameserver_up_idle:
  assumes inv: "client_inv X Y b" and s: "sprobe b s = Some None"
  shows "\<exists>b'. nameserver_up env b s = Some b' \<and> client_inv X Y b' \<and> quiet b b'"
proof -
  have ok: "servers_ok b" "assigned b" using inv by (simp_all add: client_inv_def)
  obtain ns where ns: "db_nameservers b s = Some ns" "ns_probe_request ns = None" using s by (auto simp: sprobe_def)
  show ?thesis
  proof (cases "ns_state ns")
    case True
    then show ?thesis using ns inv by (simp add: nameserver_up_def)
  next
    case False
    define b1 where "b1 = upd_ns b s (\<lambda>ns. ns\<lparr>ns_timeout := False\<rparr>)"
    have c1: "calm b b1" unfolding b1_def using ok by (intro calm_upd_ns) auto
    have ns1: "db_nameservers b1 s = Some (ns\<lparr>ns_timeout := False\<rparr>)" using ns by (simp add: b1_def)
    let ?b = "(upd_ns b1 s (\<lambda>ns. ns\<lparr>ns_state := True, ns_failed_times := 0, ns_timedout := 0\<rparr>))\<lparr>db_good_nameservers := db_good_nameservers b1 + 1\<rparr>"
    have "client_inv X Y ?b \<and> quiet b1 ?b" using False by (intro marked_up [OF calm_inv [OF inv c1] ns1]) auto
    moreover have "nameserver_up env b s = Some ?b" using ns False by (simp add: nameserver_up_def b1_def)
    ultimately show ?thesis using c1 quiet_trans by (auto simp: calm_def)
  qed
qed

lemma probe_failed_ok:
  assumes "client_inv X Y b" "s \<in> set (db_servers b)"
  shows "\<exists>b'. nameserver_probe_failed env b s = Some b' \<and> calm b b'"
proof -
  have ok: "servers_ok b" "assigned b" using assms(1) by (simp_all add: client_inv_def)
  obtain ns where ns: "db_nameservers b s = Some ns" using assms(2) ok(1) by (auto simp: servers_ok_def)
  define b1 where "b1 = upd_ns b s (\<lambda>ns. ns\<lparr>ns_timeout := False\<rparr>)"
  have c1: "calm b b1" unfolding b1_def using ok by (intro calm_upd_ns) auto
  define b2 where "b2 = upd_ns b1 s (\<lambda>ns. ns\<lparr>ns_failed_times := ns_failed_times ns + 1\<rparr>)"
  have c2: "calm b1 b2" unfolding b2_def using c1 by (intro calm_upd_ns) (auto simp: calm_def)
  define b3 where "b3 = (if de_timer env (db_calls b2) then upd_ns b2 s (\<lambda>ns. ns\<lparr>ns_timeout := True\<rparr>) else b2)"
  have "calm b2 (upd_ns b2 s (\<lambda>ns. ns\<lparr>ns_timeout := True\<rparr>))" using c2 by (intro calm_upd_ns) (auto simp: calm_def)
  then have c3: "calm b2 b3" using c2 by (auto simp: b3_def calm_def)
  then have "calm b3 (tick b3)" by (intro calm_tick) (simp_all add: calm_def)
  then have "calm b (tick b3)" using calm_trans [OF calm_trans [OF calm_trans [OF c1 c2] c3]] by blast
  moreover have "nameserver_probe_failed env b s = Some (if ns_state ns then b1 else tick b3)"
    unfolding nameserver_probe_failed_def ns bind.bind_lunit Let_def by (simp only: b1_def [symmetric] b2_def [symmetric] b3_def [symmetric]) simp
  ultimately show ?thesis using c1 by auto
qed

lemma probe_callback_ok:
  assumes inv: "client_inv {} {s} b" and s: "s \<in> set (db_servers b)" and result: "result \<noteq> DNS_ERR_CANCEL"
  shows "\<exists>b'. nameserver_probe_callback env b s result = Some b' \<and> client_inv {} {} b' \<and> db_handles b' = db_handles b \<and>
    db_deferred b' = db_deferred b \<and> db_delivered b' = db_delivered b \<and> live b' = live b \<and> owner b' = owner b"
proof -
  obtain ns where ns: "db_nameservers b s = Some ns" using inv s by (auto simp: client_inv_def servers_ok_def)
  define b1 where "b1 = upd_ns b s (\<lambda>ns. ns\<lparr>ns_probe_request := None\<rparr>)"
  have i1: "client_inv {} {} b1" using probe_cleared [OF inv, of "\<lambda>ns. ns\<lparr>ns_probe_request := None\<rparr>" s] by (simp add: b1_def)
  have e1: "live b1 = live b" "owner b1 = owner b" by (simp_all add: b1_def live_def inflight_def owner_def fun_eq_iff)
  have "\<exists>b'. (if result = 0 \<or> result = 3 then nameserver_up env b1 s else nameserver_probe_failed env b1 s) = Some b' \<and> client_inv {} {} b' \<and> quiet b1 b'"
  proof (cases "result = 0 \<or> result = 3")
    case True
    have "sprobe b1 s = Some None" using ns by (simp add: b1_def sprobe_def)
    then show ?thesis using nameserver_up_idle [OF i1] True by auto
  next
    case False
    have "s \<in> set (db_servers b1)" using s by (simp add: b1_def)
    then obtain b' where "nameserver_probe_failed env b1 s = Some b'" "calm b1 b'" using probe_failed_ok [OF i1] by blast
    then show ?thesis using False calm_inv [OF i1] by (auto simp: calm_def)
  qed
  then obtain b' where b': "(if result = 0 \<or> result = 3 then nameserver_up env b1 s else nameserver_probe_failed env b1 s) = Some b'"
    "client_inv {} {} b'" "quiet b1 b'" by blast
  have "nameserver_probe_callback env b s result = Some b'"
    using result ns b'(1) by (simp add: nameserver_probe_callback_def b1_def [symmetric])
  moreover have "db_handles b' = db_handles b" "db_deferred b' = db_deferred b" "db_delivered b' = db_delivered b"
    using b'(3) by (simp_all add: quiet_def b1_def)
  moreover have "live b' = live b" "owner b' = owner b" using quiet_eqs(2) [OF b'(3)] quiet_owner [OF b'(3)] e1 by simp_all
  ultimately show ?thesis using b'(2) by blast
qed


text \<open>The result a callback reports; a probe whose callback reports a result other than "cancelled" is forgotten by its server.\<close>

definition rc_result :: "reply_callback \<Rightarrow> int" where
  "rc_result cb = (if rc_reply cb \<noteq> None then 0 else rc_err cb)"

definition answers :: "reply_callback \<Rightarrow> nat set" where
  "answers cb = (if rc_result cb = DNS_ERR_CANCEL then {} else set_option (rc_probe cb))"

lemma popped_ok:
  assumes inv: "client_inv {} {} b" and d: "db_deferred b = cb # rest"
  shows "client_inv {} (answers cb) (b\<lparr>db_deferred := rest\<rparr>)"
proof -
  let ?b = "b\<lparr>db_deferred := rest\<rparr>"
  have ok: "lists_ok b" "handles_ok {} b" "deferred_ok {} b" "probes_ok {} b" "servers_ok b" "assigned b" using inv by (simp_all add: client_inv_def)
  have e: "inflight ?b = inflight b" "live ?b = live b" "sreq ?b = sreq b" "owner ?b = owner b" "tid ?b = tid b" "hdl ?b = hdl b" "REQ_HEAD ?b = REQ_HEAD b"
    "sprobe ?b = sprobe b" "good_ns ?b = good_ns b"
    by (simp_all add: inflight_def live_def sreq_def owner_def tid_def hdl_def REQ_HEAD_def sprobe_def good_ns_def fun_eq_iff)
  have "probes_ok (answers cb) ?b"
    unfolding probes_ok_def e
  proof (intro conjI allI impI ballI)
    fix s h
    assume s: "s \<notin> answers cb" "sprobe b s = Some (Some h)"
    then have "(\<exists>r \<in> set (live b). owner b r = Some (h, Some s)) \<or> probe_answered b h s" using ok(4) unfolding probes_ok_def by blast
    moreover have "probe_answered ?b h s" if "probe_answered b h s"
      using that s(1) by (auto simp: probe_answered_def d answers_def rc_result_def DNS_ERR_CANCEL_def split: if_splits)
    ultimately show "(\<exists>r \<in> set (live b). owner b r = Some (h, Some s)) \<or> probe_answered ?b h s" by blast
  next
    fix r h s
    assume "owner b r = Some (h, Some s)"
    then show "sprobe b s \<noteq> None" using ok(4) unfolding probes_ok_def by blast
  next
    fix c s
    assume "c \<in> set (db_deferred ?b)" "rc_probe c = Some s"
    then show "sprobe b s \<noteq> None" using ok(4) d unfolding probes_ok_def by simp
  qed
  moreover have "deferred_ok {} ?b" using ok(3) d by (simp add: deferred_ok_def)
  moreover have "lists_ok ?b" "handles_ok {} ?b" "servers_ok ?b" "assigned ?b"
    using ok by (simp_all add: lists_ok_def handles_ok_def servers_ok_def assigned_def e)
  ultimately show ?thesis by (simp add: client_inv_def)
qed

lemma delivered_inv: "client_inv X Y (b\<lparr>db_delivered := ds\<rparr>) = client_inv X Y b"
proof -
  let ?b = "b\<lparr>db_delivered := ds\<rparr>"
  have e: "inflight ?b = inflight b" "live ?b = live b" "sreq ?b = sreq b" "owner ?b = owner b" "tid ?b = tid b" "hdl ?b = hdl b" "REQ_HEAD ?b = REQ_HEAD b"
    "sprobe ?b = sprobe b" "good_ns ?b = good_ns b"
    by (simp_all add: inflight_def live_def sreq_def owner_def tid_def hdl_def REQ_HEAD_def sprobe_def good_ns_def fun_eq_iff)
  show ?thesis
    by (simp add: client_inv_def lists_ok_def handles_ok_def deferred_ok_def probes_ok_def probe_answered_def servers_ok_def assigned_def e)
qed

lemma run_callback_ok:
  assumes inv: "client_inv {} {} b" and d: "db_deferred b = cb # rest"
  shows "\<exists>b'. reply_run_callback env b = Some b' \<and> client_inv {} {} b' \<and> db_deferred b' = rest \<and> live b' = live b \<and>
    owed b' = owed b - {rc_owner cb} \<and> rc_owner cb \<in> owed b \<and> db_handles b' (rc_handle cb) = None \<and>
    db_delivered b' = db_delivered b @ (if rc_probe cb = None then [cb] else [])"
proof -
  have ok: "handles_ok {} b" "deferred_ok {} b" using inv by (simp_all add: client_inv_def)
  obtain h where h: "db_handles b (rc_handle cb) = Some h" "eh_pending_cb h" using ok(2) d by (auto simp: deferred_ok_def)
  have other: "rc_handle cb \<notin> rc_handle ` set rest" using ok(2) d by (simp add: deferred_ok_def)
  have ty: "rc_type cb = TYPE_A \<or> rc_type cb = TYPE_PTR \<or> rc_type cb = TYPE_AAAA" using ok(2) d by (simp add: deferred_ok_def dns_type_def)
  have un: "\<forall>x \<in> set (live b). hdl b x \<noteq> rc_handle cb" using pending_deferred [OF inv, of cb] d by fastforce
  define b1 where "b1 = b\<lparr>db_deferred := rest\<rparr>"
  have i1: "client_inv {} (answers cb) b1" unfolding b1_def by (rule popped_ok [OF inv d])
  have e1: "live b1 = live b" "owner b1 = owner b" by (simp_all add: b1_def live_def inflight_def owner_def fun_eq_iff)
  have "\<exists>b2. (case rc_probe cb of None \<Rightarrow> Some (b1\<lparr>db_delivered := db_delivered b1 @ [cb]\<rparr>) | Some s \<Rightarrow> nameserver_probe_callback env b1 s (rc_result cb)) = Some b2 \<and>
    client_inv {} {} b2 \<and> db_handles b2 = db_handles b \<and> db_deferred b2 = rest \<and> live b2 = live b \<and> owner b2 = owner b \<and>
    db_delivered b2 = db_delivered b @ (if rc_probe cb = None then [cb] else [])"
  proof (cases "rc_probe cb")
    case None
    let ?b = "b1\<lparr>db_delivered := db_delivered b1 @ [cb]\<rparr>"
    have "answers cb = {}" using None by (simp add: answers_def)
    then have "client_inv {} {} b1" using i1 by simp
    then have "client_inv {} {} ?b" by (simp add: delivered_inv)
    moreover have "live ?b = live b" "owner ?b = owner b" by (simp_all add: b1_def live_def inflight_def owner_def fun_eq_iff)
    ultimately show ?thesis using None by (simp add: b1_def)
  next
    case (Some s)
    show ?thesis
    proof (cases "rc_result cb = DNS_ERR_CANCEL")
      case True
      then show ?thesis using Some i1 e1 by (simp add: answers_def nameserver_probe_callback_def b1_def)
    next
      case False
      have "sprobe b s \<noteq> None" using inv d Some by (auto simp: client_inv_def probes_ok_def)
      then have "s \<in> set (db_servers b1)" using inv by (auto simp: client_inv_def servers_ok_def sprobe_def b1_def)
      then show ?thesis
        using probe_callback_ok [of s b1 "rc_result cb" env] i1 e1 Some False by (auto simp: answers_def b1_def)
    qed
  qed
  then obtain b2 where b2: "(case rc_probe cb of None \<Rightarrow> Some (b1\<lparr>db_delivered := db_delivered b1 @ [cb]\<rparr>)
      | Some s \<Rightarrow> nameserver_probe_callback env b1 s (rc_result cb)) = Some b2"
    "client_inv {} {} b2" "db_handles b2 = db_handles b" "db_deferred b2 = rest" "live b2 = live b" "owner b2 = owner b"
    "db_delivered b2 = db_delivered b @ (if rc_probe cb = None then [cb] else [])" by (elim exE conjE) blast
  let ?b = "b2\<lparr>db_handles := (db_handles b2)(rc_handle cb := None)\<rparr>"
  have run: "reply_run_callback env b = Some ?b"
    unfolding reply_run_callback_def d list.case Let_def b1_def [symmetric] rc_result_def [symmetric] b2(1) using h b2(3) ty by simp
  have un2: "\<forall>x \<in> set (live b2). hdl b2 x \<noteq> rc_handle cb" "rc_handle cb \<notin> rc_handle ` set (db_deferred b2)" using un other b2 by (simp_all add: hdl_def)
  note f = handle_set [OF b2(2) un2, of None, simplified]
  let ?more = "{p. \<exists>x \<in> set (live b). owner b x = Some p} \<union> rc_owner ` set rest"
  have "owed ?b = ?more" using f(2) b2 by (simp add: owed_def)
  moreover have "owed b = insert (rc_owner cb) ?more" by (auto simp: owed_def d)
  moreover have "rc_owner cb \<notin> ?more"
    using un other by (auto simp: rc_owner_def hdl_def image_iff split: option.splits)
  ultimately have "owed ?b = owed b - {rc_owner cb}" "rc_owner cb \<in> owed b" by auto
  then show ?thesis using run f b2 by simp
qed

end
