(* ===== verification/Dns_Client_Run.thy ===== *)
theory Dns_Client_Run
  imports Dns_Client_New
begin

text \<open>
  The DNS client as a whole: the events that reach it (the user's calls, answers, timers, the deferred callbacks) in any order, and
  what holds of every state they lead to.
\<close>

section \<open>Events\<close>

datatype client_event =
    Resolve nat nat int "byte list"
  | Cancel nat
  | Reply "16 word" "16 word" "32 word" "reply option"
  | Timeout nat
  | Probe nat nat nat
  | Writable nat
  | Resume
  | Set_max int
  | Run_callback

text \<open>
  An answer is given to the request in flight that has its transaction id. The numbers of a new handle and request are the
  addresses the allocator returns.
\<close>

fun client_do :: "dns_env \<Rightarrow> evdns_base \<Rightarrow> client_event \<Rightarrow> evdns_base option" where
  "client_do env b (Resolve h r type name) = map_option snd (evdns_base_resolve env b h r type name)"
| "client_do env b (Cancel h) = evdns_cancel_request env b h"
| "client_do env b (Reply trans_id flags ttl reply) =
     (case request_find_from_trans_id b trans_id of None \<Rightarrow> Some b | Some r \<Rightarrow> reply_handle env b r flags ttl reply)"
| "client_do env b (Timeout r) = evdns_request_timeout_callback env b r"
| "client_do env b (Probe s h r) = nameserver_send_probe env b s h r"
| "client_do env b (Writable s) = nameserver_ready_write env b s"
| "client_do env b Resume = evdns_base_resume env b"
| "client_do env b (Set_max n) = map_option snd (evdns_base_set_max_requests_inflight env b n)"
| "client_do env b Run_callback = reply_run_callback env b"

text \<open>
  When an event can happen: the allocator returns unused addresses, the user cancels only requests whose callback has not run,
  timers fire only while they are set. At most 65535 requests are live, as many as there are transaction ids.
\<close>

fun event_ok :: "evdns_base \<Rightarrow> client_event \<Rightarrow> bool" where
  "event_ok b (Resolve h r type name) \<longleftrightarrow> length (live b) < 65535 \<and> (type = TYPE_A \<or> type = TYPE_AAAA) \<and> wire_name name \<and> db_requests b r = None \<and> db_handles b h = None"
| "event_ok b (Cancel h) \<longleftrightarrow> (h, None) \<in> owed b"
| "event_ok b (Reply trans_id flags ttl reply) \<longleftrightarrow> True"
| "event_ok b (Timeout r) \<longleftrightarrow> r \<in> set (inflight b) \<and> (case db_requests b r of None \<Rightarrow> False | Some q \<Rightarrow> dq_timeout q)"
| "event_ok b (Probe s h r) \<longleftrightarrow> length (live b) < 65535 \<and> s \<in> set (db_servers b) \<and> db_requests b r = None \<and> db_handles b h = None"
| "event_ok b (Writable s) \<longleftrightarrow> s \<in> set (db_servers b)"
| "event_ok b Resume \<longleftrightarrow> length (live b) < 65535"
| "event_ok b (Set_max n) \<longleftrightarrow> True"
| "event_ok b Run_callback \<longleftrightarrow> db_deferred b \<noteq> []"

fun issued :: "client_event \<Rightarrow> nat list" where
  "issued (Resolve h r type name) = [h]"
| "issued _ = []"

text \<open>A base with servers and no requests.\<close>

definition client_start :: "evdns_base \<Rightarrow> bool" where
  "client_start b \<longleftrightarrow> db_req_heads b \<noteq> [] \<and> list_all (\<lambda>rs. rs = []) (db_req_heads b) \<and> db_req_waiting b = [] \<and> db_requests_inflight b = 0 \<and>
     db_requests_waiting b = 0 \<and> db_requests b = (\<lambda>_. None) \<and> db_handles b = (\<lambda>_. None) \<and> db_deferred b = [] \<and> db_delivered b = [] \<and>
     servers_ok b \<and> (\<forall>s h. sprobe b s \<noteq> Some (Some h))"

text \<open>\<open>hs\<close> are the handles the user has been given.\<close>

inductive client_reach :: "dns_env \<Rightarrow> evdns_base \<Rightarrow> nat list \<Rightarrow> evdns_base \<Rightarrow> bool" for env b0 where
  start: "client_start b0 \<Longrightarrow> client_reach env b0 [] b0"
| step: "client_reach env b0 hs b \<Longrightarrow> event_ok b e \<Longrightarrow> client_do env b e = Some b' \<Longrightarrow> client_reach env b0 (hs @ issued e) b'"

inductive_cases client_reach_cases: "client_reach env b0 hs b"

definition client_ok :: "evdns_base \<Rightarrow> bool" where
  "client_ok b \<longleftrightarrow> client_inv {} {} b \<and> length (live b) \<le> 65535"

text \<open>The handles of the user that have still to be called back.\<close>

definition user_owed :: "evdns_base \<Rightarrow> nat set" where
  "user_owed b = {h. (h, None) \<in> owed b}"

section \<open>Every event keeps the invariant\<close>

lemma ready_write_ok:
  assumes inv: "client_inv X Y b" and s: "s \<in> set (db_servers b)"
  shows "\<exists>b'. nameserver_ready_write env b s = Some b' \<and> calm b b'"
proof -
  have ok: "servers_ok b" "assigned b" using inv by (simp_all add: client_inv_def)
  obtain ns where ns: "db_nameservers b s = Some ns" using s ok(1) by (auto simp: servers_ok_def)
  define b1 where "b1 = upd_ns b s (\<lambda>ns. ns\<lparr>ns_choked := False\<rparr>)"
  have c1: "calm b b1" unfolding b1_def using ok by (intro calm_upd_ns) auto
  obtain y b2 where b2: "evdns_transmit env b1 = Some (y, b2)" "calm b1 b2" using evdns_transmit_ok [OF calm_inv [OF inv c1]] by blast
  have c2: "calm b b2" using c1 b2(2) by (rule calm_trans)
  have "calm b2 (nameserver_write_waiting b2 s False)" unfolding nameserver_write_waiting_def using c2 by (intro calm_upd_ns) (auto simp: calm_def)
  then have "calm b (nameserver_write_waiting b2 s False)" using c2 calm_trans by blast
  moreover have "nameserver_ready_write env b s = Some (if y then b2 else nameserver_write_waiting b2 s False)"
    using ns b2(1) by (simp add: nameserver_ready_write_def b1_def)
  ultimately show ?thesis using c2 by auto
qed

lemma keeps_pumped:
  assumes "client_inv X Y b" "client_inv X Y b'" "pumped b b'"
  shows "keeps {} b b'"
proof -
  have l: "set (live b') = set (live b)" "length (live b') = length (live b)"
    using assms(3) by (metis pumped_def set_mset_mset, metis pumped_def size_mset)
  moreover have "dom (db_nameservers b') = dom (db_nameservers b)" using assms by (simp add: client_inv_def servers_ok_def pumped_def)
  ultimately show ?thesis using assms(3) by (auto simp: keeps_def settled_def owed_def pumped_def)
qed

text \<open>The new table of lists has every request in the list of its id.\<close>

lemma rehash_ok:
  assumes "\<forall>r \<in> set rs. \<exists>q. valid_request b r = Some q" "0 < length heads"
  shows "\<exists>heads'. rehash b heads rs = Some heads' \<and> length heads' = length heads \<and> mset (concat heads') = mset (concat heads) + mset rs \<and>
    (\<forall>i < length heads. \<forall>r \<in> set (heads' ! i). r \<in> set (heads ! i) \<or> unat (tid b r) mod length heads = i)"
  using assms
proof (induction rs arbitrary: heads)
  case Nil
  then show ?case by simp
next
  case (Cons r rs)
  obtain q where q: "valid_request b r = Some q" using Cons.prems(1) by auto
  then have t: "tid b r = rq_trans_id q" by (auto simp: valid_request_def tid_def sreq_def static_req_def split: bind_splits)
  define i where "i = unat (rq_trans_id q) mod length heads"
  define heads1 where "heads1 = heads[i := heads ! i @ [r]]"
  have i: "i < length heads" using Cons.prems(2) by (simp add: i_def)
  have l1: "length heads1 = length heads" "mset (concat heads1) = add_mset r (mset (concat heads))"
    using mset_concat_append [OF i] by (simp_all add: heads1_def)
  obtain heads' where h: "rehash b heads1 rs = Some heads'" "length heads' = length heads1" "mset (concat heads') = mset (concat heads1) + mset rs"
      "\<forall>j < length heads1. \<forall>x \<in> set (heads' ! j). x \<in> set (heads1 ! j) \<or> unat (tid b x) mod length heads1 = j"
    using Cons.IH [of heads1] Cons.prems l1(1) by auto
  have "\<forall>j < length heads. \<forall>x \<in> set (heads' ! j). x \<in> set (heads ! j) \<or> unat (tid b x) mod length heads = j"
  proof (intro allI impI ballI)
    fix j x
    assume j: "j < length heads" "x \<in> set (heads' ! j)"
    then have "x \<in> set (heads1 ! j) \<or> unat (tid b x) mod length heads = j" using h(4) l1(1) by auto
    moreover have "x \<in> set (heads ! j) \<or> j = i \<and> x = r" if "x \<in> set (heads1 ! j)"
      using that i by (cases "j = i") (auto simp: heads1_def)
    ultimately show "x \<in> set (heads ! j) \<or> unat (tid b x) mod length heads = j" using t by (auto simp: i_def)
  qed
  then show ?case using q h l1 by (simp add: i_def [symmetric] heads1_def [symmetric] Let_def)
qed

lemma set_max_ok:
  assumes env: "env_ok env" and inv: "client_inv {} {} b"
  shows "\<exists>b'. evdns_base_set_max_requests_inflight env b n = Some (0, b') \<and> client_inv {} {} b' \<and> mset (live b') = mset (live b) \<and> owed b' = owed b \<and>
    db_delivered b' = db_delivered b \<and> length (db_req_heads b') = nat ((max n 1 + 4) div 5) \<and> db_max_requests_inflight b' = max n 1"
proof -
  have ok: "lists_ok b" "handles_ok {} b" "deferred_ok {} b" "probes_ok {} b" "servers_ok b" "assigned b" using inv by (simp_all add: client_inv_def)
  define m where "m = (if n < 1 then 1 else n)"
  define k where "k = nat ((m + 4) div 5)"
  have k: "0 < k" "m = max n 1" by (auto simp: k_def m_def)
  have "\<forall>r \<in> set (concat (db_req_heads b)). \<exists>q. valid_request b r = Some q"
  proof
    fix r
    assume "r \<in> set (concat (db_req_heads b))"
    then have "r \<in> set (live b)" by (auto simp: live_def inflight_def)
    then show "\<exists>q. valid_request b r = Some q" using valid_request_ok [OF ok(1,2)] by metis
  qed
  then obtain heads where h: "rehash b (replicate k []) (concat (db_req_heads b)) = Some heads" "length heads = k"
      "mset (concat heads) = mset (inflight b)" "\<forall>i < k. \<forall>r \<in> set (heads ! i). unat (tid b r) mod k = i"
    using rehash_ok [of "concat (db_req_heads b)" b "replicate k []"] k(1) by (auto simp: inflight_def)
  define b' where "b' = (tick b)\<lparr>db_req_heads := heads, db_max_requests_inflight := m\<rparr>"
  have run: "evdns_base_set_max_requests_inflight env b n = Some (0, b')"
    using env k(1) h(1) unfolding evdns_base_set_max_requests_inflight_def Let_def m_def [symmetric] k_def [symmetric] by (simp add: env_ok_def b'_def)
  have mi: "mset (inflight b') = mset (inflight b)" using h(3) by (simp add: inflight_def b'_def)
  then have ml: "mset (live b') = mset (live b)" by (simp add: live_def b'_def)
  have si: "set (inflight b') = set (inflight b)" "set (live b') = set (live b)" using arg_cong [OF mi, of set_mset] arg_cong [OF ml, of set_mset] by simp_all
  have e: "sreq b' = sreq b" "owner b' = owner b" "tid b' = tid b" "hdl b' = hdl b" "sprobe b' = sprobe b" "good_ns b' = good_ns b"
    by (simp_all add: b'_def sreq_def owner_def tid_def hdl_def sprobe_def good_ns_def fun_eq_iff)
  have f: "db_req_heads b' = heads" "db_req_waiting b' = db_req_waiting b" "db_handles b' = db_handles b" "db_deferred b' = db_deferred b" "db_requests b' = db_requests b"
    "db_servers b' = db_servers b" "db_nameservers b' = db_nameservers b" "db_good_nameservers b' = db_good_nameservers b" "db_delivered b' = db_delivered b"
    "db_requests_inflight b' = db_requests_inflight b" "db_requests_waiting b' = db_requests_waiting b" "db_max_requests_inflight b' = m"
    by (simp_all add: b'_def)
  have "\<forall>i < length (db_req_heads b'). \<forall>r \<in> set (db_req_heads b' ! i). REQ_HEAD b' (tid b' r) = i \<and> tid b' r \<noteq> 0xffff"
  proof (intro allI impI ballI)
    fix i r
    assume i: "i < length (db_req_heads b')" "r \<in> set (db_req_heads b' ! i)"
    then have "r \<in> set (inflight b)" using si(1) nth_mem [OF i(1)] by (auto simp: inflight_def)
    then show "REQ_HEAD b' (tid b' r) = i \<and> tid b' r \<noteq> 0xffff" using i h(2,4) inflight_tid(1) [OF ok(1)] by (simp add: REQ_HEAD_def e f)
  qed
  moreover have "distinct (live b')" using ok(1) mset_eq_imp_distinct_iff [OF ml] by (simp add: lists_ok_def)
  moreover have "length (inflight b') = length (inflight b)" using mi by (rule mset_eq_length)
  ultimately have "lists_ok b'" using ok(1) h(2) k(1) unfolding lists_ok_def si e f by auto
  moreover have "handles_ok {} b'" "deferred_ok {} b'" "probes_ok {} b'" "servers_ok b'" "assigned b'"
    using ok by (simp_all add: handles_ok_def deferred_ok_def probes_ok_def probe_answered_def servers_ok_def assigned_def si e f)
  ultimately have "client_inv {} {} b'" by (simp add: client_inv_def)
  moreover have "owed b' = owed b" by (simp add: owed_def si e f)
  ultimately show ?thesis using run ml h(2) k(2) f by (auto simp: k_def)
qed

lemma client_start_ok:
  assumes "client_start b"
  shows "client_ok b" "user_owed b = {}"
proof -
  have s: "servers_ok b" "\<forall>s h. sprobe b s \<noteq> Some (Some h)" "db_req_heads b \<noteq> []" "\<forall>rs \<in> set (db_req_heads b). rs = []" "db_req_waiting b = []"
    "db_requests_inflight b = 0" "db_requests_waiting b = 0" "db_requests b = (\<lambda>_. None)" "db_handles b = (\<lambda>_. None)" "db_deferred b = []"
    using assms by (simp_all add: client_start_def list_all_iff)
  have l: "inflight b = []" "live b = []" using s(4,5) by (auto simp: inflight_def live_def)
  have heads: "\<forall>i < length (db_req_heads b). set (db_req_heads b ! i) = {}" using s(4) nth_mem by fastforce
  have "lists_ok b" using s(3,5-8) l heads by (simp add: lists_ok_def sreq_def)
  moreover have "handles_ok {} b" "deferred_ok {} b" "probes_ok {} b" "assigned b"
    using s l by (simp_all add: handles_ok_def deferred_ok_def probes_ok_def assigned_def owner_def)
  ultimately show "client_ok b" using s(1) l by (simp add: client_ok_def client_inv_def)
  show "user_owed b = {}" using l s(10) by (simp add: user_owed_def owed_def)
qed

lemma user_not_probe:
  assumes inv: "client_inv {} {} b" and h: "(h, None) \<in> owed b"
  shows "sprobe b s \<noteq> Some (Some h)" "db_handles b h \<noteq> None"
proof -
  have ok: "handles_ok {} b" "deferred_ok {} b" using inv by (simp_all add: client_inv_def)
  consider (live) r where "r \<in> set (live b)" "owner b r = Some (h, None)" "hdl b r = h"
    | (waits) cb where "cb \<in> set (db_deferred b)" "rc_handle cb = h" "rc_probe cb = None"
    using h by (auto simp: owed_def rc_owner_def hdl_def)
  note h_cases = this
  show "db_handles b h \<noteq> None"
    using h_cases
  proof cases
    case live
    then show ?thesis using live_handle [OF ok(1), of r] by (metis option.distinct(1))
  next
    case waits
    then show ?thesis using ok(2) by (auto simp: deferred_ok_def)
  qed
  show "sprobe b s \<noteq> Some (Some h)"
  proof
    assume s: "sprobe b s = Some (Some h)"
    consider (live') r' where "r' \<in> set (live b)" "owner b r' = Some (h, Some s)" "hdl b r' = h"
      | (waits') cb' where "cb' \<in> set (db_deferred b)" "rc_handle cb' = h" "rc_probe cb' = Some s"
      using probe_cases [OF inv _ s] by blast
    then show False
    proof cases
      case live'
      from h_cases show False
      proof cases
        case live
        then show ?thesis using live' hdl_inj [OF ok(1), of r r'] by auto
      next
        case waits
        then show ?thesis using live' pending_deferred [OF inv waits(1) live'(1)] by simp
      qed
    next
      case waits'
      from h_cases show False
      proof cases
        case live
        then show ?thesis using waits' pending_deferred [OF inv waits'(1) live(1)] by simp
      next
        case waits
        moreover have "distinct (map rc_handle (db_deferred b))" using ok(2) by (simp add: deferred_ok_def)
        ultimately have "cb = cb'" using waits' by (metis distinct_map inj_onD)
        then show ?thesis using waits waits' by simp
      qed
    qed
  qed
qed

lemma find_inflight:
  assumes "lists_ok b" "request_find_from_trans_id b t = Some r"
  shows "r \<in> set (inflight b)"
proof -
  have "REQ_HEAD b t < length (db_req_heads b)" using assms(1) by (simp add: REQ_HEAD_def lists_ok_def)
  moreover have "r \<in> set (db_req_heads b ! REQ_HEAD b t)" using assms(2) by (auto simp: request_find_from_trans_id_def find_Some_iff)
  ultimately show ?thesis using nth_mem by (auto simp: inflight_def)
qed

lemma finite_owed: "finite (owed b)"
proof -
  have "{p. \<exists>r \<in> set (live b). owner b r = Some p} \<subseteq> (\<lambda>r. the (owner b r)) ` set (live b)" by (force simp: image_iff)
  then show ?thesis by (auto simp: owed_def intro: finite_subset)
qed

lemma finite_user_owed: "finite (user_owed b)"
proof -
  have "user_owed b \<subseteq> fst ` owed b" by (force simp: user_owed_def)
  then show ?thesis using finite_owed finite_subset by blast
qed

text \<open>What an event does to the callbacks that are owed and those that have run.\<close>

definition accounted :: "client_event \<Rightarrow> evdns_base \<Rightarrow> evdns_base \<Rightarrow> bool" where
  "accounted e b b' \<longleftrightarrow> mset_set (user_owed b') + mset (map rc_handle (db_delivered b')) =
     mset_set (user_owed b) + mset (map rc_handle (db_delivered b)) + mset (issued e)"

lemma accounted_keeps: "keeps G b b' \<Longrightarrow> issued e = [] \<Longrightarrow> accounted e b b'"
  by (simp add: accounted_def keeps_def user_owed_def)

lemma keeps_ok: "client_inv {} {} b' \<Longrightarrow> keeps G b b' \<Longrightarrow> client_ok b \<Longrightarrow> client_ok b'"
  by (simp add: client_ok_def keeps_def)

lemma event_works:
  assumes env: "env_ok env" and ok: "client_ok b" and e: "event_ok b e"
  shows "\<exists>b'. client_do env b e = Some b' \<and> client_ok b' \<and> accounted e b b'"
proof -
  have inv: "client_inv {} {} b" and room: "length (live b) \<le> 65535" using ok by (simp_all add: client_ok_def)
  have kept: ?thesis if "issued e = []" "\<exists>G b'. client_do env b e = Some b' \<and> client_inv {} {} b' \<and> keeps G b b'"
    using that accounted_keeps [OF _ that(1)] keeps_ok ok by blast
  show ?thesis
  proof (cases e)
    case (Resolve h r type name)
    obtain b' where b': "evdns_base_resolve env b h r type name = Some (True, b')" "client_inv {} {} b'" "owed b' = insert (h, None) (owed b)"
        "\<forall>p. (h, p) \<notin> owed b" "db_delivered b' = db_delivered b" "length (live b') = length (live b) + 1"
      using resolve_ok [OF env inv, of name type r h] e Resolve by (auto simp: dns_type_def)
    have "user_owed b' = insert h (user_owed b)" "h \<notin> user_owed b" using b'(3,4) by (auto simp: user_owed_def)
    then have "accounted e b b'" using b'(5) Resolve finite_user_owed by (simp add: accounted_def)
    then show ?thesis using b' Resolve e by (simp add: client_ok_def)
  next
    case (Cancel h)
    then have h: "(h, None) \<in> owed b" using e by simp
    obtain hh where "db_handles b h = Some hh" using user_not_probe(2) [OF inv h] by auto
    then have "\<exists>G b'. evdns_cancel_request env b h = Some b' \<and> client_inv {} {} b' \<and> keeps G b b'"
      using cancel_ok [OF env inv room, of h hh] user_not_probe(1) [OF inv h] by blast
    then show ?thesis using Cancel by (intro kept) simp_all
  next
    case (Reply t flags ttl reply)
    show ?thesis
    proof (cases "request_find_from_trans_id b t")
      case None
      then have "client_do env b e = Some b" using Reply by simp
      then show ?thesis using Reply inv keeps_refl by (intro kept) (simp, blast)
    next
      case (Some r)
      then have r: "r \<in> set (inflight b)" using find_inflight inv by (auto simp: client_inv_def)
      have "\<exists>G b'. reply_handle env b r flags ttl reply = Some b' \<and> client_inv {} {} b' \<and> keeps G b b'"
        using reply_good_ok [OF env inv r room] reply_bad_ok [OF env inv r room] by (cases "reply_bad flags reply") blast+
      then show ?thesis using Reply Some by (intro kept) simp_all
    qed
  next
    case (Timeout r)
    then obtain q where "r \<in> set (inflight b)" "db_requests b r = Some q" using e by (auto split: option.splits)
    then have "\<exists>G b'. evdns_request_timeout_callback env b r = Some b' \<and> client_inv {} {} b' \<and> keeps G b b'"
      using timeout_ok [OF env inv _ room] by blast
    then show ?thesis using Timeout by (intro kept) simp_all
  next
    case (Probe s h r)
    obtain b' where b': "nameserver_send_probe env b s h r = Some b'" "client_inv {} {} b'" "owed b' = insert (h, Some s) (owed b)"
        "db_delivered b' = db_delivered b" "length (live b') = length (live b) + 1"
      using send_probe_ok [OF env inv, of s r h] e Probe by auto
    have "user_owed b' = user_owed b" using b'(3) by (simp add: user_owed_def)
    then show ?thesis using b' Probe e by (simp add: client_ok_def accounted_def)
  next
    case (Writable s)
    then have "\<exists>b'. nameserver_ready_write env b s = Some b' \<and> calm b b'" using ready_write_ok [OF inv] e by simp
    then have "\<exists>G b'. client_do env b e = Some b' \<and> client_inv {} {} b' \<and> keeps G b b'"
      using Writable keeps_calm calm_inv [OF inv] by (metis client_do.simps(6))
    then show ?thesis using Writable by (intro kept) simp_all
  next
    case Resume
    have "\<exists>b'. evdns_requests_pump_waiting_queue env b = Some b' \<and> client_inv {} {} b' \<and> pumped b b'"
      using pump_ok [OF env inv] e Resume by auto
    then have "\<exists>G b'. client_do env b e = Some b' \<and> client_inv {} {} b' \<and> keeps G b b'"
      using Resume keeps_pumped [OF inv] by (metis client_do.simps(7) evdns_base_resume_def)
    then show ?thesis using Resume by (intro kept) simp_all
  next
    case (Set_max n)
    then obtain b' where "client_do env b e = Some b'" "client_inv {} {} b'" "live b' = live b \<or> mset (live b') = mset (live b)" "owed b' = owed b"
        "db_delivered b' = db_delivered b"
      using set_max_ok [OF env inv, of n] by auto
    then show ?thesis using room mset_eq_length [of "live b'" "live b"] Set_max by (auto simp: client_ok_def accounted_def user_owed_def)
  next
    case Run_callback
    then obtain cb rest where d: "db_deferred b = cb # rest" using e by (cases "db_deferred b") auto
    obtain b' where b': "reply_run_callback env b = Some b'" "client_inv {} {} b'" "live b' = live b" "owed b' = owed b - {rc_owner cb}"
        "rc_owner cb \<in> owed b" "db_delivered b' = db_delivered b @ (if rc_probe cb = None then [cb] else [])"
      using run_callback_ok [OF inv d] by blast
    have "accounted e b b'"
    proof (cases "rc_probe cb")
      case None
      then have "user_owed b = insert (rc_handle cb) (user_owed b')" "rc_handle cb \<notin> user_owed b'"
        using b'(4,5) by (auto simp: user_owed_def rc_owner_def)
      then show ?thesis using b'(6) None Run_callback finite_user_owed by (simp add: accounted_def)
    next
      case (Some s)
      then have "user_owed b' = user_owed b" using b'(4) by (simp add: user_owed_def rc_owner_def)
      then show ?thesis using b'(6) Some Run_callback by (simp add: accounted_def)
    qed
    then show ?thesis using b' Run_callback room by (simp add: client_ok_def)
  qed
qed

lemma client_reach_ok:
  assumes "env_ok env" "client_reach env b0 hs b"
  shows "client_ok b" "mset hs = mset (map rc_handle (db_delivered b)) + mset_set (user_owed b)"
proof -
  have "client_ok b \<and> mset hs = mset (map rc_handle (db_delivered b)) + mset_set (user_owed b)"
    using assms(2)
  proof induction
    case start
    then show ?case using client_start_ok [OF start] by (simp add: client_start_def)
  next
    case (step hs b e b')
    then obtain b1 where "client_do env b e = Some b1" "client_ok b1" "accounted e b b1" using event_works [OF assms(1)] by blast
    then show ?case using step by (simp add: accounted_def ac_simps)
  qed
  then show "client_ok b" "mset hs = mset (map rc_handle (db_delivered b)) + mset_set (user_owed b)" by simp_all
qed

end
