(* ===== verification/Dns_Client_Props.thy ===== *)
theory Dns_Client_Props
  imports Dns_Client_Run
begin

text \<open>
  The properties of the DNS client, over all orders of events, and a small base on which they are seen to apply.
\<close>

section \<open>A base with one server\<close>

definition counter_env :: dns_env where
  "counter_env = \<lparr>de_alloc = (\<lambda>_. True), de_random = of_nat, de_send = (\<lambda>_. Sent), de_timer = (\<lambda>_. True), de_bits = (\<lambda>_. replicate 32 0),
     de_memory = (\<lambda>_. replicate 512 0)\<rparr>"

definition one_server :: evdns_base where
  "one_server = \<lparr>db_req_heads = replicate 13 [], db_req_waiting = [], db_servers = [1], db_good_nameservers = 1, db_requests_inflight = 0,
     db_requests_waiting = 0, db_max_requests_inflight = 64, db_max_reissues = 1, db_max_retransmits = 3, db_max_nameserver_timeout = 3,
     db_requests = (\<lambda>_. None), db_handles = (\<lambda>_. None),
     db_nameservers = [1 \<mapsto> \<lparr>ns_failed_times = 0, ns_timedout = 0, ns_timeout = False, ns_probe_request = None, ns_state = True, ns_choked = False,
       ns_write_waiting = False\<rparr>],
     db_deferred = [], db_delivered = [], db_randomize_case = True, db_calls = 0\<rparr>"

definition sent_request :: dns_request where
  "sent_request = \<lparr>rq_trans_id = 5, rq_request = replicate 20 0, rq_request_len = 20, rq_request_type = TYPE_A, rq_put_cname = None,
     dq_reissue_count = 0, dq_tx_count = 1, dq_ns = Some 1, dq_timeout = True, dq_transmit_me = False, dq_handle = 8, dq_probe = None\<rparr>"

definition one_inflight :: evdns_base where
  "one_inflight = enlisted one_server 9 sent_request"

lemma counter_env_ok: "env_ok counter_env"
proof -
  have "\<exists>m \<ge> n. (of_nat m :: 16 word) = t" for n t
  proof (intro exI conjI)
    have z: "(of_nat 65536 :: 16 word) = 0" by simp
    show "(of_nat (n * 65536 + unat t) :: 16 word) = t" unfolding of_nat_add of_nat_mult z by simp
  qed simp
  then show ?thesis by (simp add: env_ok_def counter_env_def)
qed

lemma one_server_start: "client_start one_server"
proof -
  have ns: "db_nameservers one_server s = (if s = 1 then Some \<lparr>ns_failed_times = 0, ns_timedout = 0, ns_timeout = False, ns_probe_request = None,
      ns_state = True, ns_choked = False, ns_write_waiting = False\<rparr> else None)" for s
    by (simp add: one_server_def)
  have "{s. good_ns one_server s} = {1}" by (auto simp: good_ns_def ns)
  moreover have "dom (db_nameservers one_server) = {1}" by (auto simp: ns dom_def)
  ultimately have "servers_ok one_server" by (simp add: servers_ok_def) (simp add: one_server_def)
  moreover have "sprobe one_server s \<noteq> Some (Some h)" for s h by (simp add: sprobe_def ns)
  ultimately show ?thesis by (simp add: client_start_def) (simp add: one_server_def list_all_iff)
qed

lemma one_inflight_ok: "client_inv {} {} one_inflight" "9 \<in> set (inflight one_inflight)" "length (live one_inflight) \<le> 65535" "hdl one_inflight 9 = 8"
  "db_requests one_inflight 9 = Some sent_request" "db_max_retransmits one_inflight = 3"
proof -
  have s: "client_inv {} {} one_server" using client_start_ok [OF one_server_start] by (simp add: client_ok_def)
  then have l: "lists_ok one_server" by (simp add: client_inv_def)
  have "newcomer one_server 9 sent_request"
    by (simp add: newcomer_def one_server_def sent_request_def live_def inflight_def dns_type_def)
  then show "client_inv {} {} one_inflight" using enlisted_ok(1) [OF s] by (simp add: one_inflight_def)
  show "9 \<in> set (inflight one_inflight)" using enlisted_lists(3) [OF l] by (simp add: one_inflight_def sent_request_def)
  show "length (live one_inflight) \<le> 65535"
    using arg_cong [OF enlisted_lists(1) [OF l, of 9 sent_request], of size] by (simp add: one_inflight_def) (simp add: one_server_def live_def inflight_def)
  show "hdl one_inflight 9 = 8" "db_requests one_inflight 9 = Some sent_request"
    by (simp_all add: one_inflight_def enlisted_def Let_def hdl_def owner_def sent_request_def)
  show "db_max_retransmits one_inflight = 3" by (simp add: one_inflight_def enlisted_def Let_def one_server_def)
qed

section \<open>Properties\<close>

text \<open>
  C30. In every state the client can reach, every event that can happen is handled: no request, handle or server is used after it
  has been freed, no assertion fails, the search for a transaction id and the pump of the waiting list end. The invariant holds
  afterwards.
\<close>
theorem dns_client_safe:
  assumes "env_ok env" "client_reach env b0 hs b" "event_ok b e"
  shows "\<exists>b'. client_do env b e = Some b' \<and> client_ok b'"
  using event_works [OF assms(1) client_reach_ok(1) [OF assms(1,2)] assms(3)] by blast

theorem dns_client_safe_witness:
  "\<exists>b'. client_do counter_env one_server (Resolve 8 9 TYPE_A [97, 46, 98]) = Some b' \<and> client_ok b'"
proof (rule dns_client_safe [OF counter_env_ok client_reach.start [OF one_server_start]])
  have "wire_name [97, 46, 98]" by code_simp
  then show "event_ok one_server (Resolve 8 9 TYPE_A [97, 46, 98])" by (simp add: one_server_def live_def inflight_def)
qed

text \<open>
  C29. Every request the user makes gets exactly one callback: at any time the handles given out are, each as often as it was given
  out, those whose callback has run and those whose callback is still owed.
\<close>
theorem dns_callback_exactly_once:
  assumes "env_ok env" "client_reach env b0 hs b"
  shows "mset hs = mset (map rc_handle (db_delivered b)) + mset_set (user_owed b)"
  by (rule client_reach_ok(2) [OF assms])

theorem dns_callback_exactly_once_witness:
  "\<exists>b. client_reach counter_env one_server [8] b \<and> mset [8] = mset (map rc_handle (db_delivered b)) + mset_set (user_owed b)"
proof -
  have "wire_name [97, 46, 98]" by code_simp
  then have ok: "event_ok one_server (Resolve 8 9 TYPE_A [97, 46, 98])" by (simp add: one_server_def live_def inflight_def)
  then obtain b where "client_do counter_env one_server (Resolve 8 9 TYPE_A [97, 46, 98]) = Some b"
    using event_works [OF counter_env_ok client_start_ok(1) [OF one_server_start]] by blast
  then have "client_reach counter_env one_server [8] b"
    using client_reach.step [OF client_reach.start [OF one_server_start] ok] by fastforce
  then show ?thesis using dns_callback_exactly_once [OF counter_env_ok] by blast
qed

text \<open>
  C31. Pumping the waiting list ends; no request is lost or duplicated, and afterwards nothing waits that could go: the list is
  empty, or the limit of requests in flight is reached, or there is no server.
\<close>
theorem dns_pump_ends:
  assumes "env_ok env" "client_inv {} {} b" "length (live b) < 65535"
  shows "\<exists>b'. evdns_requests_pump_waiting_queue env b = Some b' \<and> client_inv {} {} b' \<and> mset (live b') = mset (live b) \<and>
    (db_req_waiting b' = [] \<or> db_max_requests_inflight b' \<le> int (length (inflight b')) \<or> db_servers b' = [])"
  using pump_ok [OF assms] by (auto simp: pumped_def pump_done_def)

theorem dns_pump_ends_witness:
  "\<exists>b'. evdns_requests_pump_waiting_queue counter_env one_server = Some b' \<and> client_inv {} {} b' \<and> mset (live b') = mset (live one_server) \<and>
    (db_req_waiting b' = [] \<or> db_max_requests_inflight b' \<le> int (length (inflight b')) \<or> db_servers b' = [])"
proof (rule dns_pump_ends [OF counter_env_ok])
  show "client_inv {} {} one_server" using client_start_ok(1) [OF one_server_start] by (simp add: client_ok_def)
qed (simp add: one_server_def live_def inflight_def)

text \<open>
  C32. An answer to a request in flight: a good one is scheduled for the user as it is; a bad one is reported at once with its error,
  and only for "not implemented" and "refused" may the request stay in flight to be sent to another server. In particular
  "server failed" is reported at once.
\<close>
theorem dns_reply_outcome:
  assumes "env_ok env" "client_inv {} {} b" "r \<in> set (inflight b)" "length (live b) \<le> 65535"
  shows "\<exists>b'. reply_handle env b r flags ttl reply = Some b' \<and> client_inv {} {} b' \<and>
    (if reply_bad flags reply then told b' (hdl b r) ttl (reply_error flags reply) None \<or>
       reply_error flags reply \<in> {4, 5} \<and> r \<in> set (inflight b')
     else told b' (hdl b r) ttl 0 reply)"
proof (cases "reply_bad flags reply")
  case True
  then obtain G b' where "reply_handle env b r flags ttl reply = Some b'" "client_inv {} {} b'" "keeps G b b'"
      "told b' (hdl b r) ttl (reply_error flags reply) None \<or> reply_error flags reply \<in> {4, 5} \<and> G = {}"
    using reply_bad_ok [OF assms] by blast
  then show ?thesis using True keeps_inflight(1) [of G b b' r] assms(3) by auto
next
  case False
  then show ?thesis using reply_good_ok [OF assms False] by auto
qed

theorem dns_reply_outcome_witness:
  "\<exists>b'. reply_handle counter_env one_inflight 9 0x8182 0 None = Some b' \<and> client_inv {} {} b' \<and> told b' 8 0 2 None"
  using dns_reply_outcome [OF counter_env_ok one_inflight_ok(1-3), of "0x8182" 0 None]
  by (simp add: one_inflight_ok(4) reply_bad_def reply_error_def)



text \<open>
  C34. Changing the limit of requests in flight rebuilds the table of lists well formed: it has a list for every five requests, every
  request in flight is in the list of its transaction id, and no request or owed callback is lost.
\<close>
theorem dns_set_max_rehashes:
  assumes "env_ok env" "client_inv {} {} b"
  shows "\<exists>b'. evdns_base_set_max_requests_inflight env b n = Some (0, b') \<and> client_inv {} {} b' \<and> mset (live b') = mset (live b) \<and>
    owed b' = owed b \<and> length (db_req_heads b') = nat ((max n 1 + 4) div 5) \<and> db_max_requests_inflight b' = max n 1"
  using set_max_ok [OF assms] by auto

theorem dns_set_max_rehashes_witness:
  "\<exists>b'. evdns_base_set_max_requests_inflight counter_env one_inflight 7 = Some (0, b') \<and> client_inv {} {} b' \<and>
    mset (live b') = mset (live one_inflight) \<and> owed b' = owed one_inflight \<and> length (db_req_heads b') = 2 \<and> db_max_requests_inflight b' = 7"
  using dns_set_max_rehashes [OF counter_env_ok one_inflight_ok(1), of 7] by simp

end
