(* ===== verification/Spec2Isabelle.thy ===== *)
theory Spec2Isabelle
  imports Minheap Evbuffer_Search Evbuffer_Print Tagging Event_Spec Event_Live Dns_Props Dns_Client_Props
begin

text \<open>
  Verification of the C core of the repository: libevent 2.0.22, on which its gateway and servers run, in the configuration
  of the tree (\<^verbatim>\<open>libevent-2.0.22-stable/include/event2/event-config.h\<close>: 32 bits, iovec and sendfile, epoll).

  \<^bold>\<open>The program.\<close> An \<open>event_base\<close> keeps events on three queues (inserted, active by priority, timers in a binary heap) and in
  maps from descriptors and signals (\<^verbatim>\<open>event.c\<close>, \<^verbatim>\<open>evmap.c\<close>, \<^verbatim>\<open>minheap-internal.h\<close>); its loop sleeps in a backend, makes
  events active and runs their callbacks. Bytes between descriptors and the program are kept in \<open>evbuffer\<close>s, chains of memory
  blocks (\<^verbatim>\<open>buffer.c\<close>). On them rest a tagged wire format (\<^verbatim>\<open>event_tagging.c\<close>) and, on the loop, a DNS client and server
  (\<^verbatim>\<open>evdns.c\<close>).

  \<^bold>\<open>Conventions.\<close> (theory Prelude) A C function is a HOL function on explicit state. \<open>None\<close> is undefined behaviour or a failing
  assertion (an access outside a block, a NULL dereference, an abort), so that a theorem with \<open>= Some \<dots>\<close> also says that none
  occurs; error returns are values inside \<open>Some\<close>. Sizes are \<open>nat\<close> with the 32-bit wrap-around written out where it matters;
  flags and wire fields are words. Allocation, system calls, the clock, user callbacks and the backend are parameters; what is
  relied on of them is a named hypothesis (\<open>malloc_spec\<close>, \<open>backend\<close> contracts) with a concrete instance in the
  witnesses. One thread holds the locks.

  \<^bold>\<open>Timers.\<close> Minheap: \<open>min_heap\<close> with the array of events and the index stored in each event; every operation of the header file.
  The loops of \<open>min_heap_shift_up\<close> and \<open>min_heap_shift_down\<close> are recursive functions with their measures. Shown: push, erase and
  pop keep heap order and back pointers and change the set of timers by exactly one element (locale and interpretation of a
  priority queue), popping yields sorted order.

  \<^bold>\<open>Buffers.\<close> Evbuffer (chains, callbacks, add, prepend, drain, copy out), Evbuffer\_Move (whole chains between buffers, pullup),
  Evbuffer\_Space (expand, reserve and commit, writing to a descriptor), Evbuffer\_Read (reading), Evbuffer\_Search (positions, search, lines),
  Evbuffer\_Print (formatted text, references). \<open>evbuffer\<close> and \<open>evbuffer_chain\<close> are records with the fields of
  \<^verbatim>\<open>evbuffer-internal.h\<close>; the chain list is a list, \<open>last_with_datap\<close> an index. Byte\_Queue is the abstract specification (a list of
  bytes) as a locale, interpreted on \<open>evbuffer_add\<close>, \<open>evbuffer_prepend\<close>, \<open>evbuffer_drain\<close> in Evbuffer\_Inv, which also holds the invariant and one
  lemma per operation. Shown: on buffers with the invariant the operations change the byte sequence as stated or fail for a stated
  reason without effect; searching agrees with a search on the flat list; lines written are read back; reading and
  writing hand over exactly the bytes the system call took or gave. The invariant asks that from \<open>last_with_datap\<close> on only the last
  chain is empty, and \<open>read_inv\<close> (reading, printing) that \<open>last_with_datap\<close> is exact. Public calls can leave buffers without
  them, because \<open>evbuffer_add\<close> does not advance \<open>last_with_datap\<close>: three call sequences show an assertion failing in
  \<open>evbuffer_read\<close> and in \<open>evbuffer_add\<close>, and printed text that goes before earlier bytes.

  \<^bold>\<open>Tagged data.\<close> Tag\_Codec (nibble and 7-bit group codes, \<open>ENCODE_INT_INTERNAL\<close>, \<open>DECODE_INT_INTERNAL\<close>) and Tagging (the operations on buffers).
  Shown: round trips for streams of messages, integers of both widths, times and strings; exactly when decoding a tag is defined, by the
  C standard and with the signed shift that GCC defines.

  \<^bold>\<open>Events.\<close> Event\_Core (events, queues, adding, deleting, activating, timeouts) and Event\_Loop (\<open>event_base_loop\<close> and what it calls), from
  \<^verbatim>\<open>event.c\<close> and \<^verbatim>\<open>evmap.c\<close>. Event\_Inv states the invariant (queues agree with flags and counts, maps with queues) and proves the
  two queue operations; Event\_Maps the descriptor and signal maps; Event\_Ops one lemma per operation; Event\_Props the properties.
  Event\_Spec has an abstract base (three maps, locale \<open>simulation\<close>) and shows that every sequence of operations refines it. Event\_Run shows
  the order in which callbacks run, Event\_Live that the loop ends and calls every one-shot timer once when the clock reaches their
  deadlines. The loop is a \<open>partial_function\<close> without fuel; Event\_Live proves that it returns. The specification is that of the code:
  \<open>event_add\<close> without a timeout keeps the timer of the event, where \<^verbatim>\<open>event.h\<close> says that it clears it. Not covered: debug mode,
  common timeouts, more than one thread, the changelist.

  \<^bold>\<open>DNS.\<close> Dns\_Names (\<open>name_parse\<close>, \<open>dnsname_to_labels\<close> with the compression table, \<open>evdns_request_data_build\<close>), Dns\_Messages (\<open>request_parse\<close>,
  the records and formatting of a response, \<open>reply_parse\<close>), Dns\_Roundtrip (lemmas), Dns\_Props (properties). The relation \<open>encodes\<close> says which bytes
  stand for a name and how many pointers are followed; writing establishes it, parsing needs it. Shown: names survive, with
  compression; parsing is in bounds with 63 bytes of slack and not without; a whole lookup from the query to the addresses
  read by the client.

  \<^bold>\<open>DNS client.\<close> Dns\_Client has the state of \<^verbatim>\<open>evdns.c\<close> (\<open>evdns_base\<close>, \<open>dns_request\<close>, \<open>nameserver\<close>, handles, the deferred callbacks) and its
  operations: choosing servers, transmitting, pumping the waiting list, answers, timeouts, cancelling, new requests and probes. Objects are
  numbers that the base maps to their contents while they live, so that a use after free is \<open>None\<close>. Sending, allocation, timers and random
  numbers are functions of a call counter (\<open>dns_env\<close>); \<open>env_ok\<close> asks for memory and for a generator in which every id appears again and
  again, and the search for an id and the pump are \<open>partial_function\<close>s that are proved to return. Dns\_Client\_Inv has the invariant \<open>client_inv\<close> and
  the steps that only send or choose servers, Dns\_Client\_Ops the pump and the end of a request, Dns\_Client\_Steps scheduling, cancelling,
  servers coming up, answers and timeouts, Dns\_Client\_New new requests, probes and the callbacks, Dns\_Client\_Run all events in any order,
  Dns\_Client\_Props the properties. Shown: every event in every reachable state is handled without use after free, failed assertion
  or endless loop; every handle gets exactly one callback; what is reported for answers, errors and timeouts.

  \<^bold>\<open>Abstractions.\<close> \<open>timeval\<close> has integers without a bound for the 32 bit fields, so that sums of times do not overflow; \<open>ev_ncalls\<close> is
  a natural number for a \<open>short\<close>; \<open>gettime\<close> takes the reading of the clock as an argument, its failure and the update of
  \<open>tv_clock_diff\<close> are left out. Callbacks of the user on a buffer and of DNS requests are recorded with their arguments in a log: what they
  do next is a later operation, so that a buffer callback that changes the buffer while it is running is not covered. \<open>evbuffer_new\<close>,
  \<open>evbuffer_add_cb\<close> and \<open>evbuffer_setcb\<close> do not fail for lack of memory. \<open>evdns_base_resolve\<close> is the branch with
  \<open>DNS_QUERY_NO_SEARCH\<close>. A negative length in \<open>evdns_server_request_add\<close> is undefined in the model, where the code asks the allocator for
  almost all memory.

  \<^bold>\<open>Not modelled.\<close> The rest of \<^verbatim>\<open>evdns.c\<close> (search lists, adding and suspending name servers, configuration files, getaddrinfo), \<^verbatim>\<open>http.c\<close>, \<^verbatim>\<open>evrpc.c\<close>, the
  bufferevents, listeners, \<^verbatim>\<open>signal.c\<close>, the backends, threading and the Windows and TLS code: the first ones are left for an
  extension of this development, the others are mostly calls into the system or a library. \<open>evbuffer_add_file\<close> makes chains whose
  bytes are in a file. The gateway programs in C++ and Python at the top of the tree drive radio hardware through
  libraries that are not part of it.
\<close>

end
